(* ===== verification/VK_Prelude.thy ===== *)
theory VK_Prelude
  imports Main "HOL-Library.Word" "HOL-Library.Multiset" "HOL-Library.Char_ord"
    "HOL-Library.List_Lexorder" "HOL-Library.Sublist"
begin

unbundle bit_operations_syntax

text \<open>
  Shared vocabulary of the development.

  \<^item> The named collections: \<open>vk_defs\<close> for the equations a component proof unfolds,
    \<open>vk_inv\<close> for invariant preservation lemmas, \<open>vk_round\<close> for round-trip equations.
  \<^item> Fallible operations return \<open>'e + 'a\<close>, with \<open>Inl\<close> for the C++ exception; \<open>rbind\<close> is
    the propagation of an exception through a sequence of statements.
  \<^item> The PAD_TIME macros of midi_generation.hh, at the width the C code computes them.
  \<^item> Decimal printing and the Android replacements of \<open>std::to_string\<close>, \<open>std::stoi\<close> and
    \<open>std::stoul\<close> of common.hh, with their round trip.
\<close>

named_theorems vk_defs "defining equations a component proof unfolds"
named_theorems vk_inv "invariant preservation"
named_theorems vk_round "round trips"

section \<open>Results\<close>

type_synonym ('e, 'a) result = "'e + 'a"

fun rbind :: "('e, 'a) result \<Rightarrow> ('a \<Rightarrow> ('e, 'b) result) \<Rightarrow> ('e, 'b) result" where
  "rbind (Inl e) f = Inl e"
| "rbind (Inr a) f = f a"

fun is_ok :: "('e, 'a) result \<Rightarrow> bool" where
  "is_ok (Inl e) = False"
| "is_ok (Inr a) = True"

lemma rbind_Inr_iff: "rbind r f = Inr b \<longleftrightarrow> (\<exists>a. r = Inr a \<and> f a = Inr b)"
  by (cases r) auto

lemma rbind_Inl_iff: "rbind r f = Inl e \<longleftrightarrow> r = Inl e \<or> (\<exists>a. r = Inr a \<and> f a = Inl e)"
  by (cases r) auto

lemma rbind_cong [fundef_cong]:
  "r = r' \<Longrightarrow> (\<And>a. r' = Inr a \<Longrightarrow> f a = f' a) \<Longrightarrow> rbind r f = rbind r' f'"
  by (cases r') auto

lemma rbind_assoc: "rbind (rbind r f) g = rbind r (\<lambda>a. rbind (f a) g)"
  by (cases r) auto

section \<open>Pad time\<close>

text \<open>
  A position is a line number and a tick packed in one C \<open>int\<close>, four bits of tick
  (BITS_PER_LINE). The macros of midi_generation.hh mix \<open>int\<close> and \<open>unsigned int\<close>
  operands, so the packing is done on 32-bit words and read back signed.
\<close>

definition PAD_TIME :: "int \<Rightarrow> int \<Rightarrow> int" where
  "PAD_TIME a b =
     sint (((push_bit 4 (word_of_int a) AND 0xfffffff0) OR word_of_int b) :: 32 word)"

definition PAD_TIME_LINE :: "int \<Rightarrow> int" where
  "PAD_TIME_LINE a = drop_bit 4 a"

definition PAD_TIME_TICK :: "int \<Rightarrow> int" where
  "PAD_TIME_TICK b = uint (word_of_int b AND (0xfffffff0 XOR 0xffffffff) :: 32 word)"

lemma pad_time_arith:
  assumes "0 \<le> l" "l < 2 ^ 27" "0 \<le> t" "t < 16"
  shows "PAD_TIME l t = 16 * l + t"
proof -
  let ?w = "(push_bit 4 (word_of_int l) AND 0xfffffff0) OR word_of_int t :: 32 word"
  have t4: "take_bit 4 t = t"
    using assms by (simp add: take_bit_eq_mod)
  have m: "(0xfffffff0 :: 32 word) = NOT (mask 4)"
    by (simp add: mask_eq_exp_minus_1)
  have mask: "push_bit 4 (word_of_int l :: 32 word) AND 0xfffffff0 = push_bit 4 (word_of_int l)"
    unfolding m by (rule bit_word_eqI) (auto simp: bit_simps)
  have "?w = word_of_int (push_bit 4 l OR t)"
    unfolding mask by (rule bit_word_eqI) (auto simp: bit_simps)
  also have "push_bit 4 l OR t = push_bit 4 l + t"
  proof (rule disjunctive_add [symmetric])
    fix n show "\<not> bit (push_bit 4 l) n \<or> \<not> bit t n"
    proof (cases "n < 4")
      case True then show ?thesis by (simp add: bit_simps)
    next
      case False
      have "bit t n = bit (take_bit 4 t) n" using t4 by simp
      with False show ?thesis by (simp add: bit_simps)
    qed
  qed
  also have "push_bit 4 l = 16 * l"
    by (simp add: push_bit_eq_mult)
  finally have w: "?w = word_of_int (16 * l + t)" .
  have "sint (word_of_int (16 * l + t) :: 32 word) = 16 * l + t"
    unfolding signed_of_int of_int_eq_id id_apply
    by (rule signed_take_bit_int_eq_self) (use assms in simp_all)
  with w show ?thesis
    by (simp add: PAD_TIME_def)
qed

lemma pad_time_tick_arith: "PAD_TIME_TICK b = b mod 16"
proof -
  have m: "(0xfffffff0 XOR 0xffffffff :: 32 word) = mask 4"
    by (simp add: mask_eq_exp_minus_1)
  have "PAD_TIME_TICK b = uint (take_bit 4 (word_of_int b :: 32 word))"
    unfolding PAD_TIME_TICK_def m take_bit_eq_mask ..
  then show ?thesis
    by (simp only: unsigned_take_bit_eq uint_word_of_int_eq take_bit_take_bit)
      (simp add: take_bit_eq_mod)
qed

lemma pad_time_line_arith: "PAD_TIME_LINE a = a div 16"
  by (simp add: PAD_TIME_LINE_def drop_bit_eq_div)

lemma pad_time_fields [simp]:
  assumes "0 \<le> l" "l < 2 ^ 27" "0 \<le> t" "t < 16"
  shows "PAD_TIME_LINE (PAD_TIME l t) = l" "PAD_TIME_TICK (PAD_TIME l t) = t"
  using assms by (simp_all add: pad_time_arith pad_time_line_arith pad_time_tick_arith)

text \<open>The number of ticks in a line (machine.hh).\<close>

definition MACHINE_TICKS_PER_LINE :: int where "MACHINE_TICKS_PER_LINE = 16"

section \<open>Integer division\<close>

text \<open>Division of \<open>int\<close>s truncates towards zero.\<close>

definition c_div :: "int \<Rightarrow> int \<Rightarrow> int" where
  "c_div a b = (if (a < 0) = (b < 0) then \<bar>a\<bar> div \<bar>b\<bar> else - (\<bar>a\<bar> div \<bar>b\<bar>))"

lemma c_div_nonneg: "0 \<le> a \<Longrightarrow> 0 < b \<Longrightarrow> c_div a b = a div b"
  by (simp add: c_div_def)

section \<open>Decimal numerals\<close>

text \<open>
  \<open>operator<<\<close> on integers, and the Android replacements \<open>std::stoi\<close> (\<open>atoi\<close>) and
  \<open>std::stoul\<close> (\<open>strtoul\<close> with base 0) of common.hh, on the 32-bit targets: both saturate.
\<close>

definition digit_char :: "nat \<Rightarrow> char" where
  "digit_char n = char_of (48 + n)"

fun show_nat :: "nat \<Rightarrow> string" where
  "show_nat n = (if n < 10 then [digit_char n] else show_nat (n div 10) @ [digit_char (n mod 10)])"

declare show_nat.simps [simp del]

definition show_int :: "int \<Rightarrow> string" where
  "show_int i = (if i < 0 then CHR ''-'' # show_nat (nat (- i)) else show_nat (nat i))"

definition is_space :: "char \<Rightarrow> bool" where
  "is_space c \<longleftrightarrow> of_char c = (32 :: nat) \<or> (9 \<le> (of_char c :: nat) \<and> of_char c \<le> (13 :: nat))"

definition digit_of :: "char \<Rightarrow> nat" where
  "digit_of c = (let n = of_char c in
     if 48 \<le> n \<and> n \<le> 57 then n - 48
     else if 97 \<le> n \<and> n \<le> 122 then n - 87
     else if 65 \<le> n \<and> n \<le> 90 then n - 55
     else 36)"

definition digits_value :: "nat \<Rightarrow> string \<Rightarrow> nat" where
  "digits_value b s = foldl (\<lambda>a c. a * b + digit_of c) 0 (takeWhile (\<lambda>c. digit_of c < b) s)"

definition clamp :: "int \<Rightarrow> int \<Rightarrow> int \<Rightarrow> int" where
  "clamp lo hi i = (if i < lo then lo else if hi < i then hi else i)"

definition stoi :: "string \<Rightarrow> int" where
  "stoi str = clamp (- (2 ^ 31)) (2 ^ 31 - 1)
     (case dropWhile is_space str of
        [] \<Rightarrow> 0
      | c # r \<Rightarrow> if c = CHR ''-'' then - int (digits_value 10 r)
                else if c = CHR ''+'' then int (digits_value 10 r)
                else int (digits_value 10 (c # r)))"

definition strtoul_base0 :: "string \<Rightarrow> nat" where
  "strtoul_base0 s =
     (case s of
        [] \<Rightarrow> 0
      | c # r \<Rightarrow> if c \<noteq> CHR ''0'' then digits_value 10 s
          else (case r of
             x # d # r' \<Rightarrow> if (x = CHR ''x'' \<or> x = CHR ''X'') \<and> digit_of d < 16
                then digits_value 16 (d # r') else digits_value 8 s
           | _ \<Rightarrow> digits_value 8 s))"

definition stoul :: "string \<Rightarrow> nat" where
  "stoul str =
     (case dropWhile is_space str of
        [] \<Rightarrow> 0
      | c # r \<Rightarrow>
          if c = CHR ''-''
          then (let v = strtoul_base0 r in if 2 ^ 32 \<le> v then 2 ^ 32 - 1 else nat ((- int v) mod 2 ^ 32))
          else min (2 ^ 32 - 1) (strtoul_base0 (if c = CHR ''+'' then r else c # r)))"

lemma of_char_digit_char [simp]:
  "n < 10 \<Longrightarrow> (of_char (digit_char n) :: nat) = 48 + n"
  by (simp add: digit_char_def)

lemma digit_of_digit_char [simp]: "n < 10 \<Longrightarrow> digit_of (digit_char n) = n"
  by (simp add: digit_of_def Let_def)

definition is_digit :: "char \<Rightarrow> bool" where
  "is_digit c \<longleftrightarrow> 48 \<le> (of_char c :: nat) \<and> (of_char c :: nat) \<le> 57"

lemma is_digit_digit_char [simp]: "n < 10 \<Longrightarrow> is_digit (digit_char n)"
  by (simp add: is_digit_def)

lemma is_digit_facts:
  assumes "is_digit c"
  shows "digit_of c < 10" "\<not> is_space c" "c \<noteq> CHR ''-''" "c \<noteq> CHR ''+''"
    "c \<noteq> CHR '';''" "c \<noteq> CHR ''%''" "c \<noteq> CHR ''=''" "c \<noteq> CHR 0x00"
  using assms by (auto simp: is_digit_def is_space_def digit_of_def)

lemma show_nat_digits: "c \<in> set (show_nat n) \<Longrightarrow> is_digit c"
  by (induction n rule: show_nat.induct)
    (subst (asm) (2) show_nat.simps, auto split: if_splits)

lemma show_nat_nonempty [simp]: "show_nat n \<noteq> []"
  by (subst show_nat.simps) auto

lemma foldl_digits_show_nat:
  "foldl (\<lambda>a c. a * 10 + digit_of c) 0 (show_nat n) = n"
  by (induction n rule: show_nat.induct) (subst show_nat.simps, auto)

lemma digits_value_show_nat [simp]: "digits_value 10 (show_nat n) = n"
proof -
  have "takeWhile (\<lambda>c. digit_of c < 10) (show_nat n) = show_nat n"
    by (auto simp: takeWhile_eq_all_conv dest: show_nat_digits is_digit_facts)
  then show ?thesis
    unfolding digits_value_def by (simp only: foldl_digits_show_nat)
qed

lemma show_nat_hd_zero: "hd (show_nat n) = CHR ''0'' \<Longrightarrow> n = 0"
proof (induction n rule: show_nat.induct)
  case (1 n)
  show ?case
  proof (cases "n < 10")
    case True
    with "1.prems" have "(of_char (digit_char n) :: nat) = of_char (CHR ''0'')"
      by (simp add: show_nat.simps)
    with True show ?thesis by simp
  next
    case False
    with "1.prems" have "hd (show_nat (n div 10)) = CHR ''0''"
      by (subst (asm) show_nat.simps) simp
    with 1(1) False show ?thesis by simp
  qed
qed

theorem stoi_show_int [vk_round]:
  assumes "- (2 ^ 31) \<le> i" "i < 2 ^ 31"
  shows "stoi (show_int i) = i"
proof -
  obtain c r where cr: "show_nat (nat i) = c # r" by (cases "show_nat (nat i)") auto
  then have "is_digit c" using show_nat_digits [of c "nat i"] by simp
  moreover have "digits_value 10 (c # r) = nat i" using cr digits_value_show_nat [of "nat i"] by simp
  moreover have "\<not> is_space CHR ''-''" by (simp add: is_space_def)
  ultimately show ?thesis
    using assms cr by (auto simp: stoi_def show_int_def clamp_def is_digit_facts)
qed

theorem stoul_show_nat [vk_round]:
  assumes "n < 2 ^ 32"
  shows "stoul (show_nat n) = n"
proof -
  obtain c r where cr: "show_nat n = c # r" by (cases "show_nat n") auto
  then have c: "is_digit c" using show_nat_digits [of c n] by simp
  have "strtoul_base0 (c # r) = n"
  proof (cases "c = CHR ''0''")
    case True
    then have "n = 0" using cr show_nat_hd_zero [of n] by simp
    then have "c # r = ''0''" using cr True by (simp add: show_nat.simps)
    then show ?thesis using \<open>n = 0\<close> by (simp add: strtoul_base0_def digits_value_def digit_of_def)
  next
    case False
    then show ?thesis using cr digits_value_show_nat [of n] by (simp add: strtoul_base0_def)
  qed
  then show ?thesis
    using c cr assms by (simp add: stoul_def is_digit_facts)
qed

section \<open>Insertion behind equals\<close>

text \<open>Where the sorted lists of the program put a new element: behind every element that is not greater.\<close>

definition insert_behind :: "('a \<Rightarrow> 'k :: linorder) \<Rightarrow> 'a \<Rightarrow> 'a list \<Rightarrow> 'a list" where
  "insert_behind key z xs = takeWhile (\<lambda>x. key x \<le> key z) xs @ z # dropWhile (\<lambda>x. key x \<le> key z) xs"

lemma set_split_while: "set (takeWhile P xs) \<union> set (dropWhile P xs) = set xs"
  by (metis set_append takeWhile_dropWhile_id)

lemma set_insert_behind [simp]: "set (insert_behind key z xs) = insert z (set xs)"
  using set_split_while [of "\<lambda>x. key x \<le> key z" xs] by (simp add: insert_behind_def)

lemma mset_insert_behind [simp]: "mset (insert_behind key z xs) = add_mset z (mset xs)"
proof -
  have "mset xs = mset (takeWhile (\<lambda>x. key x \<le> key z) xs) + mset (dropWhile (\<lambda>x. key x \<le> key z) xs)"
    by (metis mset_append takeWhile_dropWhile_id)
  then show ?thesis by (simp add: insert_behind_def)
qed

lemma distinct_insert_behind [simp]: "distinct (insert_behind key z xs) \<longleftrightarrow> distinct xs \<and> z \<notin> set xs"
proof -
  define us vs where "us = takeWhile (\<lambda>x. key x \<le> key z) xs" and "vs = dropWhile (\<lambda>x. key x \<le> key z) xs"
  then have "xs = us @ vs" by simp
  then show ?thesis unfolding insert_behind_def us_def [symmetric] vs_def [symmetric] by auto
qed

lemma sorted_insert_behind: "sorted (map key xs) \<Longrightarrow> sorted (map key (insert_behind key z xs))"
proof (induction xs)
  case (Cons x xs)
  then show ?case
    using set_insert_behind [of key z xs] by (cases "key x \<le> key z") (auto simp: insert_behind_def)
qed (simp add: insert_behind_def)

text \<open>At the end of a sorted list with nothing greater, the element comes last.\<close>

lemma insert_behind_last: "\<forall>x \<in> set xs. key x \<le> key z \<Longrightarrow> insert_behind key z xs = xs @ [z]"
  by (simp add: insert_behind_def)

lemma insert_behind_cong: "\<forall>x \<in> insert z (set xs). key x = key' x \<Longrightarrow> insert_behind key z xs = insert_behind key' z xs"
  by (simp add: insert_behind_def cong: takeWhile_cong dropWhile_cong)

end
