(* ===== verification/Std_Map.thy ===== *)
theory Std_Map
  imports VK_Prelude
begin

text \<open>
  The ordered associative containers of the C++ standard library the program stores its
  state in: \<open>std::map\<close> as an association list kept in strictly increasing key order, which
  is the order iteration sees, and \<open>std::set\<close> as a strictly increasing list.

  The locale \<open>ordered_map\<close> is the contract a client relies on; \<open>smap\<close> is its
  interpretation on the association lists below.
\<close>

type_synonym ('k, 'v) smap = "('k \<times> 'v) list"

section \<open>Operations\<close>

fun map_find :: "'k :: linorder \<Rightarrow> ('k, 'v) smap \<Rightarrow> 'v option" where
  "map_find k [] = None"
| "map_find k ((a, b) # m) = (if k = a then Some b else if k < a then None else map_find k m)"

text \<open>\<open>m[k] = v\<close>: overwrite or insert in order.\<close>

fun map_set :: "'k :: linorder \<Rightarrow> 'v \<Rightarrow> ('k, 'v) smap \<Rightarrow> ('k, 'v) smap" where
  "map_set k v [] = [(k, v)]"
| "map_set k v ((a, b) # m) =
     (if k = a then (k, v) # m
      else if k < a then (k, v) # (a, b) # m
      else (a, b) # map_set k v m)"

text \<open>\<open>m.insert({k, v})\<close>: a present key keeps its value.\<close>

definition map_insert :: "'k :: linorder \<Rightarrow> 'v \<Rightarrow> ('k, 'v) smap \<Rightarrow> ('k, 'v) smap" where
  "map_insert k v m = (case map_find k m of None \<Rightarrow> map_set k v m | Some _ \<Rightarrow> m)"

definition map_erase :: "'k :: linorder \<Rightarrow> ('k, 'v) smap \<Rightarrow> ('k, 'v) smap" where
  "map_erase k m = filter (\<lambda>p. fst p \<noteq> k) m"

text \<open>The iterators \<open>m.lower_bound(k)\<close> and \<open>m.upper_bound(k)\<close>, as the elements from there on.\<close>

definition lower_bound :: "'k :: linorder \<Rightarrow> ('k, 'v) smap \<Rightarrow> ('k, 'v) smap" where
  "lower_bound k m = dropWhile (\<lambda>p. fst p < k) m"

definition upper_bound :: "'k :: linorder \<Rightarrow> ('k, 'v) smap \<Rightarrow> ('k, 'v) smap" where
  "upper_bound k m = dropWhile (\<lambda>p. fst p \<le> k) m"

definition map_ok :: "('k :: linorder, 'v) smap \<Rightarrow> bool" where
  "map_ok m \<longleftrightarrow> sorted_wrt (<) (map fst m)"

definition map_keys :: "('k, 'v) smap \<Rightarrow> 'k set" where
  "map_keys m = fst ` set m"

section \<open>Laws\<close>

lemma map_ok_Nil [simp]: "map_ok []"
  by (simp add: map_ok_def)

lemma map_ok_Cons [simp]:
  "map_ok (p # m) \<longleftrightarrow> (\<forall>q \<in> set m. fst p < fst q) \<and> map_ok m"
  by (auto simp: map_ok_def)

lemma map_find_None_below: "\<forall>q \<in> set m. k < fst q \<Longrightarrow> map_find k m = None"
  by (cases m) auto

lemma map_ok_distinct: "map_ok m \<Longrightarrow> distinct (map fst m)"
  by (simp add: map_ok_def strict_sorted_iff)

lemma map_find_map_of: "map_ok m \<Longrightarrow> map_find k m = map_of m k"
proof (induction m)
  case (Cons p m)
  then have "k < fst p \<Longrightarrow> map_of m k = None"
    by (auto simp: map_of_eq_None_iff)
  with Cons show ?case by (cases p) auto
qed simp

lemma map_find_iff: "map_ok m \<Longrightarrow> map_find k m = Some v \<longleftrightarrow> (k, v) \<in> set m"
  by (simp add: map_find_map_of map_ok_distinct)

lemma map_find_None_iff: "map_ok m \<Longrightarrow> map_find k m = None \<longleftrightarrow> k \<notin> map_keys m"
  by (simp add: map_find_map_of map_of_eq_None_iff map_keys_def)

lemma map_set_set:
  "map_ok m \<Longrightarrow> set (map_set k v m) = insert (k, v) {p \<in> set m. fst p \<noteq> k}"
  by (induction k v m rule: map_set.induct) auto

lemma map_set_ok [simp, vk_inv]: "map_ok m \<Longrightarrow> map_ok (map_set k v m)"
  by (induction k v m rule: map_set.induct) (auto simp: map_set_set)

lemma map_find_map_set [simp]:
  "map_ok m \<Longrightarrow> map_find j (map_set k v m) = (if j = k then Some v else map_find j m)"
  by (induction k v m rule: map_set.induct) (auto simp: map_find_None_below)

lemma map_erase_ok [simp, vk_inv]: "map_ok m \<Longrightarrow> map_ok (map_erase k m)"
  by (induction m) (auto simp: map_erase_def)

lemma map_find_map_erase [simp]:
  assumes "map_ok m"
  shows "map_find j (map_erase k m) = (if j = k then None else map_find j m)"
proof -
  have "map_of (map_erase k m) j = (if j = k then None else map_of m j)"
    by (induction m) (auto simp: map_erase_def)
  with assms show ?thesis by (simp add: map_find_map_of)
qed

lemma map_insert_ok [simp, vk_inv]: "map_ok m \<Longrightarrow> map_ok (map_insert k v m)"
  by (simp add: map_insert_def split: option.split)

lemma map_find_map_insert [simp]:
  "map_ok m \<Longrightarrow> map_find j (map_insert k v m) =
     (if j = k \<and> map_find k m = None then Some v else map_find j m)"
  by (auto simp: map_insert_def split: option.split)

lemma lower_bound_filter: "map_ok m \<Longrightarrow> lower_bound k m = filter (\<lambda>p. k \<le> fst p) m"
proof (induction m)
  case (Cons p m)
  show ?case
  proof (cases "fst p < k")
    case True
    with Cons show ?thesis by (simp add: lower_bound_def)
  next
    case False
    then have "filter (\<lambda>p. k \<le> fst p) m = m"
      using Cons.prems by (intro filter_True) force
    with False show ?thesis by (simp add: lower_bound_def)
  qed
qed (simp add: lower_bound_def)

lemma upper_bound_filter: "map_ok m \<Longrightarrow> upper_bound k m = filter (\<lambda>p. k < fst p) m"
proof (induction m)
  case (Cons p m)
  show ?case
  proof (cases "fst p \<le> k")
    case True
    with Cons show ?thesis by (simp add: upper_bound_def)
  next
    case False
    then have "filter (\<lambda>p. k < fst p) m = m"
      using Cons.prems by (intro filter_True) force
    with False show ?thesis by (simp add: upper_bound_def)
  qed
qed (simp add: upper_bound_def)

lemma map_split: "map_ok m \<Longrightarrow> filter (\<lambda>p. fst p < k) m @ filter (\<lambda>p. k \<le> fst p) m = m"
proof (induction m)
  case (Cons p m)
  show ?case
  proof (cases "fst p < k")
    case True
    with Cons show ?thesis by simp
  next
    case False
    then have "filter (\<lambda>p. fst p < k) m = []" "filter (\<lambda>p. k \<le> fst p) m = m"
      using Cons.prems by (force simp: filter_empty_conv filter_id_conv)+
    with False show ?thesis by simp
  qed
qed simp

lemma map_ok_filter [simp]: "map_ok m \<Longrightarrow> map_ok (filter P m)"
  by (induction m) auto

lemma map_find_filter:
  "map_ok m \<Longrightarrow> map_find k (filter (\<lambda>p. P (fst p)) m) = (if P k then map_find k m else None)"
proof -
  assume ok: "map_ok m"
  have "map_of (filter (\<lambda>p. P (fst p)) m) k = (if P k then map_of m k else None)"
    by (induction m) auto
  with ok show ?thesis by (simp add: map_find_map_of)
qed

lemma map_ok_eqI:
  assumes "map_ok m" "map_ok m'" "\<And>k. map_find k m = map_find k m'"
  shows "m = m'"
proof -
  have "set m = set m'"
    using assms by (auto simp: map_find_iff [symmetric])
  moreover have "sorted_wrt (<) (map fst m)" "sorted_wrt (<) (map fst m')"
    using assms by (auto simp: map_ok_def)
  then have "sorted (map fst m)" "sorted (map fst m')" "distinct (map fst m)" "distinct (map fst m')"
    by (simp_all add: strict_sorted_iff)
  ultimately show ?thesis
    by (intro map_sorted_distinct_set_unique [where f = fst]) (auto simp: distinct_map)
qed

section \<open>The contract\<close>

locale ordered_map =
  fixes empty :: "'m"
    and find :: "'k \<Rightarrow> 'm \<Rightarrow> 'v option"
    and assign :: "'k \<Rightarrow> 'v \<Rightarrow> 'm \<Rightarrow> 'm"
    and erase :: "'k \<Rightarrow> 'm \<Rightarrow> 'm"
    and ok :: "'m \<Rightarrow> bool"
  assumes ok_empty: "ok empty"
    and ok_assign: "ok m \<Longrightarrow> ok (assign k v m)"
    and ok_erase: "ok m \<Longrightarrow> ok (erase k m)"
    and find_empty: "find k empty = None"
    and find_assign: "ok m \<Longrightarrow> find j (assign k v m) = (if j = k then Some v else find j m)"
    and find_erase: "ok m \<Longrightarrow> find j (erase k m) = (if j = k then None else find j m)"
    and extensional: "ok m \<Longrightarrow> ok m' \<Longrightarrow> (\<And>k. find k m = find k m') \<Longrightarrow> m = m'"
begin

definition assign_all :: "('k \<times> 'v) list \<Rightarrow> 'm \<Rightarrow> 'm" where
  "assign_all kvs m = fold (\<lambda>(k, v). assign k v) kvs m"

lemma ok_assign_all: "ok m \<Longrightarrow> ok (assign_all kvs m)"
  unfolding assign_all_def
  by (induction kvs arbitrary: m) (auto simp: ok_assign)

text \<open>The last assignment to a key wins.\<close>

lemma find_assign_all:
  "ok m \<Longrightarrow> find k (assign_all kvs m) =
     (case map_of (rev kvs) k of Some v \<Rightarrow> Some v | None \<Rightarrow> find k m)"
  unfolding assign_all_def
  by (induction kvs arbitrary: m) (auto simp: ok_assign find_assign map_add_def split: option.splits)

text \<open>Reassigning what the map already holds rebuilds it, whatever the order of assignment.\<close>

lemma assign_all_rebuild:
  assumes "ok m" "distinct (map fst kvs)" "\<And>k. map_of kvs k = find k m"
  shows "assign_all kvs empty = m"
proof (rule extensional)
  show "ok (assign_all kvs empty)" by (simp add: ok_assign_all ok_empty)
  fix k
  have "map_of (rev kvs) k = map_of kvs k"
    using assms(2) by (intro fun_cong [OF map_of_inject_set [THEN iffD2]]) (simp_all flip: rev_map)
  with assms(3) show "find k (assign_all kvs empty) = find k m"
    by (simp add: find_assign_all ok_empty find_empty split: option.split)
qed (rule assms(1))

lemma assign_erase: "ok m \<Longrightarrow> erase k (assign k v m) = erase k m"
  by (rule extensional) (auto simp: ok_assign ok_erase find_assign find_erase)

lemma erase_absent: "ok m \<Longrightarrow> find k m = None \<Longrightarrow> erase k m = m"
  by (rule extensional) (auto simp: ok_erase find_erase)

end

interpretation smap: ordered_map "[]" map_find map_set map_erase map_ok
  by unfold_locales (auto intro: map_ok_eqI)

lemma map_rebuild: "map_ok m \<Longrightarrow> fold (\<lambda>(k, v). map_set k v) m [] = m"
  using smap.assign_all_rebuild [of m m]
  by (simp add: smap.assign_all_def map_find_map_of map_ok_distinct)

lemma map_set_at_end: "\<forall>q \<in> set m. fst q < k \<Longrightarrow> map_set k v m = m @ [(k, v)]"
  by (induction k v m rule: map_set.induct) auto

lemma map_find_above: "\<forall>q \<in> set m. fst q < k \<Longrightarrow> map_find k m = None"
  by (induction k m rule: map_find.induct) auto

lemma map_insert_at_end: "\<forall>q \<in> set m. fst q < k \<Longrightarrow> map_insert k v m = m @ [(k, v)]"
  by (simp add: map_insert_def map_find_above map_set_at_end)

text \<open>Inserting the entries of a map in order rebuilds it.\<close>

lemma map_insert_rebuild_append:
  "map_ok (m @ n) \<Longrightarrow> fold (\<lambda>(k, v). map_insert k v) n m = m @ n"
proof (induction n arbitrary: m)
  case (Cons p n)
  then have "\<forall>q \<in> set m. fst q < fst p"
    by (auto simp: map_ok_def sorted_wrt_append)
  then have "map_insert (fst p) (snd p) m = m @ [p]"
    by (simp add: map_insert_at_end)
  with Cons show ?case by (simp add: case_prod_unfold)
qed simp

lemma map_insert_rebuild: "map_ok m \<Longrightarrow> fold (\<lambda>(k, v). map_insert k v) m [] = m"
  using map_insert_rebuild_append [of "[]" m] by simp

end
