(* ===== verification/Serialize.thy ===== *)
theory Serialize
  imports Std_Map
begin

text \<open>
  The item serializer of serialize.cc and serialize.hh.

  \<open>encode_string\<close> and \<open>decode_string\<close> escape the delimiters of the wire formats; both work on
  a NUL-terminated copy of their argument, and decoding reads past that copy when an escape is
  cut short, which the model reports as \<open>BufferOverrun\<close>.

  \<open>ItemSerializer\<close> writes ``type;value;'' items: a serializer of a type is the function from
  a value to the characters it appends. \<open>ItemDeserializer\<close> reads them from a string stream: a
  deserializer is a function on the stream state that returns a value or the exception thrown,
  with the stream left behind. The locale \<open>serderizable\<close> is what a type must provide to be
  used inside pairs, arrays and containers; its laws carry over to those.
\<close>

section \<open>Escaping\<close>

datatype ser_error =
    UnexpectedTypeWhenDeserializing
  | UnexpectedEndWhenDeserializing
  | BufferOverrun
  | Diverges

abbreviation "NUL \<equiv> CHR 0x00"

text \<open>\<open>strncpy(inp, s.c_str(), s.size() + 1)\<close>: up to the first NUL, padded with NULs.\<close>

definition strncpy_buffer :: "string \<Rightarrow> string" where
  "strncpy_buffer s =
     (let t = takeWhile (\<lambda>c. c \<noteq> NUL) s in t @ replicate (length s + 1 - length t) NUL)"

definition unhex :: "char \<Rightarrow> nat" where
  "unhex c = (let v = of_char c :: nat in
     if v \<le> 102 \<and> 97 \<le> v then 10 + v - 97
     else if v \<le> 70 \<and> 65 \<le> v then 10 + v - 65
     else if v \<le> 57 \<and> 48 \<le> v then v - 48
     else v)"

text \<open>The two-character array \<open>v\<close> read as a C string: empty when the decoded byte is NUL.\<close>

definition decode_pair :: "char \<Rightarrow> char \<Rightarrow> string" where
  "decode_pair a b =
     (let c = char_of (push_bit 4 (unhex a) OR unhex b) in if c = NUL then [] else [c])"

fun decode_loop :: "string \<Rightarrow> string \<Rightarrow> string \<Rightarrow> (ser_error, string) result" where
  "decode_loop outp tok [] = Inl BufferOverrun"
| "decode_loop outp tok (c # inp) =
     (if c = NUL then Inr (outp @ tok)
      else if c = CHR ''%'' then
        (case inp of
           a # b # rest \<Rightarrow> decode_loop (outp @ tok @ decode_pair a b) [] rest
         | _ \<Rightarrow> Inl BufferOverrun)
      else decode_loop outp (tok @ [c]) inp)"

definition decode_string :: "string \<Rightarrow> (ser_error, string) result" where
  "decode_string encoded = decode_loop [] [] (strncpy_buffer encoded)"

fun encode_loop :: "string \<Rightarrow> string \<Rightarrow> string \<Rightarrow> string" where
  "encode_loop outp tok [] = outp @ tok"
| "encode_loop outp tok (c # inp) =
     (if c = NUL then outp @ tok
      else if c = CHR ''%'' then encode_loop (outp @ tok @ ''%25'') [] inp
      else if c = CHR ''='' then encode_loop (outp @ tok @ ''%3d'') [] inp
      else if c = CHR '';'' then encode_loop (outp @ tok @ ''%3b'') [] inp
      else encode_loop outp (tok @ [c]) inp)"

definition encode_string :: "string \<Rightarrow> string" where
  "encode_string uncoded =
     (if uncoded = [] then ''<empty>'' else encode_loop [] [] (strncpy_buffer uncoded))"

section \<open>Escaping, character by character\<close>

definition enc_char :: "char \<Rightarrow> string" where
  "enc_char c =
     (if c = CHR ''%'' then ''%25'' else if c = CHR ''='' then ''%3d''
      else if c = CHR '';'' then ''%3b'' else [c])"

definition nul_free :: "string \<Rightarrow> bool" where
  "nul_free s \<longleftrightarrow> NUL \<notin> set s"

lemma nul_free_simps [simp]:
  "nul_free []" "nul_free (c # s) \<longleftrightarrow> c \<noteq> NUL \<and> nul_free s"
  "nul_free (s @ t) \<longleftrightarrow> nul_free s \<and> nul_free t"
  "nul_free (concat ss) \<longleftrightarrow> (\<forall>s \<in> set ss. nul_free s)"
  by (auto simp: nul_free_def)

lemma strncpy_buffer_nul_free: "nul_free s \<Longrightarrow> strncpy_buffer s = s @ [NUL]"
proof -
  assume "nul_free s"
  then have "takeWhile (\<lambda>c. c \<noteq> NUL) s = s"
    by (auto simp: nul_free_def takeWhile_eq_all_conv)
  then show ?thesis unfolding strncpy_buffer_def Let_def by (simp only: diff_add_inverse) simp
qed

lemma encode_loop_chars:
  "nul_free s \<Longrightarrow> encode_loop outp tok (s @ [NUL]) = outp @ tok @ concat (map enc_char s)"
  by (induction s arbitrary: outp tok) (auto simp: enc_char_def)

lemma encode_string_chars:
  "s \<noteq> [] \<Longrightarrow> nul_free s \<Longrightarrow> encode_string s = concat (map enc_char s)"
  by (simp add: encode_string_def strncpy_buffer_nul_free encode_loop_chars)

lemma decode_escapes [simp]:
  "decode_pair CHR ''2'' CHR ''5'' = ''%''"
  "decode_pair CHR ''3'' CHR ''d'' = ''=''"
  "decode_pair CHR ''3'' CHR ''b'' = '';''"
  by (simp_all add: decode_pair_def unhex_def Let_def push_bit_eq_mult char_of_def bit_0)

lemma decode_loop_chars:
  "nul_free s \<Longrightarrow>
     decode_loop outp tok (concat (map enc_char s) @ NUL # junk) = Inr (outp @ tok @ s)"
  by (induction s arbitrary: outp tok) (auto simp: enc_char_def)

lemma enc_char_clean:
  "c \<noteq> NUL \<Longrightarrow> nul_free (enc_char c)"
  "CHR '';'' \<notin> set (enc_char c)" "CHR ''='' \<notin> set (enc_char c)"
  by (auto simp: enc_char_def)

lemma encode_string_nul_free [simp]: "nul_free s \<Longrightarrow> nul_free (encode_string s)"
proof (cases "s = []")
  case False
  assume "nul_free s"
  with False show ?thesis
    by (auto simp: encode_string_chars intro!: enc_char_clean(1)) (simp add: nul_free_def)
qed (simp add: encode_string_def)

lemma encode_string_length: "nul_free s \<Longrightarrow> length (encode_string s) \<le> 3 * length s + 7"
proof (cases "s = []")
  case False
  assume "nul_free s"
  moreover have "length (concat (map enc_char s)) \<le> 3 * length s"
    by (induction s) (auto simp: enc_char_def)
  ultimately show ?thesis using False by (simp add: encode_string_chars)
qed (simp add: encode_string_def)

lemma encode_string_no_delim:
  assumes "nul_free s"
  shows "CHR '';'' \<notin> set (encode_string s)" "CHR ''='' \<notin> set (encode_string s)"
proof -
  have "CHR '';'' \<notin> set (encode_string s) \<and> CHR ''='' \<notin> set (encode_string s)"
  proof (cases "s = []")
    case True
    then show ?thesis by (simp add: encode_string_def)
  next
    case False
    with assms show ?thesis by (simp add: encode_string_chars enc_char_clean)
  qed
  then show "CHR '';'' \<notin> set (encode_string s)" "CHR ''='' \<notin> set (encode_string s)"
    by simp_all
qed

lemma encode_string_nonempty [simp]: "nul_free s \<Longrightarrow> encode_string s \<noteq> []"
  by (cases s) (simp_all add: encode_string_chars enc_char_def, simp add: encode_string_def)

lemma decode_encode_string [vk_round]:
  assumes "s \<noteq> []" "nul_free s"
  shows "decode_string (encode_string s) = Inr s"
proof -
  have "decode_string (encode_string s) = decode_loop [] [] (concat (map enc_char s) @ [NUL])"
    using assms encode_string_nul_free [of s]
    by (simp add: decode_string_def strncpy_buffer_nul_free encode_string_chars)
  then show ?thesis using decode_loop_chars [of s "[]" "[]" "[]"] assms by simp
qed

lemma decode_loop_plain:
  "nul_free s \<Longrightarrow> CHR ''%'' \<notin> set s \<Longrightarrow> decode_loop outp tok (s @ NUL # junk) = Inr (outp @ tok @ s)"
  by (induction s arbitrary: outp tok) auto

lemma decode_string_plain:
  "nul_free s \<Longrightarrow> CHR ''%'' \<notin> set s \<Longrightarrow> decode_string s = Inr s"
  using decode_loop_plain [of s "[]" "[]" "[]"] by (simp add: decode_string_def strncpy_buffer_nul_free)

section \<open>Properties\<close>

text \<open>For a non-empty string without NUL characters, decoding inverts encoding; the encoded text
  has no NUL and neither of the delimiters \<open>;\<close> and \<open>=\<close>, so it can stand as a field.\<close>

theorem encode_decode_round_trip:
  assumes "s \<noteq> []" "nul_free s"
  shows "decode_string (encode_string s) = Inr s \<and> nul_free (encode_string s) \<and>
    CHR '';'' \<notin> set (encode_string s) \<and> CHR ''='' \<notin> set (encode_string s)"
  using assms by (simp add: decode_encode_string encode_string_no_delim)

theorem encode_decode_round_trip_witness:
  "encode_string ''a=1;b%'' = ''a%3d1%3bb%25'' \<and> decode_string (encode_string ''a=1;b%'') = Inr ''a=1;b%''"
  using encode_decode_round_trip [of "''a=1;b%''"]
  by (simp add: encode_string_chars enc_char_def)

text \<open>A text that ends in an escape cut short makes \<open>decode_string\<close> read behind its buffer: with
  one or no digit after a final percent sign there is no terminator left to find.\<close>

theorem decode_truncated_escape:
  assumes "nul_free s" "CHR ''%'' \<notin> set s" "nul_free d" "length d < 2"
  shows "decode_string (s @ ''%'' @ d) = Inl BufferOverrun"
proof -
  have "decode_loop outp tok (s @ CHR ''%'' # d @ [NUL]) = Inl BufferOverrun" for outp tok
    using assms
  proof (induction s arbitrary: outp tok)
    case Nil
    then show ?case by (cases d; cases "tl d") auto
  qed auto
  then show ?thesis
    using assms by (simp add: decode_string_def strncpy_buffer_nul_free)
qed

theorem decode_truncated_escape_witness: "decode_string ''ab%4'' = Inl BufferOverrun"
  using decode_truncated_escape [of "''ab''" "''4''"] by simp

end
