(* ===== verification/Item_Serializer.thy ===== *)
theory Item_Serializer
  imports Serialize
begin

text \<open>
  \<open>ItemSerializer\<close> and \<open>ItemDeserializer\<close> of serialize.hh. The text form of \<open>float\<close> and
  \<open>double\<close> is the standard library's and is left out; every other overload of \<open>process\<close> is here.
\<close>

section \<open>ItemSerializer\<close>

definition ser_string :: "string \<Rightarrow> string" where
  "ser_string v = ''string;'' @ encode_string v @ '';''"

definition ser_bool :: "bool \<Rightarrow> string" where
  "ser_bool v = ''bool;'' @ (if v then ''true'' else ''false'') @ '';''"

definition ser_int :: "int \<Rightarrow> string" where
  "ser_int v = ''int;'' @ show_int v @ '';''"

definition ser_uint :: "nat \<Rightarrow> string" where
  "ser_uint v = ''uint;'' @ show_nat v @ '';''"

text \<open>\<open>result()\<close> escapes what was written; every composite item escapes that result again.\<close>

definition ser_result :: "string \<Rightarrow> string" where
  "ser_result result_stream = encode_string result_stream"

definition ser_sub :: "string \<Rightarrow> string \<Rightarrow> string" where
  "ser_sub identifier subser = identifier @ '';'' @ encode_string (ser_result subser) @ '';''"

definition ser_pair :: "('u \<Rightarrow> string) \<Rightarrow> ('v \<Rightarrow> string) \<Rightarrow> 'u \<times> 'v \<Rightarrow> string" where
  "ser_pair su sv p = ser_sub ''pair'' (su (fst p) @ sv (snd p))"

definition ser_array :: "('a \<Rightarrow> string) \<Rightarrow> 'a list \<Rightarrow> string" where
  "ser_array s elements = ser_sub ''array'' (concat (map s elements))"

definition ser_container :: "('a \<Rightarrow> string) \<Rightarrow> 'a list \<Rightarrow> string" where
  "ser_container s elements = ser_sub ''container'' (concat (map s elements))"

text \<open>A serializable object, by shared pointer or by pointer, with its own \<open>serderize\<close>.\<close>

definition ser_object :: "string \<Rightarrow> ('a \<Rightarrow> string) \<Rightarrow> 'a \<Rightarrow> string" where
  "ser_object serialize_identifier serderize t = ser_sub serialize_identifier (serderize t)"

section \<open>ItemDeserializer\<close>

record istream =
  is_rest :: string
  is_eof :: bool

type_synonym 'a deser = "istream \<Rightarrow> (ser_error, 'a) result \<times> istream"

definition istringstream :: "string \<Rightarrow> istream" where
  "istringstream s = \<lparr> is_rest = s, is_eof = False \<rparr>"

text \<open>\<open>std::getline(is, val, d)\<close>: the end-of-file flag is set when no delimiter is left.\<close>

definition getline :: "char \<Rightarrow> istream \<Rightarrow> string \<times> istream" where
  "getline d s =
     (if is_eof s then ([], s)
      else case dropWhile (\<lambda>c. c \<noteq> d) (is_rest s) of
             [] \<Rightarrow> (is_rest s, \<lparr> is_rest = [], is_eof = True \<rparr>)
           | _ # r \<Rightarrow> (takeWhile (\<lambda>c. c \<noteq> d) (is_rest s), s \<lparr> is_rest := r \<rparr>))"

definition dreturn :: "'a \<Rightarrow> 'a deser" where
  "dreturn a s = (Inr a, s)"

definition dlift :: "(ser_error, 'a) result \<Rightarrow> 'a deser" where
  "dlift r s = (r, s)"

definition dbind :: "'a deser \<Rightarrow> ('a \<Rightarrow> 'b deser) \<Rightarrow> 'b deser" where
  "dbind d f s = (case d s of (Inl e, s') \<Rightarrow> (Inl e, s') | (Inr a, s') \<Rightarrow> f a s')"

definition get_string :: "string deser" where
  "get_string s =
     (case getline CHR '';'' s of (val, s') \<Rightarrow>
        if is_eof s' then (Inl UnexpectedEndWhenDeserializing, s') else (Inr val, s'))"

definition verify_type :: "string \<Rightarrow> unit deser" where
  "verify_type type_identifier s =
     (case getline CHR '';'' s of (ty, s') \<Rightarrow>
        if is_eof s' then (Inl UnexpectedEndWhenDeserializing, s')
        else if ty = type_identifier then (Inr (), s')
        else (Inl UnexpectedTypeWhenDeserializing, s'))"

definition ItemDeserializer :: "string \<Rightarrow> (ser_error, istream) result" where
  "ItemDeserializer input = rbind (decode_string input) (\<lambda>s. Inr (istringstream s))"

definition deser_string :: "string deser" where
  "deser_string = dbind (verify_type ''string'') (\<lambda>_. dbind get_string (\<lambda>val_s. dlift (decode_string val_s)))"

definition deser_bool :: "bool deser" where
  "deser_bool = dbind (verify_type ''bool'') (\<lambda>_. dbind get_string (\<lambda>val_s. dreturn (val_s = ''true'')))"

definition deser_int :: "int deser" where
  "deser_int = dbind (verify_type ''int'') (\<lambda>_. dbind get_string (\<lambda>val_s. dreturn (stoi val_s)))"

definition deser_uint :: "nat deser" where
  "deser_uint = dbind (verify_type ''uint'') (\<lambda>_. dbind get_string (\<lambda>val_s. dreturn (stoul val_s)))"

text \<open>A composite item: its own deserializer runs on the contained text, decoded twice.\<close>

definition deser_sub :: "string \<Rightarrow> 'a deser \<Rightarrow> 'a deser" where
  "deser_sub identifier d =
     dbind (verify_type identifier) (\<lambda>_. dbind get_string (\<lambda>subserialized.
       dlift (rbind (decode_string subserialized) (\<lambda>x.
         rbind (ItemDeserializer x) (\<lambda>subdeser. fst (d subdeser))))))"

definition deser_pair :: "'u deser \<Rightarrow> 'v deser \<Rightarrow> ('u \<times> 'v) deser" where
  "deser_pair du dv = deser_sub ''pair'' (dbind du (\<lambda>a. dbind dv (\<lambda>b. dreturn (a, b))))"

definition deser_object :: "string \<Rightarrow> 'a deser \<Rightarrow> 'a deser" where
  "deser_object serialize_identifier serderize = deser_sub serialize_identifier serderize"

text \<open>
  The loop of a container: it runs until the stream reports end of file, and an unexpected end
  inside an element is ignored. The number bounds the iterations; every iteration consumes a
  character or reaches the end, so the length of the text and one more is enough.
\<close>

fun container_loop :: "nat \<Rightarrow> 'a deser \<Rightarrow> ('a \<Rightarrow> 'c \<Rightarrow> 'c) \<Rightarrow> 'c \<Rightarrow> 'c deser" where
  "container_loop n d ins elements s =
     (if is_eof s then (Inr elements, s)
      else case n of
        0 \<Rightarrow> (Inl Diverges, s)
      | Suc m \<Rightarrow>
          (case d s of
             (Inr element, s') \<Rightarrow> container_loop m d ins (ins element elements) s'
           | (Inl UnexpectedEndWhenDeserializing, s') \<Rightarrow> container_loop m d ins elements s'
           | (Inl e, s') \<Rightarrow> (Inl e, s')))"

declare container_loop.simps [simp del]

text \<open>A container is cleared first; a \<open>std::map\<close> is not, and keeps the entries it has.\<close>

definition deser_container :: "'a deser \<Rightarrow> 'a list deser" where
  "deser_container d = deser_sub ''container''
     (\<lambda>s. container_loop (length (is_rest s) + 1) d (\<lambda>element elements. elements @ [element]) [] s)"

definition deser_map :: "('k :: linorder \<times> 'v) deser \<Rightarrow> ('k, 'v) smap \<Rightarrow> ('k, 'v) smap deser" where
  "deser_map d elements = deser_sub ''container''
     (\<lambda>s. container_loop (length (is_rest s) + 1) d (\<lambda>(k, v). map_insert k v) elements s)"

fun array_loop :: "'a deser \<Rightarrow> 'a list \<Rightarrow> 'a list deser" where
  "array_loop d [] s = (Inr [], s)"
| "array_loop d (x # xs) s =
     (if is_eof s then (Inr (x # xs), s)
      else case d s of
        (Inr element, s') \<Rightarrow> dbind (array_loop d xs) (\<lambda>ys. dreturn (element # ys)) s'
      | (Inl UnexpectedEndWhenDeserializing, s') \<Rightarrow>
          dbind (array_loop d xs) (\<lambda>ys. dreturn (x # ys)) s'
      | (Inl e, s') \<Rightarrow> (Inl e, s'))"

definition deser_array :: "'a deser \<Rightarrow> 'a list \<Rightarrow> 'a list deser" where
  "deser_array d elements = deser_sub ''array'' (array_loop d elements)"

lemmas deser_defs =
  deser_string_def deser_bool_def deser_int_def deser_uint_def deser_pair_def deser_object_def
  deser_container_def deser_map_def deser_array_def

lemmas ser_defs =
  ser_string_def ser_bool_def ser_int_def ser_uint_def ser_pair_def ser_object_def
  ser_container_def ser_array_def

section \<open>Reading one field\<close>

lemma dbind_simps [simp]:
  "d s = (Inl e, s') \<Longrightarrow> dbind d f s = (Inl e, s')"
  "d s = (Inr a, s') \<Longrightarrow> dbind d f s = f a s'"
  by (simp_all add: dbind_def)

lemma span_delim:
  assumes "d \<notin> set x"
  shows "dropWhile (\<lambda>c. c \<noteq> d) x = []" "dropWhile (\<lambda>c. c \<noteq> d) (x @ d # r) = d # r"
    "takeWhile (\<lambda>c. c \<noteq> d) (x @ d # r) = x"
  using assms by (induction x) auto

lemma getline_field:
  "d \<notin> set x \<Longrightarrow>
     getline d \<lparr> is_rest = x @ d # r, is_eof = False \<rparr> = (x, \<lparr> is_rest = r, is_eof = False \<rparr>)"
  by (simp add: getline_def span_delim)

lemma getline_end:
  "d \<notin> set x \<Longrightarrow>
     getline d \<lparr> is_rest = x, is_eof = False \<rparr> = (x, \<lparr> is_rest = [], is_eof = True \<rparr>)"
  by (simp add: getline_def span_delim)

lemma getline_progress:
  assumes "getline d s = (x, s')" "\<not> is_eof s'"
  shows "length (is_rest s') < length (is_rest s)"
proof -
  let ?r = "dropWhile (\<lambda>c. c \<noteq> d) (is_rest s)"
  have neof: "\<not> is_eof s" using assms by (auto simp: getline_def)
  show ?thesis
  proof (cases ?r)
    case Nil
    with neof assms show ?thesis by (auto simp: getline_def simp del: dropWhile_eq_Nil_conv)
  next
    case (Cons c r)
    with neof assms(1) have "is_rest s' = r" by (auto simp: getline_def)
    moreover have "length ?r \<le> length (is_rest s)" by (rule length_dropWhile_le)
    ultimately show ?thesis using Cons by simp
  qed
qed

lemma getline_shorter:
  assumes "getline d s = (x, s')"
  shows "length (is_rest s') \<le> length (is_rest s)"
proof (cases "is_eof s'")
  case False
  with getline_progress [OF assms] show ?thesis by simp
next
  case True
  show ?thesis
  proof (cases "is_eof s")
    case False
    with True assms show ?thesis
      by (cases "dropWhile (\<lambda>c. c \<noteq> d) (is_rest s)")
        (auto simp: getline_def simp del: dropWhile_eq_Nil_conv)
  qed (use assms in \<open>simp add: getline_def\<close>)
qed

lemma getline_eof: "is_eof s \<Longrightarrow> is_eof (snd (getline d s))"
  by (simp add: getline_def)

lemma get_string_field [simp]:
  "CHR '';'' \<notin> set x \<Longrightarrow>
     get_string \<lparr> is_rest = x @ CHR '';'' # r, is_eof = False \<rparr> = (Inr x, \<lparr> is_rest = r, is_eof = False \<rparr>)"
  by (simp add: get_string_def getline_field)

lemma verify_type_field [simp]:
  "CHR '';'' \<notin> set x \<Longrightarrow>
     verify_type ty \<lparr> is_rest = x @ CHR '';'' # r, is_eof = False \<rparr> =
       (if x = ty then Inr () else Inl UnexpectedTypeWhenDeserializing, \<lparr> is_rest = r, is_eof = False \<rparr>)"
  by (simp add: verify_type_def getline_field)

lemma verify_type_end [simp]:
  "CHR '';'' \<notin> set x \<Longrightarrow>
     verify_type ty \<lparr> is_rest = x, is_eof = False \<rparr> =
       (Inl UnexpectedEndWhenDeserializing, \<lparr> is_rest = [], is_eof = True \<rparr>)"
  by (simp add: verify_type_def getline_end)

text \<open>A deserializer moves on when it leaves the stream at its end or with less text.\<close>

definition advances :: "istream \<Rightarrow> istream \<Rightarrow> bool" where
  "advances s s' \<longleftrightarrow> length (is_rest s') \<le> length (is_rest s) \<and>
     (is_eof s' \<or> length (is_rest s') < length (is_rest s))"

lemma advances_trans: "advances s s' \<Longrightarrow> advances s' s'' \<Longrightarrow> advances s s''"
  by (auto simp: advances_def)

lemma verify_type_advances: "advances s (snd (verify_type ty s))"
  using getline_progress [of "CHR '';''" s] getline_shorter [of "CHR '';''" s]
  by (auto simp: verify_type_def advances_def split: prod.split)

lemma get_string_advances: "advances s (snd (get_string s))"
  using getline_progress [of "CHR '';''" s] getline_shorter [of "CHR '';''" s]
  by (auto simp: get_string_def advances_def split: prod.split)

lemma get_string_ok: "get_string s = (Inr a, s') \<Longrightarrow> advances s s' \<and> \<not> is_eof s'"
  using get_string_advances [of s] by (auto simp: get_string_def split: prod.splits if_splits)

lemma verify_type_ok: "verify_type ty s = (Inr a, s') \<Longrightarrow> advances s s' \<and> \<not> is_eof s'"
  using verify_type_advances [of s ty] by (auto simp: verify_type_def split: prod.splits if_splits)

section \<open>Composite items\<close>

lemma deser_sub_advances: "advances s (snd (deser_sub ty d s))"
proof -
  obtain r1 s1 where v: "verify_type ty s = (r1, s1)" by fastforce
  obtain r2 s2 where g: "get_string s1 = (r2, s2)" by fastforce
  show ?thesis
    using verify_type_advances [of s ty] get_string_advances [of s1] verify_type_ok [of ty s] v g
      advances_trans [of s s1 s2]
    by (cases r1; cases r2) (auto simp: deser_sub_def dlift_def dbind_def)
qed

lemma deser_sub_end:
  "CHR '';'' \<notin> set x \<Longrightarrow>
     deser_sub ty d \<lparr> is_rest = x, is_eof = False \<rparr> =
       (Inl UnexpectedEndWhenDeserializing, \<lparr> is_rest = [], is_eof = True \<rparr>)"
  by (simp add: deser_sub_def)

lemma deser_sub_errors:
  assumes "\<And>s. fst (d s) \<noteq> Inl Diverges"
  shows "fst (deser_sub ty d s) \<noteq> Inl Diverges"
proof -
  have dec: "decode_loop a b c \<noteq> Inl Diverges" for a b c
    by (induction a b c rule: decode_loop.induct) (auto split: list.split)
  have v: "fst (verify_type ty s) \<noteq> Inl Diverges" "fst (get_string s') \<noteq> Inl Diverges" for s'
    by (auto simp: verify_type_def get_string_def split: prod.splits)
  obtain r1 s1 where e1: "verify_type ty s = (r1, s1)" by fastforce
  obtain r2 s2 where e2: "get_string s1 = (r2, s2)" by fastforce
  show ?thesis
    using v(1) v(2) [of s1] e1 e2 assms dec
    by (cases r1; cases r2)
      (auto simp: deser_sub_def dlift_def dbind_def rbind_Inl_iff ItemDeserializer_def decode_string_def)
qed

text \<open>The text the inner deserializer runs on: an empty one is written as a placeholder.\<close>

definition contained :: "string \<Rightarrow> string" where
  "contained body = (if body = [] then ''<empty>'' else body)"

lemma contained_decode: "nul_free body \<Longrightarrow> decode_string (encode_string body) = Inr (contained body)"
proof (cases "body = []")
  case True
  have "decode_string ''<empty>'' = Inr ''<empty>''" by (rule decode_string_plain) auto
  with True show ?thesis by (simp add: contained_def encode_string_def)
qed (simp add: contained_def decode_encode_string)

lemma deser_sub_ser_sub [vk_round]:
  assumes "nul_free body" "CHR '';'' \<notin> set ty"
  shows "deser_sub ty d \<lparr> is_rest = ser_sub ty body @ r, is_eof = False \<rparr> =
    (fst (d \<lparr> is_rest = contained body, is_eof = False \<rparr>), \<lparr> is_rest = r, is_eof = False \<rparr>)"
proof -
  have n: "nul_free (encode_string body)" "encode_string body \<noteq> []"
    using assms by auto
  then have "decode_string (encode_string (ser_result body)) = Inr (encode_string body)"
    by (simp add: ser_result_def decode_encode_string)
  moreover have "CHR '';'' \<notin> set (encode_string (ser_result body))"
    using encode_string_no_delim [OF n(1)] by (simp add: ser_result_def)
  ultimately show ?thesis
    using assms
    by (simp add: deser_sub_def ser_sub_def dlift_def ItemDeserializer_def contained_decode istringstream_def)
qed

lemma ser_sub_nul_free: "nul_free body \<Longrightarrow> nul_free ty \<Longrightarrow> nul_free (ser_sub ty body)"
  by (simp add: ser_sub_def ser_result_def)

lemma ser_sub_length: "nul_free body \<Longrightarrow> length (ser_sub ty body) \<le> length ty + 9 * length body + 30"
  using encode_string_length [of body] encode_string_length [of "encode_string body"]
  by (simp add: ser_sub_def ser_result_def)

section \<open>The contract of a serializable type\<close>

locale serderizable =
  fixes ser :: "'a \<Rightarrow> string"
    and deser :: "'a deser"
    and valid :: "'a \<Rightarrow> bool"
  assumes round_trip: "valid x \<Longrightarrow>
      deser \<lparr> is_rest = ser x @ r, is_eof = False \<rparr> = (Inr x, \<lparr> is_rest = r, is_eof = False \<rparr>)"
    and ser_nul_free: "valid x \<Longrightarrow> nul_free (ser x)"
    and progress: "advances s (snd (deser s))"
    and no_field: "CHR '';'' \<notin> set t \<Longrightarrow>
      deser \<lparr> is_rest = t, is_eof = False \<rparr> =
        (Inl UnexpectedEndWhenDeserializing, \<lparr> is_rest = [], is_eof = True \<rparr>)"
    and returns: "fst (deser s) \<noteq> Inl Diverges"
begin

lemma ser_nonempty: "valid x \<Longrightarrow> ser x \<noteq> []"
  using round_trip [of x "[]"] progress [of "\<lparr> is_rest = [], is_eof = False \<rparr>"]
  by (auto simp: advances_def)

lemma valid_inj: "valid x \<Longrightarrow> valid y \<Longrightarrow> ser x = ser y \<Longrightarrow> x = y"
  using round_trip [of x "[]"] round_trip [of y "[]"] by simp

text \<open>A container loop over well-formed text reads every element and stops.\<close>

lemma loop_reads:
  "\<forall>x \<in> set xs. valid x \<Longrightarrow> length xs < n \<Longrightarrow>
     container_loop n deser ins acc \<lparr> is_rest = concat (map ser xs), is_eof = False \<rparr> =
       (Inr (fold ins xs acc), \<lparr> is_rest = [], is_eof = True \<rparr>)"
proof (induction xs arbitrary: n acc)
  case Nil
  then obtain m where "n = Suc m" by (cases n) auto
  then show ?case using no_field [of "[]"] by (simp add: container_loop.simps)
next
  case (Cons x xs)
  then obtain m where "n = Suc m" "length xs < m" by (cases n) auto
  with Cons show ?case by (subst container_loop.simps) (simp add: round_trip)
qed

lemma loop_empty:
  "container_loop (Suc n) deser ins acc \<lparr> is_rest = ''<empty>'', is_eof = False \<rparr> =
     (Inr acc, \<lparr> is_rest = [], is_eof = True \<rparr>)"
  by (simp add: container_loop.simps no_field)

lemma length_concat_ser: "\<forall>x \<in> set xs. valid x \<Longrightarrow> length xs \<le> length (concat (map ser xs))"
proof (induction xs)
  case (Cons x xs)
  moreover obtain c cs where "ser x = c # cs"
    using Cons.prems ser_nonempty [of x] by (cases "ser x") auto
  ultimately show ?case by simp
qed simp

lemma loop_contained:
  assumes "\<forall>x \<in> set xs. valid x"
  shows "fst (container_loop (length (contained (concat (map ser xs))) + 1) deser ins acc
    \<lparr> is_rest = contained (concat (map ser xs)), is_eof = False \<rparr>) = Inr (fold ins xs acc)"
proof (cases xs)
  case Nil
  then show ?thesis by (simp add: contained_def loop_empty)
next
  case (Cons y ys)
  then have "concat (map ser xs) \<noteq> []" using assms ser_nonempty [of y] by simp
  then have "contained (concat (map ser xs)) = concat (map ser xs)" unfolding contained_def by (rule if_not_P)
  then show ?thesis
    using assms length_concat_ser [OF assms] by (simp only:) (simp add: loop_reads)
qed

text \<open>The iteration bound is never reached, whatever the text.\<close>

lemma loop_returns: "length (is_rest s) < n \<Longrightarrow> fst (container_loop n deser ins acc s) \<noteq> Inl Diverges"
proof (induction n arbitrary: s acc)
  case (Suc n)
  obtain r s' where d: "deser s = (r, s')" by fastforce
  have adv: "is_eof s' \<or> length (is_rest s') < n"
    using progress [of s] d Suc.prems by (auto simp: advances_def)
  have rec: "fst (container_loop n deser ins acc' s') \<noteq> Inl Diverges" for acc'
  proof (cases "is_eof s'")
    case True
    then show ?thesis by (subst container_loop.simps) simp
  next
    case False
    with adv Suc.IH show ?thesis by simp
  qed
  show ?case
    using d rec returns [of s]
    by (subst container_loop.simps) (auto split: sum.split ser_error.split)
qed simp

lemma array_reads:
  "\<forall>x \<in> set xs. valid x \<Longrightarrow> length old = length xs \<Longrightarrow>
     array_loop deser old \<lparr> is_rest = concat (map ser xs) @ r, is_eof = False \<rparr> =
       (Inr xs, \<lparr> is_rest = r, is_eof = False \<rparr>)"
proof (induction xs arbitrary: old)
  case (Cons x xs)
  then obtain o1 os where "old = o1 # os" "length os = length xs" by (cases old) auto
  with Cons show ?case by (simp add: round_trip dreturn_def)
qed simp

lemma array_returns: "fst (array_loop deser old s) \<noteq> Inl Diverges"
proof (induction old arbitrary: s)
  case (Cons x xs)
  obtain r s' where d: "deser s = (r, s')" by fastforce
  obtain r' s'' where a: "array_loop deser xs s' = (r', s'')" by fastforce
  show ?case
    using d a returns [of s] Cons.IH [of s']
    by (cases r') (auto simp: dbind_def dreturn_def split: sum.split ser_error.split)
qed simp

end

section \<open>Scalar items\<close>

lemma dbind_field_advances: "advances s (snd (dbind (verify_type ty) (\<lambda>_. dbind get_string (\<lambda>v. dlift (f v))) s))"
proof -
  obtain r1 s1 where v: "verify_type ty s = (r1, s1)" by fastforce
  obtain r2 s2 where g: "get_string s1 = (r2, s2)" by fastforce
  show ?thesis
    using verify_type_advances [of s ty] get_string_advances [of s1] verify_type_ok [of ty s] v g
      advances_trans [of s s1 s2]
    by (cases r1; cases r2) (auto simp: dlift_def dbind_def)
qed

lemma dbind_field_returns:
  assumes "\<And>v. f v \<noteq> Inl Diverges"
  shows "fst (dbind (verify_type ty) (\<lambda>_. dbind get_string (\<lambda>v. dlift (f v))) s) \<noteq> Inl Diverges"
  using assms
  by (auto simp: dbind_def verify_type_def get_string_def dlift_def split: prod.splits sum.splits if_splits)

lemma dreturn_dlift: "dreturn a = dlift (Inr a)"
  by (simp add: fun_eq_iff dreturn_def dlift_def)

lemma decode_string_returns: "decode_string v \<noteq> Inl Diverges"
proof -
  have "decode_loop a b c \<noteq> Inl Diverges" for a b c
    by (induction a b c rule: decode_loop.induct) (auto split: list.split)
  then show ?thesis by (simp add: decode_string_def)
qed

lemma field_round_trip:
  assumes "CHR '';'' \<notin> set ty" "CHR '';'' \<notin> set x"
  shows "dbind (verify_type ty) (\<lambda>_. dbind get_string (\<lambda>v. dlift (f v)))
      \<lparr> is_rest = ty @ CHR '';'' # x @ CHR '';'' # r, is_eof = False \<rparr> =
    (f x, \<lparr> is_rest = r, is_eof = False \<rparr>)"
  using assms by (simp add: dlift_def)

definition string_valid :: "string \<Rightarrow> bool" where
  "string_valid v \<longleftrightarrow> v \<noteq> [] \<and> nul_free v"

definition int_valid :: "int \<Rightarrow> bool" where
  "int_valid v \<longleftrightarrow> - (2 ^ 31) \<le> v \<and> v < 2 ^ 31"

definition uint_valid :: "nat \<Rightarrow> bool" where
  "uint_valid v \<longleftrightarrow> v < 2 ^ 32"

lemma show_nat_clean: "CHR '';'' \<notin> set (show_nat n)" "nul_free (show_nat n)"
  by (auto simp: nul_free_def is_digit_def dest: show_nat_digits)

lemma show_int_clean: "CHR '';'' \<notin> set (show_int i)" "nul_free (show_int i)"
  using show_nat_clean by (auto simp: show_int_def)

interpretation strings: serderizable ser_string deser_string string_valid
proof
  fix x r assume "string_valid x"
  then show "deser_string \<lparr> is_rest = ser_string x @ r, is_eof = False \<rparr> = (Inr x, \<lparr> is_rest = r, is_eof = False \<rparr>)"
    using field_round_trip [of "''string''" "encode_string x" decode_string r]
    by (simp add: string_valid_def deser_string_def ser_string_def decode_encode_string encode_string_no_delim)
qed (auto simp: string_valid_def deser_string_def ser_string_def dbind_field_advances
    intro!: dbind_field_returns decode_string_returns)

interpretation bools: serderizable ser_bool deser_bool "\<lambda>_. True"
proof
  fix x r
  show "deser_bool \<lparr> is_rest = ser_bool x @ r, is_eof = False \<rparr> = (Inr x, \<lparr> is_rest = r, is_eof = False \<rparr>)"
    using field_round_trip [of "''bool''" "if x then ''true'' else ''false''" "\<lambda>v. Inr (v = ''true'')" r]
    by (cases x) (simp_all add: deser_bool_def ser_bool_def dreturn_dlift)
qed (auto simp: deser_bool_def ser_bool_def dreturn_dlift dbind_field_advances intro!: dbind_field_returns)

interpretation ints: serderizable ser_int deser_int int_valid
proof
  fix x r assume "int_valid x"
  then show "deser_int \<lparr> is_rest = ser_int x @ r, is_eof = False \<rparr> = (Inr x, \<lparr> is_rest = r, is_eof = False \<rparr>)"
    using field_round_trip [of "''int''" "show_int x" "\<lambda>v. Inr (stoi v)" r]
    by (simp add: int_valid_def deser_int_def ser_int_def dreturn_dlift show_int_clean stoi_show_int)
qed (auto simp: deser_int_def ser_int_def dreturn_dlift show_int_clean dbind_field_advances
    intro!: dbind_field_returns)

interpretation uints: serderizable ser_uint deser_uint uint_valid
proof
  fix x r assume "uint_valid x"
  then show "deser_uint \<lparr> is_rest = ser_uint x @ r, is_eof = False \<rparr> = (Inr x, \<lparr> is_rest = r, is_eof = False \<rparr>)"
    using field_round_trip [of "''uint''" "show_nat x" "\<lambda>v. Inr (stoul v)" r]
    by (simp add: uint_valid_def deser_uint_def ser_uint_def dreturn_dlift show_nat_clean stoul_show_nat)
qed (auto simp: deser_uint_def ser_uint_def dreturn_dlift show_nat_clean dbind_field_advances
    intro!: dbind_field_returns)

section \<open>Composite types keep the contract\<close>

text \<open>Two fields after each other, as the statements of a \<open>serderize\<close> method.\<close>

definition ser_seq :: "('u \<Rightarrow> string) \<Rightarrow> ('v \<Rightarrow> string) \<Rightarrow> 'u \<times> 'v \<Rightarrow> string" where
  "ser_seq su sv p = su (fst p) @ sv (snd p)"

definition deser_seq :: "'u deser \<Rightarrow> 'v deser \<Rightarrow> ('u \<times> 'v) deser" where
  "deser_seq du dv = dbind du (\<lambda>a. dbind dv (\<lambda>b. dreturn (a, b)))"

lemma deser_pair_seq: "deser_pair du dv = deser_sub ''pair'' (deser_seq du dv)"
  by (simp add: deser_pair_def deser_seq_def)

locale serderizable2 = u: serderizable su du vu + v: serderizable sv dv vv
  for su :: "'u \<Rightarrow> string" and du vu and sv :: "'v \<Rightarrow> string" and dv vv
begin

lemma seq_reads:
  "vu (fst p) \<Longrightarrow> vv (snd p) \<Longrightarrow>
     deser_seq du dv \<lparr> is_rest = ser_seq su sv p @ r, is_eof = False \<rparr> =
       (Inr p, \<lparr> is_rest = r, is_eof = False \<rparr>)"
  by (simp add: deser_seq_def ser_seq_def u.round_trip v.round_trip dreturn_def)

lemma seq_returns: "fst (deser_seq du dv s) \<noteq> Inl Diverges"
proof -
  obtain r1 s1 where a: "du s = (r1, s1)" by fastforce
  obtain r2 s2 where b: "dv s1 = (r2, s2)" by fastforce
  show ?thesis
    using a b u.returns [of s] v.returns [of s1]
    by (cases r1; cases r2) (auto simp: deser_seq_def dbind_def dreturn_def)
qed

lemma seq_nonempty: "vu (fst p) \<Longrightarrow> ser_seq su sv p \<noteq> []"
  using u.ser_nonempty by (simp add: ser_seq_def)

end

sublocale serderizable2 \<subseteq> pair: serderizable "ser_pair su sv" "deser_pair du dv" "\<lambda>p. vu (fst p) \<and> vv (snd p)"
proof
  fix x :: "'u \<times> 'v" and r assume "vu (fst x) \<and> vv (snd x)"
  then show "deser_pair du dv \<lparr> is_rest = ser_pair su sv x @ r, is_eof = False \<rparr> = (Inr x, \<lparr> is_rest = r, is_eof = False \<rparr>)"
    using seq_reads [of x "[]"] u.ser_nonempty [of "fst x"] u.ser_nul_free v.ser_nul_free
    by (simp add: deser_pair_seq ser_pair_def deser_sub_ser_sub contained_def ser_seq_def)
qed (auto simp: deser_pair_seq ser_pair_def deser_sub_advances deser_sub_end
    u.ser_nul_free v.ser_nul_free seq_returns intro!: ser_sub_nul_free deser_sub_errors)

sublocale serderizable2 \<subseteq> seq: serderizable "ser_seq su sv" "deser_seq du dv" "\<lambda>p. vu (fst p) \<and> vv (snd p)"
proof
  fix s
  obtain r1 s1 where a: "du s = (r1, s1)" by fastforce
  obtain r2 s2 where b: "dv s1 = (r2, s2)" by fastforce
  show "advances s (snd (deser_seq du dv s))"
    using a b u.progress [of s] v.progress [of s1] advances_trans [of s s1 s2]
    by (cases r1; cases r2) (auto simp: deser_seq_def dbind_def dreturn_def)
next
  fix t :: string assume "CHR '';'' \<notin> set t"
  then show "deser_seq du dv \<lparr> is_rest = t, is_eof = False \<rparr> =
      (Inl UnexpectedEndWhenDeserializing, \<lparr> is_rest = [], is_eof = True \<rparr>)"
    by (simp add: deser_seq_def u.no_field)
next
  fix p r assume "vu (fst p) \<and> vv (snd p)"
  then show "deser_seq du dv \<lparr> is_rest = ser_seq su sv p @ r, is_eof = False \<rparr> = (Inr p, \<lparr> is_rest = r, is_eof = False \<rparr>)"
    by (simp add: seq_reads)
qed (auto simp: seq_returns u.ser_nul_free v.ser_nul_free ser_seq_def)

text \<open>Containers of serializable elements.\<close>

locale serderizable_elements = elem: serderizable ser deser valid
  for ser :: "'a \<Rightarrow> string" and deser valid

sublocale serderizable_elements \<subseteq> container: serderizable "ser_container ser" "deser_container deser" "\<lambda>xs. \<forall>x \<in> set xs. valid x"
proof
  fix xs r assume v: "\<forall>x \<in> set xs. valid x"
  have "fold (\<lambda>element elements. elements @ [element]) xs acc = acc @ xs" for acc
    by (induction xs arbitrary: acc) auto
  with v show "deser_container deser \<lparr> is_rest = ser_container ser xs @ r, is_eof = False \<rparr> = (Inr xs, \<lparr> is_rest = r, is_eof = False \<rparr>)"
    using elem.ser_nul_free
    by (simp add: deser_container_def ser_container_def deser_sub_ser_sub
        elem.loop_contained [OF v, simplified])
qed (auto simp: deser_container_def ser_container_def deser_sub_advances deser_sub_end
    elem.ser_nul_free elem.loop_returns intro!: ser_sub_nul_free deser_sub_errors)

text \<open>A \<open>std::map\<close> is written as a container of pairs and read into an empty map.\<close>

locale serderizable_map = serderizable2 su du vu sv dv vv
  for su :: "'k :: linorder \<Rightarrow> string" and du vu and sv :: "'v \<Rightarrow> string" and dv vv

sublocale serderizable_map \<subseteq> map: serderizable "ser_container (ser_pair su sv)" "deser_map (deser_pair du dv) []"
  "\<lambda>m. map_ok m \<and> (\<forall>p \<in> set m. vu (fst p) \<and> vv (snd p))"
proof
  fix m :: "('k, 'v) smap" and r
  assume m: "map_ok m \<and> (\<forall>p \<in> set m. vu (fst p) \<and> vv (snd p))"
  then have v: "\<forall>p \<in> set m. vu (fst p) \<and> vv (snd p)" by simp
  show "deser_map (deser_pair du dv) [] \<lparr> is_rest = ser_container (ser_pair su sv) m @ r, is_eof = False \<rparr> =
      (Inr m, \<lparr> is_rest = r, is_eof = False \<rparr>)"
    using m pair.ser_nul_free
    by (simp add: deser_map_def ser_container_def deser_sub_ser_sub
        pair.loop_contained [OF v, simplified] map_insert_rebuild)
qed (auto simp: deser_map_def ser_container_def deser_sub_advances deser_sub_end
    pair.ser_nul_free pair.loop_returns intro!: ser_sub_nul_free deser_sub_errors)

text \<open>An object with a type identifier, whose \<open>serderize\<close> writes and reads the body.\<close>

locale serderizable_object = body: serderizable ser deser valid
  for ser :: "'a \<Rightarrow> string" and deser valid +
  fixes ident :: string
  assumes ident_clean: "CHR '';'' \<notin> set ident" "nul_free ident"

sublocale serderizable_object \<subseteq> object: serderizable "ser_object ident ser" "deser_object ident deser" valid
proof
  fix x r assume "valid x"
  then show "deser_object ident deser \<lparr> is_rest = ser_object ident ser x @ r, is_eof = False \<rparr> =
      (Inr x, \<lparr> is_rest = r, is_eof = False \<rparr>)"
    using body.round_trip [of x "[]"] body.ser_nonempty [of x] body.ser_nul_free [of x] ident_clean
    by (simp add: deser_object_def ser_object_def deser_sub_ser_sub contained_def)
qed (auto simp: deser_object_def ser_object_def deser_sub_advances deser_sub_end ident_clean
    body.ser_nul_free body.returns intro!: ser_sub_nul_free deser_sub_errors)

text \<open>The fields of a record, read in order and put together.\<close>

definition dmap :: "('a \<Rightarrow> 'b) \<Rightarrow> 'a deser \<Rightarrow> 'b deser" where
  "dmap f d = dbind d (\<lambda>a. dreturn (f a))"

locale serderizable_record = fields: serderizable ser deser valid
  for ser :: "'a \<Rightarrow> string" and deser valid +
  fixes dest :: "'b \<Rightarrow> 'a" and make :: "'a \<Rightarrow> 'b"
  assumes make_dest: "make (dest b) = b"

sublocale serderizable_record \<subseteq> rec: serderizable "\<lambda>b. ser (dest b)" "dmap make deser" "\<lambda>b. valid (dest b)"
proof
  fix s
  obtain r s' where d: "deser s = (r, s')" by fastforce
  show "advances s (snd (dmap make deser s))"
    using d fields.progress [of s] by (cases r) (auto simp: dmap_def dbind_def dreturn_def)
  show "fst (dmap make deser s) \<noteq> Inl Diverges"
    using d fields.returns [of s] by (cases r) (auto simp: dmap_def dbind_def dreturn_def)
qed (auto simp: dmap_def dreturn_def make_dest fields.round_trip fields.ser_nul_free fields.no_field)

text \<open>An array of a fixed size: the text of \<open>n\<close> elements fills an array of \<open>n\<close> elements.\<close>

locale serderizable_array = entry: serderizable ser deser valid
  for ser :: "'a \<Rightarrow> string" and deser valid +
  fixes old :: "'a list"
  assumes old_nonempty: "old \<noteq> []"

sublocale serderizable_array \<subseteq> array: serderizable "ser_array ser" "deser_array deser old"
  "\<lambda>xs. length xs = length old \<and> (\<forall>x \<in> set xs. valid x)"
proof
  fix xs r assume v: "length xs = length old \<and> (\<forall>x \<in> set xs. valid x)"
  then obtain y ys where "xs = y # ys" using old_nonempty by (cases xs) auto
  with v entry.ser_nonempty [of y] have ne: "concat (map ser xs) \<noteq> []" by simp
  have "contained (concat (map ser xs)) = concat (map ser xs)"
    unfolding contained_def using ne by (rule if_not_P)
  with v show "deser_array deser old \<lparr> is_rest = ser_array ser xs @ r, is_eof = False \<rparr> =
      (Inr xs, \<lparr> is_rest = r, is_eof = False \<rparr>)"
    using entry.array_reads [of xs old "[]"] entry.ser_nul_free
    by (simp add: deser_array_def ser_array_def deser_sub_ser_sub)
qed (auto simp: deser_array_def ser_array_def deser_sub_advances deser_sub_end
    entry.ser_nul_free entry.array_returns intro!: ser_sub_nul_free deser_sub_errors)

section \<open>Deserializers put together\<close>

lemma dbind_assoc: "dbind (dbind d f) g = dbind d (\<lambda>a. dbind (f a) g)"
  by (rule ext) (simp add: dbind_def split: prod.split sum.split)

lemma dbind_dreturn: "dbind (dreturn a) f = f a"
  by (rule ext) (simp add: dbind_def dreturn_def)

text \<open>Weaker than \<open>advances\<close>: a step may also leave the stream where it is.\<close>

definition stays_or_advances :: "istream \<Rightarrow> istream \<Rightarrow> bool" where
  "stays_or_advances s s' \<longleftrightarrow> s' = s \<or> advances s s'"

lemma dbind_advances:
  assumes "advances s (snd (d s))" "\<And>a s'. d s = (Inr a, s') \<Longrightarrow> stays_or_advances s' (snd (f a s'))"
  shows "advances s (snd (dbind d f s))"
proof -
  obtain r s' where d: "d s = (r, s')" by fastforce
  show ?thesis
  proof (cases r)
    case (Inr a)
    with d assms(2) [of a s'] assms(1) show ?thesis
      by (auto simp: stays_or_advances_def intro: advances_trans)
  qed (use d assms(1) in simp)
qed

lemma stays_or_advancesI:
  "advances s s' \<Longrightarrow> stays_or_advances s s'" "stays_or_advances s s"
  "stays_or_advances s (snd (dreturn a s))"
  by (simp_all add: stays_or_advances_def dreturn_def)

lemma dbind_returns:
  assumes "fst (d s) \<noteq> Inl Diverges" "\<And>a s'. d s = (Inr a, s') \<Longrightarrow> fst (f a s') \<noteq> Inl Diverges"
  shows "fst (dbind d f s) \<noteq> Inl Diverges"
proof -
  obtain r s' where d: "d s = (r, s')" by fastforce
  with assms show ?thesis by (cases r) auto
qed

lemma dreturn_returns: "fst (dreturn a s) \<noteq> Inl Diverges"
  by (simp add: dreturn_def)

lemmas dbind_monad = dmap_def deser_seq_def dbind_assoc dbind_dreturn

lemma dbind_bool:
  "dbind deser_bool f \<lparr> is_rest = ser_bool b @ r, is_eof = False \<rparr> = f b \<lparr> is_rest = r, is_eof = False \<rparr>"
  using bools.round_trip [of b r] by (simp add: dbind_def)

text \<open>A flag that is read leaves less text.\<close>

lemma deser_bool_ok:
  assumes "deser_bool s = (Inr b, s')"
  shows "length (is_rest s') < length (is_rest s)"
proof -
  obtain s1 v where "verify_type ''bool'' s = (Inr (), s1)" "get_string s1 = (Inr v, s')"
    using assms by (auto simp: deser_bool_def dbind_def dreturn_def split: prod.splits sum.splits)
  then show ?thesis using verify_type_ok [of "''bool''" s "()" s1] get_string_ok [of s1 v s'] by (auto simp: advances_def)
qed

lemma dbind_if_advances:
  "stays_or_advances s (snd (d s)) \<Longrightarrow> stays_or_advances s (snd ((if b then d else dreturn a) s))"
  by (simp add: stays_or_advances_def dreturn_def)

end
