(* ===== verification/Message.thy ===== *)
theory Message
  imports Item_Serializer
begin

text \<open>
  \<open>RemoteInterface::Message\<close> (remote_interface.cc): a set of key/value pairs that travels between
  server and client as an eight-digit hexadecimal length and the text ``key=value;'' of every
  pair. The stream buffer of a message is the text written and not yet read. \<open>read_message\<close>
  composes \<open>do_read_header\<close> and \<open>do_read_body\<close> of \<open>MessageHandler\<close> on the bytes that have
  arrived; \<open>Incomplete\<close> stands for a read that is still waiting for bytes.
\<close>

section \<open>Byte arrays\<close>

definition encode_byte :: "8 word \<Rightarrow> string" where
  "encode_byte d =
     [char_of (unat (drop_bit 4 (d AND 0xf0)) + 97), char_of (unat (d AND 0x0f) + 97)]"

definition encode_byte_array :: "8 word list \<Rightarrow> string" where
  "encode_byte_array bytes = concat (map encode_byte bytes)"

definition byte_of_char :: "char \<Rightarrow> 8 word" where
  "byte_of_char c = word_of_nat (of_char c)"

fun decode_byte_array :: "string \<Rightarrow> 8 word list" where
  "decode_byte_array (a # b # cs) =
     (push_bit 4 (byte_of_char a - 97) OR (byte_of_char b - 97)) # decode_byte_array cs"
| "decode_byte_array _ = []"

section \<open>Messages\<close>

datatype msg_error = NoSuchKey string | IllegalChar | BadEncoding ser_error | Incomplete

record message =
  key2val :: "(string, string) smap"
  data2send :: nat
  encoded :: bool
  sbuf :: string
  body_length :: nat
  awaiting_reply :: bool

definition header_length :: nat where
  "header_length = 8"

definition new_message :: message where
  "new_message = \<lparr> key2val = [], data2send = 0, encoded = False, sbuf = [], body_length = 0,
     awaiting_reply = False \<rparr>"

definition has_delim :: "string \<Rightarrow> bool" where
  "has_delim s \<longleftrightarrow> CHR '';'' \<in> set s \<or> CHR ''='' \<in> set s"

definition set_value :: "string \<Rightarrow> string \<Rightarrow> message \<Rightarrow> (msg_error, message) result" where
  "set_value key val m =
     (if has_delim key \<or> has_delim val then Inl IllegalChar
      else let enc_key = encode_string key; enc_val = encode_string val in
        Inr (m \<lparr> key2val := map_set enc_key enc_val (key2val m),
                 data2send := data2send m + length enc_key + length enc_val + 2,
                 encoded := False \<rparr>))"

definition get_value :: "string \<Rightarrow> message \<Rightarrow> (msg_error, string) result" where
  "get_value key m = (case map_find key (key2val m) of None \<Rightarrow> Inl (NoSuchKey key) | Some v \<Rightarrow> Inr v)"

definition clear_msg_content :: "message \<Rightarrow> message" where
  "clear_msg_content m = m \<lparr> data2send := 0, awaiting_reply := False, key2val := [] \<rparr>"

definition prepare_buffer :: "message \<Rightarrow> message" where
  "prepare_buffer m = clear_msg_content m"

definition commit_data :: "string \<Rightarrow> message \<Rightarrow> message" where
  "commit_data bytes m = m \<lparr> sbuf := sbuf m @ bytes \<rparr>"

definition get_data :: "message \<Rightarrow> string" where
  "get_data m = sbuf m"

definition recycle_message :: "message \<Rightarrow> message" where
  "recycle_message m = clear_msg_content (m \<lparr> sbuf := drop (data2send m) (sbuf m) \<rparr>)"

definition hex_char :: "nat \<Rightarrow> char" where
  "hex_char d = char_of (if d < 10 then 48 + d else 87 + d)"

text \<open>\<open>snprintf(header, 9, "%08x", data2send)\<close>.\<close>

fun show_hex :: "nat \<Rightarrow> nat \<Rightarrow> string" where
  "show_hex 0 n = []"
| "show_hex (Suc k) n = show_hex k (n div 16) @ [hex_char (n mod 16)]"

definition body_text :: "(string, string) smap \<Rightarrow> string" where
  "body_text kvs = concat (map (\<lambda>(k, v). k @ ''='' @ v @ '';'') kvs)"

definition encode_message :: "message \<Rightarrow> message" where
  "encode_message m =
     (if encoded m then m
      else m \<lparr> encoded := True,
               sbuf := sbuf m @ show_hex 8 (data2send m) @ body_text (key2val m),
               data2send := data2send m + header_length \<rparr>)"

text \<open>\<open>sscanf(header, "%08x", &x)\<close>: at most eight characters, an optional prefix, no assignment
  when there is no digit.\<close>

definition scan_hex8 :: "string \<Rightarrow> nat option" where
  "scan_hex8 h =
     (let t = take 8 h;
          d = (case t of x # y # z # _ \<Rightarrow> if x = CHR ''0'' \<and> (y = CHR ''x'' \<or> y = CHR ''X'') \<and> digit_of z < 16
                                        then drop 2 t else t
               | _ \<Rightarrow> t)
      in case d of [] \<Rightarrow> None | c # _ \<Rightarrow> if digit_of c < 16 then Some (digits_value 16 d) else None)"

definition decode_header :: "message \<Rightarrow> message" where
  "decode_header m =
     (let s = dropWhile is_space (sbuf m);
          header = takeWhile (\<lambda>c. \<not> is_space c) s
      in m \<lparr> sbuf := drop (length header) s,
             body_length := (case scan_hex8 header of None \<Rightarrow> body_length m | Some n \<Rightarrow> n) \<rparr>)"

function decode_body_loop ::
  "(string, string) smap \<Rightarrow> string \<Rightarrow> istream \<Rightarrow> (ser_error, (string, string) smap \<times> istream) result" where
  "decode_body_loop kv key s =
     (if is_eof s \<or> key = [] then Inr (kv, s)
      else let (val, s1) = getline CHR '';'' s; (key', s2) = getline CHR ''='' s1 in
        rbind (decode_string key) (\<lambda>k. rbind (decode_string val) (\<lambda>v.
          decode_body_loop (map_set k v kv) key' s2)))"
  by pat_completeness auto
termination
proof (relation "measure (\<lambda>(kv, key, s). if is_eof s then 0 else Suc (length (is_rest s)))")
  fix kv :: "(string, string) smap" and key val key' k v :: string and s s1 s2 :: istream and p q
  assume "\<not> (is_eof s \<or> key = [])" "p = getline CHR '';'' s" "(val, s1) = p"
    "q = getline CHR ''='' s1" "(key', s2) = q"
  then have "\<not> is_eof s" "length (is_rest s1) \<le> length (is_rest s)"
    "is_eof s2 \<or> length (is_rest s2) < length (is_rest s1)"
    using getline_shorter [of "CHR '';''" s val s1] getline_progress [of "CHR ''=''" s1 key' s2]
    by auto
  then show "((map_set k v kv, key', s2), kv, key, s) \<in>
      measure (\<lambda>(kv, key, s). if is_eof s then 0 else Suc (length (is_rest s)))"
    by auto
qed simp

declare decode_body_loop.simps [simp del]

definition decode_body :: "message \<Rightarrow> (ser_error, message) result" where
  "decode_body m =
     (let (key, s) = getline CHR ''='' (istringstream (sbuf m)) in
        rbind (decode_body_loop (key2val m) key s)
          (\<lambda>(kv, s'). Inr (m \<lparr> key2val := kv, sbuf := is_rest s' \<rparr>)))"

text \<open>\<open>do_read_header\<close> and \<open>do_read_body\<close>, on the bytes received so far; the message is ready when
  the result is \<open>Inr\<close>, with the bytes of the messages behind it.\<close>

definition read_message :: "string \<Rightarrow> message \<Rightarrow> (msg_error, message \<times> string) result" where
  "read_message wire m =
     (if length wire < header_length then Inl Incomplete
      else let m1 = decode_header (commit_data (take header_length wire) (prepare_buffer m));
               body = drop header_length wire
           in if length body < body_length m1 then Inl Incomplete
              else (case decode_body (commit_data (take (body_length m1) body) (prepare_buffer m1)) of
                      Inl e \<Rightarrow> Inl (BadEncoding e)
                    | Inr m2 \<Rightarrow> Inr (m2, drop (body_length m1) body)))"

section \<open>Byte arrays survive\<close>

lemma byte_of_char_offset: "n < 128 \<Longrightarrow> byte_of_char (char_of (n + 97)) - 97 = word_of_nat n"
  by (simp add: byte_of_char_def)

lemma decode_encode_byte:
  "decode_byte_array (encode_byte d @ cs) = d # decode_byte_array cs"
proof -
  have m: "(0xf0 :: 8 word) = NOT (mask 4) " "(0x0f :: 8 word) = mask 4"
    by (simp_all add: mask_eq_exp_minus_1)
  have hi: "unat (drop_bit 4 (d AND 0xf0)) < 128"
    using unsigned_drop_bit_eq [of 4 "d AND 0xf0", where ?'a = nat] unsigned_less [of "d AND 0xf0", where ?'a = nat]
    by (simp add: drop_bit_eq_div take_bit_eq_mod)
  have lo: "unat (d AND 0x0f) < 128"
    unfolding m(2) take_bit_eq_mask [symmetric] unsigned_take_bit_eq
    using take_bit_nat_less_exp [of 4 "unat d"] by simp
  have j: "push_bit 4 (drop_bit 4 (d AND 0xf0)) OR (d AND 0x0f) = d"
    unfolding m by (rule bit_word_eqI) (auto simp: bit_simps)
  have w: "word_of_nat (unat x) = x" for x :: "8 word" by simp
  show ?thesis
    by (simp only: encode_byte_def append.simps decode_byte_array.simps
        byte_of_char_offset [OF hi] byte_of_char_offset [OF lo] w j)
qed

lemma decode_encode_byte_array: "decode_byte_array (encode_byte_array bytes) = bytes"
  by (induction bytes) (simp_all add: encode_byte_array_def decode_encode_byte)

section \<open>The header\<close>

lemma digit_of_hex_char [simp]: "d < 16 \<Longrightarrow> digit_of (hex_char d) = d"
  by (simp add: hex_char_def digit_of_def Let_def)

lemma hex_char_facts:
  "d < 16 \<Longrightarrow> \<not> is_space (hex_char d) \<and> hex_char d \<noteq> CHR ''x'' \<and> hex_char d \<noteq> CHR ''X''"
proof -
  assume d: "d < 16"
  have "(of_char (hex_char d) :: nat) = (if d < 10 then 48 + d else 87 + d)"
    using d by (simp add: hex_char_def)
  moreover have "of_char (hex_char d) \<noteq> (of_char CHR ''x'' :: nat)" "of_char (hex_char d) \<noteq> (of_char CHR ''X'' :: nat)"
    using d calculation by (simp_all split: if_splits)
  ultimately show ?thesis using d by (auto simp: is_space_def split: if_splits)
qed

lemma show_hex_length [simp]: "length (show_hex k n) = k"
  by (induction k arbitrary: n) auto

lemma show_hex_chars: "c \<in> set (show_hex k n) \<Longrightarrow> \<exists>d < 16. c = hex_char d"
proof (induction k arbitrary: n)
  case (Suc k)
  have "\<exists>d < 16. hex_char (n mod 16) = hex_char d" by (rule exI [of _ "n mod 16"]) simp
  with Suc show ?case by auto
qed simp

lemma show_hex_value: "foldl (\<lambda>a c. a * 16 + digit_of c) 0 (show_hex k n) = n mod 16 ^ k"
proof (induction k arbitrary: n)
  case (Suc k)
  have "n mod 16 ^ Suc k = 16 * (n div 16 mod 16 ^ k) + n mod 16"
    by (simp add: mod_mult2_eq)
  with Suc show ?case by simp
qed simp

lemma scan_show_hex:
  assumes "n < 2 ^ 32"
  shows "scan_hex8 (show_hex 8 n) = Some n"
proof -
  obtain x y z r where h: "show_hex 8 n = x # y # z # r"
    using show_hex_length [of 8 n]
    by (cases "show_hex 8 n"; cases "tl (show_hex 8 n)"; cases "tl (tl (show_hex 8 n))")
      (auto simp del: show_hex_length)
  have dig: "\<forall>c \<in> set (show_hex 8 n). digit_of c < 16 \<and> c \<noteq> CHR ''x'' \<and> c \<noteq> CHR ''X''"
    using show_hex_chars [of _ 8 n] hex_char_facts by fastforce
  then have tw: "takeWhile (\<lambda>c. digit_of c < 16) (show_hex 8 n) = show_hex 8 n"
    by (simp add: takeWhile_eq_all_conv)
  have "digits_value 16 (show_hex 8 n) = n"
    unfolding digits_value_def tw using assms show_hex_value [of 8 n] by simp
  moreover have "take 8 (show_hex 8 n) = show_hex 8 n"
    by simp
  ultimately show ?thesis
    using h dig by (simp add: scan_hex8_def Let_def)
qed

lemma decode_header_show_hex:
  assumes "n < 2 ^ 32"
  shows "decode_header (m \<lparr> sbuf := show_hex 8 n \<rparr>) = m \<lparr> sbuf := [], body_length := n \<rparr>"
proof -
  have sp: "\<forall>c \<in> set (show_hex 8 n). \<not> is_space c"
    using show_hex_chars [of _ 8 n] hex_char_facts by fastforce
  have dw: "dropWhile is_space (show_hex 8 n) = show_hex 8 n"
    using sp by (cases "show_hex 8 n") auto
  have tw: "takeWhile (\<lambda>c. \<not> is_space c) (show_hex 8 n) = show_hex 8 n"
    using sp by (simp add: takeWhile_eq_all_conv)
  show ?thesis
    using assms by (simp add: decode_header_def Let_def scan_show_hex dw tw)
qed

section \<open>The body\<close>

text \<open>A string that survives as a key or a value.\<close>

definition plain :: "string \<Rightarrow> bool" where
  "plain s \<longleftrightarrow> s \<noteq> [] \<and> nul_free s \<and> \<not> has_delim s"

lemma plain_encode:
  assumes "plain s"
  shows "encode_string s \<noteq> []" "CHR ''='' \<notin> set (encode_string s)" "CHR '';'' \<notin> set (encode_string s)"
    "decode_string (encode_string s) = Inr s"
  using assms by (simp_all add: plain_def encode_string_no_delim decode_encode_string)

text \<open>The text of an item is a plain value of a message.\<close>

lemma ser_result_plain: "t \<noteq> [] \<Longrightarrow> nul_free t \<Longrightarrow> plain (ser_result t)"
  unfolding plain_def has_delim_def ser_result_def
  using encode_string_no_delim by auto

lemma encode_string_inj: "plain s \<Longrightarrow> plain t \<Longrightarrow> encode_string s = encode_string t \<Longrightarrow> s = t"
  by (metis plain_encode(4) sum.inject(2))

abbreviation encode_pair :: "string \<times> string \<Rightarrow> string \<times> string" where
  "encode_pair p \<equiv> (encode_string (fst p), encode_string (snd p))"

lemma body_text_simps [simp]:
  "body_text [] = []"
  "body_text ((k, v) # m) = k @ CHR ''='' # v @ CHR '';'' # body_text m"
  by (simp_all add: body_text_def)

lemma decode_body_loop_text:
  assumes "\<forall>p \<in> set ps. plain (fst p) \<and> plain (snd p)"
    "getline CHR ''='' (istringstream (body_text (map encode_pair ps))) = (key, s)"
  shows "decode_body_loop kv key s =
    Inr (fold (\<lambda>(k, v). map_set k v) ps kv, \<lparr> is_rest = [], is_eof = True \<rparr>)"
  using assms
proof (induction ps arbitrary: kv key s)
  case Nil
  then have "key = []" "s = \<lparr> is_rest = [], is_eof = True \<rparr>"
    by (simp_all add: istringstream_def getline_end)
  then show ?case by (simp add: decode_body_loop.simps)
next
  case (Cons p ps)
  obtain k v where p: "p = (k, v)" by fastforce
  let ?T = "body_text (map encode_pair ps)"
  obtain key' s2 where g: "getline CHR ''='' (istringstream ?T) = (key', s2)" by fastforce
  have kv: "plain k" "plain v" using Cons.prems p by auto
  have ks: "key = encode_string k" "s = \<lparr> is_rest = encode_string v @ CHR '';'' # ?T, is_eof = False \<rparr>"
    using Cons.prems(2) p kv by (simp_all add: istringstream_def getline_field plain_encode)
  have "getline CHR '';'' s = (encode_string v, istringstream ?T)"
    using ks kv by (simp add: getline_field plain_encode istringstream_def)
  then show ?case
    using ks kv g p Cons.IH [OF _ g] Cons.prems
    by (subst decode_body_loop.simps) (simp add: plain_encode)
qed

lemma decode_body_text:
  assumes "\<forall>p \<in> set ps. plain (fst p) \<and> plain (snd p)"
  shows "decode_body (m \<lparr> sbuf := body_text (map encode_pair ps), key2val := [] \<rparr>) =
    Inr (m \<lparr> key2val := fold (\<lambda>(k, v). map_set k v) ps [], sbuf := [] \<rparr>)"
proof -
  obtain key s where g: "getline CHR ''='' (istringstream (body_text (map encode_pair ps))) = (key, s)"
    by fastforce
  from decode_body_loop_text [OF assms g, of "[]"] g show ?thesis
    by (simp add: decode_body_def)
qed

section \<open>A message under construction\<close>

text \<open>The pairs set so far, the byte count in step with the text they will become.\<close>

definition msg_ok :: "message \<Rightarrow> bool" where
  "msg_ok m \<longleftrightarrow> map_ok (key2val m) \<and> \<not> encoded m \<and> sbuf m = [] \<and>
     data2send m = length (body_text (key2val m)) \<and>
     (\<exists>ps. key2val m = map encode_pair ps \<and> (\<forall>p \<in> set ps. plain (fst p) \<and> plain (snd p)))"

lemma new_message_ok: "msg_ok new_message"
  by (simp add: msg_ok_def new_message_def)

lemma length_body_map_set:
  assumes "map_ok kv"
  shows "length (body_text (map_set k v kv)) +
      (case map_find k kv of None \<Rightarrow> 0 | Some ov \<Rightarrow> length k + length ov + 2) =
    length (body_text kv) + length k + length v + 2"
  using assms by (induction k v kv rule: map_set.induct) (auto simp: map_find_None_below split: option.splits)

lemma map_set_encoded:
  assumes "plain k" "plain v" "\<forall>p \<in> set ps. plain (fst p) \<and> plain (snd p)"
  shows "\<exists>qs. map_set (encode_string k) (encode_string v) (map encode_pair ps) = map encode_pair qs \<and>
    (\<forall>p \<in> set qs. plain (fst p) \<and> plain (snd p))"
  using assms(3)
proof (induction ps)
  case Nil
  with assms show ?case by (intro exI [of _ "[(k, v)]"]) simp
next
  case (Cons p ps)
  then obtain qs where qs: "map_set (encode_string k) (encode_string v) (map encode_pair ps) = map encode_pair qs"
    "\<forall>p \<in> set qs. plain (fst p) \<and> plain (snd p)" by auto
  consider "encode_string k = encode_string (fst p)" | "encode_string k < encode_string (fst p)"
    | "encode_string k > encode_string (fst p)" by fastforce
  then show ?case
  proof cases
    case 1
    with Cons assms show ?thesis by (intro exI [of _ "(k, v) # ps"]) auto
  next
    case 2
    with Cons assms show ?thesis by (intro exI [of _ "(k, v) # p # ps"]) auto
  next
    case 3
    with Cons qs show ?thesis by (intro exI [of _ "p # qs"]) auto
  qed
qed

lemma set_value_ok [vk_inv]:
  assumes "msg_ok m" "plain k" "plain v" "map_find (encode_string k) (key2val m) = None"
  shows "\<exists>m'. set_value k v m = Inr m' \<and> msg_ok m' \<and>
    key2val m' = map_set (encode_string k) (encode_string v) (key2val m)"
proof -
  have "map_ok (key2val m)" using assms(1) by (simp add: msg_ok_def)
  note len = length_body_map_set [OF this, of "encode_string k" "encode_string v"]
  from assms(1) obtain ps where "key2val m = map encode_pair ps" "\<forall>p \<in> set ps. plain (fst p) \<and> plain (snd p)"
    by (auto simp: msg_ok_def)
  with map_set_encoded [of k v ps] assms len show ?thesis
    by (auto simp: set_value_def Let_def msg_ok_def plain_def)
qed

text \<open>Setting a key again counts its bytes twice.\<close>

lemma set_value_again:
  assumes "msg_ok m" "plain k" "plain v" "map_find (encode_string k) (key2val m) = Some ov"
  shows "\<exists>m'. set_value k v m = Inr m' \<and>
    data2send m' = length (body_text (key2val m')) + length (encode_string k) + length ov + 2"
proof -
  have "map_ok (key2val m)" using assms(1) by (simp add: msg_ok_def)
  from length_body_map_set [OF this, of "encode_string k" "encode_string v"] assms show ?thesis
    by (simp add: set_value_def Let_def plain_def msg_ok_def)
qed

section \<open>From sender to receiver\<close>

lemma read_message_encoded:
  assumes "msg_ok m" "data2send m < 2 ^ 32" "sbuf r = []"
    "key2val m = map encode_pair ps" "\<forall>p \<in> set ps. plain (fst p) \<and> plain (snd p)"
  shows "\<exists>r'. read_message (get_data (encode_message m) @ rest) r = Inr (r', rest) \<and>
    sbuf r' = [] \<and> key2val r' = fold (\<lambda>(k, v). map_set k v) ps []"
proof -
  let ?n = "data2send m" and ?b = "body_text (map encode_pair ps)"
  have wire: "get_data (encode_message m) @ rest = show_hex 8 ?n @ ?b @ rest" and n: "?n = length ?b"
    using assms by (simp_all add: msg_ok_def get_data_def encode_message_def)
  define r1 where "r1 = decode_header (commit_data (show_hex 8 ?n) (prepare_buffer r))"
  have r1: "r1 = (prepare_buffer r) \<lparr> sbuf := [], body_length := ?n \<rparr>"
    unfolding r1_def using decode_header_show_hex [OF assms(2), of "prepare_buffer r"] assms(3)
    by (simp add: commit_data_def prepare_buffer_def clear_msg_content_def)
  have body: "commit_data ?b (prepare_buffer r1) = (prepare_buffer r1) \<lparr> sbuf := ?b, key2val := [] \<rparr>"
    unfolding r1 by (simp add: commit_data_def prepare_buffer_def clear_msg_content_def)
  have "read_message (show_hex 8 ?n @ ?b @ rest) r =
      (case decode_body (commit_data ?b (prepare_buffer r1)) of
         Inl e \<Rightarrow> Inl (BadEncoding e) | Inr m2 \<Rightarrow> Inr (m2, rest))"
  proof -
    have t: "take 8 (show_hex 8 ?n @ ?b @ rest) = show_hex 8 ?n" "drop 8 (show_hex 8 ?n @ ?b @ rest) = ?b @ rest"
      "take (length ?b) (?b @ rest) = ?b" "drop (length ?b) (?b @ rest) = rest"
      by simp_all
    have bl: "body_length r1 = length ?b" using r1 n by simp
    show ?thesis
      by (simp only: read_message_def header_length_def Let_def t r1_def [symmetric] bl) simp
  qed
  then show ?thesis
    unfolding wire body decode_body_text [OF assms(5)] by simp
qed

fun set_values :: "(string \<times> string) list \<Rightarrow> message \<Rightarrow> (msg_error, message) result" where
  "set_values [] m = Inr m"
| "set_values ((k, v) # kvs) m = rbind (set_value k v m) (set_values kvs)"

lemma set_values_ok:
  assumes "msg_ok m" "\<forall>p \<in> set kvs. plain (fst p) \<and> plain (snd p)" "distinct (map fst kvs)"
    "\<forall>p \<in> set kvs. map_find (encode_string (fst p)) (key2val m) = None"
  shows "\<exists>m'. set_values kvs m = Inr m' \<and> msg_ok m' \<and>
    (\<forall>e. map_find e (key2val m') = (case map_of (map encode_pair kvs) e of Some v \<Rightarrow> Some v | None \<Rightarrow> map_find e (key2val m)))"
  using assms
proof (induction kvs arbitrary: m)
  case (Cons p kvs)
  obtain k v where p: "p = (k, v)" by fastforce
  then obtain m1 where m1: "set_value k v m = Inr m1" "msg_ok m1"
    "key2val m1 = map_set (encode_string k) (encode_string v) (key2val m)"
    using set_value_ok [of m k v] Cons.prems by auto
  have okm: "map_ok (key2val m)" using Cons.prems by (simp add: msg_ok_def)
  have "encode_string (fst q) \<noteq> encode_string k" if "q \<in> set kvs" for q
    using encode_string_inj [of "fst q" k] Cons.prems p that by force
  then have "\<forall>q \<in> set kvs. map_find (encode_string (fst q)) (key2val m1) = None"
    using m1(3) okm Cons.prems by auto
  then obtain m' where m': "set_values kvs m1 = Inr m'" "msg_ok m'"
    "\<forall>e. map_find e (key2val m') = (case map_of (map encode_pair kvs) e of Some v \<Rightarrow> Some v | None \<Rightarrow> map_find e (key2val m1))"
    using Cons.IH [OF m1(2)] Cons.prems by auto
  have "map_of (map encode_pair kvs) (encode_string k) = None"
    using \<open>\<And>q. q \<in> set kvs \<Longrightarrow> encode_string (fst q) \<noteq> encode_string k\<close>
    by (force simp: map_of_eq_None_iff eq_commute [of "encode_string k"])
  with m' m1 okm p show ?case by (auto split: option.splits)
qed auto

lemma map_of_decoded:
  assumes "\<forall>p \<in> set ps. plain (fst p) \<and> plain (snd p)" "map_ok (map encode_pair ps)" "plain k" "plain v"
    "map_find (encode_string k) (map encode_pair ps) = Some (encode_string v)"
  shows "map_find k (fold (\<lambda>(k, v). map_set k v) ps []) = Some v"
proof -
  have "(encode_string k, encode_string v) \<in> set (map encode_pair ps)"
    using assms by (simp only: map_find_iff)
  then obtain p where "p \<in> set ps" "encode_string k = encode_string (fst p)" "encode_string v = encode_string (snd p)"
    by auto
  with assms encode_string_inj have mem: "(k, v) \<in> set ps"
    by (metis prod.collapse)
  have "distinct (map fst (map encode_pair ps))"
    using assms(2) by (rule map_ok_distinct)
  then have "distinct (map fst ps)"
    by (auto simp: distinct_map inj_on_def o_def)
  then have "map_of (rev ps) k = Some v"
    using mem by (simp flip: rev_map)
  then show ?thesis
    using smap.find_assign_all [of "[]" k ps] by (simp add: smap.assign_all_def)
qed

lemma length_body_mset: "mset kv = mset kv' \<Longrightarrow> length (body_text kv) = length (body_text kv')"
  unfolding body_text_def length_concat map_map
  by (simp only: sum_mset_sum_list [symmetric] mset_map)

text \<open>A message built from distinct keys holds exactly the encoded pairs and counts their bytes.\<close>

lemma built_message:
  assumes "\<forall>p \<in> set kvs. plain (fst p) \<and> plain (snd p)" "distinct (map fst kvs)"
  shows "\<exists>m. set_values kvs new_message = Inr m \<and> msg_ok m \<and>
    data2send m = length (body_text (map encode_pair kvs)) \<and>
    distinct (map fst (map encode_pair kvs)) \<and>
    (\<forall>e. map_find e (key2val m) = map_of (map encode_pair kvs) e)"
proof -
  have nk: "key2val new_message = []" by (simp add: new_message_def)
  then have "\<forall>p \<in> set kvs. map_find (encode_string (fst p)) (key2val new_message) = None" by simp
  from set_values_ok [OF new_message_ok assms this] obtain m where
    m: "set_values kvs new_message = Inr m" "msg_ok m"
    "\<forall>e. map_find e (key2val m) =
      (case map_of (map encode_pair kvs) e of Some v \<Rightarrow> Some v | None \<Rightarrow> map_find e (key2val new_message))"
    by auto
  have okm: "map_ok (key2val m)" and d: "data2send m = length (body_text (key2val m))"
    using m(2) by (auto simp: msg_ok_def)
  have dist: "distinct (map fst (map encode_pair kvs))"
    using assms encode_string_inj by (auto simp: distinct_map inj_on_def)
  have f: "map_find e (key2val m) = map_of (map encode_pair kvs) e" for e
    using m(3) nk by (cases "map_of (map encode_pair kvs) e") simp_all
  have "mset (key2val m) = mset (map encode_pair kvs)"
  proof -
    have "(a, b) \<in> set (key2val m) \<longleftrightarrow> (a, b) \<in> set (map encode_pair kvs)" for a b
      using f [of a] map_find_iff [OF okm, of a b] map_of_eq_Some_iff [OF dist, of a b] by simp
    then have "set (key2val m) = set (map encode_pair kvs)" by (intro set_eqI) (auto simp only: split_paired_all)
    moreover have "distinct (key2val m)" "distinct (map encode_pair kvs)"
      using map_ok_distinct [OF okm] dist unfolding distinct_map by blast+
    ultimately show ?thesis by (simp only: set_eq_iff_mset_eq_distinct)
  qed
  then have "length (body_text (key2val m)) = length (body_text (map encode_pair kvs))"
    by (rule length_body_mset)
  with m d dist f show ?thesis by auto
qed

text \<open>A message arrives as it was built, without any other key.\<close>

lemma wire_exact:
  assumes "\<forall>p \<in> set kvs. plain (fst p) \<and> plain (snd p)" "distinct (map fst kvs)"
    "length (body_text (map encode_pair kvs)) < 2 ^ 32" "sbuf r = []"
  shows "\<exists>m r'. set_values kvs new_message = Inr m \<and>
    read_message (get_data (encode_message m) @ rest) r = Inr (r', rest) \<and> sbuf r' = [] \<and>
    (\<forall>p \<in> set kvs. get_value (fst p) r' = Inr (snd p)) \<and>
    (\<forall>k. k \<notin> fst ` set kvs \<longrightarrow> get_value k r' = Inl (NoSuchKey k))"
proof -
  obtain m where m: "set_values kvs new_message = Inr m" "msg_ok m"
    and small: "data2send m < 2 ^ 32" and dist: "distinct (map fst (map encode_pair kvs))"
    and f: "\<And>e. map_find e (key2val m) = map_of (map encode_pair kvs) e"
    using built_message [OF assms(1,2)] assms(3) by auto
  obtain ps where ps: "key2val m = map encode_pair ps" "\<forall>p \<in> set ps. plain (fst p) \<and> plain (snd p)"
    and okm: "map_ok (key2val m)"
    using m(2) by (auto simp: msg_ok_def)
  obtain r' where r': "read_message (get_data (encode_message m) @ rest) r = Inr (r', rest)" "sbuf r' = []"
    "key2val r' = fold (\<lambda>(k, v). map_set k v) ps []"
    using read_message_encoded [OF m(2) small assms(4) ps] by blast
  have "get_value (fst p) r' = Inr (snd p)" if "p \<in> set kvs" for p
  proof -
    have "map_of (map encode_pair kvs) (encode_string (fst p)) = Some (encode_string (snd p))"
      using that dist by (intro map_of_is_SomeI) auto
    then have "map_find (fst p) (key2val r') = Some (snd p)"
      using map_of_decoded [OF ps(2), of "fst p" "snd p"] f okm ps(1) r'(3) assms(1) that by simp
    then show ?thesis by (simp add: get_value_def)
  qed
  moreover have "get_value k r' = Inl (NoSuchKey k)" if k: "k \<notin> fst ` set kvs" for k
  proof -
    have "k \<notin> fst ` set ps"
    proof
      assume "k \<in> fst ` set ps"
      then obtain v where v: "(k, v) \<in> set ps" by auto
      then have "encode_pair (k, v) \<in> set (key2val m)" using ps(1) by (auto intro: rev_image_eqI)
      then have "map_of (map encode_pair kvs) (encode_string k) = Some (encode_string v)"
        using f okm by (simp add: map_find_iff [symmetric])
      then obtain p where "p \<in> set kvs" "encode_string (fst p) = encode_string k"
        by (auto dest!: map_of_SomeD)
      with v ps(2) assms(1) encode_string_inj have "k = fst p" by (metis fst_conv)
      with k \<open>p \<in> set kvs\<close> show False by auto
    qed
    then have "map_of (rev ps) k = None" by (auto simp: map_of_eq_None_iff)
    then have "map_find k (key2val r') = None"
      using r'(3) smap.find_assign_all [of "[]" k ps] by (simp add: smap.assign_all_def)
    then show ?thesis by (simp add: get_value_def)
  qed
  ultimately show ?thesis using m(1) r' by blast
qed

lemma wire_round_trip:
  assumes "\<forall>p \<in> set kvs. plain (fst p) \<and> plain (snd p)" "distinct (map fst kvs)"
    "length (body_text (map encode_pair kvs)) < 2 ^ 32" "sbuf r = []"
  shows "\<exists>m r'. set_values kvs new_message = Inr m \<and>
    read_message (get_data (encode_message m) @ rest) r = Inr (r', rest) \<and> sbuf r' = [] \<and>
    (\<forall>p \<in> set kvs. get_value (fst p) r' = Inr (snd p))"
  using wire_exact [OF assms, of rest] by blast

section \<open>Messages that never arrive\<close>

lemma set_values_total:
  "\<forall>p \<in> set kvs. \<not> has_delim (fst p) \<and> \<not> has_delim (snd p) \<Longrightarrow> \<exists>m'. set_values kvs m = Inr m'"
  by (induction kvs arbitrary: m) (auto simp: set_value_def Let_def)

text \<open>A message whose byte count promises more than its body has: the receiver keeps waiting.\<close>

lemma read_message_short:
  assumes "sbuf m = []" "\<not> encoded m" "data2send m < 2 ^ 32"
    "length (body_text (key2val m)) < data2send m" "sbuf r = []"
  shows "read_message (get_data (encode_message m)) r = Inl Incomplete"
proof -
  let ?n = "data2send m" and ?b = "body_text (key2val m)"
  have wire: "get_data (encode_message m) = show_hex 8 ?n @ ?b"
    using assms by (simp add: get_data_def encode_message_def)
  define r1 where "r1 = decode_header (commit_data (show_hex 8 ?n) (prepare_buffer r))"
  have bl: "body_length r1 = ?n"
    unfolding r1_def using decode_header_show_hex [OF assms(3), of "prepare_buffer r"] assms(5)
    by (simp add: commit_data_def prepare_buffer_def clear_msg_content_def)
  have t: "take 8 (show_hex 8 ?n @ ?b) = show_hex 8 ?n" "drop 8 (show_hex 8 ?n @ ?b) = ?b"
    by simp_all
  show ?thesis
    using assms(4) by (simp only: wire read_message_def header_length_def Let_def t r1_def [symmetric] bl) simp
qed

text \<open>Setting further values never makes up for bytes that are counted and not there.\<close>

lemma set_values_excess:
  assumes "set_values kvs m = Inr m'" "map_ok (key2val m)" "sbuf m = []" "\<not> encoded m"
    "length (body_text (key2val m)) < data2send m"
  shows "sbuf m' = [] \<and> \<not> encoded m' \<and> length (body_text (key2val m')) < data2send m'"
  using assms
proof (induction kvs arbitrary: m)
  case (Cons p kvs)
  obtain k v where p: "p = (k, v)" by fastforce
  let ?k = "encode_string k" and ?v = "encode_string v"
  obtain m1 where m1: "set_value k v m = Inr m1" "set_values kvs m1 = Inr m'"
    using Cons.prems(1) p by (auto simp: rbind_Inr_iff)
  then have e: "key2val m1 = map_set ?k ?v (key2val m)" "sbuf m1 = sbuf m" "\<not> encoded m1"
    "data2send m1 = data2send m + length ?k + length ?v + 2"
    by (auto simp: set_value_def Let_def split: if_splits)
  have "length (body_text (key2val m1)) < data2send m1"
    using length_body_map_set [OF Cons.prems(2), of ?k ?v] Cons.prems(5) e by simp
  with Cons.IH [OF m1(2)] Cons.prems e show ?case by simp
qed simp

section \<open>Properties\<close>

text \<open>C11: a message whose keys are set once each, to strings without delimiters or NUL, arrives: the
  receiver that reads the bytes of the encoded message, followed by anything, gets a message with
  every value under its key, and exactly the bytes behind the message are left for the next.\<close>

theorem message_wire_round_trip:
  assumes "\<forall>p \<in> set kvs. plain (fst p) \<and> plain (snd p)" "distinct (map fst kvs)"
    "length (body_text (map encode_pair kvs)) < 2 ^ 32" "sbuf r = []"
  shows "\<exists>m r'. set_values kvs new_message = Inr m \<and>
    read_message (get_data (encode_message m) @ rest) r = Inr (r', rest) \<and> sbuf r' = [] \<and>
    (\<forall>p \<in> set kvs. get_value (fst p) r' = Inr (snd p))"
  using assms by (rule wire_round_trip)

theorem message_wire_round_trip_witness:
  "\<exists>m r'. set_values [(''id'', ''7''), (''cmd'', ''a%b'')] new_message = Inr m \<and>
     read_message (get_data (encode_message m) @ ''next'') new_message = Inr (r', ''next'') \<and>
     get_value ''cmd'' r' = Inr ''a%b''"
proof -
  have "\<forall>p \<in> set [(''id'', ''7''), (''cmd'', ''a%b'')]. plain (fst p) \<and> plain (snd p)"
    by (simp add: plain_def has_delim_def)
  from message_wire_round_trip [OF this, of new_message "''next''"] show ?thesis
    by (auto simp: new_message_def encode_string_chars enc_char_def)
qed

text \<open>Setting a key a second time leaves the byte count of the message too large by the size of
  the pair it replaced, so a receiver that has all bytes of the message keeps waiting.\<close>

theorem message_duplicate_key:
  assumes "msg_ok m" "plain k" "plain v" "map_find (encode_string k) (key2val m) = Some ov"
    "data2send m + length (encode_string k) + length (encode_string v) + 2 < 2 ^ 32" "sbuf r = []"
  shows "\<exists>m'. set_value k v m = Inr m' \<and>
    data2send m' = length (body_text (key2val m')) + length (encode_string k) + length ov + 2 \<and>
    read_message (get_data (encode_message m')) r = Inl Incomplete"
proof -
  obtain m' where m': "set_value k v m = Inr m'"
    "data2send m' = length (body_text (key2val m')) + length (encode_string k) + length ov + 2"
    using set_value_again [OF assms(1-4)] by blast
  have sm: "sbuf m' = []" "\<not> encoded m'" "data2send m' < 2 ^ 32"
    using m'(1) assms by (auto simp: set_value_def Let_def msg_ok_def split: if_splits)
  have "length (body_text (key2val m')) < data2send m'" using m'(2) by simp
  from read_message_short [OF sm this assms(6)]
  have "read_message (get_data (encode_message m')) r = Inl Incomplete" .
  with m' show ?thesis by blast
qed

theorem message_duplicate_key_witness:
  "\<exists>m m'. set_value ''id'' ''12'' new_message = Inr m \<and> set_value ''id'' ''3'' m = Inr m' \<and>
     data2send m' = 11 \<and> length (body_text (key2val m')) = 5 \<and>
     read_message (get_data (encode_message m')) new_message = Inl Incomplete"
proof -
  have pl: "plain ''id''" "plain ''12''" "plain ''3''"
    by (simp_all add: plain_def has_delim_def)
  have enc: "encode_string ''id'' = ''id''" "encode_string ''12'' = ''12''" "encode_string ''3'' = ''3''"
    by (simp_all add: encode_string_chars enc_char_def)
  obtain m where m: "set_value ''id'' ''12'' new_message = Inr m" "msg_ok m" "key2val m = [(''id'', ''12'')]"
    using set_value_ok [OF new_message_ok pl(1,2)] by (auto simp: enc new_message_def)
  then have "data2send m = 6" by (simp add: msg_ok_def)
  with message_duplicate_key [OF m(2) pl(1,3), of "''12''" new_message] m obtain m' where
    m': "set_value ''id'' ''3'' m = Inr m'"
      "data2send m' = length (body_text (key2val m')) + 6"
      "read_message (get_data (encode_message m')) new_message = Inl Incomplete"
    by (auto simp: enc new_message_def)
  moreover have "key2val m' = [(''id'', ''3'')]"
    using m'(1) m(3) by (auto simp: set_value_def Let_def enc has_delim_def)
  ultimately show ?thesis using m by auto
qed

text \<open>A byte array survives its text form.\<close>

theorem byte_array_round_trip: "decode_byte_array (encode_byte_array bytes) = bytes"
  by (rule decode_encode_byte_array)

end
