(* ===== verification/Object_Message.thy ===== *)
theory Object_Message
  imports Message
begin

text \<open>
  How objects talk to their counterparts (remote_interface.cc): the fields every object message
  and every reply starts with (\<open>BaseObject::send_object_message\<close>, \<open>Context::acquire_reply\<close>) and the
  table from command identifiers to handlers of \<open>SimpleBaseObject\<close>. The locale \<open>command_table\<close> is
  what a class relies on when it registers its handlers.
\<close>

section \<open>Building messages\<close>

definition MSG_REPLY :: int where "MSG_REPLY = -6"

definition acquire_reply :: "message \<Rightarrow> (msg_error, message) result" where
  "acquire_reply originator =
     rbind (set_value ''id'' (show_int MSG_REPLY) new_message) (\<lambda>reply.
     rbind (get_value ''repid'' originator) (\<lambda>repid.
     set_value ''repid'' repid reply))"

text \<open>\<open>complete_message\<close> is the list of \<open>set_value\<close> calls of the caller.\<close>

definition send_object_message :: "int \<Rightarrow> (string \<times> string) list \<Rightarrow> (msg_error, message) result" where
  "send_object_message obj_id complete_message =
     rbind (set_value ''id'' (show_int obj_id) new_message) (set_values complete_message)"

definition send_message :: "int \<Rightarrow> string \<Rightarrow> (string \<times> string) list \<Rightarrow> (msg_error, message) result" where
  "send_message obj_id command_id create_msg =
     send_object_message obj_id ((''commandid'', command_id) # create_msg)"

lemma show_nat_plain: "plain (show_nat n)"
  by (auto simp: plain_def has_delim_def show_nat_clean show_nat_nonempty is_digit_def dest: show_nat_digits)

lemma show_int_plain: "plain (show_int i)"
  using show_nat_plain by (auto simp: show_int_def plain_def has_delim_def nul_free_def)

text \<open>A reply with one field arrives, under the identifier the request asked for.\<close>

lemma reply_arrives:
  assumes "get_value ''repid'' msg = Inr rid" "plain rid" "plain k" "plain v" "k \<noteq> ''id''" "k \<noteq> ''repid''"
    "length (body_text (map encode_pair [(''id'', show_int MSG_REPLY), (''repid'', rid), (k, v)])) < 2 ^ 32"
  shows "\<exists>m r. rbind (acquire_reply msg) (set_value k v) = Inr m \<and>
    read_message (get_data (encode_message m)) new_message = Inr (r, []) \<and>
    get_value k r = Inr v \<and> get_value ''repid'' r = Inr rid"
proof -
  let ?kvs = "[(''id'', show_int MSG_REPLY), (''repid'', rid), (k, v)]"
  have pl: "\<forall>p \<in> set ?kvs. plain (fst p) \<and> plain (snd p)"
    using assms(2-4) show_int_plain by (auto simp: plain_def has_delim_def nul_free_def)
  have d: "distinct (map fst ?kvs)" using assms(5,6) by auto
  have nm: "sbuf new_message = []" by (simp add: new_message_def)
  have assoc: "rbind (rbind x f) g = rbind x (\<lambda>y. rbind (f y) g)" for x f g by (cases x) auto
  have "rbind x (set_values []) = x" for x by (cases x) auto
  then have two: "set_values [(''repid'', rid), (k, v)] = (\<lambda>y. rbind (set_value ''repid'' rid y) (set_value k v))"
    by (intro ext, rename_tac y, case_tac "set_value ''repid'' rid y") auto
  from wire_round_trip [OF pl d assms(7) nm, of "[]"] obtain m r where
    m: "set_values ?kvs new_message = Inr m" "read_message (get_data (encode_message m)) new_message = Inr (r, [])"
    "\<forall>p \<in> set ?kvs. get_value (fst p) r = Inr (snd p)" by auto
  have "rbind (acquire_reply msg) (set_value k v) = Inr m"
    using m(1) assms(1) by (simp add: acquire_reply_def assoc two)
  with m show ?thesis by auto
qed

text \<open>A caller that sets the field \<open>id\<close> again, which every object message starts with, builds a
  message that never arrives.\<close>

lemma second_id_lost:
  assumes "plain c" "plain v" "\<forall>p \<in> set kvs. \<not> has_delim (fst p) \<and> \<not> has_delim (snd p)"
  shows "\<exists>m. send_message i c ((''id'', v) # kvs) = Inr m \<and>
    (data2send m < 2 ^ 32 \<longrightarrow> read_message (get_data (encode_message m)) new_message = Inl Incomplete)"
proof -
  let ?two = "[(''id'', show_int i), (''commandid'', c)]"
  have pl: "\<forall>p \<in> set ?two. plain (fst p) \<and> plain (snd p)" and id: "plain ''id''"
    using assms(1) show_int_plain [of i] by (simp_all add: plain_def has_delim_def nul_free_def)
  obtain m2 where m2: "set_values ?two new_message = Inr m2" "msg_ok m2"
    "map_find (encode_string ''id'') (key2val m2) = Some (encode_string (show_int i))"
    using built_message [OF pl] by auto
  obtain m3 where m3: "set_value ''id'' v m2 = Inr m3" "length (body_text (key2val m3)) < data2send m3"
    using set_value_again [OF m2(2) id assms(2) m2(3)] by auto
  then have ok3: "map_ok (key2val m3)" "sbuf m3 = []" "\<not> encoded m3"
    using m2(2) by (auto simp: set_value_def Let_def msg_ok_def split: if_splits)
  obtain m where m: "set_values kvs m3 = Inr m" using set_values_total [OF assms(3)] by blast
  from set_values_excess [OF m ok3 m3(2)]
  have "data2send m < 2 ^ 32 \<longrightarrow> read_message (get_data (encode_message m)) new_message = Inl Incomplete"
    using read_message_short [of m new_message] by (simp add: new_message_def)
  moreover have "send_message i c ((''id'', v) # kvs) = Inr m"
    using m2(1) m3(1) m by (auto simp: send_message_def send_object_message_def rbind_Inr_iff)
  ultimately show ?thesis by blast
qed

section \<open>Handlers by command\<close>

datatype command_error = HandlerAlreadyRegistered

definition register_handler :: "string \<Rightarrow> 'h \<Rightarrow> (string, 'h) smap \<Rightarrow> (command_error, (string, 'h) smap) result" where
  "register_handler command_id handler command2function =
     (case map_find command_id command2function of
        Some _ \<Rightarrow> Inl HandlerAlreadyRegistered
      | None \<Rightarrow> Inr (map_set command_id handler command2function))"

fun register_handlers :: "(string \<times> 'h) list \<Rightarrow> (string, 'h) smap \<Rightarrow> (command_error, (string, 'h) smap) result" where
  "register_handlers [] tab = Inr tab"
| "register_handlers ((c, h) # hs) tab = rbind (register_handler c h tab) (register_handlers hs)"

text \<open>The handler a message selects: none for a command that is not registered.\<close>

definition process_message :: "(string, 'h) smap \<Rightarrow> message \<Rightarrow> (msg_error, 'h option) result" where
  "process_message command2function msg =
     rbind (get_value ''commandid'' msg) (\<lambda>command_id. Inr (map_find command_id command2function))"

section \<open>The contract of a command table\<close>

locale command_table =
  fixes commands :: "(string \<times> 'h) list"
  assumes commands_distinct: "distinct (map fst commands)"
    and commands_plain: "\<forall>p \<in> set commands. plain (fst p)"
begin

lemma register_from:
  "map_ok tab \<Longrightarrow> distinct (map fst cs) \<Longrightarrow> \<forall>p \<in> set cs. map_find (fst p) tab = None \<Longrightarrow>
     \<exists>tab'. register_handlers cs tab = Inr tab' \<and> map_ok tab' \<and>
       (\<forall>c. map_find c tab' = (case map_of cs c of Some h \<Rightarrow> Some h | None \<Rightarrow> map_find c tab))"
proof (induction cs arbitrary: tab)
  case (Cons p cs)
  obtain c h where p: "p = (c, h)" by fastforce
  have "\<forall>q \<in> set cs. map_find (fst q) (map_set c h tab) = None"
    using Cons.prems p by force
  with Cons.IH [of "map_set c h tab"] Cons.prems p obtain tab' where t:
    "register_handlers cs (map_set c h tab) = Inr tab'" "map_ok tab'"
    "\<forall>d. map_find d tab' = (case map_of cs d of Some h \<Rightarrow> Some h | None \<Rightarrow> map_find d (map_set c h tab))"
    by auto
  have "map_of cs c = None" using Cons.prems p by (auto simp: map_of_eq_None_iff)
  with t Cons.prems p show ?case by (auto simp: register_handler_def split: option.splits)
qed simp

lemma registers: "\<exists>tab. register_handlers commands [] = Inr tab \<and> (\<forall>c. map_find c tab = map_of commands c)"
proof -
  have "map_ok ([] :: (string, 'h) smap)" "\<forall>p \<in> set commands. map_find (fst p) ([] :: (string, 'h) smap) = None" by simp_all
  from register_from [OF this(1) commands_distinct this(2)] obtain tab
    where "register_handlers commands [] = Inr tab"
      "\<forall>c. map_find c tab = (case map_of commands c of Some h \<Rightarrow> Some h | None \<Rightarrow> map_find c [])" by blast
  moreover from this(2) have "\<forall>c. map_find c tab = map_of commands c" by (auto split: option.splits)
  ultimately show ?thesis by blast
qed

text \<open>A command sent by one side reaches, over the wire, the handler registered for it, with every
  argument.\<close>

lemma delivered:
  assumes "(c, h) \<in> set commands" "\<forall>p \<in> set kvs. plain (fst p) \<and> plain (snd p)"
    "distinct (map fst kvs)" "''id'' \<notin> fst ` set kvs" "''commandid'' \<notin> fst ` set kvs"
    "length (body_text (map encode_pair ((''id'', show_int i) # (''commandid'', c) # kvs))) < 2 ^ 32"
  shows "\<exists>m r tab. send_message i c kvs = Inr m \<and> read_message (get_data (encode_message m)) new_message = Inr (r, []) \<and>
    register_handlers commands [] = Inr tab \<and> process_message tab r = Inr (Some h) \<and>
    get_value ''id'' r = Inr (show_int i) \<and> (\<forall>p \<in> set kvs. get_value (fst p) r = Inr (snd p)) \<and>
    (\<forall>k. k \<notin> {''id'', ''commandid''} \<union> fst ` set kvs \<longrightarrow> get_value k r = Inl (NoSuchKey k))"
proof -
  let ?kvs = "(''id'', show_int i) # (''commandid'', c) # kvs"
  have c: "plain c" using assms(1) commands_plain by force
  have i: "plain (show_int i)" by (rule show_int_plain)
  have pl: "\<forall>p \<in> set ?kvs. plain (fst p) \<and> plain (snd p)"
    using assms(2) c i by (auto simp: plain_def has_delim_def nul_free_def)
  have d: "distinct (map fst ?kvs)" using assms(3,4,5) by auto
  have nm: "sbuf new_message = []" by (simp add: new_message_def)
  from wire_exact [OF pl d assms(6) nm, of "[]"] obtain m r where
    m: "set_values ?kvs new_message = Inr m" "read_message (get_data (encode_message m)) new_message = Inr (r, [])"
    "\<forall>p \<in> set ?kvs. get_value (fst p) r = Inr (snd p)"
    "\<forall>k. k \<notin> fst ` set ?kvs \<longrightarrow> get_value k r = Inl (NoSuchKey k)" by auto
  have "send_message i c kvs = Inr m" using m(1) by (simp add: send_message_def send_object_message_def)
  moreover obtain tab where "register_handlers commands [] = Inr tab" "\<forall>c. map_find c tab = map_of commands c"
    using registers by blast
  moreover have "map_of commands c = Some h" using commands_distinct assms(1) by simp
  ultimately show ?thesis using m by (auto simp: process_message_def)
qed

text \<open>The same for a message that was sent: its own byte count is what has to fit the header.\<close>

lemma received:
  assumes "send_message i c kvs = Inr m" "data2send m < 2 ^ 32" "(c, h) \<in> set commands"
    "\<forall>p \<in> set kvs. plain (fst p) \<and> plain (snd p)"
    "distinct (map fst kvs)" "''id'' \<notin> fst ` set kvs" "''commandid'' \<notin> fst ` set kvs"
    "register_handlers commands [] = Inr tab"
  shows "\<exists>r. read_message (get_data (encode_message m)) new_message = Inr (r, []) \<and>
    process_message tab r = Inr (Some h) \<and> (\<forall>p \<in> set kvs. get_value (fst p) r = Inr (snd p)) \<and>
    (\<forall>k. k \<notin> {''id'', ''commandid''} \<union> fst ` set kvs \<longrightarrow> get_value k r = Inl (NoSuchKey k))"
proof -
  let ?kvs = "(''id'', show_int i) # (''commandid'', c) # kvs"
  have "plain c" using assms(3) commands_plain by force
  then have pl: "\<forall>p \<in> set ?kvs. plain (fst p) \<and> plain (snd p)"
    using assms(4) show_int_plain [of i] by (auto simp: plain_def has_delim_def nul_free_def)
  have "distinct (map fst ?kvs)" using assms(5-7) by auto
  from built_message [OF pl this] assms(1)
  have "data2send m = length (body_text (map encode_pair ?kvs))"
    by (auto simp: send_message_def send_object_message_def)
  with delivered [OF assms(3-7), of i] assms(1,2,8) show ?thesis by auto
qed

end

end
