(* ===== verification/Object_Registry.thy ===== *)
theory Object_Registry
  imports Object_Message
begin

text \<open>
  The objects a server shares with its clients (engine_code/server.cc, engine_code/client.cc,
  remote_interface.cc): the server numbers its objects and announces them, routes what its clients
  send, and forgets clients; a client links and unlinks the objects it is told of and matches
  replies with its requests.

  An object is its number, its class and the fields its \<open>serialize\<close> writes; what an object does when a
  message arrives is its class's business and here a list of effects. Objects are told apart by their
  numbers. A socket is the text written to it and not yet read. Operations that can throw return the
  exception beside the state they leave behind.
\<close>

section \<open>Messages between server and client\<close>

definition MSG_CREATE_OBJECT :: int where "MSG_CREATE_OBJECT = -1"
definition MSG_FLUSH_ALL_OBJECTS :: int where "MSG_FLUSH_ALL_OBJECTS = -2"
definition MSG_DELETE_OBJECT :: int where "MSG_DELETE_OBJECT = -3"
definition MSG_FAILURE_RESPONSE :: int where "MSG_FAILURE_RESPONSE = -4"
definition MSG_PROTOCOL_VERSION :: int where "MSG_PROTOCOL_VERSION = -5"
definition MSG_CLIENT_ID :: int where "MSG_CLIENT_ID = -7"
definition VUKNOB_PROTOCOL_VERSION :: int where "VUKNOB_PROTOCOL_VERSION = 9"

lemmas msg_numbers = MSG_CREATE_OBJECT_def MSG_FLUSH_ALL_OBJECTS_def MSG_DELETE_OBJECT_def MSG_FAILURE_RESPONSE_def
  MSG_PROTOCOL_VERSION_def MSG_REPLY_def MSG_CLIENT_ID_def VUKNOB_PROTOCOL_VERSION_def

type_synonym msg_fields = "(string \<times> string) list"

datatype registry_error =
  NoSuchObject | DuplicateObjectId | ObjIdOverflow | NoSuchFactory | HandlerThrew | FailureResponse string | BadMessage msg_error

definition message_bytes :: "msg_fields \<Rightarrow> (msg_error, string) result" where
  "message_bytes kvs = rbind (set_values kvs new_message) (\<lambda>m. Inr (get_data (encode_message m)))"

text \<open>\<open>++\<close> on an \<open>int32_t\<close>, wrapping around as the code expects of it.\<close>

definition int32_succ :: "int \<Rightarrow> int" where
  "int32_succ i = (i + 1 + 2 ^ 31) mod 2 ^ 32 - 2 ^ 31"

section \<open>The server\<close>

record server_object =
  obj_id :: int
  obj_type :: string
  obj_fields :: msg_fields

text \<open>\<open>wire_to\<close> is what was delivered to an agent and not yet read at the other end; an agent that is no
  longer among \<open>client_agents\<close> still has its socket.\<close>

record server =
  all_objects :: "(int, server_object) smap"
  last_obj_id :: int
  client_agents :: "int list"
  next_client_agent_id :: int
  wire_to :: "int \<Rightarrow> string"

text \<open>The registered factories and which of them make a static single object.\<close>

definition server_factories :: "(string, bool) smap" where
  "server_factories = [(''GloCtrlObj'', False), (''HandleList'', False), (''RIMachine'', False), (''SampleBank'', False),
     (''Scales'', True), (''Sequence'', False)]"

definition client_factories :: "(string, unit) smap" where
  "client_factories = [(''GloCtrlObj'', ()), (''HandleList'', ()), (''RIMachine'', ()), (''SampleBank'', ()),
     (''Scales'', ()), (''Sequence'', ())]"

definition new_server :: server where
  "new_server = \<lparr> all_objects = [], last_obj_id = -1, client_agents = [], next_client_agent_id = 0, wire_to = \<lambda>a. [] \<rparr>"

definition and_then :: "'e option \<times> 's \<Rightarrow> ('s \<Rightarrow> 'e option \<times> 's) \<Rightarrow> 'e option \<times> 's" where
  "and_then r f = (case r of (None, s) \<Rightarrow> f s | (Some e, s) \<Rightarrow> (Some e, s))"

definition deliver_bytes :: "string \<Rightarrow> int \<Rightarrow> server \<Rightarrow> server" where
  "deliver_bytes b a sv = sv \<lparr> wire_to := (wire_to sv)(a := wire_to sv a @ b) \<rparr>"

definition deliver_to :: "int \<Rightarrow> msg_fields \<Rightarrow> server \<Rightarrow> registry_error option \<times> server" where
  "deliver_to a kvs sv = (case message_bytes kvs of
     Inl e \<Rightarrow> (Some (BadMessage e), sv)
   | Inr b \<Rightarrow> (None, deliver_bytes b a sv))"

definition distribute_message :: "msg_fields \<Rightarrow> server \<Rightarrow> registry_error option \<times> server" where
  "distribute_message kvs sv = (case message_bytes kvs of
     Inl e \<Rightarrow> (Some (BadMessage e), sv)
   | Inr b \<Rightarrow> (None, fold (deliver_bytes b) (client_agents sv) sv))"

definition reserve_new_obj_id :: "server \<Rightarrow> registry_error option \<times> server" where
  "reserve_new_obj_id sv =
     (let new_obj_id = int32_succ (last_obj_id sv); sv' = sv \<lparr> last_obj_id := new_obj_id \<rparr> in
      if new_obj_id < 0 then (Some ObjIdOverflow, sv') else (None, sv'))"

definition add_create_object_header :: "server_object \<Rightarrow> msg_fields" where
  "add_create_object_header ob =
     [(''id'', show_int MSG_CREATE_OBJECT), (''new_objid'', show_int (obj_id ob)), (''factory'', obj_type ob)]"

definition add_destroy_object_header :: "server_object \<Rightarrow> msg_fields" where
  "add_destroy_object_header ob = [(''id'', show_int MSG_DELETE_OBJECT), (''objid'', show_int (obj_id ob))]"

definition create_message :: "server_object \<Rightarrow> msg_fields" where
  "create_message ob = add_create_object_header ob @ obj_fields ob"

definition remember_object :: "server_object \<Rightarrow> server \<Rightarrow> registry_error option \<times> server" where
  "remember_object ob sv = distribute_message (create_message ob) (sv \<lparr> all_objects := map_set (obj_id ob) ob (all_objects sv) \<rparr>)"

text \<open>The class is a name and the fields are those \<open>serialize\<close> writes after the callback has run.\<close>

definition create_object_from_factory :: "string \<Rightarrow> msg_fields \<Rightarrow> server \<Rightarrow> registry_error option \<times> server" where
  "create_object_from_factory ty fs sv =
     and_then (reserve_new_obj_id sv) (\<lambda>sv.
       if map_find ty server_factories = None then (Some NoSuchFactory, sv)
       else remember_object \<lparr> obj_id = last_obj_id sv, obj_type = ty, obj_fields = fs \<rparr> sv)"

definition delete_object :: "server_object \<Rightarrow> server \<Rightarrow> registry_error option \<times> server" where
  "delete_object obj2delete sv = (case find (\<lambda>p. obj_id (snd p) = obj_id obj2delete) (all_objects sv) of
     None \<Rightarrow> (None, sv)
   | Some p \<Rightarrow> and_then (distribute_message (add_destroy_object_header obj2delete) sv)
       (\<lambda>sv. (None, sv \<lparr> all_objects := map_erase (fst p) (all_objects sv) \<rparr>)))"

definition server_remove_object :: "int \<Rightarrow> server \<Rightarrow> registry_error option \<times> server" where
  "server_remove_object objid sv = (case map_find objid (all_objects sv) of
     None \<Rightarrow> (Some NoSuchObject, sv)
   | Some ob \<Rightarrow> delete_object ob sv)"

text \<open>A number is taken for every factory, whether it makes an object or not.\<close>

fun create_static_single_objects :: "(string, bool) smap \<Rightarrow> (string \<Rightarrow> msg_fields) \<Rightarrow> server \<Rightarrow> registry_error option \<times> server" where
  "create_static_single_objects [] fs sv = (None, sv)"
| "create_static_single_objects ((ty, static_single) # factories) fs sv =
     and_then (reserve_new_obj_id sv) (\<lambda>sv.
     and_then (if static_single then remember_object \<lparr> obj_id = last_obj_id sv, obj_type = ty, obj_fields = fs ty \<rparr> sv else (None, sv))
       (create_static_single_objects factories fs))"

definition create_service_objects :: "(string \<Rightarrow> msg_fields) \<Rightarrow> server \<Rightarrow> registry_error option \<times> server" where
  "create_service_objects fs sv =
     and_then (create_object_from_factory ''HandleList'' (fs ''HandleList'') sv) (\<lambda>sv.
     and_then (create_object_from_factory ''GloCtrlObj'' (fs ''GloCtrlObj'') sv) (\<lambda>sv.
     and_then (create_object_from_factory ''SampleBank'' (fs ''SampleBank'') sv)
       (create_static_single_objects server_factories fs)))"

definition version_message :: msg_fields where
  "version_message = [(''id'', show_int MSG_PROTOCOL_VERSION), (''pversion'', show_int VUKNOB_PROTOCOL_VERSION)]"

definition client_id_message :: "int \<Rightarrow> msg_fields" where
  "client_id_message a = [(''id'', show_int MSG_CLIENT_ID), (''clid'', show_int a)]"

fun send_objects :: "int \<Rightarrow> server_object list \<Rightarrow> server \<Rightarrow> registry_error option \<times> server" where
  "send_objects a [] sv = (None, sv)"
| "send_objects a (ob # obs) sv = and_then (deliver_to a (create_message ob) sv) (send_objects a obs)"

definition send_all_objects_to_new_client :: "int \<Rightarrow> server \<Rightarrow> registry_error option \<times> server" where
  "send_all_objects_to_new_client a sv = send_objects a (map snd (all_objects sv)) sv"

definition accept_client :: "server \<Rightarrow> registry_error option \<times> server" where
  "accept_client sv =
     (let new_id = next_client_agent_id sv;
          sv = sv \<lparr> next_client_agent_id := int32_succ new_id, client_agents := insort new_id (remove1 new_id (client_agents sv)) \<rparr> in
      and_then (deliver_to new_id version_message sv) (\<lambda>sv.
      and_then (deliver_to new_id (client_id_message new_id) sv)
        (send_all_objects_to_new_client new_id)))"

definition drop_client :: "int \<Rightarrow> server \<Rightarrow> server" where
  "drop_client a sv = sv \<lparr> client_agents := remove1 a (client_agents sv) \<rparr>"

text \<open>What the handler of an object does: messages of the object to all clients, replies to the sender,
  and changes of what \<open>serialize\<close> will write.\<close>

datatype handler_effect = Broadcast msg_fields | Answer msg_fields | Change msg_fields

fun run_effect :: "int \<Rightarrow> message \<Rightarrow> int \<Rightarrow> handler_effect \<Rightarrow> server \<Rightarrow> registry_error option \<times> server" where
  "run_effect src msg objid (Broadcast kvs) sv = distribute_message ((''id'', show_int objid) # kvs) sv"
| "run_effect src msg objid (Answer kvs) sv = (case rbind (acquire_reply msg) (set_values kvs) of
     Inl e \<Rightarrow> (Some (BadMessage e), sv)
   | Inr m \<Rightarrow> (None, deliver_bytes (get_data (encode_message m)) src sv))"
| "run_effect src msg objid (Change kvs) sv = (case map_find objid (all_objects sv) of
     None \<Rightarrow> (None, sv)
   | Some ob \<Rightarrow> (None, sv \<lparr> all_objects := map_set objid (ob \<lparr> obj_fields := kvs \<rparr>) (all_objects sv) \<rparr>))"

fun run_effects :: "int \<Rightarrow> message \<Rightarrow> int \<Rightarrow> handler_effect list \<Rightarrow> server \<Rightarrow> registry_error option \<times> server" where
  "run_effects src msg objid [] sv = (None, sv)"
| "run_effects src msg objid (e # es) sv = and_then (run_effect src msg objid e sv) (run_effects src msg objid es)"

text \<open>\<open>es\<close> and \<open>outcome\<close> are the effects and the exception of the object's \<open>process_message_server\<close>.\<close>

definition route_incomming_message ::
  "handler_effect list \<Rightarrow> registry_error option \<Rightarrow> int \<Rightarrow> message \<Rightarrow> server \<Rightarrow> registry_error option \<times> server" where
  "route_incomming_message es outcome src msg sv = (case get_value ''id'' msg of
     Inl e \<Rightarrow> (Some (BadMessage e), sv)
   | Inr s \<Rightarrow>
       if stoi s = MSG_DELETE_OBJECT then (case get_value ''objid'' msg of
           Inl e \<Rightarrow> (Some (BadMessage e), sv)
         | Inr o_s \<Rightarrow> server_remove_object (stoi o_s) sv)
       else (case map_find (stoi s) (all_objects sv) of
           None \<Rightarrow> (Some NoSuchObject, sv)
         | Some ob \<Rightarrow> and_then (run_effects src msg (stoi s) es sv) (\<lambda>sv. (outcome, sv))))"

definition failure_message :: "string \<Rightarrow> msg_fields" where
  "failure_message resp_msg = [(''id'', show_int MSG_FAILURE_RESPONSE), (''response'', resp_msg)]"

definition agent_message_received ::
  "handler_effect list \<Rightarrow> registry_error option \<Rightarrow> int \<Rightarrow> message \<Rightarrow> server \<Rightarrow> registry_error option \<times> server" where
  "agent_message_received es outcome src msg sv = (case route_incomming_message es outcome src msg sv of
     (Some (FailureResponse resp_msg), sv) \<Rightarrow> if resp_msg = [] then (None, sv) else deliver_to src (failure_message resp_msg) sv
   | r \<Rightarrow> r)"

text \<open>\<open>do_read_body\<close> of an agent with a complete message: an exception drops the client, and reading goes on.\<close>

definition agent_read_body :: "handler_effect list \<Rightarrow> registry_error option \<Rightarrow> int \<Rightarrow> message \<Rightarrow> server \<Rightarrow> server" where
  "agent_read_body es outcome src msg sv = (case agent_message_received es outcome src msg sv of
     (None, sv) \<Rightarrow> sv
   | (Some e, sv) \<Rightarrow> drop_client src sv)"

section \<open>The client\<close>

text \<open>Objects with their classes, the requests that wait for a reply under the identifiers they were sent
  with, and what the callbacks were told: \<open>answered\<close> lists the requests whose reply handler was called,
  \<open>asked\<close> counts the requests made.\<close>

record client =
  cl_objects :: "(int, string) smap"
  client_id :: int
  next_reply_id :: int
  msg_waiting_for_reply :: "(int, nat) smap"
  asked :: nat
  answered :: "(nat \<times> message option) list"
  failure_responses :: "string list"
  disconnects :: nat
  socket_open :: bool
  read_msg :: message

definition new_client :: client where
  "new_client = \<lparr> cl_objects = [], client_id = -1, next_reply_id = 0, msg_waiting_for_reply = [], asked = 0, answered = [],
     failure_responses = [], disconnects = 0, socket_open = True, read_msg = new_message \<rparr>"

definition flush_all_objects :: "client \<Rightarrow> client" where
  "flush_all_objects cl = cl \<lparr> cl_objects := [] \<rparr>"

definition link_object :: "int \<Rightarrow> string \<Rightarrow> client \<Rightarrow> registry_error option \<times> client" where
  "link_object objid ty cl =
     (if map_find objid (cl_objects cl) \<noteq> None then (Some DuplicateObjectId, cl)
      else if objid < 0 then (Some ObjIdOverflow, cl)
      else (None, cl \<lparr> cl_objects := map_set objid ty (cl_objects cl) \<rparr>))"

text \<open>\<open>ok\<close> tells whether the code of the class, its constructor or its handler, returns normally.\<close>

definition create_object_on_client :: "bool \<Rightarrow> message \<Rightarrow> (registry_error, int \<times> string) result" where
  "create_object_on_client ok msg = (case get_value ''factory'' msg of
     Inl e \<Rightarrow> Inl (BadMessage e)
   | Inr ty \<Rightarrow> if map_find ty client_factories = None then Inl NoSuchFactory
       else (case get_value ''new_objid'' msg of
           Inl e \<Rightarrow> Inl (BadMessage e)
         | Inr s \<Rightarrow> if ok then Inr (stoi s, ty) else Inl HandlerThrew))"

definition client_reply :: "bool \<Rightarrow> int \<Rightarrow> message \<Rightarrow> client \<Rightarrow> registry_error option \<times> client" where
  "client_reply ok reply_identifier msg cl = (case map_find reply_identifier (msg_waiting_for_reply cl) of
     None \<Rightarrow> (None, cl)
   | Some req \<Rightarrow>
       let cl = cl \<lparr> answered := answered cl @ [(req, Some msg)] \<rparr> in
       if ok then (None, cl \<lparr> msg_waiting_for_reply := map_erase reply_identifier (msg_waiting_for_reply cl) \<rparr>)
       else (Some HandlerThrew, cl))"

definition get_field :: "string \<Rightarrow> message \<Rightarrow> client \<Rightarrow> (string \<Rightarrow> registry_error option \<times> client) \<Rightarrow> registry_error option \<times> client" where
  "get_field key msg cl f = (case get_value key msg of Inl e \<Rightarrow> (Some (BadMessage e), cl) | Inr s \<Rightarrow> f s)"

definition client_message_received :: "bool \<Rightarrow> message \<Rightarrow> client \<Rightarrow> registry_error option \<times> client" where
  "client_message_received ok msg cl = get_field ''id'' msg cl (\<lambda>s.
     let identifier = stoi s in
     if identifier = MSG_PROTOCOL_VERSION then get_field ''pversion'' msg cl (\<lambda>s.
       if stoi s > VUKNOB_PROTOCOL_VERSION
       then (None, cl \<lparr> failure_responses := failure_responses cl @ [''Server is to new - you must upgrade before you can connect.''],
                        socket_open := False \<rparr>)
       else (None, cl))
     else if identifier = MSG_CLIENT_ID then get_field ''clid'' msg cl (\<lambda>s. (None, cl \<lparr> client_id := stoi s \<rparr>))
     else if identifier = MSG_CREATE_OBJECT then (case create_object_on_client ok msg of
         Inl e \<Rightarrow> (Some e, cl)
       | Inr (objid, ty) \<Rightarrow> link_object objid ty cl)
     else if identifier = MSG_FLUSH_ALL_OBJECTS then (None, flush_all_objects cl)
     else if identifier = MSG_REPLY then get_field ''repid'' msg cl (\<lambda>s. client_reply ok (stoi s) msg cl)
     else if identifier = MSG_DELETE_OBJECT then get_field ''objid'' msg cl (\<lambda>s.
       (None, cl \<lparr> cl_objects := map_erase (stoi s) (cl_objects cl) \<rparr>))
     else if identifier = MSG_FAILURE_RESPONSE then get_field ''response'' msg cl (\<lambda>s.
       (None, cl \<lparr> failure_responses := failure_responses cl @ [s] \<rparr>))
     else if map_find identifier (cl_objects cl) = None then (Some NoSuchObject, cl)
     else (if ok then None else Some HandlerThrew, cl))"

definition client_connection_dropped :: "client \<Rightarrow> client" where
  "client_connection_dropped cl =
     (let cl = cl \<lparr> answered := answered cl @ map (\<lambda>p. (snd p, None)) (msg_waiting_for_reply cl), msg_waiting_for_reply := [] \<rparr>
      in (flush_all_objects cl) \<lparr> disconnects := Suc (disconnects cl) \<rparr>)"

text \<open>\<open>do_read_body\<close> of the client.\<close>

definition client_read_body :: "bool \<Rightarrow> message \<Rightarrow> client \<Rightarrow> client" where
  "client_read_body ok msg cl = (case client_message_received ok msg cl of
     (None, cl) \<Rightarrow> cl
   | (Some e, cl) \<Rightarrow> client_connection_dropped cl)"

text \<open>The fields that are sent, if any are; a request whose identifier is still in use is answered at once.\<close>

definition client_distribute_message :: "bool \<Rightarrow> msg_fields \<Rightarrow> client \<Rightarrow> msg_fields option \<times> client" where
  "client_distribute_message is_awaiting_reply kvs cl =
     (if is_awaiting_reply then
        (let n = next_reply_id cl; req = asked cl; cl = cl \<lparr> asked := Suc (asked cl) \<rparr> in
         if map_find n (msg_waiting_for_reply cl) \<noteq> None then (None, cl \<lparr> answered := answered cl @ [(req, None)] \<rparr>)
         else (Some (kvs @ [(''repid'', show_int n)]),
               cl \<lparr> msg_waiting_for_reply := map_set n req (msg_waiting_for_reply cl), next_reply_id := int32_succ n \<rparr>))
      else (Some kvs, cl))"

definition client_remove_object :: "int \<Rightarrow> msg_fields" where
  "client_remove_object objid = [(''id'', show_int MSG_DELETE_OBJECT), (''objid'', show_int objid)]"

text \<open>What a message can do to a client, branch by branch.\<close>

lemma client_message_received_cases:
  assumes "\<And>e. P (Some e, cl)" "P (None, cl)" "\<And>fs. P (None, cl \<lparr> failure_responses := fs, socket_open := False \<rparr>)"
    "\<And>i. P (None, cl \<lparr> client_id := i \<rparr>)" "\<And>i ty. P (link_object i ty cl)" "P (None, flush_all_objects cl)"
    "\<And>i. P (client_reply ok i msg cl)" "\<And>i. P (None, cl \<lparr> cl_objects := map_erase i (cl_objects cl) \<rparr>)"
    "\<And>fs. P (None, cl \<lparr> failure_responses := fs \<rparr>)"
  shows "P (client_message_received ok msg cl)"
proof -
  have g: "P (get_field k msg cl f)" if "\<And>s. P (f s)" for k f
    using that assms(1) by (simp add: get_field_def split: sum.split)
  have i: "P a \<Longrightarrow> P b \<Longrightarrow> P (if c then a else b)" for a b c by simp
  have cr: "P (case create_object_on_client ok msg of Inl e \<Rightarrow> (Some e, cl) | Inr (objid, ty) \<Rightarrow> link_object objid ty cl)"
    using assms(1,5) by (auto split: sum.split)
  have h: "P (if ok then None else Some HandlerThrew, cl)" using assms(1,2) by simp
  show ?thesis
    unfolding client_message_received_def Let_def by (intro g i cr h assms)
qed

section \<open>Requests and their answers\<close>

text \<open>The life of a client whose callbacks return normally.\<close>

inductive client_run :: "client \<Rightarrow> bool" where
  run_new: "client_run new_client"
| run_send: "client_run cl \<Longrightarrow> client_run (snd (client_distribute_message is_awaiting_reply kvs cl))"
| run_read: "client_run cl \<Longrightarrow> client_run (client_read_body True msg cl)"
| run_drop: "client_run cl \<Longrightarrow> client_run (client_connection_dropped cl)"

text \<open>Every request made so far waits or has been answered, and that once.\<close>

definition requests_ok :: "client \<Rightarrow> bool" where
  "requests_ok cl \<longleftrightarrow> map_ok (msg_waiting_for_reply cl) \<and>
     (\<forall>r. count_list (map snd (msg_waiting_for_reply cl)) r + count_list (map fst (answered cl)) r = (if r < asked cl then 1 else 0))"

lemma count_map_set:
  "map_ok m \<Longrightarrow> map_find k m = None \<Longrightarrow>
     count_list (map snd (map_set k v m)) r = count_list (map snd m) r + (if r = v then 1 else 0)"
  by (induction k v m rule: map_set.induct) (auto split: if_splits)

lemma count_map_erase:
  "map_ok m \<Longrightarrow> map_find k m = Some v \<Longrightarrow>
     count_list (map snd m) r = count_list (map snd (map_erase k m)) r + (if r = v then 1 else 0)"
proof (induction m)
  case (Cons p m)
  show ?case
  proof (cases "k = fst p")
    case True
    have "map_erase k (p # m) = m"
      using Cons.prems(1) True by (auto simp: map_erase_def intro!: filter_True)
    with Cons.prems True show ?thesis by (cases p) auto
  next
    case False
    with Cons show ?thesis by (cases p) (auto simp: map_erase_def split: if_splits)
  qed
qed simp

lemma requests_ok_received:
  assumes "requests_ok cl"
  shows "requests_ok (snd (client_message_received True msg cl))"
proof (rule client_message_received_cases)
  fix i
  show "requests_ok (snd (client_reply True i msg cl))"
  proof (cases "map_find i (msg_waiting_for_reply cl)")
    case (Some req)
    have "map_ok (msg_waiting_for_reply cl)" using assms by (simp add: requests_ok_def)
    from count_map_erase [OF this Some] have "count_list (map snd (map_erase i (msg_waiting_for_reply cl))) r +
        count_list (map fst (answered cl @ [(req, Some msg)])) r =
      count_list (map snd (msg_waiting_for_reply cl)) r + count_list (map fst (answered cl)) r" for r by simp
    with assms Some show ?thesis by (simp add: requests_ok_def client_reply_def)
  qed (use assms in \<open>simp add: client_reply_def\<close>)
qed (use assms in \<open>simp_all add: requests_ok_def link_object_def flush_all_objects_def\<close>)

lemma requests_ok_dropped: "requests_ok cl \<Longrightarrow> requests_ok (client_connection_dropped cl)"
  by (simp add: requests_ok_def client_connection_dropped_def flush_all_objects_def Let_def o_def add.commute)

lemma requests_ok_sent:
  assumes "requests_ok cl"
  shows "requests_ok (snd (client_distribute_message is_awaiting_reply kvs cl))"
proof -
  have "map_ok (msg_waiting_for_reply cl)" using assms by (simp add: requests_ok_def)
  from count_map_set [OF this, of "next_reply_id cl" "asked cl"] assms show ?thesis
    by (auto simp: requests_ok_def client_distribute_message_def Let_def)
qed

lemma client_run_requests: "client_run cl \<Longrightarrow> requests_ok cl"
proof (induction rule: client_run.induct)
  case run_new
  show ?case by (simp add: requests_ok_def new_client_def)
next
  case (run_send cl aw kvs)
  then show ?case by (simp add: requests_ok_sent)
next
  case (run_read cl msg)
  from requests_ok_received [OF run_read.IH, of msg] requests_ok_dropped show ?case
    by (cases "client_message_received True msg cl") (auto simp: client_read_body_def split: option.split)
next
  case (run_drop cl)
  then show ?case by (simp add: requests_ok_dropped)
qed


text \<open>Two requests, of which the second is answered and the first is not before the connection is lost.\<close>

definition demo_reply :: message where
  "demo_reply = new_message \<lparr> key2val := [(''id'', ''-6''), (''repid'', ''1'')] \<rparr>"

definition demo_client :: client where
  "demo_client = client_read_body True demo_reply
     (snd (client_distribute_message True [(''id'', ''7'')] (snd (client_distribute_message True [(''id'', ''7'')] new_client))))"


end
