(* ===== verification/Registry_Session.thy ===== *)
theory Registry_Session
  imports Object_Registry
begin

text \<open>
  A server and its clients at work: the events of a session in any order, with the bytes between the two
  sides. A client that is connected and has not been told otherwise reads its way to exactly the objects of
  the server.
\<close>

section \<open>Sessions\<close>

record remote =
  srv :: server
  cls :: "int \<Rightarrow> client"
  wire_from :: "int \<Rightarrow> string"
  agent_msg :: "int \<Rightarrow> message"
  agent_open :: "int \<Rightarrow> bool"

definition new_remote :: remote where
  "new_remote = \<lparr> srv = new_server, cls = \<lambda>a. new_client, wire_from = \<lambda>a. [], agent_msg = \<lambda>a. new_message, agent_open = \<lambda>a. False \<rparr>"

text \<open>\<open>Client_Reads\<close> and \<open>Agent_Reads\<close> are a completed \<open>do_read_body\<close>, \<open>Client_Loses\<close> and \<open>Agent_Loses\<close> a read
  that failed.\<close>

datatype remote_event =
  Start "string \<Rightarrow> msg_fields" | Create string msg_fields | Remove int | Object_Sends int msg_fields | Object_Changes int msg_fields
| Accept | Agent_Reads int "handler_effect list" "registry_error option" | Agent_Loses int
| Client_Reads int bool | Client_Loses int | Client_Sends int bool msg_fields

fun remote_step :: "remote_event \<Rightarrow> remote \<Rightarrow> remote" where
  "remote_step (Start fs) w = w \<lparr> srv := snd (create_service_objects fs (srv w)) \<rparr>"
| "remote_step (Create ty fs) w = w \<lparr> srv := snd (create_object_from_factory ty fs (srv w)) \<rparr>"
| "remote_step (Remove i) w = w \<lparr> srv := snd (server_remove_object i (srv w)) \<rparr>"
| "remote_step (Object_Sends i kvs) w =
     (if map_find i (all_objects (srv w)) = None then w
      else w \<lparr> srv := snd (distribute_message ((''id'', show_int i) # kvs) (srv w)) \<rparr>)"
| "remote_step (Object_Changes i fs) w = w \<lparr> srv := snd (run_effect 0 new_message i (Change fs) (srv w)) \<rparr>"
| "remote_step Accept w =
     w \<lparr> srv := snd (accept_client (srv w)), agent_open := (agent_open w)(next_client_agent_id (srv w) := True) \<rparr>"
| "remote_step (Agent_Reads a es outcome) w =
     (if agent_open w a then (case read_message (wire_from w a) (agent_msg w a) of
          Inl e \<Rightarrow> w
        | Inr (msg, rest) \<Rightarrow> w \<lparr> srv := agent_read_body es outcome a msg (srv w), wire_from := (wire_from w)(a := rest),
                                 agent_msg := (agent_msg w)(a := msg) \<rparr>)
      else w)"
| "remote_step (Agent_Loses a) w = w \<lparr> srv := drop_client a (srv w), agent_open := (agent_open w)(a := False) \<rparr>"
| "remote_step (Client_Reads a ok) w =
     (if socket_open (cls w a) then (case read_message (wire_to (srv w) a) (read_msg (cls w a)) of
          Inl e \<Rightarrow> w
        | Inr (msg, rest) \<Rightarrow> w \<lparr> srv := (srv w) \<lparr> wire_to := (wire_to (srv w))(a := rest) \<rparr>,
                                 cls := (cls w)(a := client_read_body ok msg (cls w a \<lparr> read_msg := msg \<rparr>)) \<rparr>)
      else w)"
| "remote_step (Client_Loses a) w =
     w \<lparr> cls := (cls w)(a := client_connection_dropped (cls w a) \<lparr> socket_open := False \<rparr>) \<rparr>"
| "remote_step (Client_Sends a is_awaiting_reply kvs) w =
     (case client_distribute_message is_awaiting_reply kvs (cls w a) of (sent, cl) \<Rightarrow>
        let w = w \<lparr> cls := (cls w)(a := cl) \<rparr> in
        case sent of None \<Rightarrow> w
        | Some kvs \<Rightarrow> (case message_bytes kvs of Inl e \<Rightarrow> w
                      | Inr b \<Rightarrow> w \<lparr> wire_from := (wire_from w)(a := wire_from w a @ b) \<rparr>))"

text \<open>Messages that fit the format: other fields never arrive as they were sent (Message).\<close>

definition wire_ok :: "msg_fields \<Rightarrow> bool" where
  "wire_ok kvs \<longleftrightarrow> (\<forall>p \<in> set kvs. plain (fst p) \<and> plain (snd p)) \<and> distinct (map fst kvs) \<and>
     length (body_text (map encode_pair kvs)) < 2 ^ 32"

fun effect_ok :: "message \<Rightarrow> int \<Rightarrow> string \<Rightarrow> handler_effect \<Rightarrow> bool" where
  "effect_ok msg objid ty (Broadcast kvs) \<longleftrightarrow> wire_ok ((''id'', show_int objid) # kvs)"
| "effect_ok msg objid ty (Answer kvs) \<longleftrightarrow>
     (\<forall>rid. get_value ''repid'' msg = Inr rid \<longrightarrow> wire_ok ((''id'', show_int MSG_REPLY) # (''repid'', rid) # kvs))"
| "effect_ok msg objid ty (Change kvs) \<longleftrightarrow> wire_ok (create_message \<lparr> obj_id = objid, obj_type = ty, obj_fields = kvs \<rparr>)"

definition outcome_ok :: "registry_error option \<Rightarrow> bool" where
  "outcome_ok outcome \<longleftrightarrow> (\<forall>s. outcome = Some (FailureResponse s) \<longrightarrow> s \<noteq> [] \<longrightarrow> wire_ok (failure_message s))"

definition object_fits :: "server \<Rightarrow> int \<Rightarrow> string \<Rightarrow> msg_fields \<Rightarrow> bool" where
  "object_fits sv n ty fs \<longleftrightarrow> last_obj_id sv + n < 2 ^ 31 \<and>
     (\<forall>i. last_obj_id sv < i \<and> i \<le> last_obj_id sv + n \<longrightarrow> wire_ok (create_message \<lparr> obj_id = i, obj_type = ty, obj_fields = fs \<rparr>))"

fun event_ok :: "remote \<Rightarrow> remote_event \<Rightarrow> bool" where
  "event_ok w (Start fs) \<longleftrightarrow> (\<forall>ty. map_find ty server_factories \<noteq> None \<longrightarrow> object_fits (srv w) 9 ty (fs ty))"
| "event_ok w (Create ty fs) \<longleftrightarrow> object_fits (srv w) 1 ty fs"
| "event_ok w (Object_Sends i kvs) \<longleftrightarrow> wire_ok ((''id'', show_int i) # kvs)"
| "event_ok w (Object_Changes i fs) \<longleftrightarrow>
     (\<forall>ob. map_find i (all_objects (srv w)) = Some ob \<longrightarrow> effect_ok new_message i (obj_type ob) (Change fs))"
| "event_ok w Accept \<longleftrightarrow> next_client_agent_id (srv w) < 2 ^ 31 - 1"
| "event_ok w (Agent_Reads a es outcome) \<longleftrightarrow> outcome_ok outcome \<and>
     (\<forall>msg rest s ob. read_message (wire_from w a) (agent_msg w a) = Inr (msg, rest) \<longrightarrow> get_value ''id'' msg = Inr s \<longrightarrow>
        map_find (stoi s) (all_objects (srv w)) = Some ob \<longrightarrow> (\<forall>e \<in> set es. effect_ok msg (stoi s) (obj_type ob) e))"
| "event_ok w _ \<longleftrightarrow> True"

inductive remote_reach :: "remote \<Rightarrow> bool" where
  reach_new: "remote_reach new_remote"
| reach_step: "remote_reach w \<Longrightarrow> event_ok w e \<Longrightarrow> remote_reach (remote_step e w)"

section \<open>What a message does to the objects of a client\<close>

definition announced :: "msg_fields \<Rightarrow> (int, string) smap \<Rightarrow> (int, string) smap option" where
  "announced kvs objs = (case map_of kvs ''id'' of None \<Rightarrow> None | Some s \<Rightarrow>
     if stoi s = MSG_PROTOCOL_VERSION then
       (case map_of kvs ''pversion'' of Some v \<Rightarrow> if stoi v \<le> VUKNOB_PROTOCOL_VERSION then Some objs else None | None \<Rightarrow> None)
     else if stoi s = MSG_CLIENT_ID then (case map_of kvs ''clid'' of Some v \<Rightarrow> Some objs | None \<Rightarrow> None)
     else if stoi s = MSG_CREATE_OBJECT then (case (map_of kvs ''factory'', map_of kvs ''new_objid'') of
         (Some ty, Some n) \<Rightarrow>
           if map_find ty client_factories \<noteq> None \<and> map_find (stoi n) objs = None \<and> 0 \<le> stoi n
           then Some (map_set (stoi n) ty objs) else None
       | _ \<Rightarrow> None)
     else if stoi s = MSG_FLUSH_ALL_OBJECTS then Some []
     else if stoi s = MSG_REPLY then (case map_of kvs ''repid'' of Some v \<Rightarrow> Some objs | None \<Rightarrow> None)
     else if stoi s = MSG_DELETE_OBJECT then (case map_of kvs ''objid'' of Some n \<Rightarrow> Some (map_erase (stoi n) objs) | None \<Rightarrow> None)
     else if stoi s = MSG_FAILURE_RESPONSE then (case map_of kvs ''response'' of Some v \<Rightarrow> Some objs | None \<Rightarrow> None)
     else if map_find (stoi s) objs = None then None else Some objs)"

fun replay :: "msg_fields list \<Rightarrow> (int, string) smap \<Rightarrow> (int, string) smap option" where
  "replay [] objs = Some objs"
| "replay (kvs # anns) objs = Option.bind (announced kvs objs) (replay anns)"

lemma replay_append: "replay (xs @ ys) objs = Option.bind (replay xs objs) (replay ys)"
  by (induction xs arbitrary: objs) (auto split: bind_splits)

definition wire_bytes :: "msg_fields \<Rightarrow> string" where
  "wire_bytes kvs = (case message_bytes kvs of Inl e \<Rightarrow> [] | Inr b \<Rightarrow> b)"

lemma wire_ok_read:
  assumes "wire_ok kvs" "sbuf r = []"
  shows "message_bytes kvs = Inr (wire_bytes kvs)" "\<exists>r'. read_message (wire_bytes kvs @ rest) r = Inr (r', rest) \<and> sbuf r' = [] \<and>
    (\<forall>k. get_value k r' = (case map_of kvs k of Some v \<Rightarrow> Inr v | None \<Rightarrow> Inl (NoSuchKey k)))"
proof -
  from wire_exact [of kvs r rest] assms obtain m r' where
    m: "set_values kvs new_message = Inr m" "read_message (get_data (encode_message m) @ rest) r = Inr (r', rest)" "sbuf r' = []"
    "\<forall>p \<in> set kvs. get_value (fst p) r' = Inr (snd p)" "\<forall>k. k \<notin> fst ` set kvs \<longrightarrow> get_value k r' = Inl (NoSuchKey k)"
    unfolding wire_ok_def by blast
  then show "message_bytes kvs = Inr (wire_bytes kvs)" by (simp add: message_bytes_def wire_bytes_def)
  have "get_value k r' = (case map_of kvs k of Some v \<Rightarrow> Inr v | None \<Rightarrow> Inl (NoSuchKey k))" for k
  proof (cases "map_of kvs k")
    case None
    then have "k \<notin> fst ` set kvs" by (simp add: map_of_eq_None_iff)
    with m(5) None show ?thesis by simp
  next
    case (Some v)
    then show ?thesis using m(4) map_of_SomeD by fastforce
  qed
  moreover have "wire_bytes kvs = get_data (encode_message m)" using m(1) by (simp add: wire_bytes_def message_bytes_def)
  ultimately show "\<exists>r'. read_message (wire_bytes kvs @ rest) r = Inr (r', rest) \<and> sbuf r' = [] \<and>
    (\<forall>k. get_value k r' = (case map_of kvs k of Some v \<Rightarrow> Inr v | None \<Rightarrow> Inl (NoSuchKey k)))"
    using m(2,3) by auto
qed

lemma wire_bytes_nonempty:
  assumes "wire_ok kvs"
  shows "wire_bytes kvs \<noteq> []"
  using wire_ok_read(2) [OF assms, of new_message "[]"] by (auto simp: read_message_def header_length_def new_message_def)

lemma client_message_announced:
  assumes "\<forall>k. get_value k msg = (case map_of kvs k of Some v \<Rightarrow> Inr v | None \<Rightarrow> Inl (NoSuchKey k))"
    "announced kvs (cl_objects cl) = Some objs" "client_message_received ok msg cl = (e, cl')"
  shows "(e = None \<and> cl_objects cl' = objs \<and> socket_open cl' = socket_open cl \<or> \<not> ok \<and> e \<noteq> None) \<and>
    disconnects cl' = disconnects cl \<and> read_msg cl' = read_msg cl"
proof -
  obtain s where s: "map_of kvs ''id'' = Some s" using assms(2) by (auto simp: announced_def split: option.splits)
  then have id: "client_message_received ok msg cl = (e, cl')" "get_value ''id'' msg = Inr s" using assms by auto
  consider "stoi s = MSG_PROTOCOL_VERSION" | "stoi s = MSG_CLIENT_ID" | "stoi s = MSG_CREATE_OBJECT" | "stoi s = MSG_FLUSH_ALL_OBJECTS"
    | "stoi s = MSG_REPLY" | "stoi s = MSG_DELETE_OBJECT" | "stoi s = MSG_FAILURE_RESPONSE"
    | "stoi s \<noteq> MSG_PROTOCOL_VERSION" "stoi s \<noteq> MSG_CLIENT_ID" "stoi s \<noteq> MSG_CREATE_OBJECT" "stoi s \<noteq> MSG_FLUSH_ALL_OBJECTS"
      "stoi s \<noteq> MSG_REPLY" "stoi s \<noteq> MSG_DELETE_OBJECT" "stoi s \<noteq> MSG_FAILURE_RESPONSE" by blast
  then show ?thesis
  proof cases
    case 1
    with s id assms(1,2) show ?thesis
      by (auto simp: client_message_received_def announced_def get_field_def split: option.splits if_splits)
  next
    case 2
    with s id assms(1,2) show ?thesis
      by (auto simp: client_message_received_def announced_def get_field_def msg_numbers split: option.splits)
  next
    case 3
    with s id assms(1,2) show ?thesis
      by (auto simp: client_message_received_def announced_def get_field_def msg_numbers create_object_on_client_def link_object_def
          split: option.splits if_splits)
  next
    case 4
    with s id assms(1,2) show ?thesis
      by (auto simp: client_message_received_def announced_def get_field_def msg_numbers flush_all_objects_def)
  next
    case 5
    with s id assms(1,2) show ?thesis
      by (auto simp: client_message_received_def announced_def get_field_def msg_numbers client_reply_def Let_def
          split: option.splits if_splits)
  next
    case 6
    with s id assms(1,2) show ?thesis
      by (auto simp: client_message_received_def announced_def get_field_def msg_numbers split: option.splits)
  next
    case 7
    with s id assms(1,2) show ?thesis
      by (auto simp: client_message_received_def announced_def get_field_def msg_numbers split: option.splits)
  next
    case 8
    with s id assms(1,2) show ?thesis
      by (auto simp: client_message_received_def announced_def get_field_def split: if_splits)
  qed
qed

section \<open>Clients that follow the server\<close>

text \<open>What is on its wire leads the client to the objects \<open>view\<close>.\<close>

definition wire_follows :: "string \<Rightarrow> client \<Rightarrow> (int, string) smap \<Rightarrow> bool" where
  "wire_follows b cl view \<longleftrightarrow> sbuf (read_msg cl) = [] \<and> socket_open cl \<and>
     (\<exists>anns. (\<forall>kvs \<in> set anns. wire_ok kvs) \<and> b = concat (map wire_bytes anns) \<and> replay anns (cl_objects cl) = Some view)"

lemma follows_append:
  assumes "wire_follows b cl view" "wire_ok kvs" "announced kvs view = Some view'"
  shows "wire_follows (b @ wire_bytes kvs) cl view'"
proof -
  from assms(1) obtain anns where "\<forall>k \<in> set anns. wire_ok k" "b = concat (map wire_bytes anns)" "replay anns (cl_objects cl) = Some view"
    by (auto simp: wire_follows_def)
  with assms show ?thesis by (auto simp: wire_follows_def replay_append intro!: exI [of _ "anns @ [kvs]"])
qed

lemma follows_appends:
  assumes "wire_follows b cl view" "\<forall>kvs \<in> set anns. wire_ok kvs" "replay anns view = Some view'"
  shows "wire_follows (b @ concat (map wire_bytes anns)) cl view'"
  using assms
proof (induction anns arbitrary: b view)
  case (Cons kvs anns)
  then obtain v where "announced kvs view = Some v" "replay anns v = Some view'" by (auto simp: bind_eq_Some_conv)
  with Cons.IH [OF follows_append [OF Cons.prems(1)]] Cons.prems show ?case by simp
qed simp

lemma follows_nothing: "wire_follows [] cl view \<Longrightarrow> cl_objects cl = view"
proof -
  assume "wire_follows [] cl view"
  then obtain anns where "\<forall>kvs \<in> set anns. wire_ok kvs" "concat (map wire_bytes anns) = []" "replay anns (cl_objects cl) = Some view"
    by (auto simp: wire_follows_def)
  then show "cl_objects cl = view" using wire_bytes_nonempty by (cases anns) auto
qed

lemma client_read_body_follows:
  assumes "wire_follows (wire_bytes kvs @ b) cl view" "wire_ok kvs" "announced kvs (cl_objects cl) = Some objs" "sbuf r = []"
    "\<forall>k. get_value k r = (case map_of kvs k of Some v \<Rightarrow> Inr v | None \<Rightarrow> Inl (NoSuchKey k))"
    "\<forall>k \<in> set anns. wire_ok k" "b = concat (map wire_bytes anns)" "replay anns objs = Some view"
  shows "wire_follows b (client_read_body ok r (cl \<lparr> read_msg := r \<rparr>)) view \<and>
      disconnects (client_read_body ok r (cl \<lparr> read_msg := r \<rparr>)) = disconnects cl \<or>
    \<not> ok \<and> disconnects (client_read_body ok r (cl \<lparr> read_msg := r \<rparr>)) = Suc (disconnects cl)"
proof -
  obtain e cl' where cm: "client_message_received ok r (cl \<lparr> read_msg := r \<rparr>) = (e, cl')" by fastforce
  from client_message_announced [OF assms(5) _ this] assms(3)
  have "(e = None \<and> cl_objects cl' = objs \<and> socket_open cl' = socket_open cl \<or> \<not> ok \<and> e \<noteq> None) \<and>
    disconnects cl' = disconnects cl \<and> read_msg cl' = r" by simp
  moreover have "socket_open cl" using assms(1) by (simp add: wire_follows_def)
  ultimately show ?thesis
    using cm assms(4,6,7,8)
    by (auto simp: client_read_body_def wire_follows_def client_connection_dropped_def flush_all_objects_def Let_def)
qed

text \<open>Reading a message: the client still wire_follows, and only code of a class can make it give up.\<close>

lemma follows_read:
  assumes "wire_follows b cl view" "b \<noteq> []"
  obtains r rest where "read_message b (read_msg cl) = Inr (r, rest)" "length rest < length b"
    "\<And>ok. wire_follows rest (client_read_body ok r (cl \<lparr> read_msg := r \<rparr>)) view \<and>
        disconnects (client_read_body ok r (cl \<lparr> read_msg := r \<rparr>)) = disconnects cl \<or>
      \<not> ok \<and> disconnects (client_read_body ok r (cl \<lparr> read_msg := r \<rparr>)) = Suc (disconnects cl)"
proof -
  from assms(1) obtain anns where anns: "\<forall>k \<in> set anns. wire_ok k" "b = concat (map wire_bytes anns)"
    "replay anns (cl_objects cl) = Some view" and sb: "sbuf (read_msg cl) = []" by (auto simp: wire_follows_def)
  with assms(2) obtain kvs rest where kr: "anns = kvs # rest" by (cases anns) auto
  from anns(3) kr obtain objs where objs: "announced kvs (cl_objects cl) = Some objs" "replay rest objs = Some view"
    by (auto simp: bind_eq_Some_conv)
  have ok: "wire_ok kvs" "\<forall>k \<in> set rest. wire_ok k" using anns(1) kr by auto
  define bs where "bs = concat (map wire_bytes rest)"
  have b: "b = wire_bytes kvs @ bs" using anns(2) kr by (simp add: bs_def)
  from wire_ok_read(2) [OF ok(1) sb, of bs] obtain r where
    r: "read_message b (read_msg cl) = Inr (r, bs)" "sbuf r = []"
    "\<forall>k. get_value k r = (case map_of kvs k of Some v \<Rightarrow> Inr v | None \<Rightarrow> Inl (NoSuchKey k))" using b by auto
  have "length bs < length b" using b wire_bytes_nonempty [OF ok(1)] by simp
  with client_read_body_follows [OF _ ok(1) objs(1) r(2,3) ok(2) bs_def objs(2)] assms(1) b r(1) show ?thesis
    by (intro that [of r bs]) auto
qed

section \<open>What the server sends\<close>

definition object_view :: "server \<Rightarrow> (int, string) smap" where
  "object_view sv = map (\<lambda>p. (fst p, obj_type (snd p))) (all_objects sv)"

lemma map_values_find: "map_find k (map (\<lambda>p. (fst p, f (snd p))) m) = map_option f (map_find k m)"
  by (induction m) auto

lemma map_values_set: "map (\<lambda>p. (fst p, f (snd p))) (map_set k v m) = map_set k (f v) (map (\<lambda>p. (fst p, f (snd p))) m)"
  by (induction k v m rule: map_set.induct) auto

lemma map_values_erase: "map (\<lambda>p. (fst p, f (snd p))) (map_erase k m) = map_erase k (map (\<lambda>p. (fst p, f (snd p))) m)"
  by (induction m) (auto simp: map_erase_def)

lemma map_set_same: "map_ok m \<Longrightarrow> map_find k m = Some v \<Longrightarrow> map_set k v m = m"
  by (induction k v m rule: map_set.induct) (auto split: if_splits)

lemma fold_deliver_bytes:
  "distinct as \<Longrightarrow> fold (deliver_bytes b) as sv = sv \<lparr> wire_to := \<lambda>a. if a \<in> set as then wire_to sv a @ b else wire_to sv a \<rparr>"
  by (induction as arbitrary: sv) (auto simp: deliver_bytes_def fun_eq_iff intro!: arg_cong [where f = "\<lambda>w. sv \<lparr> wire_to := w \<rparr>" for sv])

lemma distribute_ok:
  "wire_ok kvs \<Longrightarrow> distinct (client_agents sv) \<Longrightarrow>
     distribute_message kvs sv =
       (None, sv \<lparr> wire_to := \<lambda>a. if a \<in> set (client_agents sv) then wire_to sv a @ wire_bytes kvs else wire_to sv a \<rparr>)"
  using wire_ok_read(1) [of kvs new_message] by (simp add: distribute_message_def fold_deliver_bytes new_message_def)

lemma deliver_ok: "wire_ok kvs \<Longrightarrow> deliver_to a kvs sv = (None, deliver_bytes (wire_bytes kvs) a sv)"
  using wire_ok_read(1) [of kvs new_message] by (simp add: deliver_to_def new_message_def)

lemma show_nat_length: "n < 10 ^ Suc k \<Longrightarrow> length (show_nat n) \<le> Suc k"
proof (induction k arbitrary: n)
  case (Suc k)
  then have "n div 10 < 10 ^ Suc k" by (simp add: div_less_iff_less_mult)
  from Suc.IH [OF this] show ?case by (subst show_nat.simps) simp
qed (simp add: show_nat.simps)

lemma show_int_length: "\<bar>i\<bar> < 10 ^ 10 \<Longrightarrow> length (show_int i) \<le> 11"
  using show_nat_length [of "nat i" 9] show_nat_length [of "nat (- i)" 9] by (auto simp: show_int_def nat_less_iff)

text \<open>Fields of moderate length fit a message.\<close>

lemma wire_ok_short:
  assumes "\<forall>p \<in> set kvs. plain (fst p) \<and> plain (snd p) \<and> length (fst p) \<le> 100 \<and> length (snd p) \<le> 100"
    "distinct (map fst kvs)" "length kvs \<le> 100"
  shows "wire_ok kvs"
proof -
  have "length (body_text (map encode_pair kvs)) \<le> length kvs * 700"
    if "\<forall>p \<in> set kvs. plain (fst p) \<and> plain (snd p) \<and> length (fst p) \<le> 100 \<and> length (snd p) \<le> 100" for kvs :: msg_fields
    using that
  proof (induction kvs)
    case (Cons p kvs)
    then have "length (encode_string (fst p)) \<le> 307" "length (encode_string (snd p)) \<le> 307"
      using encode_string_length [of "fst p"] encode_string_length [of "snd p"] by (auto simp: plain_def)
    with Cons show ?case by simp
  qed simp
  from this [OF assms(1)] assms show ?thesis by (auto simp: wire_ok_def)
qed

lemma wire_ok_numbers:
  assumes "\<bar>i\<bar> < 10 ^ 10" "\<bar>j\<bar> < 10 ^ 10" "k \<in> {''objid'', ''pversion'', ''clid''}"
  shows "wire_ok [(''id'', show_int i), (k, show_int j)]"
  using assms show_int_plain show_int_length [of i] show_int_length [of j]
  by (intro wire_ok_short) (auto simp: plain_def has_delim_def nul_free_def)

lemma stoi_number: "- (2 ^ 31) \<le> i \<Longrightarrow> i < 2 ^ 31 \<Longrightarrow> stoi (show_int i) = i"
  using stoi_show_int [of i] by simp

lemma announced_create:
  "map_find (obj_type ob) client_factories \<noteq> None \<Longrightarrow> 0 \<le> obj_id ob \<Longrightarrow> obj_id ob < 2 ^ 31 \<Longrightarrow> map_find (obj_id ob) objs = None \<Longrightarrow>
     announced (create_message ob) objs = Some (map_set (obj_id ob) (obj_type ob) objs)"
  by (simp add: announced_def create_message_def add_create_object_header_def stoi_number msg_numbers)

lemma announced_delete:
  "0 \<le> obj_id ob \<Longrightarrow> obj_id ob < 2 ^ 31 \<Longrightarrow> announced (add_destroy_object_header ob) objs = Some (map_erase (obj_id ob) objs)"
  by (simp add: announced_def add_destroy_object_header_def stoi_number msg_numbers)

lemma announced_object:
  "0 \<le> i \<Longrightarrow> i < 2 ^ 31 \<Longrightarrow> map_find i objs \<noteq> None \<Longrightarrow> announced ((''id'', show_int i) # kvs) objs = Some objs"
  by (simp add: announced_def stoi_number msg_numbers)

lemma announced_reply: "announced ((''id'', show_int MSG_REPLY) # (''repid'', rid) # kvs) objs = Some objs"
  by (simp add: announced_def stoi_number msg_numbers)

lemma announced_failure: "announced (failure_message s) objs = Some objs"
  by (simp add: announced_def failure_message_def stoi_number msg_numbers)

lemma announced_version: "announced version_message objs = Some objs"
  by (simp add: announced_def version_message_def stoi_number msg_numbers)

lemma announced_client_id: "announced (client_id_message a) objs = Some objs"
  by (simp add: announced_def client_id_message_def stoi_number msg_numbers)

section \<open>The server keeps its clients in step\<close>

definition object_ok :: "int \<Rightarrow> int \<times> server_object \<Rightarrow> bool" where
  "object_ok n p \<longleftrightarrow> obj_id (snd p) = fst p \<and> 0 \<le> fst p \<and> fst p \<le> n \<and> map_find (obj_type (snd p)) client_factories \<noteq> None \<and>
     wire_ok (create_message (snd p))"

definition server_ok :: "server \<Rightarrow> bool" where
  "server_ok sv \<longleftrightarrow> map_ok (all_objects sv) \<and> -1 \<le> last_obj_id sv \<and> last_obj_id sv < 2 ^ 31 \<and>
     (\<forall>p \<in> set (all_objects sv). object_ok (last_obj_id sv) p) \<and> distinct (client_agents sv) \<and> sorted (client_agents sv) \<and>
     0 \<le> next_client_agent_id sv \<and> next_client_agent_id sv < 2 ^ 31 \<and>
     (\<forall>a \<in> set (client_agents sv). 0 \<le> a \<and> a < next_client_agent_id sv) \<and> (\<forall>a \<ge> next_client_agent_id sv. wire_to sv a = [])"

definition all_follow :: "server \<Rightarrow> (int \<Rightarrow> client) \<Rightarrow> bool" where
  "all_follow sv cs \<longleftrightarrow> (\<forall>a. disconnects (cs a) = 0 \<longrightarrow>
     (a \<in> set (client_agents sv) \<longrightarrow> wire_follows (wire_to sv a) (cs a) (object_view sv)) \<and>
     (next_client_agent_id sv \<le> a \<longrightarrow> wire_follows [] (cs a) []))"

definition keeps :: "server \<Rightarrow> server \<Rightarrow> bool" where
  "keeps sv sv' \<longleftrightarrow> (server_ok sv \<longrightarrow> server_ok sv' \<and> next_client_agent_id sv \<le> next_client_agent_id sv' \<and>
     (\<forall>cs. all_follow sv cs \<longrightarrow> all_follow sv' cs))"

lemma keeps_refl [simp]: "keeps sv sv" by (simp add: keeps_def)

lemma keeps_trans: "keeps a b \<Longrightarrow> keeps b c \<Longrightarrow> keeps a c" by (auto simp: keeps_def)

lemma keeps_and_then:
  "keeps sv (snd r) \<Longrightarrow> (\<And>s. r = (None, s) \<Longrightarrow> keeps sv s \<Longrightarrow> keeps sv (snd (f s))) \<Longrightarrow> keeps sv (snd (and_then r f))"
  by (cases r) (auto simp: and_then_def split: option.split)

text \<open>The same message to every agent, beside a change of the objects that it announces.\<close>

lemma keeps_announce:
  assumes "wire_ok kvs" "announced kvs (object_view sv) = Some (object_view (sv \<lparr> all_objects := obs \<rparr>))"
    "map_ok obs" "\<forall>p \<in> set obs. object_ok (last_obj_id sv) p"
  shows "keeps sv (sv \<lparr> all_objects := obs,
    wire_to := \<lambda>a. if a \<in> set (client_agents sv) then wire_to sv a @ wire_bytes kvs else wire_to sv a \<rparr>)"
proof -
  have ov: "object_view (sv \<lparr> all_objects := obs, wire_to := x \<rparr>) = object_view (sv \<lparr> all_objects := obs \<rparr>)" for x
    by (simp add: object_view_def)
  show ?thesis
    using assms follows_append [OF _ assms(1,2)]
    by (auto simp: keeps_def server_ok_def all_follow_def ov)
qed

lemma keeps_deliver:
  assumes "wire_ok kvs" "announced kvs (object_view sv) = Some (object_view sv)" "a < next_client_agent_id sv"
  shows "keeps sv (deliver_bytes (wire_bytes kvs) a sv)"
proof -
  have ov: "object_view (deliver_bytes b a sv) = object_view sv" for b by (simp add: object_view_def deliver_bytes_def)
  show ?thesis
    using follows_append [OF _ assms(1,2)] assms(3)
    by (auto simp: keeps_def server_ok_def all_follow_def ov) (auto simp: deliver_bytes_def)
qed

lemma keeps_drop: "keeps sv (drop_client a sv)"
proof -
  have "set (remove1 a xs) \<subseteq> set xs" for xs :: "int list" by (rule set_remove1_subset)
  then show ?thesis
    by (auto simp: keeps_def server_ok_def all_follow_def drop_client_def object_view_def sorted_remove1)
qed

lemma keeps_distribute:
  assumes "wire_ok kvs" "announced kvs (object_view sv) = Some (object_view sv)"
  shows "keeps sv (snd (distribute_message kvs sv))"
proof -
  have "keeps sv (sv \<lparr> wire_to := \<lambda>a. if a \<in> set (client_agents sv) then wire_to sv a @ wire_bytes kvs else wire_to sv a \<rparr>)"
    if "server_ok sv"
    using keeps_announce [of kvs sv "all_objects sv"] assms that by (simp add: server_ok_def)
  moreover have "distinct (client_agents sv)" if "server_ok sv" using that by (simp add: server_ok_def)
  ultimately show ?thesis using distribute_ok [OF assms(1), of sv] by (auto simp: keeps_def)
qed

lemma object_view_find: "map_find i (object_view sv) = map_option obj_type (map_find i (all_objects sv))"
  by (simp add: object_view_def map_values_find)

lemma server_object_ok:
  assumes "server_ok sv" "map_find i (all_objects sv) = Some ob"
  shows "object_ok (last_obj_id sv) (i, ob)" "0 \<le> i" "i < 2 ^ 31" "obj_id ob = i"
  using assms map_find_iff [of "all_objects sv" i ob] by (auto simp: server_ok_def object_ok_def)

lemma keeps_object_message:
  assumes "wire_ok ((''id'', show_int i) # kvs)" "map_find i (all_objects sv) \<noteq> None"
  shows "keeps sv (snd (distribute_message ((''id'', show_int i) # kvs) sv))"
proof -
  have "announced ((''id'', show_int i) # kvs) (object_view sv) = Some (object_view sv)" if "server_ok sv"
    using server_object_ok [OF that, of i] assms(2) announced_object [of i "object_view sv" kvs] by (auto simp: object_view_find)
  then show ?thesis using keeps_distribute [OF assms(1), of sv] by (auto simp: keeps_def)
qed

subsection \<open>Creating objects\<close>

lemma reserve_ok:
  assumes "server_ok sv" "last_obj_id sv + 1 < 2 ^ 31"
  shows "reserve_new_obj_id sv = (None, sv \<lparr> last_obj_id := last_obj_id sv + 1 \<rparr>)"
    "keeps sv (sv \<lparr> last_obj_id := last_obj_id sv + 1 \<rparr>)" "map_find (last_obj_id sv + 1) (all_objects sv) = None"
proof -
  have b: "-1 \<le> last_obj_id sv" using assms(1) by (simp add: server_ok_def)
  then have "(last_obj_id sv + 1 + 2 ^ 31) mod 2 ^ 32 = last_obj_id sv + 1 + 2 ^ 31"
    using assms(2) by (intro mod_pos_pos_trivial) auto
  then have "int32_succ (last_obj_id sv) = last_obj_id sv + 1" by (simp add: int32_succ_def)
  then show "reserve_new_obj_id sv = (None, sv \<lparr> last_obj_id := last_obj_id sv + 1 \<rparr>)"
    using b by (simp add: reserve_new_obj_id_def Let_def)
  have "object_ok (last_obj_id sv + 1) p" if "object_ok (last_obj_id sv) p" for p using that by (auto simp: object_ok_def)
  then show "keeps sv (sv \<lparr> last_obj_id := last_obj_id sv + 1 \<rparr>)"
    using assms b by (auto simp: keeps_def server_ok_def all_follow_def object_view_def)
  show "map_find (last_obj_id sv + 1) (all_objects sv) = None"
    using server_object_ok(1) [OF assms(1), of "last_obj_id sv + 1"]
    by (cases "map_find (last_obj_id sv + 1) (all_objects sv)") (auto simp: object_ok_def)
qed

lemma keeps_remember:
  assumes "map_find (obj_id ob) (all_objects sv) = None" "object_ok (last_obj_id sv) (obj_id ob, ob)"
  shows "keeps sv (snd (remember_object ob sv))"
proof (cases "server_ok sv")
  case True
  let ?obs = "map_set (obj_id ob) ob (all_objects sv)"
  have ok: "map_ok (all_objects sv)" "distinct (client_agents sv)" "last_obj_id sv < 2 ^ 31" using True by (simp_all add: server_ok_def)
  have w: "wire_ok (create_message ob)" using assms(2) by (simp add: object_ok_def)
  have "announced (create_message ob) (object_view sv) = Some (object_view (sv \<lparr> all_objects := ?obs \<rparr>))"
    using assms ok(3) announced_create [of ob "object_view sv"]
    by (simp add: object_ok_def object_view_find object_view_def map_values_set map_values_find)
  moreover have "\<forall>p \<in> set ?obs. object_ok (last_obj_id sv) p"
    using True assms(2) by (auto simp: map_set_set [OF ok(1)] server_ok_def)
  ultimately have "keeps sv (sv \<lparr> all_objects := ?obs,
    wire_to := \<lambda>a. if a \<in> set (client_agents sv) then wire_to sv a @ wire_bytes (create_message ob) else wire_to sv a \<rparr>)"
    using keeps_announce [OF w, of sv ?obs] ok(1) by simp
  then show ?thesis using distribute_ok [OF w, of "sv \<lparr> all_objects := ?obs \<rparr>"] ok(2)
    by (simp add: remember_object_def cong: if_cong)
qed (simp add: keeps_def)

text \<open>A number is reserved and the object with that number remembered.\<close>

lemma factories_listed:
  assumes "map_find ty server_factories \<noteq> None"
  shows "ty \<in> fst ` set server_factories"
proof -
  have "map_ok server_factories" by code_simp
  with assms show ?thesis by (simp add: map_find_None_iff map_keys_def)
qed

lemma factories_agree:
  assumes "map_find ty server_factories \<noteq> None"
  shows "map_find ty client_factories \<noteq> None"
proof -
  have "\<forall>p \<in> set server_factories. map_find (fst p) client_factories \<noteq> None" by code_simp
  with factories_listed [OF assms] show ?thesis by auto
qed

lemma keeps_reserve_remember:
  assumes "server_ok sv" "object_fits sv 1 ty fs" "map_find ty server_factories \<noteq> None"
  shows "keeps sv (snd (and_then (reserve_new_obj_id sv) (\<lambda>sv. remember_object \<lparr> obj_id = last_obj_id sv, obj_type = ty, obj_fields = fs \<rparr> sv)))"
proof -
  let ?sv = "sv \<lparr> last_obj_id := last_obj_id sv + 1 \<rparr>"
  let ?ob = "\<lparr> obj_id = last_obj_id sv + 1, obj_type = ty, obj_fields = fs \<rparr>"
  have r: "last_obj_id sv + 1 < 2 ^ 31" "wire_ok (create_message ?ob)" using assms(2) by (simp_all add: object_fits_def)
  have "-1 \<le> last_obj_id sv" using assms(1) by (simp add: server_ok_def)
  then have "keeps ?sv (snd (remember_object ?ob ?sv))"
    using keeps_remember [of ?ob ?sv] reserve_ok(3) [OF assms(1) r(1)] r(2) factories_agree [OF assms(3)] by (simp add: object_ok_def)
  with reserve_ok(1,2) [OF assms(1) r(1)] keeps_trans show ?thesis by (auto simp: and_then_def)
qed

lemma keeps_create:
  assumes "object_fits sv 1 ty fs"
  shows "keeps sv (snd (create_object_from_factory ty fs sv))"
proof (cases "server_ok sv")
  case True
  have "keeps sv (snd (reserve_new_obj_id sv))"
    using reserve_ok [OF True] assms by (simp add: object_fits_def)
  then show ?thesis
    using keeps_reserve_remember [OF True assms]
    by (cases "map_find ty server_factories"; cases "reserve_new_obj_id sv")
      (auto simp: create_object_from_factory_def and_then_def split: option.split)
qed (simp add: keeps_def)

subsection \<open>Deleting and changing objects\<close>

lemma find_object:
  assumes "server_ok sv" "map_find i (all_objects sv) = Some ob"
  shows "find (\<lambda>p. obj_id (snd p) = obj_id ob) (all_objects sv) = Some (i, ob)"
proof -
  have ok: "map_ok (all_objects sv)" "\<forall>p \<in> set (all_objects sv). obj_id (snd p) = fst p"
    using assms(1) by (auto simp: server_ok_def object_ok_def)
  have f: "find (\<lambda>p. obj_id (snd p) = i) m = map_option (\<lambda>ob. (i, ob)) (map_find i m)"
    if "map_ok m" "\<forall>p \<in> set m. obj_id (snd p) = fst p" for m
    using that by (induction m) (auto simp: find_None_iff intro!: map_find_None_below, force)
  from f [OF ok] assms(2) server_object_ok(4) [OF assms] show ?thesis by simp
qed

lemma keeps_remove: "keeps sv (snd (server_remove_object i sv))"
proof (cases "server_ok sv \<and> map_find i (all_objects sv) \<noteq> None")
  case True
  then obtain ob where ok: "server_ok sv" "map_find i (all_objects sv) = Some ob" by auto
  note ob = server_object_ok [OF ok]
  let ?kvs = "add_destroy_object_header ob" and ?obs = "map_erase i (all_objects sv)"
  have w: "wire_ok ?kvs" using ob(2,3,4) wire_ok_numbers [of MSG_DELETE_OBJECT i "''objid''"]
    by (simp add: add_destroy_object_header_def msg_numbers)
  have d: "map_ok (all_objects sv)" "distinct (client_agents sv)" "\<forall>p \<in> set (all_objects sv). object_ok (last_obj_id sv) p"
    using ok(1) by (simp_all add: server_ok_def)
  have "announced ?kvs (object_view sv) = Some (object_view (sv \<lparr> all_objects := ?obs \<rparr>))"
    using announced_delete [of ob "object_view sv"] ob(2,3,4) by (simp add: object_view_def map_values_erase)
  moreover have "\<forall>p \<in> set ?obs. object_ok (last_obj_id sv) p" using d(3) by (auto simp: map_erase_def)
  ultimately have "keeps sv (sv \<lparr> all_objects := ?obs,
    wire_to := \<lambda>a. if a \<in> set (client_agents sv) then wire_to sv a @ wire_bytes ?kvs else wire_to sv a \<rparr>)"
    using keeps_announce [OF w, of sv ?obs] d(1) by simp
  moreover have "snd (server_remove_object i sv) = sv \<lparr> all_objects := ?obs,
    wire_to := \<lambda>a. if a \<in> set (client_agents sv) then wire_to sv a @ wire_bytes ?kvs else wire_to sv a \<rparr>"
    using ok(2) find_object [OF ok] distribute_ok [OF w d(2)]
    by (simp add: server_remove_object_def delete_object_def and_then_def)
  ultimately show ?thesis by simp
qed (auto simp: keeps_def server_remove_object_def)

lemma keeps_change:
  assumes "\<And>ob. map_find i (all_objects sv) = Some ob \<Longrightarrow> effect_ok msg i (obj_type ob) (Change fs)"
  shows "keeps sv (snd (run_effect src msg i (Change fs) sv))"
proof (cases "server_ok sv \<and> map_find i (all_objects sv) \<noteq> None")
  case True
  then obtain ob where ok: "server_ok sv" "map_find i (all_objects sv) = Some ob" by auto
  note ob = server_object_ok [OF ok]
  let ?ob = "ob \<lparr> obj_fields := fs \<rparr>"
  have m: "map_ok (all_objects sv)" "\<forall>p \<in> set (all_objects sv). object_ok (last_obj_id sv) p" using ok(1) by (simp_all add: server_ok_def)
  have eq: "?ob = \<lparr> obj_id = i, obj_type = obj_type ob, obj_fields = fs \<rparr>" using ob(4) by simp
  have "object_ok (last_obj_id sv) (i, ?ob)" using ob assms [OF ok(2)] by (simp add: object_ok_def eq)
  then have "\<forall>p \<in> set (map_set i ?ob (all_objects sv)). object_ok (last_obj_id sv) p"
    using m by (auto simp: map_set_set)
  moreover have "object_view (sv \<lparr> all_objects := map_set i ?ob (all_objects sv) \<rparr>) = object_view sv"
    using map_set_same [of "object_view sv" i "obj_type ob"] m(1) ok(2)
    by (simp add: object_view_def map_values_set map_values_find map_ok_def o_def)
  ultimately show ?thesis
    using ok(2) m(1) by (auto simp: keeps_def server_ok_def all_follow_def)
qed (auto simp: keeps_def)

subsection \<open>Serving requests\<close>

lemma reply_built:
  assumes "get_value ''repid'' msg = Inr rid"
  shows "rbind (acquire_reply msg) (set_values kvs) = set_values ((''id'', show_int MSG_REPLY) # (''repid'', rid) # kvs) new_message"
  using assms by (cases "set_value ''id'' (show_int MSG_REPLY) new_message") (simp_all add: acquire_reply_def)

lemma no_reply: "get_value ''repid'' msg = Inl e \<Longrightarrow> \<exists>e. rbind (acquire_reply msg) (set_values kvs) = Inl e"
  by (cases "set_value ''id'' (show_int MSG_REPLY) new_message") (simp_all add: acquire_reply_def)

lemma keeps_run_effect:
  assumes "effect_ok msg i ty e" "map_option obj_type (map_find i (all_objects sv)) = Some ty" "src < next_client_agent_id sv"
  shows "keeps sv (snd (run_effect src msg i e sv))"
proof (cases e)
  case (Broadcast kvs)
  then show ?thesis using keeps_object_message [of i kvs sv] assms by auto
next
  case (Answer kvs)
  show ?thesis
  proof (cases "get_value ''repid'' msg")
    case (Inl err)
    from no_reply [OF this, of kvs] Answer show ?thesis by auto
  next
    case (Inr rid)
    let ?kvs = "(''id'', show_int MSG_REPLY) # (''repid'', rid) # kvs"
    have w: "wire_ok ?kvs" using assms(1) Answer Inr by simp
    from wire_ok_read(1) [OF this, of new_message] obtain m where m: "set_values ?kvs new_message = Inr m"
      "wire_bytes ?kvs = get_data (encode_message m)"
      by (cases "set_values ?kvs new_message") (auto simp: message_bytes_def new_message_def)
    then show ?thesis
      using Answer reply_built [OF Inr, of kvs] keeps_deliver [OF w announced_reply assms(3)] by simp
  qed
next
  case (Change kvs)
  with assms(1,2) show ?thesis by (simp only:) (rule keeps_change, auto)
qed

lemma run_effect_same:
  assumes "server_ok sv"
  shows "map_option obj_type (map_find j (all_objects (snd (run_effect src msg i e sv)))) = map_option obj_type (map_find j (all_objects sv))"
    "next_client_agent_id (snd (run_effect src msg i e sv)) = next_client_agent_id sv"
proof -
  have "map_ok (all_objects sv)" using assms by (simp add: server_ok_def)
  moreover have "all_objects (fold (deliver_bytes b) as s) = all_objects s"
    "next_client_agent_id (fold (deliver_bytes b) as s) = next_client_agent_id s" for b as s
    by (induction as arbitrary: s) (simp_all add: deliver_bytes_def)
  ultimately show
    "map_option obj_type (map_find j (all_objects (snd (run_effect src msg i e sv)))) = map_option obj_type (map_find j (all_objects sv))"
    "next_client_agent_id (snd (run_effect src msg i e sv)) = next_client_agent_id sv"
    by (cases e; simp add: distribute_message_def deliver_bytes_def split: sum.split option.split)+
qed

lemma keeps_run_effects:
  assumes "\<forall>e \<in> set es. effect_ok msg i ty e" "map_option obj_type (map_find i (all_objects sv)) = Some ty" "src < next_client_agent_id sv"
  shows "keeps sv (snd (run_effects src msg i es sv)) \<and>
    (server_ok sv \<longrightarrow> next_client_agent_id (snd (run_effects src msg i es sv)) = next_client_agent_id sv)"
  using assms
proof (induction es arbitrary: sv)
  case (Cons e es)
  let ?sv = "snd (run_effect src msg i e sv)"
  have k: "keeps sv ?sv" using keeps_run_effect [of msg i ty e sv src] Cons.prems by simp
  show ?case
  proof (cases "server_ok sv")
    case True
    note same = run_effect_same [OF True, where src = src and msg = msg and i = i and e = e]
    have ok: "server_ok ?sv" using k True by (simp add: keeps_def)
    have "keeps ?sv (snd (run_effects src msg i es ?sv)) \<and> next_client_agent_id (snd (run_effects src msg i es ?sv)) = next_client_agent_id ?sv"
      using Cons.IH [of ?sv] Cons.prems same ok by simp
    with k keeps_trans same(2) show ?thesis
      by (cases "run_effect src msg i e sv") (auto simp: and_then_def split: option.split)
  qed (simp add: keeps_def)
qed simp

lemma distribute_same:
  "next_client_agent_id (snd (distribute_message kvs sv)) = next_client_agent_id sv" "fst (distribute_message kvs sv) \<noteq> Some (FailureResponse s)"
proof -
  have "next_client_agent_id (fold (deliver_bytes b) as sv) = next_client_agent_id sv" for b as
    by (induction as arbitrary: sv) (simp_all add: deliver_bytes_def)
  then show "next_client_agent_id (snd (distribute_message kvs sv)) = next_client_agent_id sv"
    "fst (distribute_message kvs sv) \<noteq> Some (FailureResponse s)"
    by (auto simp: distribute_message_def split: sum.split)
qed

lemma remove_same:
  "next_client_agent_id (snd (server_remove_object i sv)) = next_client_agent_id sv" "fst (server_remove_object i sv) \<noteq> Some (FailureResponse s)"
proof -
  have "next_client_agent_id (snd (delete_object ob sv)) = next_client_agent_id sv \<and> fst (delete_object ob sv) \<noteq> Some (FailureResponse s)" for ob
    using distribute_same [of "add_destroy_object_header ob" sv]
    by (cases "distribute_message (add_destroy_object_header ob) sv")
      (auto simp: delete_object_def and_then_def split: option.splits)
  then show "next_client_agent_id (snd (server_remove_object i sv)) = next_client_agent_id sv"
    "fst (server_remove_object i sv) \<noteq> Some (FailureResponse s)"
    by (auto simp: server_remove_object_def split: option.split)
qed

lemma effects_no_failure: "fst (run_effects src msg i es sv) \<noteq> Some (FailureResponse s)"
proof (induction es arbitrary: sv)
  case (Cons e es)
  have "fst (run_effect src msg i e sv) \<noteq> Some (FailureResponse s)"
    using distribute_same(2) by (cases e) (auto split: sum.split option.split)
  with Cons show ?case by (cases "run_effect src msg i e sv") (auto simp: and_then_def split: option.split)
qed simp

lemma keeps_route:
  assumes "server_ok sv" "src < next_client_agent_id sv" "route_incomming_message es outcome src msg sv = (e, sv')"
    "\<And>s ob e. get_value ''id'' msg = Inr s \<Longrightarrow> map_find (stoi s) (all_objects sv) = Some ob \<Longrightarrow> e \<in> set es \<Longrightarrow>
       effect_ok msg (stoi s) (obj_type ob) e"
  shows "keeps sv sv' \<and> next_client_agent_id sv' = next_client_agent_id sv \<and> (e = Some (FailureResponse f) \<longrightarrow> outcome = e)"
proof -
  show ?thesis
  proof (cases "get_value ''id'' msg")
    case (Inl err)
    with assms(3) show ?thesis by (auto simp: route_incomming_message_def)
  next
    case (Inr s)
    show ?thesis
    proof (cases "stoi s = MSG_DELETE_OBJECT")
      case True
      show ?thesis
      proof (cases "get_value ''objid'' msg")
        case (Inl err)
        with Inr True assms(3) show ?thesis by (auto simp: route_incomming_message_def)
      next
        case (Inr t)
        then have "(e, sv') = server_remove_object (stoi t) sv"
          using assms(3) True \<open>get_value ''id'' msg = Inr s\<close> by (simp add: route_incomming_message_def)
        then have "e = fst (server_remove_object (stoi t) sv)" "sv' = snd (server_remove_object (stoi t) sv)" by (simp_all add: prod_eq_iff)
        then show ?thesis using keeps_remove [of sv "stoi t"] remove_same [of "stoi t" sv] by simp
      qed
    next
      case False
      show ?thesis
      proof (cases "map_find (stoi s) (all_objects sv)")
        case None
        with Inr False assms(3) show ?thesis by (auto simp: route_incomming_message_def)
      next
        case (Some ob)
        have ok: "\<forall>e \<in> set es. effect_ok msg (stoi s) (obj_type ob) e" using assms(4) [OF Inr Some] by blast
        from keeps_run_effects [OF ok, of sv src] Some assms(1,2)
        have "keeps sv (snd (run_effects src msg (stoi s) es sv))"
          "next_client_agent_id (snd (run_effects src msg (stoi s) es sv)) = next_client_agent_id sv" by simp_all
        with assms(3) Inr False Some effects_no_failure [of src msg "stoi s" es sv f] show ?thesis
          by (cases "run_effects src msg (stoi s) es sv")
            (auto simp: route_incomming_message_def and_then_def split: option.splits)
      qed
    qed
  qed
qed

lemma keeps_agent_read_body:
  assumes "outcome_ok outcome" "src < next_client_agent_id sv"
    "\<And>s ob e. get_value ''id'' msg = Inr s \<Longrightarrow> map_find (stoi s) (all_objects sv) = Some ob \<Longrightarrow> e \<in> set es \<Longrightarrow>
       effect_ok msg (stoi s) (obj_type ob) e"
  shows "keeps sv (agent_read_body es outcome src msg sv)"
proof (cases "server_ok sv")
  case True
  obtain e sv' where r: "route_incomming_message es outcome src msg sv = (e, sv')" by fastforce
  note k = keeps_route [OF True assms(2) r assms(3)]
  show ?thesis
  proof (cases "\<exists>f. e = Some (FailureResponse f)")
    case True
    then obtain f where f: "e = Some (FailureResponse f)" by blast
    show ?thesis
    proof (cases "f = []")
      case False
      have w: "wire_ok (failure_message f)" using assms(1) k [of f] f False by (auto simp: outcome_ok_def)
      have "keeps sv' (deliver_bytes (wire_bytes (failure_message f)) src sv')"
        using keeps_deliver [OF w announced_failure, of src sv'] k assms(2) by auto
      then show ?thesis
        using r f False deliver_ok [OF w, of src sv'] k keeps_trans
        by (auto simp: agent_read_body_def agent_message_received_def)
    qed (use r f k in \<open>auto simp: agent_read_body_def agent_message_received_def\<close>)
  next
    case False
    then show ?thesis
      using r k keeps_drop [of sv' src] keeps_trans [of sv sv']
      by (auto simp: agent_read_body_def agent_message_received_def split: option.split registry_error.split)
  qed
qed (simp add: keeps_def)

subsection \<open>A new client\<close>

lemma map_set_behind: "\<forall>q \<in> set m. fst q < k \<Longrightarrow> map_set k v m = m @ [(k, v)]"
  by (induction k v m rule: map_set.induct) auto

lemma replay_objects:
  assumes "map_ok (m1 @ m2)" "\<forall>p \<in> set m2. object_ok n p" "n < 2 ^ 31"
  shows "replay (map (\<lambda>p. create_message (snd p)) m2) (map (\<lambda>p. (fst p, obj_type (snd p))) m1) =
    Some (map (\<lambda>p. (fst p, obj_type (snd p))) (m1 @ m2))"
  using assms
proof (induction m2 arbitrary: m1)
  case (Cons p m2)
  have lt: "\<forall>q \<in> set m1. fst q < fst p" "map_ok m1"
    using Cons.prems(1) by (auto simp: map_ok_def sorted_wrt_append)
  let ?v = "\<lambda>m. map (\<lambda>p. (fst p, obj_type (snd p))) m"
  have "map_find (fst p) m1 = None" using lt map_find_None_iff [OF lt(2)] by (auto simp: map_keys_def)
  then have "announced (create_message (snd p)) (?v m1) = Some (map_set (fst p) (obj_type (snd p)) (?v m1))"
    using Cons.prems(2,3) announced_create [of "snd p" "?v m1"] by (auto simp: object_ok_def map_values_find)
  also have "map_set (fst p) (obj_type (snd p)) (?v m1) = ?v (m1 @ [p])"
    using lt(1) by (subst map_set_behind) auto
  finally show ?case using Cons.IH [of "m1 @ [p]"] Cons.prems by simp
qed simp

lemma send_objects_ok:
  "\<forall>ob \<in> set obs. wire_ok (create_message ob) \<Longrightarrow>
     send_objects a obs sv = (None, deliver_bytes (concat (map (\<lambda>ob. wire_bytes (create_message ob)) obs)) a sv)"
  by (induction obs arbitrary: sv) (auto simp: deliver_ok and_then_def deliver_bytes_def)

lemma keeps_accept:
  assumes "next_client_agent_id sv < 2 ^ 31 - 1"
  shows "keeps sv (snd (accept_client sv))" "server_ok sv \<Longrightarrow> next_client_agent_id (snd (accept_client sv)) = next_client_agent_id sv + 1"
proof -
  let ?n = "next_client_agent_id sv"
  let ?anns = "[version_message, client_id_message ?n] @ map (\<lambda>p. create_message (snd p)) (all_objects sv)"
  have r: "snd (accept_client sv) = sv \<lparr> next_client_agent_id := ?n + 1, client_agents := insort ?n (client_agents sv),
      wire_to := (wire_to sv)(?n := concat (map wire_bytes ?anns)) \<rparr>"
    and w: "\<forall>kvs \<in> set ?anns. wire_ok kvs" and rp: "replay ?anns [] = Some (object_view sv)" and nin: "?n \<notin> set (client_agents sv)"
    if ok: "server_ok sv"
  proof -
    have b: "0 \<le> ?n" "map_ok (all_objects sv)" "\<forall>p \<in> set (all_objects sv). object_ok (last_obj_id sv) p" "last_obj_id sv < 2 ^ 31"
      "wire_to sv ?n = []" using ok by (simp_all add: server_ok_def)
    show nin: "?n \<notin> set (client_agents sv)" using ok by (auto simp: server_ok_def)
    have "(?n + 1 + 2 ^ 31) mod 2 ^ 32 = ?n + 1 + 2 ^ 31" using assms b(1) by (intro mod_pos_pos_trivial) auto
    then have s: "int32_succ ?n = ?n + 1" by (simp add: int32_succ_def)
    have wv: "wire_ok version_message" "wire_ok (client_id_message ?n)"
      using wire_ok_numbers [of MSG_PROTOCOL_VERSION VUKNOB_PROTOCOL_VERSION "''pversion''"] wire_ok_numbers [of MSG_CLIENT_ID ?n "''clid''"] assms b(1)
      by (simp_all add: version_message_def client_id_message_def msg_numbers)
    have wo: "\<forall>ob \<in> set (map snd (all_objects sv)). wire_ok (create_message ob)" using b(3) by (auto simp: object_ok_def)
    then show "\<forall>kvs \<in> set ?anns. wire_ok kvs" using wv by auto
    show "replay ?anns [] = Some (object_view sv)"
      using replay_objects [of "[]" "all_objects sv"] b by (simp add: announced_version announced_client_id object_view_def)
    show "snd (accept_client sv) = sv \<lparr> next_client_agent_id := ?n + 1, client_agents := insort ?n (client_agents sv),
      wire_to := (wire_to sv)(?n := concat (map wire_bytes ?anns)) \<rparr>"
      using s nin b(5) send_objects_ok [OF wo]
      by (simp add: accept_client_def Let_def deliver_ok wv and_then_def send_all_objects_to_new_client_def remove1_idem)
        (simp add: deliver_bytes_def o_def)
  qed
  then show "server_ok sv \<Longrightarrow> next_client_agent_id (snd (accept_client sv)) = ?n + 1" by simp
  have f: "wire_follows (concat (map wire_bytes ?anns)) cl (object_view sv)" if "server_ok sv" "wire_follows [] cl []" for cl
    using follows_appends [OF that(2) w rp] that(1) by simp
  have ov: "object_view (sv \<lparr> next_client_agent_id := x, client_agents := y, wire_to := z \<rparr>) = object_view sv" for x y z
    by (simp add: object_view_def)
  show "keeps sv (snd (accept_client sv))"
  proof (cases "server_ok sv")
    case True
    have "server_ok (snd (accept_client sv))"
      unfolding r [OF True] using True nin [OF True] assms
      by (auto simp: server_ok_def set_insort_key distinct_insort sorted_insort)
    moreover have "all_follow (snd (accept_client sv)) cs" if "all_follow sv cs" for cs
      unfolding r [OF True] using that f [OF True] nin [OF True]
      by (auto simp: all_follow_def ov set_insort_key)
    ultimately show ?thesis using r [OF True] by (simp add: keeps_def)
  qed (simp add: keeps_def)
qed

subsection \<open>The service objects\<close>

definition fits_all :: "server \<Rightarrow> int \<Rightarrow> (string \<Rightarrow> msg_fields) \<Rightarrow> bool" where
  "fits_all sv n fs \<longleftrightarrow> (\<forall>ty. map_find ty server_factories \<noteq> None \<longrightarrow> object_fits sv n ty (fs ty))"

lemma fits_less: "fits_all sv (n + k) fs \<Longrightarrow> 0 \<le> n \<Longrightarrow> 0 \<le> k \<Longrightarrow> last_obj_id sv' = last_obj_id sv + k \<Longrightarrow> fits_all sv' n fs"
  by (auto simp: fits_all_def object_fits_def)

lemma object_fits_less: "object_fits sv n ty fs \<Longrightarrow> 0 \<le> m \<Longrightarrow> m \<le> n \<Longrightarrow> object_fits sv m ty fs"
  by (auto simp: object_fits_def)

lemma last_distribute: "last_obj_id (snd (distribute_message kvs sv)) = last_obj_id sv"
proof -
  have "last_obj_id (fold (deliver_bytes b) as sv) = last_obj_id sv" for b as
    by (induction as arbitrary: sv) (simp_all add: deliver_bytes_def)
  then show ?thesis by (simp add: distribute_message_def split: sum.split)
qed

lemma last_remember: "last_obj_id (snd (remember_object ob sv)) = last_obj_id sv"
  by (simp add: remember_object_def last_distribute)

lemma keeps_static:
  assumes "fits_all sv (int (length factories)) fs" "\<forall>p \<in> set factories. map_find (fst p) server_factories \<noteq> None"
  shows "keeps sv (snd (create_static_single_objects factories fs sv))"
  using assms
proof (induction factories arbitrary: sv)
  case (Cons p factories)
  obtain ty static where p: "p = (ty, static)" by fastforce
  let ?sv = "sv \<lparr> last_obj_id := last_obj_id sv + 1 \<rparr>"
  let ?ob = "\<lparr> obj_id = last_obj_id ?sv, obj_type = ty, obj_fields = fs ty \<rparr>"
  let ?r = "if static then remember_object ?ob ?sv else (None, ?sv)"
  have fits: "object_fits sv 1 ty (fs ty)" "map_find ty server_factories \<noteq> None"
    using Cons.prems p object_fits_less [of sv "1 + int (length factories)" ty "fs ty" 1] by (auto simp: fits_all_def)
  have "fits_all s (int (length factories)) fs" if "last_obj_id s = last_obj_id sv + 1" for s
    using fits_less [of sv "int (length factories)" 1 fs s] Cons.prems(1) that by (simp add: add.commute)
  then have IH: "keeps s (snd (create_static_single_objects factories fs s))" if "last_obj_id s = last_obj_id sv + 1" for s
    using Cons.IH [of s] Cons.prems(2) that by simp
  show ?case
  proof (cases "server_ok sv")
    case True
    have lt: "last_obj_id sv + 1 < 2 ^ 31" using fits(1) by (simp add: object_fits_def)
    have "keeps sv (snd ?r)"
      using keeps_reserve_remember [OF True fits] reserve_ok [OF True lt] by (auto simp: and_then_def)
    moreover have "last_obj_id (snd ?r) = last_obj_id sv + 1" by (simp add: last_remember)
    ultimately have "keeps sv (snd (and_then ?r (create_static_single_objects factories fs)))"
      using IH keeps_trans by (intro keeps_and_then) (auto simp del: split_paired_All)
    then show ?thesis using p reserve_ok(1) [OF True lt] by (simp add: and_then_def)
  qed (simp add: keeps_def)
qed simp

lemma last_create:
  assumes "server_ok sv" "last_obj_id sv + 1 < 2 ^ 31"
  shows "last_obj_id (snd (create_object_from_factory ty fs sv)) = last_obj_id sv + 1"
  using reserve_ok(1) [OF assms] by (simp add: create_object_from_factory_def and_then_def last_remember)

lemma keeps_create_then:
  assumes "fits_all sv (n + 1) fs" "0 \<le> n" "map_find ty server_factories \<noteq> None"
    "\<And>s. fits_all s n fs \<Longrightarrow> keeps s (snd (f s))"
  shows "keeps sv (snd (and_then (create_object_from_factory ty (fs ty) sv) f))"
proof (cases "server_ok sv")
  case True
  have fits: "object_fits sv 1 ty (fs ty)" "last_obj_id sv + 1 < 2 ^ 31"
    using assms(1-3) object_fits_less [of sv "n + 1" ty "fs ty" 1] by (auto simp: fits_all_def object_fits_def)
  let ?r = "create_object_from_factory ty (fs ty) sv"
  have "keeps sv (snd ?r)" by (rule keeps_create [OF fits(1)])
  moreover have "fits_all (snd ?r) n fs"
    using fits_less [of sv n 1 fs "snd ?r"] assms(1,2) last_create [OF True fits(2)] by simp
  ultimately show ?thesis
    using assms(4) [of "snd ?r"] keeps_trans by (intro keeps_and_then) auto
qed (simp add: keeps_def)

lemma keeps_start:
  assumes "fits_all sv 9 fs"
  shows "keeps sv (snd (create_service_objects fs sv))"
proof -
  have l: "length server_factories = 6" "\<forall>p \<in> set server_factories. map_find (fst p) server_factories \<noteq> None"
    and h: "map_find ''HandleList'' server_factories \<noteq> None" "map_find ''GloCtrlObj'' server_factories \<noteq> None"
      "map_find ''SampleBank'' server_factories \<noteq> None"
    by code_simp+
  have s: "keeps s (snd (create_static_single_objects server_factories fs s))" if "fits_all s 6 fs" for s
    using keeps_static [of s server_factories fs] that l by simp
  show ?thesis
    unfolding create_service_objects_def
    using assms by (intro keeps_create_then [where n = 8] keeps_create_then [where n = 7] keeps_create_then [where n = 6] h s) auto
qed

section \<open>Properties\<close>

definition remote_inv :: "remote \<Rightarrow> bool" where
  "remote_inv w \<longleftrightarrow> server_ok (srv w) \<and> all_follow (srv w) (cls w) \<and> (\<forall>a. agent_open w a \<longrightarrow> a < next_client_agent_id (srv w))"

definition carries :: "remote \<Rightarrow> remote \<Rightarrow> bool" where
  "carries w w' \<longleftrightarrow> remote_inv w' \<and> next_client_agent_id (srv w) \<le> next_client_agent_id (srv w')"

lemma carries_refl: "remote_inv w \<Longrightarrow> carries w w" by (simp add: carries_def)

lemma remote_inv_keeps:
  assumes "remote_inv w" "keeps (srv w) (srv w')" "cls w' = cls w"
    "\<And>a. agent_open w' a \<Longrightarrow> agent_open w a \<or> a < next_client_agent_id (srv w')"
  shows "carries w w'"
  using assms by (fastforce simp: carries_def remote_inv_def keeps_def)

lemma all_follow_cls:
  assumes "all_follow sv cs" "disconnects cl = 0 \<Longrightarrow> disconnects (cs a) = 0 \<and> (\<forall>b view. wire_follows b (cs a) view \<longrightarrow> wire_follows b cl view)"
  shows "all_follow sv (cs(a := cl))"
  using assms by (auto simp: all_follow_def)

lemma client_received_disconnects: "disconnects (snd (client_message_received ok msg cl)) = disconnects cl"
  by (rule client_message_received_cases)
    (simp_all add: client_reply_def link_object_def flush_all_objects_def Let_def split: option.split)

lemma client_read_body_disconnects: "disconnects cl \<le> disconnects (client_read_body ok msg cl)"
  using client_received_disconnects [of ok msg cl]
  by (cases "client_message_received ok msg cl")
    (auto simp: client_read_body_def client_connection_dropped_def flush_all_objects_def Let_def split: option.split)

lemma remote_inv_client_reads:
  assumes "remote_inv w"
  shows "carries w (remote_step (Client_Reads a ok) w)"
proof (cases "read_message (wire_to (srv w) a) (read_msg (cls w a))")
  case (Inl e)
  with assms carries_refl show ?thesis by simp
next
  case (Inr p)
  obtain r rest where p: "p = (r, rest)" by fastforce
  let ?cl = "client_read_body ok r (cls w a \<lparr> read_msg := r \<rparr>)"
  let ?sv = "srv w \<lparr> wire_to := (wire_to (srv w))(a := rest) \<rparr>"
  have ok: "server_ok (srv w)" "all_follow (srv w) (cls w)" using assms by (simp_all add: remote_inv_def)
  have nonempty: "wire_to (srv w) a \<noteq> []" using Inr by (auto simp: read_message_def header_length_def)
  then have lt: "a < next_client_agent_id (srv w)" using ok(1) by (auto simp: server_ok_def intro!: linorder_class.not_le_imp_less)
  then have "server_ok ?sv" using ok(1) by (auto simp: server_ok_def)
  moreover have "wire_follows rest ?cl (object_view ?sv)" if "disconnects ?cl = 0" "a \<in> set (client_agents (srv w))"
  proof -
    have "disconnects (cls w a) \<le> disconnects ?cl" using client_read_body_disconnects [of "cls w a \<lparr> read_msg := r \<rparr>" ok r] by simp
    then have "wire_follows (wire_to (srv w) a) (cls w a) (object_view (srv w))" using that ok(2) by (simp add: all_follow_def)
    from follows_read [OF this nonempty] obtain r' rest' where f: "read_message (wire_to (srv w) a) (read_msg (cls w a)) = Inr (r', rest')"
      "\<And>ok. wire_follows rest' (client_read_body ok r' (cls w a \<lparr> read_msg := r' \<rparr>)) (object_view (srv w)) \<and>
        disconnects (client_read_body ok r' (cls w a \<lparr> read_msg := r' \<rparr>)) = disconnects (cls w a) \<or>
      \<not> ok \<and> disconnects (client_read_body ok r' (cls w a \<lparr> read_msg := r' \<rparr>)) = Suc (disconnects (cls w a))" by blast
    from f(1) Inr p have "r' = r" "rest' = rest" by auto
    with f(2) [of ok] that show ?thesis by (auto simp: object_view_def)
  qed
  ultimately have "remote_inv (w \<lparr> srv := ?sv, cls := (cls w)(a := ?cl) \<rparr>)"
    using assms lt by (auto simp: remote_inv_def all_follow_def object_view_def)
  with assms Inr p carries_refl show ?thesis by (simp add: carries_def)
qed

lemma follows_same:
  "cl_objects cl' = cl_objects cl \<Longrightarrow> read_msg cl' = read_msg cl \<Longrightarrow> socket_open cl' = socket_open cl \<Longrightarrow>
     wire_follows b cl view \<Longrightarrow> wire_follows b cl' view"
  by (simp add: wire_follows_def)

lemma remote_inv_client_sends:
  assumes "remote_inv w"
  shows "carries w (remote_step (Client_Sends a aw kvs) w)"
proof -
  obtain sent cl where d: "client_distribute_message aw kvs (cls w a) = (sent, cl)" by fastforce
  then have same: "cl_objects cl = cl_objects (cls w a)" "read_msg cl = read_msg (cls w a)" "socket_open cl = socket_open (cls w a)"
    "disconnects cl = disconnects (cls w a)"
    by (auto simp: client_distribute_message_def Let_def split: if_splits)
  then have "all_follow (srv w) ((cls w)(a := cl))"
    using assms follows_same [OF same(1-3)] by (intro all_follow_cls) (auto simp: remote_inv_def)
  then have "remote_inv (w \<lparr> cls := (cls w)(a := cl), wire_from := f \<rparr>)" "remote_inv (w \<lparr> cls := (cls w)(a := cl) \<rparr>)" for f
    using assms by (simp_all add: remote_inv_def)
  with d show ?thesis by (auto simp: carries_def Let_def split: option.split sum.split)
qed

lemma remote_inv_agent_reads:
  assumes "remote_inv w" "event_ok w (Agent_Reads a es outcome)"
  shows "carries w (remote_step (Agent_Reads a es outcome) w)"
proof (cases "agent_open w a")
  case True
  show ?thesis
  proof (cases "read_message (wire_from w a) (agent_msg w a)")
    case (Inl e)
    with assms(1) carries_refl show ?thesis by simp
  next
    case (Inr p)
    obtain msg rest where p: "p = (msg, rest)" by fastforce
    have "a < next_client_agent_id (srv w)" using True assms(1) by (simp add: remote_inv_def)
    then have "keeps (srv w) (agent_read_body es outcome a msg (srv w))"
      using assms(2) Inr p by (intro keeps_agent_read_body) auto
    with True Inr p assms(1) show ?thesis by (intro remote_inv_keeps [OF assms(1)]) auto
  qed
qed (use assms carries_refl in simp)

lemma remote_inv_step:
  assumes "remote_inv w" "event_ok w e"
  shows "carries w (remote_step e w)"
proof (cases e)
  case (Start fs)
  with assms(2) have "fits_all (srv w) 9 fs" by (simp add: fits_all_def)
  with Start show ?thesis by (intro remote_inv_keeps [OF assms(1)]) (simp_all add: keeps_start)
next
  case (Create ty fs)
  with assms(2) show ?thesis by (intro remote_inv_keeps [OF assms(1)]) (simp_all add: keeps_create)
next
  case (Remove i)
  then show ?thesis by (intro remote_inv_keeps [OF assms(1)]) (simp_all add: keeps_remove)
next
  case (Object_Sends i kvs)
  with assms(2) have "map_find i (all_objects (srv w)) \<noteq> None \<Longrightarrow>
    keeps (srv w) (snd (distribute_message ((''id'', show_int i) # kvs) (srv w)))" by (simp add: keeps_object_message)
  with Object_Sends assms(1) show ?thesis
    by (cases "map_find i (all_objects (srv w)) = None") (auto intro!: remote_inv_keeps [OF assms(1)] carries_refl)
next
  case (Object_Changes i fs)
  with assms(2) have "keeps (srv w) (snd (run_effect 0 new_message i (Change fs) (srv w)))"
    by (intro keeps_change) (simp del: effect_ok.simps)
  with Object_Changes show ?thesis by (intro remote_inv_keeps [OF assms(1)]) (simp_all del: run_effect.simps)
next
  case Accept
  have ok: "server_ok (srv w)" using assms(1) by (simp add: remote_inv_def)
  from Accept assms(2) keeps_accept [of "srv w"] ok show ?thesis
    by (intro remote_inv_keeps [OF assms(1)]) (auto split: if_splits)
next
  case (Agent_Reads a es outcome)
  with assms remote_inv_agent_reads show ?thesis by blast
next
  case (Agent_Loses a)
  then show ?thesis by (intro remote_inv_keeps [OF assms(1)]) (auto simp: keeps_drop split: if_splits)
next
  case (Client_Reads a ok)
  with assms(1) remote_inv_client_reads show ?thesis by blast
next
  case (Client_Loses a)
  have "all_follow (srv w) ((cls w)(a := client_connection_dropped (cls w a) \<lparr> socket_open := False \<rparr>))"
    using assms(1) by (intro all_follow_cls) (auto simp: remote_inv_def client_connection_dropped_def Let_def)
  with Client_Loses assms(1) show ?thesis by (simp add: carries_def remote_inv_def)
next
  case (Client_Sends a aw kvs)
  with assms(1) remote_inv_client_sends show ?thesis by blast
qed

lemma remote_reach_inv: "remote_reach w \<Longrightarrow> remote_inv w"
proof (induction rule: remote_reach.induct)
  case reach_new
  show ?case
    by (auto simp: remote_inv_def new_remote_def new_server_def server_ok_def all_follow_def wire_follows_def new_client_def new_message_def
        intro!: exI [of _ "[]"])
next
  case (reach_step w e)
  with remote_inv_step show ?case by (simp add: carries_def)
qed

lemma client_catches_up:
  assumes "remote_inv w" "a \<in> set (client_agents (srv w))" "disconnects (cls w a) = 0"
  shows "\<exists>n. let w' = (remote_step (Client_Reads a True) ^^ n) w in
    wire_to (srv w') a = [] \<and> cl_objects (cls w' a) = object_view (srv w) \<and> disconnects (cls w' a) = 0"
  using assms
proof (induction "length (wire_to (srv w) a)" arbitrary: w rule: less_induct)
  case less
  have f: "wire_follows (wire_to (srv w) a) (cls w a) (object_view (srv w))" using less.prems by (simp add: remote_inv_def all_follow_def)
  show ?case
  proof (cases "wire_to (srv w) a = []")
    case True
    with f follows_nothing less.prems show ?thesis by (intro exI [of _ 0]) (simp add: Let_def)
  next
    case False
    from follows_read [OF f this] obtain r rest where r: "read_message (wire_to (srv w) a) (read_msg (cls w a)) = Inr (r, rest)"
      "length rest < length (wire_to (srv w) a)" "disconnects (client_read_body True r (cls w a \<lparr> read_msg := r \<rparr>)) = disconnects (cls w a)"
      by metis
    let ?w = "remote_step (Client_Reads a True) w"
    have "socket_open (cls w a)" using f by (simp add: wire_follows_def)
    then have w: "?w = w \<lparr> srv := srv w \<lparr> wire_to := (wire_to (srv w))(a := rest) \<rparr>,
        cls := (cls w)(a := client_read_body True r (cls w a \<lparr> read_msg := r \<rparr>)) \<rparr>" using r(1) by simp
    then have ov: "object_view (srv ?w) = object_view (srv w)" by (simp add: object_view_def)
    have "remote_inv ?w" using remote_inv_client_reads [OF less.prems(1)] by (simp only: carries_def)
    then obtain n where "let w' = (remote_step (Client_Reads a True) ^^ n) ?w in
      wire_to (srv w') a = [] \<and> cl_objects (cls w' a) = object_view (srv w) \<and> disconnects (cls w' a) = 0"
      using less.hyps [of ?w] w r(2,3) less.prems unfolding ov by auto
    then show ?thesis by (intro exI [of _ "Suc n"]) (simp add: funpow_swap1 del: remote_step.simps)
  qed
qed

text \<open>C2: in every session a client that the server counts among its clients and that has not been told of a lost
  connection needs only to read on: after some number of messages its wire is empty, it has exactly the objects
  of the server with their classes, and no message on the way made it give up.\<close>

theorem registry_replicated:
  assumes "remote_reach w" "a \<in> set (client_agents (srv w))" "disconnects (cls w a) = 0"
  shows "\<exists>n. let w' = (remote_step (Client_Reads a True) ^^ n) w in
    wire_to (srv w') a = [] \<and> cl_objects (cls w' a) = object_view (srv w) \<and> disconnects (cls w' a) = 0"
  by (rule client_catches_up [OF remote_reach_inv [OF assms(1)] assms(2,3)])

text \<open>A client connects, the service objects are made, a sequence is created and the sample bank removed.\<close>

definition demo_session :: "remote_event list" where
  "demo_session = [Accept, Start (\<lambda>ty. []), Create ''Sequence'' [], Remove 2]"

lemma wire_ok_plain_object:
  assumes "0 \<le> i" "i < 2 ^ 31" "map_find ty server_factories \<noteq> None"
  shows "wire_ok (create_message \<lparr> obj_id = i, obj_type = ty, obj_fields = [] \<rparr>)"
proof -
  have "\<forall>p \<in> set server_factories. plain (fst p) \<and> length (fst p) \<le> 10" by code_simp
  then have ty: "plain ty" "length ty \<le> 10" using factories_listed [OF assms(3)] by auto
  with assms show_int_plain show_int_length [of i] show ?thesis
    by (intro wire_ok_short)
      (auto simp: create_message_def add_create_object_header_def msg_numbers plain_def has_delim_def nul_free_def show_int_length order_trans [OF show_int_length])
qed

definition demo_remote :: "nat \<Rightarrow> remote" where
  "demo_remote n = fold remote_step (take n demo_session) new_remote"

lemma fits_plain:
  assumes "-1 \<le> last_obj_id sv" "last_obj_id sv + n < 2 ^ 31" "map_find ty server_factories \<noteq> None"
  shows "object_fits sv n ty []"
  using assms wire_ok_plain_object by (auto simp: object_fits_def)

lemma demo_remote_reach: "remote_reach (demo_remote 4)"
proof -
  have n: "demo_remote 1 = remote_step Accept new_remote" "demo_remote 2 = remote_step (Start (\<lambda>ty. [])) (demo_remote 1)"
    "demo_remote 3 = remote_step (Create ''Sequence'' []) (demo_remote 2)" "demo_remote 4 = remote_step (Remove 2) (demo_remote 3)"
    by (simp_all add: demo_remote_def demo_session_def numeral_eq_Suc del: remote_step.simps)
  have "next_client_agent_id (srv new_remote) < 2 ^ 31 - 1" by code_simp
  then have r1: "remote_reach (demo_remote 1)" unfolding n(1) by (intro reach_step reach_new) simp
  have "last_obj_id (srv (demo_remote 1)) = -1" by code_simp
  then have "event_ok (demo_remote 1) (Start (\<lambda>ty. []))" by (simp add: fits_plain)
  with r1 have r2: "remote_reach (demo_remote 2)" unfolding n(2) by (rule reach_step)
  have "last_obj_id (srv (demo_remote 2)) = 8" "map_find ''Sequence'' server_factories \<noteq> None" by code_simp+
  then have "event_ok (demo_remote 2) (Create ''Sequence'' [])" by (simp add: fits_plain del: not_None_eq)
  with r2 have r3: "remote_reach (demo_remote 3)" unfolding n(3) by (rule reach_step)
  then show ?thesis unfolding n(4) by (rule reach_step) simp
qed

theorem registry_replicated_witness:
  "\<exists>n. cl_objects (cls ((remote_step (Client_Reads 0 True) ^^ n) (demo_remote 4)) 0) =
     [(0, ''HandleList''), (1, ''GloCtrlObj''), (7, ''Scales''), (9, ''Sequence'')]"
proof -
  have c: "client_agents (srv (demo_remote 4)) = [0]" "disconnects (cls (demo_remote 4) 0) = 0"
    "object_view (srv (demo_remote 4)) = [(0, ''HandleList''), (1, ''GloCtrlObj''), (7, ''Scales''), (9, ''Sequence'')]"
    by code_simp+
  from registry_replicated [OF demo_remote_reach, of 0] c show ?thesis by (auto simp: Let_def)
qed

end
