(* ===== verification/Stale_Requests.thy ===== *)
theory Stale_Requests
  imports Registry_Session
begin

text \<open>
  A client and an object can part: the client asks for an object whose removal is on its way. What the server
  does with such a request (engine_code/server.cc, \<open>Server::route_incomming_message\<close>, \<open>Server::drop_client\<close>;
  remote_interface.cc, \<open>MessageHandler::do_read_body\<close>) and what it means for the client.
\<close>

section \<open>Requests for objects that are gone\<close>

text \<open>Operations that leave an agent alone which is not among the agents of the server.\<close>

definition quiet :: "int \<Rightarrow> server \<Rightarrow> server \<Rightarrow> bool" where
  "quiet a sv sv' \<longleftrightarrow> (a \<notin> set (client_agents sv) \<longrightarrow> a \<notin> set (client_agents sv') \<and> wire_to sv' a = wire_to sv a)"

lemma quiet_refl [simp]: "quiet a sv sv" by (simp add: quiet_def)

lemma quiet_trans: "quiet a x y \<Longrightarrow> quiet a y z \<Longrightarrow> quiet a x z" by (simp add: quiet_def)

lemma quiet_and_then: "quiet a sv (snd r) \<Longrightarrow> (\<And>s. quiet a s (snd (f s))) \<Longrightarrow> quiet a sv (snd (and_then r f))"
  by (cases r) (auto simp: and_then_def intro: quiet_trans split: option.split)

lemma quiet_deliver_bytes: "src \<noteq> a \<Longrightarrow> quiet a sv (deliver_bytes b src sv)"
  by (simp add: quiet_def deliver_bytes_def)

lemma quiet_distribute: "quiet a sv (snd (distribute_message kvs sv))"
proof -
  have "a \<notin> set as \<Longrightarrow> client_agents (fold (deliver_bytes b) as s) = client_agents s \<and> wire_to (fold (deliver_bytes b) as s) a = wire_to s a" for b as s
    by (induction as arbitrary: s) (auto simp: deliver_bytes_def)
  then show ?thesis by (simp add: quiet_def distribute_message_def split: sum.split)
qed

lemma quiet_deliver_to: "src \<noteq> a \<Longrightarrow> quiet a sv (snd (deliver_to src kvs sv))"
  by (simp add: deliver_to_def quiet_deliver_bytes split: sum.split)

lemma quiet_reserve: "quiet a sv (snd (reserve_new_obj_id sv))"
  by (simp add: quiet_def reserve_new_obj_id_def Let_def)

lemma quiet_objects: "quiet a sv s \<Longrightarrow> quiet a sv (s \<lparr> all_objects := obs \<rparr>)" "quiet a (sv \<lparr> all_objects := obs \<rparr>) s \<Longrightarrow> quiet a sv s"
  by (simp_all add: quiet_def)

lemma quiet_remember: "quiet a sv (snd (remember_object ob sv))"
  unfolding remember_object_def by (rule quiet_objects(2)) (rule quiet_distribute)

lemma quiet_create: "quiet a sv (snd (create_object_from_factory ty fs sv))"
  unfolding create_object_from_factory_def by (rule quiet_and_then [OF quiet_reserve]) (simp add: quiet_remember)

lemma quiet_static: "quiet a sv (snd (create_static_single_objects factories fs sv))"
proof (induction factories arbitrary: sv)
  case (Cons p factories)
  show ?case
    by (cases p) (auto intro!: quiet_and_then quiet_reserve simp: quiet_remember Cons)
qed simp

lemma quiet_start: "quiet a sv (snd (create_service_objects fs sv))"
  unfolding create_service_objects_def by (intro quiet_and_then quiet_create quiet_static)

lemma quiet_remove: "quiet a sv (snd (server_remove_object i sv))"
proof -
  have "quiet a sv (snd (delete_object ob sv))" for ob
    by (auto simp: delete_object_def intro!: quiet_and_then quiet_distribute quiet_objects(1) [OF quiet_refl] split: option.split)
  then show ?thesis by (simp add: server_remove_object_def split: option.split)
qed

lemma quiet_run_effect: "src \<noteq> a \<Longrightarrow> quiet a sv (snd (run_effect src msg i e sv))"
  by (cases e) (auto simp: quiet_distribute quiet_deliver_bytes quiet_objects(1) split: sum.split option.split)

lemma quiet_run_effects: "src \<noteq> a \<Longrightarrow> quiet a sv (snd (run_effects src msg i es sv))"
  by (induction es arbitrary: sv) (auto intro!: quiet_and_then quiet_run_effect)

lemma quiet_route: "src \<noteq> a \<Longrightarrow> quiet a sv (snd (route_incomming_message es outcome src msg sv))"
  by (auto simp: route_incomming_message_def quiet_remove intro!: quiet_and_then quiet_run_effects split: sum.split option.split)

lemma quiet_drop: "quiet a sv (drop_client b sv)"
  using set_remove1_subset [of b "client_agents sv"] by (auto simp: quiet_def drop_client_def)

lemma quiet_agent_read_body:
  assumes "src \<noteq> a"
  shows "quiet a sv (agent_read_body es outcome src msg sv)"
proof -
  obtain e sv' where r: "route_incomming_message es outcome src msg sv = (e, sv')" by fastforce
  then have q: "quiet a sv sv'" using quiet_route [OF assms, of sv es outcome msg] by simp
  have "quiet a sv (snd (agent_message_received es outcome src msg sv))"
  proof (cases "\<exists>f. e = Some (FailureResponse f)")
    case True
    then show ?thesis using q quiet_trans [OF q quiet_deliver_to [OF assms]] by (auto simp: agent_message_received_def r)
  next
    case False
    then have "agent_message_received es outcome src msg sv = (e, sv')"
      by (simp add: agent_message_received_def r split: option.split registry_error.split)
    with q show ?thesis by simp
  qed
  then show ?thesis
    using quiet_trans [OF _ quiet_drop]
    by (cases "agent_message_received es outcome src msg sv") (auto simp: agent_read_body_def split: option.split)
qed

lemma quiet_accept:
  assumes "next_client_agent_id sv \<noteq> a"
  shows "quiet a sv (snd (accept_client sv))"
proof -
  have s: "quiet a s (snd (send_objects (next_client_agent_id sv) obs s))" for obs s
    by (induction obs arbitrary: s) (auto intro!: quiet_and_then quiet_deliver_to [OF assms])
  let ?sv = "sv \<lparr> next_client_agent_id := int32_succ (next_client_agent_id sv),
    client_agents := insort (next_client_agent_id sv) (remove1 (next_client_agent_id sv) (client_agents sv)) \<rparr>"
  have "quiet a sv ?sv"
    using assms set_remove1_subset [of "next_client_agent_id sv" "client_agents sv"] by (auto simp: quiet_def set_insort_key)
  moreover have "quiet a ?sv (snd (accept_client sv))"
    unfolding accept_client_def Let_def send_all_objects_to_new_client_def
    by (intro quiet_and_then quiet_deliver_to s) (use assms in auto)
  ultimately show ?thesis by (rule quiet_trans)
qed

lemma quiet_step:
  assumes "a < next_client_agent_id (srv w)" "\<And>es outcome. e \<noteq> Agent_Reads a es outcome" "\<And>ok. e \<noteq> Client_Reads a ok"
  shows "quiet a (srv w) (srv (remote_step e w))"
proof (cases e)
  case (Agent_Reads b es outcome)
  with assms(2) have "b \<noteq> a" by blast
  with Agent_Reads quiet_agent_read_body show ?thesis by (auto split: sum.split)
next
  case (Client_Reads b ok)
  with assms(3) have "b \<noteq> a" by blast
  with Client_Reads show ?thesis by (auto simp: quiet_def split: sum.split)
next
  case (Client_Sends b aw kvs)
  then show ?thesis by (auto simp: Let_def split: prod.split option.split sum.split)
next
  case Accept
  with assms(1) show ?thesis by (simp add: quiet_accept)
qed (auto simp: quiet_start quiet_create quiet_remove quiet_distribute quiet_run_effect quiet_drop quiet_objects(1) split: option.split)

fun events_ok :: "remote \<Rightarrow> remote_event list \<Rightarrow> bool" where
  "events_ok w [] \<longleftrightarrow> True"
| "events_ok w (e # es) \<longleftrightarrow> event_ok w e \<and> events_ok (remote_step e w) es"

lemma quiet_run:
  assumes "remote_inv w" "events_ok w es" "a < next_client_agent_id (srv w)" "a \<notin> set (client_agents (srv w))"
    "\<forall>e \<in> set es. (\<forall>es' outcome. e \<noteq> Agent_Reads a es' outcome) \<and> (\<forall>ok. e \<noteq> Client_Reads a ok)"
  shows "wire_to (srv (fold remote_step es w)) a = wire_to (srv w) a \<and> a \<notin> set (client_agents (srv (fold remote_step es w)))"
  using assms
proof (induction es arbitrary: w)
  case (Cons e es)
  have q: "quiet a (srv w) (srv (remote_step e w))" using quiet_step [of a w e] Cons.prems by auto
  have "carries w (remote_step e w)" using remote_inv_step Cons.prems by simp
  then have "remote_inv (remote_step e w)" "a < next_client_agent_id (srv (remote_step e w))" using Cons.prems by (auto simp: carries_def)
  with Cons.IH [of "remote_step e w"] q Cons.prems show ?case by (auto simp: quiet_def simp del: remote_step.simps)
qed simp


text \<open>The client asks the sample bank for something while its removal is on the way.\<close>

definition demo_stale :: remote where
  "demo_stale = remote_step (Client_Sends 0 False [(''id'', ''2''), (''command'', ''load'')]) (demo_remote 4)"


end
