(* ===== verification/Doubly_Linked.thy ===== *)
theory Doubly_Linked
  imports VK_Prelude
begin

text \<open>
  Doubly linked lists as the program builds them by hand, in the signals of an input (signal.cc) and in the
  notes of a loop (machine_sequencer.cc): the links are two functions on pointers, and a predicate
  says which list of pointers they spell out.
\<close>

text \<open>A stretch of a doubly linked list: behind \<open>p\<close>, from \<open>h\<close> on, up to \<open>q\<close>, with \<open>l\<close> the last before \<open>q\<close>.\<close>

fun sseg :: "('p \<Rightarrow> 'p option) \<Rightarrow> ('p \<Rightarrow> 'p option) \<Rightarrow> 'p option \<Rightarrow> 'p option \<Rightarrow> 'p list \<Rightarrow> 'p option \<Rightarrow> 'p option \<Rightarrow> bool" where
  "sseg pv nx p h [] q l \<longleftrightarrow> h = q \<and> l = p"
| "sseg pv nx p h (x # xs) q l \<longleftrightarrow> h = Some x \<and> pv x = p \<and> sseg pv nx (Some x) (nx x) xs q l"

lemma sseg_append: "sseg pv nx p h (xs @ ys) q l \<longleftrightarrow> (\<exists>h' l'. sseg pv nx p h xs h' l' \<and> sseg pv nx l' h' ys q l)"
  by (induction xs arbitrary: p h) auto

lemma sseg_cong:
  "(\<And>x. x \<in> set xs \<Longrightarrow> pv' x = pv x \<and> nx' x = nx x) \<Longrightarrow> sseg pv' nx' p h xs q l = sseg pv nx p h xs q l"
  by (induction xs arbitrary: p h) auto

lemma sseg_last: "sseg pv nx p h xs q l \<Longrightarrow> l = (if xs = [] then p else Some (last xs))"
  by (induction xs arbitrary: p h) (auto split: if_splits)

lemma sseg_redirect_end:
  assumes "sseg pv nx p h (xs @ [z]) q l" "z \<notin> set xs"
  shows "sseg pv (nx(z := q')) p h (xs @ [z]) q' l"
proof -
  have "sseg pv (nx(z := q')) p h' xs r l' = sseg pv nx p h' xs r l'" for h' r l'
    using assms(2) by (intro sseg_cong) auto
  with assms(1) show ?thesis by (auto simp: sseg_append)
qed

lemma sseg_redirect_start:
  assumes "sseg pv nx p h (z # xs) q l" "z \<notin> set xs"
  shows "sseg (pv(z := p')) nx p' h (z # xs) q l"
proof -
  have "sseg (pv(z := p')) nx (Some z) (nx z) xs q l = sseg pv nx (Some z) (nx z) xs q l"
    using assms(2) by (intro sseg_cong) auto
  with assms(1) show ?thesis by simp
qed

text \<open>Inserting behind the head.\<close>

lemma sseg_insert:
  assumes "sseg pv nx None (Some k) (k # xs) None l" "distinct (k # ns # xs)"
  defines "nx' \<equiv> nx(k := Some ns, ns := nx k)"
    and "pv' \<equiv> (case nx k of None \<Rightarrow> pv(ns := Some k) | Some y \<Rightarrow> pv(ns := Some k, y := Some ns))"
  shows "\<exists>l'. sseg pv' nx' None (Some k) (k # ns # xs) None l'"
proof (cases xs)
  case Nil
  with assms show ?thesis by auto
next
  case (Cons y ys)
  with assms(1) have y: "nx k = Some y" "pv k = None" "sseg pv nx (Some y) (nx y) ys None l" by auto
  have "sseg pv' nx' (Some y) (nx y) ys None l = sseg pv nx (Some y) (nx y) ys None l"
    using assms(2) Cons y(1) by (intro sseg_cong) (auto simp: nx'_def pv'_def)
  with y assms(2) Cons show ?thesis by (auto simp: nx'_def pv'_def)
qed

text \<open>Removing an element, whose own links are cleared.\<close>

lemma sseg_remove:
  assumes "sseg pv nx None h (xs @ z # ys) None l" "distinct (xs @ z # ys)"
  defines "nx' \<equiv> (case pv z of None \<Rightarrow> nx | Some q \<Rightarrow> nx(q := nx z))(z := None)"
    and "pv' \<equiv> (case nx z of None \<Rightarrow> pv | Some q \<Rightarrow> pv(q := pv z))(z := None)"
  shows "\<exists>l'. sseg pv' nx' None (if xs = [] then nx z else h) (xs @ ys) None l'"
proof -
  obtain l1 where a: "sseg pv nx None h xs (Some z) l1" "pv z = l1" "sseg pv nx (Some z) (nx z) ys None l"
    using assms(1) by (auto simp: sseg_append)
  have l1: "l1 = (if xs = [] then None else Some (last xs))" using sseg_last [OF a(1)] .
  have ys: "\<exists>l'. sseg pv' nx' l1 (nx z) ys None l'"
  proof (cases ys)
    case Nil
    with a show ?thesis by auto
  next
    case (Cons y zs)
    then have y: "nx z = Some y" using a(3) by simp
    have "sseg (pv(y := l1)) nx l1 (nx z) (y # zs) None l"
      using sseg_redirect_start [of pv nx "Some z" "nx z" y zs None l l1] a(3) assms(2) Cons by auto
    moreover have "sseg pv' nx' l1 (nx z) (y # zs) None l = sseg (pv(y := l1)) nx l1 (nx z) (y # zs) None l"
    proof (rule sseg_cong)
      fix x assume x: "x \<in> set (y # zs)"
      then have "x \<noteq> z" "pv z \<noteq> Some x" using assms(2) Cons a(2) l1 x by (cases xs rule: rev_cases; auto)+
      then show "pv' x = (pv(y := l1)) x \<and> nx' x = nx x"
        using y a(2) by (auto simp: nx'_def pv'_def split: option.split)
    qed
    ultimately show ?thesis using Cons by blast
  qed
  show ?thesis
  proof (cases "xs = []")
    case True
    with ys l1 show ?thesis by auto
  next
    case False
    then obtain us u where xs: "xs = us @ [u]" by (metis rev_exhaust)
    then have pz: "pv z = Some u" using a(2) l1 by simp
    have "sseg pv (nx(u := nx z)) None h (us @ [u]) (nx z) l1"
      using sseg_redirect_end [of pv nx None h us u "Some z" l1 "nx z"] a(1) xs assms(2) by auto
    moreover have "sseg pv' nx' None h (us @ [u]) (nx z) l1 = sseg pv (nx(u := nx z)) None h (us @ [u]) (nx z) l1"
    proof (rule sseg_cong)
      fix x assume x: "x \<in> set (us @ [u])"
      then have "x \<noteq> z" using assms(2) xs by auto
      moreover have "nx z \<noteq> Some x" using x xs assms(2) a(3) by (cases ys) auto
      ultimately show "pv' x = pv x \<and> nx' x = (nx(u := nx z)) x"
        using pz by (auto simp: nx'_def pv'_def split: option.split)
    qed
    ultimately show ?thesis using ys False xs by (auto simp: sseg_append)
  qed
qed

text \<open>Inserting in front of an element, and behind the last one.\<close>

lemma sseg_insert_before:
  assumes "sseg pv nx None h (xs @ c # ys) None l" "distinct (xs @ z # c # ys)"
  defines "nx' \<equiv> (case pv c of None \<Rightarrow> nx(z := Some c) | Some q \<Rightarrow> nx(z := Some c, q := Some z))"
    and "pv' \<equiv> pv(z := pv c, c := Some z)"
  shows "\<exists>l'. sseg pv' nx' None (if pv c = None then Some z else h) (xs @ z # c # ys) None l'"
proof -
  obtain l1 where a: "sseg pv nx None h xs (Some c) l1" "pv c = l1" "sseg pv nx (Some c) (nx c) ys None l"
    using assms(1) by (auto simp: sseg_append)
  have l1: "l1 = (if xs = [] then None else Some (last xs))" using sseg_last [OF a(1)] .
  have same: "nx' x = nx x" if "x \<noteq> z" "pv c \<noteq> Some x" for x
    using that by (auto simp: nx'_def split: option.split)
  have notlast: "pv c \<noteq> Some x" if "x \<in> set (z # c # ys)" for x
    using that assms(2) a(2) l1 by (cases xs rule: rev_cases) auto
  have c: "nx' c = nx c" "nx' z = Some c" "pv' c = Some z" "pv' z = pv c"
    using same [of c] notlast [of c] notlast [of z] assms(2) by (auto simp: nx'_def pv'_def split: option.split)
  have "sseg pv' nx' (Some c) (nx c) ys None l = sseg pv nx (Some c) (nx c) ys None l"
    using assms(2) notlast by (intro sseg_cong) (auto simp: pv'_def intro!: same)
  with a(3) c have tail: "sseg pv' nx' (pv c) (Some z) (z # c # ys) None l" by simp
  show ?thesis
  proof (cases xs rule: rev_cases)
    case Nil
    then show ?thesis using tail a(2) l1 by auto
  next
    case (snoc us u)
    then have pc: "pv c = Some u" using a(2) l1 by simp
    have "sseg pv (nx(u := Some z)) None h (us @ [u]) (Some z) l1"
      using sseg_redirect_end [of pv nx None h us u "Some c" l1 "Some z"] a(1) snoc assms(2) by auto
    moreover have "sseg pv' nx' None h (us @ [u]) (Some z) l1 = sseg pv (nx(u := Some z)) None h (us @ [u]) (Some z) l1"
      using snoc assms(2) pc by (intro sseg_cong) (auto simp: pv'_def nx'_def)
    ultimately show ?thesis using tail pc snoc a(2) by (auto simp: sseg_append)
  qed
qed

lemma sseg_insert_end:
  assumes "sseg pv nx None h (xs @ [c]) None l" "distinct (xs @ [c, z])"
  shows "\<exists>l'. sseg (pv(z := Some c)) (nx(c := Some z, z := None)) None h (xs @ [c, z]) None l'"
proof -
  have "sseg pv (nx(c := Some z)) None h (xs @ [c]) (Some z) l"
    using sseg_redirect_end [OF assms(1), of "Some z"] assms(2) by simp
  moreover have "sseg (pv(z := Some c)) (nx(c := Some z, z := None)) None h (xs @ [c]) (Some z) l =
      sseg pv (nx(c := Some z)) None h (xs @ [c]) (Some z) l"
    using assms(2) by (intro sseg_cong) auto
  ultimately have "sseg (pv(z := Some c)) (nx(c := Some z, z := None)) None h (xs @ [c]) (Some z) (Some c)"
    using sseg_last [of _ _ None h "xs @ [c]" "Some z" l] by auto
  then have "sseg (pv(z := Some c)) (nx(c := Some z, z := None)) None h ((xs @ [c]) @ [z]) None (Some z)"
    unfolding sseg_append by auto
  then show ?thesis by auto
qed

text \<open>Removing an element without touching its own links.\<close>

lemma sseg_unchain:
  assumes "sseg pv nx None h (xs @ z # ys) None l" "distinct (xs @ z # ys)"
  shows "\<exists>l'. sseg (case nx z of None \<Rightarrow> pv | Some q \<Rightarrow> pv(q := pv z)) (case pv z of None \<Rightarrow> nx | Some q \<Rightarrow> nx(q := nx z))
    None (if xs = [] then nx z else h) (xs @ ys) None l'"
proof -
  have "sseg ((case nx z of None \<Rightarrow> pv | Some q \<Rightarrow> pv(q := pv z))(z := None))
      ((case pv z of None \<Rightarrow> nx | Some q \<Rightarrow> nx(q := nx z))(z := None)) None (if xs = [] then nx z else h) (xs @ ys) None l' =
    sseg (case nx z of None \<Rightarrow> pv | Some q \<Rightarrow> pv(q := pv z)) (case pv z of None \<Rightarrow> nx | Some q \<Rightarrow> nx(q := nx z))
      None (if xs = [] then nx z else h) (xs @ ys) None l'" for l'
    using assms(2) by (intro sseg_cong) auto
  with sseg_remove [OF assms] show ?thesis by simp
qed

end
