(* ===== verification/Linked_List.thy ===== *)
theory Linked_List
  imports VK_Prelude
begin

text \<open>
  The intrusive singly linked list of linked_list.hh.

  The nodes live in a store: \<open>nx\<close> is the \<open>next\<close> field of every node and \<open>lt\<close>, \<open>eq\<close> compare
  the contents of two nodes (\<open>operator<\<close>, \<open>operator==\<close> of the element class). The four
  operations are first given on the store, with their loops as partial functions, because a
  walk along \<open>next\<close> pointers need not end; then on the list of nodes, and the refinement
  lemmas state that on a well-formed list every operation returns and does what the list
  version does.
\<close>

type_synonym ptr = nat
type_synonym nexts = "ptr \<Rightarrow> ptr option"

section \<open>Segments of the store\<close>

fun lseg :: "nexts \<Rightarrow> ptr option \<Rightarrow> ptr list \<Rightarrow> ptr option \<Rightarrow> bool" where
  "lseg nx p [] q \<longleftrightarrow> p = q"
| "lseg nx p (x # xs) q \<longleftrightarrow> p = Some x \<and> x \<notin> set xs \<and> lseg nx (nx x) xs q"

lemma lseg_append:
  "lseg nx p (xs @ ys) q \<longleftrightarrow>
     (\<exists>r. lseg nx p xs r \<and> lseg nx r ys q) \<and> set xs \<inter> set ys = {}"
  by (induction xs arbitrary: p) auto

lemma lseg_distinct: "lseg nx p xs q \<Longrightarrow> distinct xs"
  by (induction xs arbitrary: p) auto

lemma lseg_upd [simp]: "x \<notin> set xs \<Longrightarrow> lseg (nx(x := v)) p xs q = lseg nx p xs q"
  by (induction xs arbitrary: p) auto

lemma lseg_cong: "(\<And>x. x \<in> set xs \<Longrightarrow> nx x = nx' x) \<Longrightarrow> lseg nx p xs q = lseg nx' p xs q"
  by (induction xs arbitrary: p) auto

lemma lseg_None [simp]: "lseg nx None xs None \<longleftrightarrow> xs = []"
  by (cases xs) auto

lemma lseg_Some: "lseg nx (Some x) xs None \<Longrightarrow> \<exists>ys. xs = x # ys \<and> lseg nx (nx x) ys None \<and> x \<notin> set ys"
  by (cases xs) auto

lemma lseg_unique: "lseg nx p xs None \<Longrightarrow> lseg nx p ys None \<Longrightarrow> xs = ys"
proof (induction xs arbitrary: p ys)
  case (Cons x xs)
  then show ?case by (cases ys) auto
qed simp

section \<open>The operations on the store\<close>

type_synonym linked_list = "nexts \<times> ptr option"

partial_function (option) insert_walk ::
  "(ptr \<Rightarrow> ptr \<Rightarrow> bool) \<Rightarrow> nexts \<Rightarrow> ptr \<Rightarrow> ptr \<Rightarrow> ptr option" where
  "insert_walk lt nx new_element this_element =
     (case nx this_element of
        None \<Rightarrow> Some this_element
      | Some n \<Rightarrow> if lt this_element new_element then insert_walk lt nx new_element n
                  else Some this_element)"

fun insert_element_store ::
  "(ptr \<Rightarrow> ptr \<Rightarrow> bool) \<Rightarrow> ptr \<Rightarrow> linked_list \<Rightarrow> linked_list option" where
  "insert_element_store lt new_element (nx, None) = Some (nx(new_element := None), Some new_element)"
| "insert_element_store lt new_element (nx, Some head) =
     (if lt new_element head then Some (nx(new_element := Some head), Some new_element)
      else Option.bind (insert_walk lt nx new_element head)
        (\<lambda>this_element. Some ((nx(new_element := nx this_element))(this_element := Some new_element), Some head)))"

partial_function (option) visit :: "nexts \<Rightarrow> ptr option \<Rightarrow> ptr list option" where
  "visit nx cur =
     (case cur of
        None \<Rightarrow> Some []
      | Some p \<Rightarrow> Option.bind (visit nx (nx p)) (\<lambda>ps. Some (p # ps)))"

text \<open>\<open>clear\<close> hands the nodes to \<open>func_on_drop\<close> from the head on and leaves the list empty;
  \<open>for_each\<close> hands them to its callback and leaves the list as it is.\<close>

fun clear_store :: "linked_list \<Rightarrow> (ptr list \<times> linked_list) option" where
  "clear_store (nx, head) = Option.bind (visit nx head) (\<lambda>dropped. Some (dropped, (nx, None)))"

fun for_each_store :: "linked_list \<Rightarrow> ptr list option" where
  "for_each_store (nx, head) = visit nx head"

partial_function (option) drop_walk ::
  "(ptr \<Rightarrow> bool) \<Rightarrow> nexts \<Rightarrow> ptr \<Rightarrow> ptr option" where
  "drop_walk eq nx this_element =
     (case nx this_element of
        None \<Rightarrow> Some this_element
      | Some n \<Rightarrow> if eq n then Some this_element else drop_walk eq nx n)"

text \<open>The result carries the node handed to \<open>func_on_drop\<close>, if any.\<close>

fun drop_element_store :: "(ptr \<Rightarrow> bool) \<Rightarrow> linked_list \<Rightarrow> (ptr option \<times> linked_list) option" where
  "drop_element_store eq (nx, None) = Some (None, (nx, None))"
| "drop_element_store eq (nx, Some head) =
     (if eq head then Some (Some head, (nx, nx head))
      else Option.bind (drop_walk eq nx head)
        (\<lambda>this_element.
           case nx this_element of
             None \<Rightarrow> Some (None, (nx, Some head))
           | Some f \<Rightarrow> if eq f then Some (Some f, (nx(this_element := nx f), Some head))
                       else Some (None, (nx, Some head))))"

section \<open>The operations on the list of elements\<close>

fun insert_after :: "('a \<Rightarrow> 'a \<Rightarrow> bool) \<Rightarrow> 'a \<Rightarrow> 'a list \<Rightarrow> 'a list" where
  "insert_after lt new [] = [new]"
| "insert_after lt new [x] = [x, new]"
| "insert_after lt new (x # y # ys) =
     (if lt x new then x # insert_after lt new (y # ys) else x # new # y # ys)"

fun insert_element :: "('a \<Rightarrow> 'a \<Rightarrow> bool) \<Rightarrow> 'a \<Rightarrow> 'a list \<Rightarrow> 'a list" where
  "insert_element lt new [] = [new]"
| "insert_element lt new (x # xs) =
     (if lt new x then new # x # xs else insert_after lt new (x # xs))"

fun drop_element :: "('a \<Rightarrow> bool) \<Rightarrow> 'a list \<Rightarrow> 'a option \<times> 'a list" where
  "drop_element eq [] = (None, [])"
| "drop_element eq (x # xs) =
     (if eq x then (Some x, xs) else (case drop_element eq xs of (f, ys) \<Rightarrow> (f, x # ys)))"

section \<open>Refinement\<close>

lemma visit_lseg: "lseg nx p xs None \<Longrightarrow> visit nx p = Some xs"
  by (induction xs arbitrary: p) (simp_all add: visit.simps)

lemma insert_walk_lseg:
  assumes "lseg nx (Some x) (x # xs) None" "new \<notin> set (x # xs)"
  shows "\<exists>t. insert_walk lt nx new x = Some t \<and> t \<in> set (x # xs) \<and>
    lseg ((nx(new := nx t))(t := Some new)) (Some x) (insert_after lt new (x # xs)) None"
  supply fun_upd_apply [simp del] fun_upd_same [simp] fun_upd_other [simp]
  using assms
proof (induction xs arbitrary: x)
  case Nil
  then show ?case by (auto simp: insert_walk.simps)
next
  case (Cons y ys)
  show ?case
  proof (cases "lt x new")
    case False
    with Cons.prems show ?thesis
      by (auto simp: insert_walk.simps)
  next
    case True
    from Cons.IH [of y] Cons.prems obtain t where
      t: "insert_walk lt nx new y = Some t" "t \<in> set (y # ys)"
        "lseg ((nx(new := nx t))(t := Some new)) (Some y) (insert_after lt new (y # ys)) None"
      by auto
    have "x \<notin> set (insert_after lt new (y # ys))"
    proof -
      have "set (insert_after lt new zs) = insert new (set zs)" for zs
        by (induction lt new zs rule: insert_after.induct) auto
      with Cons.prems show ?thesis by auto
    qed
    moreover have "insert_walk lt nx new x = Some t"
      using True t(1) Cons.prems by (subst insert_walk.simps) simp
    moreover have "t \<noteq> x" using t(2) Cons.prems by auto
    ultimately show ?thesis using True t Cons.prems by auto
  qed
qed

lemma insert_element_refines:
  assumes "lseg nx head xs None" "new \<notin> set xs"
  shows "\<exists>nx' head'. insert_element_store lt new (nx, head) = Some (nx', head') \<and>
    lseg nx' head' (insert_element lt new xs) None"
proof (cases xs)
  case Nil
  with assms show ?thesis by simp
next
  case (Cons x ys)
  with assms have h: "head = Some x" "lseg nx (Some x) (x # ys) None" by auto
  show ?thesis
  proof (cases "lt new x")
    case True
    with h Cons assms show ?thesis by auto
  next
    case False
    with insert_walk_lseg [OF h(2), of new lt] assms h Cons show ?thesis by auto
  qed
qed

lemma set_drop_element: "set (snd (drop_element eq xs)) \<subseteq> set xs"
  by (induction eq xs rule: drop_element.induct) (auto split: prod.splits)

lemma drop_walk_lseg:
  assumes "lseg nx (Some x) (x # xs) None" "\<not> eq x" "drop_element eq (x # xs) = (f, zs)"
  shows "\<exists>t. drop_walk eq nx x = Some t \<and> t \<in> set (x # xs) \<and>
    (case f of
       None \<Rightarrow> nx t = None \<and> zs = x # xs
     | Some g \<Rightarrow> nx t = Some g \<and> eq g \<and> lseg (nx(t := nx g)) (Some x) zs None)"
  using assms
proof (induction xs arbitrary: x zs)
  case Nil
  then show ?case by (auto simp: drop_walk.simps)
next
  case (Cons y ys)
  show ?case
  proof (cases "eq y")
    case True
    with Cons.prems show ?thesis
      by (auto simp: drop_walk.simps fun_upd_same fun_upd_other simp del: fun_upd_apply)
  next
    case False
    from Cons.prems obtain zs' where
      z: "drop_element eq (y # ys) = (f, zs')" "zs = x # zs'"
      by (auto split: prod.splits simp del: drop_element.simps(2)
          simp: drop_element.simps(2) [of eq x "y # ys"])
    from Cons.IH [of y zs'] Cons.prems False z obtain t where
      t: "drop_walk eq nx y = Some t" "t \<in> set (y # ys)"
        "case f of None \<Rightarrow> nx t = None \<and> zs' = y # ys
         | Some g \<Rightarrow> nx t = Some g \<and> eq g \<and> lseg (nx(t := nx g)) (Some y) zs' None"
      by auto
    have "drop_walk eq nx x = Some t"
      using False t(1) Cons.prems by (subst drop_walk.simps) simp
    moreover have "x \<notin> set zs'"
      using set_drop_element [of eq "y # ys"] z Cons.prems by auto
    moreover have "x \<noteq> t" "nx x = Some y"
      using t(2) Cons.prems by auto
    ultimately show ?thesis
      using t z Cons.prems by (auto split: option.splits)
  qed
qed

lemma drop_element_refines:
  assumes "lseg nx head xs None"
  shows "\<exists>nx' head'. drop_element_store eq (nx, head) =
      Some (fst (drop_element eq xs), (nx', head')) \<and>
    lseg nx' head' (snd (drop_element eq xs)) None"
proof (cases xs)
  case Nil
  with assms show ?thesis by simp
next
  case (Cons x ys)
  with assms have h: "head = Some x" "lseg nx (Some x) (x # ys) None" by auto
  obtain f zs where d: "drop_element eq (x # ys) = (f, zs)" by fastforce
  show ?thesis
  proof (cases "eq x")
    case True
    with h Cons show ?thesis by auto
  next
    case False
    with drop_walk_lseg [OF h(2) False d] d h Cons show ?thesis
      by (cases f) (auto simp del: drop_element.simps)
  qed
qed

lemma clear_refines:
  "lseg nx head xs None \<Longrightarrow> clear_store (nx, head) = Some (xs, (nx, None)) \<and> lseg nx None [] None"
  by (simp add: visit_lseg)

section \<open>What the list operations do\<close>

lemma mset_insert_after [simp]: "mset (insert_after lt new xs) = add_mset new (mset xs)"
  by (induction lt new xs rule: insert_after.induct) auto

lemma mset_insert_element [simp]: "mset (insert_element lt new xs) = add_mset new (mset xs)"
  by (cases xs) auto

lemma set_insert_element [simp]: "set (insert_element lt new xs) = insert new (set xs)"
  using mset_insert_element [of lt new xs] by (metis set_mset_add_mset_insert set_mset_mset)

lemma drop_element_find: "fst (drop_element eq xs) = find eq xs"
  by (induction eq xs rule: drop_element.induct) (auto split: prod.splits)

lemma drop_element_rest:
  "snd (drop_element eq xs) = takeWhile (\<lambda>x. \<not> eq x) xs @ tl (dropWhile (\<lambda>x. \<not> eq x) xs)"
  by (induction eq xs rule: drop_element.induct) (auto split: prod.splits)

lemma drop_element_mset:
  "mset xs = mset (snd (drop_element eq xs)) + (case fst (drop_element eq xs) of None \<Rightarrow> {#} | Some x \<Rightarrow> {#x#})"
  by (induction eq xs rule: drop_element.induct) (auto split: prod.splits option.splits)

text \<open>Where \<open>insert_element\<close> puts a new element: the walk tests the node it stands on, not
  the next one, so the new element lands one node after the first one that is not smaller.\<close>

lemma insert_after_position:
  "xs \<noteq> [] \<Longrightarrow> insert_after lt new xs =
     (let below = takeWhile (\<lambda>x. lt x new) xs; rest = dropWhile (\<lambda>x. lt x new) xs
      in below @ take 1 rest @ new # drop 1 rest)"
proof (induction lt new xs rule: insert_after.induct)
  case (3 lt new x y ys)
  then show ?case by (auto simp: Let_def)
qed (auto simp: Let_def)

lemma insert_element_position:
  assumes "xs \<noteq> []" "\<not> lt new (hd xs)"
  shows "insert_element lt new xs =
     takeWhile (\<lambda>x. lt x new) xs @ take 1 (dropWhile (\<lambda>x. lt x new) xs) @ new # drop 1 (dropWhile (\<lambda>x. lt x new) xs)"
  using assms insert_after_position [of xs lt new] by (cases xs) (simp_all add: Let_def)

text \<open>On a list in order, with the weak order a key induces, the result is in order exactly when
  the new element is smaller than the first, not smaller than the last, or equivalent to the
  first element that is not smaller.\<close>

lemma insert_element_sorted_iff:
  fixes key :: "'a \<Rightarrow> 'b :: linorder"
  assumes "sorted (map key xs)"
  shows "sorted (map key (insert_element (\<lambda>a b. key a < key b) new xs)) \<longleftrightarrow>
    xs = [] \<or> key new < key (hd xs) \<or>
    (case dropWhile (\<lambda>x. key x < key new) xs of [] \<Rightarrow> True | x # _ \<Rightarrow> key x = key new)"
proof (cases "xs = [] \<or> key new < key (hd xs)")
  case True
  with assms show ?thesis by (cases xs) auto
next
  case False
  let ?lo = "takeWhile (\<lambda>x. key x < key new) xs" and ?hi = "dropWhile (\<lambda>x. key x < key new) xs"
  have lo: "\<forall>x \<in> set ?lo. key x < key new" by (auto dest: set_takeWhileD)
  have srt: "sorted (map key (?lo @ ?hi))" using assms by simp
  have pos: "insert_element (\<lambda>a b. key a < key b) new xs = ?lo @ take 1 ?hi @ new # drop 1 ?hi"
    using False by (intro insert_element_position) auto
  show ?thesis
  proof (cases ?hi)
    case Nil
    have "sorted (map key ?lo)"
      using assms by (metis map_append sorted_append takeWhile_dropWhile_id)
    with lo have "sorted (map key (?lo @ [new]))"
      by (simp add: sorted_append less_imp_le)
    with pos show ?thesis by (simp only: Nil list.case) simp
  next
    case (Cons h hs)
    then have "\<not> key h < key new" using hd_dropWhile [of "\<lambda>x. key x < key new" xs] by auto
    with Cons pos lo srt False show ?thesis
      by (auto simp: sorted_append less_imp_le)
  qed
qed

section \<open>Properties\<close>

text \<open>C23: on a well-formed list of nodes, \<open>insert_element\<close> of a node that is not in it returns and
  leaves a well-formed list, whose nodes are the old ones with the new one after the first that
  is not smaller (at the head when it is smaller than all); no node is lost.\<close>

theorem insert_element_store_correct:
  assumes "lseg nx head xs None" "new \<notin> set xs"
  shows "\<exists>nx' head' ys. insert_element_store lt new (nx, head) = Some (nx', head') \<and>
    lseg nx' head' ys None \<and> mset ys = add_mset new (mset xs) \<and> ys = insert_element lt new xs"
  using insert_element_refines [OF assms, of lt] by auto

definition nodes3 :: nexts where
  "nodes3 = (\<lambda>_. None)(10 := Some 50)"

theorem insert_element_store_witness:
  "lseg nodes3 (Some 10) [10, 50] None \<and>
   (\<exists>nx' head'. insert_element_store (<) 30 (nodes3, Some 10) = Some (nx', head') \<and>
     lseg nx' head' [10, 50, 30] None)"
proof -
  have l: "lseg nodes3 (Some 10) [10, 50] None" by (simp add: nodes3_def)
  from insert_element_store_correct [OF l, of 30 "(<)"] l show ?thesis by auto
qed

text \<open>\<open>drop_element\<close> returns; it hands the first equal node, if there is one, to the callback and
  unlinks exactly that node, keeping the order of the others.\<close>

theorem drop_element_store_correct:
  assumes "lseg nx head xs None"
  shows "\<exists>nx' head' ys. drop_element_store eq (nx, head) = Some (find eq xs, (nx', head')) \<and>
    lseg nx' head' ys None \<and>
    ys = takeWhile (\<lambda>x. \<not> eq x) xs @ tl (dropWhile (\<lambda>x. \<not> eq x) xs)"
  using drop_element_refines [OF assms, of eq] by (simp add: drop_element_find drop_element_rest)

theorem drop_element_store_witness:
  "\<exists>nx' head'. drop_element_store (\<lambda>p. p = 50) (nodes3, Some 10) = Some (Some 50, (nx', head')) \<and>
     lseg nx' head' [10] None"
proof -
  have l: "lseg nodes3 (Some 10) [10, 50] None" by (simp add: nodes3_def)
  from drop_element_store_correct [OF l, of "\<lambda>p. p = 50"] show ?thesis by simp
qed

text \<open>Inserting into a list that is in order keeps it in order exactly when the new element is
  smaller than the first, no element is as large, or the first element that is not smaller has
  the same key; in every other case the new element ends up behind a larger one.\<close>

theorem insert_element_order:
  fixes key :: "'a \<Rightarrow> 'b :: linorder"
  assumes "sorted (map key xs)"
  shows "sorted (map key (insert_element (\<lambda>a b. key a < key b) new xs)) \<longleftrightarrow>
    xs = [] \<or> key new < key (hd xs) \<or>
    (case dropWhile (\<lambda>x. key x < key new) xs of [] \<Rightarrow> True | x # _ \<Rightarrow> key x = key new)"
  using assms by (rule insert_element_sorted_iff)

theorem insert_element_order_witness:
  "sorted [10, 50 :: int] \<and> \<not> sorted (insert_element (\<lambda>a b. a < b) 30 [10, 50 :: int])"
  using insert_element_order [of "\<lambda>x :: int. x" "[10, 50]" 30] by simp

end
