(* ===== verification/Midi_Chain.thy ===== *)
theory Midi_Chain
  imports Linked_List
begin

text \<open>
  The pool and the chains of MIDI events of midi_generation.cc
  (\<open>MidiEventBuilder::MidiEventChainControler\<close>).

  Every event lives in a node with a \<open>next_in_chain\<close> and a \<open>last_in_chain\<close> pointer; the latter
  is meaningful in the first node of a chain only and makes appending a chain take constant
  time. \<open>chain\<close> relates a head pointer to the nodes of its chain, and the lemmas below state
  each operation as an operation on those lists.
\<close>

type_synonym midi_event = "8 word list"

record midi_store =
  next_in_chain :: nexts
  last_in_chain :: "ptr \<Rightarrow> ptr option"
  event_data :: "ptr \<Rightarrow> midi_event"
  next_free_midi_event :: "ptr option"
  heap_top :: ptr

definition DEFAULT_MAX_FREE_CHAIN :: nat where
  "DEFAULT_MAX_FREE_CHAIN = 256"

section \<open>Operations\<close>

text \<open>A block of nodes taken from the heap, the last of them the separation zone.\<close>

definition init_free_midi_event_chain :: "midi_store \<Rightarrow> midi_store" where
  "init_free_midi_event_chain s =
     (let b = heap_top s; n = DEFAULT_MAX_FREE_CHAIN in
      s \<lparr> next_in_chain := (\<lambda>p. if b \<le> p \<and> p < b + n
                              then (if p + 1 < b + n then Some (p + 1) else None)
                              else next_in_chain s p),
          last_in_chain := (\<lambda>p. if b \<le> p \<and> p < b + n then None else last_in_chain s p),
          next_free_midi_event := Some b,
          heap_top := b + n + 1 \<rparr>)"

definition pop_from_free :: "ptr \<Rightarrow> midi_store \<Rightarrow> midi_store" where
  "pop_from_free retval s =
     s \<lparr> next_free_midi_event := next_in_chain s retval,
         next_in_chain := (next_in_chain s)(retval := None),
         last_in_chain := (last_in_chain s)(retval := Some retval) \<rparr>"

definition pop_next_free_midi :: "midi_store \<Rightarrow> ptr \<times> midi_store" where
  "pop_next_free_midi s =
     (let s1 = (if next_free_midi_event s = None then init_free_midi_event_chain s else s);
          retval = the (next_free_midi_event s1)
      in (retval, pop_from_free retval s1))"

definition push_next_free_midi :: "ptr \<Rightarrow> midi_store \<Rightarrow> midi_store" where
  "push_next_free_midi element s =
     s \<lparr> last_in_chain := (last_in_chain s)(element :=
           (case next_free_midi_event s of Some f \<Rightarrow> last_in_chain s f | None \<Rightarrow> Some element)),
         next_in_chain := (next_in_chain s)(element := next_free_midi_event s),
         next_free_midi_event := Some element \<rparr>"

fun get_chain_head :: "ptr option \<Rightarrow> midi_store \<Rightarrow> ptr option \<times> ptr option \<times> midi_store" where
  "get_chain_head None s = (None, None, s)"
| "get_chain_head (Some q) s =
     (let s1 = (case next_in_chain s q of
                  None \<Rightarrow> s
                | Some n \<Rightarrow> s \<lparr> last_in_chain := (last_in_chain s)(n := last_in_chain s q) \<rparr>)
      in (Some q, next_in_chain s1 q,
          s1 \<lparr> next_in_chain := (next_in_chain s1)(q := None),
               last_in_chain := (last_in_chain s1)(q := Some q) \<rparr>))"

fun join_chains :: "ptr option \<Rightarrow> ptr option \<Rightarrow> midi_store \<Rightarrow> ptr option \<times> ptr option \<times> midi_store" where
  "join_chains destination None s = (destination, None, s)"
| "join_chains None (Some source) s = (Some source, None, s)"
| "join_chains (Some d) (Some source) s =
     (let last_entry = the (last_in_chain s d) in
      (Some d, None,
       s \<lparr> next_in_chain := (next_in_chain s)(last_entry := Some source),
           last_in_chain := (last_in_chain s)(d := last_in_chain s source) \<rparr>))"

definition chain_to_tail :: "ptr option \<Rightarrow> ptr \<Rightarrow> midi_store \<Rightarrow> ptr option \<times> midi_store" where
  "chain_to_tail chain event s =
     (case join_chains chain (Some event) s of (c, _, s') \<Rightarrow> (c, s'))"

section \<open>Chains as lists\<close>

definition chain :: "midi_store \<Rightarrow> ptr option \<Rightarrow> ptr list \<Rightarrow> bool" where
  "chain s p xs \<longleftrightarrow> lseg (next_in_chain s) p xs None \<and>
     (xs \<noteq> [] \<longrightarrow> last_in_chain s (hd xs) = Some (last xs))"

definition free_chain :: "midi_store \<Rightarrow> ptr list \<Rightarrow> bool" where
  "free_chain s xs \<longleftrightarrow> lseg (next_in_chain s) (next_free_midi_event s) xs None"

lemma chain_None [simp]: "chain s None xs \<longleftrightarrow> xs = []"
  by (auto simp: chain_def)

lemma chain_Nil [simp]: "chain s p [] \<longleftrightarrow> p = None"
  by (auto simp: chain_def)

lemma chain_Cons_head: "chain s p (x # xs) \<Longrightarrow> p = Some x"
  by (simp add: chain_def)

lemma chain_Some_iff: "chain s (Some p) xs \<Longrightarrow> \<exists>ys. xs = p # ys"
  by (auto simp: chain_def dest: lseg_Some)

lemma chain_distinct: "chain s p xs \<Longrightarrow> distinct xs"
  by (auto simp: chain_def dest: lseg_distinct)

lemma chain_frame:
  assumes "chain s p xs" "\<And>x. x \<in> set xs \<Longrightarrow> next_in_chain s' x = next_in_chain s x"
    "\<And>x. x \<in> set xs \<Longrightarrow> last_in_chain s' x = last_in_chain s x"
  shows "chain s' p xs"
proof -
  have "lseg (next_in_chain s') p xs None = lseg (next_in_chain s) p xs None"
    by (rule lseg_cong) (simp add: assms(2))
  moreover have "xs \<noteq> [] \<longrightarrow> last_in_chain s' (hd xs) = last_in_chain s (hd xs)"
    using assms(3) by auto
  ultimately show ?thesis
    using assms(1) unfolding chain_def by metis
qed

lemma free_chain_frame:
  assumes "free_chain s xs" "\<And>x. x \<in> set xs \<Longrightarrow> next_in_chain s' x = next_in_chain s x"
    "next_free_midi_event s' = next_free_midi_event s"
  shows "free_chain s' xs"
  using assms lseg_cong [of xs "next_in_chain s'" "next_in_chain s"] by (auto simp: free_chain_def)

lemma lseg_upt:
  "(\<And>p. a \<le> p \<Longrightarrow> p < c \<Longrightarrow> nx p = (if p + 1 < c then Some (p + 1) else None)) \<Longrightarrow>
     lseg nx (if a < c then Some a else None) [a ..< c] None"
proof (induction "c - a" arbitrary: a)
  case (Suc n)
  have "n = c - (a + 1)" using Suc.hyps(2) by simp
  from Suc.hyps(1) [OF this] Suc.prems
  have "lseg nx (if a + 1 < c then Some (a + 1) else None) [a + 1 ..< c] None" by simp
  moreover have "[a ..< c] = a # [a + 1 ..< c]" using Suc.hyps(2) upt_conv_Cons [of a c] by simp
  ultimately show ?case using Suc.prems [of a] Suc.hyps(2) by simp
qed simp

lemma init_free_chain:
  "free_chain (init_free_midi_event_chain s) [heap_top s ..< heap_top s + 256]"
  using lseg_upt [of "heap_top s" "heap_top s + 256" "next_in_chain (init_free_midi_event_chain s)"]
  by (simp add: free_chain_def init_free_midi_event_chain_def Let_def DEFAULT_MAX_FREE_CHAIN_def)

lemma pop_from_free_correct:
  assumes "free_chain s (x # xs)"
  shows "next_free_midi_event s = Some x" "free_chain (pop_from_free x s) xs" "chain (pop_from_free x s) (Some x) [x]"
  using assms by (auto simp: free_chain_def pop_from_free_def chain_def)

text \<open>Popping never fails: the node comes from the free chain, or from a new block.\<close>

lemma pop_next_free_midi_correct:
  assumes "free_chain s F" "\<forall>x \<in> set F. x < heap_top s" "pop_next_free_midi s = (p, s')"
  shows "\<exists>F'. free_chain s' F' \<and> chain s' (Some p) [p] \<and> p \<notin> set F' \<and> heap_top s \<le> heap_top s' \<and>
    (\<forall>x \<in> set F'. x < heap_top s') \<and> p < heap_top s' \<and>
    (p \<in> set F \<or> heap_top s \<le> p) \<and> set F' \<subseteq> set F \<union> {x. heap_top s \<le> x} \<and>
    (\<forall>x < heap_top s. x \<noteq> p \<longrightarrow> next_in_chain s' x = next_in_chain s x \<and> last_in_chain s' x = last_in_chain s x) \<and>
    event_data s' = event_data s"
proof (cases F)
  case Nil
  let ?i = "init_free_midi_event_chain s" and ?b = "heap_top s"
  have "next_free_midi_event s = None" using Nil assms(1) by (simp add: free_chain_def)
  then have p: "p = ?b" "s' = pop_from_free ?b ?i"
    using assms(3) by (auto simp: pop_next_free_midi_def Let_def init_free_midi_event_chain_def)
  have u: "[?b ..< ?b + 256] = ?b # [?b + 1 ..< ?b + 256]"
    using upt_conv_Cons [of ?b "?b + 256"] by simp
  note c = pop_from_free_correct [of ?i ?b "[?b + 1 ..< ?b + 256]", OF init_free_chain [of s, unfolded u]]
  have "next_in_chain s' x = next_in_chain s x \<and> last_in_chain s' x = last_in_chain s x" if "x < ?b" for x
    using that p by (auto simp: pop_from_free_def init_free_midi_event_chain_def Let_def)
  moreover have "heap_top s' = ?b + 257" "event_data s' = event_data s"
    using p by (simp_all add: pop_from_free_def init_free_midi_event_chain_def Let_def DEFAULT_MAX_FREE_CHAIN_def)
  ultimately show ?thesis
    using c(2,3) unfolding p(1) p(2) [symmetric]
    by (intro exI [of _ "[?b + 1 ..< ?b + 256]"] conjI; (assumption | force simp del: upt_rec_numeral))
next
  case (Cons x xs)
  have n: "next_free_midi_event s = Some x" using Cons assms(1) by (auto simp: free_chain_def)
  then have p: "p = x" "s' = pop_from_free x s"
    using assms(3) by (auto simp: pop_next_free_midi_def Let_def)
  have "x \<notin> set xs" using Cons assms(1) by (auto simp: free_chain_def)
  moreover have "heap_top s' = heap_top s" "event_data s' = event_data s"
    "\<forall>y. y \<noteq> x \<longrightarrow> next_in_chain s' y = next_in_chain s y \<and> last_in_chain s' y = last_in_chain s y"
    using p by (auto simp: pop_from_free_def)
  moreover have "free_chain s' xs" "chain s' (Some x) [x]"
    using pop_from_free_correct [of s x xs] assms(1) Cons p by auto
  moreover have "\<forall>y \<in> set (x # xs). y < heap_top s" using assms(2) Cons by simp
  ultimately show ?thesis
    unfolding p(1) Cons by (intro exI [of _ xs] conjI) (simp_all, blast)
qed

lemma push_next_free_midi_correct:
  assumes "free_chain s F" "e \<notin> set F"
  shows "free_chain (push_next_free_midi e s) (e # F)"
  using assms by (simp add: free_chain_def push_next_free_midi_def)

lemma get_chain_head_correct:
  assumes "chain s p (x # xs)" "get_chain_head p s = (r, q, s')"
  shows "r = Some x" "chain s' q xs" "chain s' (Some x) [x]"
    "\<forall>y. y \<notin> set (x # xs) \<longrightarrow> next_in_chain s' y = next_in_chain s y \<and> last_in_chain s' y = last_in_chain s y"
    "next_free_midi_event s' = next_free_midi_event s" "heap_top s' = heap_top s" "event_data s' = event_data s"
proof -
  have p: "p = Some x" using assms(1) by (auto simp: chain_def)
  have l: "lseg (next_in_chain s) (next_in_chain s x) xs None" "x \<notin> set xs"
    "last_in_chain s x = Some (last (x # xs))"
    using assms(1) by (auto simp: chain_def)
  show "r = Some x" "chain s' q xs" "chain s' (Some x) [x]"
    "\<forall>y. y \<notin> set (x # xs) \<longrightarrow> next_in_chain s' y = next_in_chain s y \<and> last_in_chain s' y = last_in_chain s y"
    "next_free_midi_event s' = next_free_midi_event s" "heap_top s' = heap_top s" "event_data s' = event_data s"
    using assms(2) p l by (cases xs; auto simp: chain_def Let_def split: option.splits)+
qed

lemma lseg_snoc_link:
  assumes "lseg nx p xs None" "xs \<noteq> []" "lseg nx (Some y) ys None" "set xs \<inter> set ys = {}"
  shows "lseg (nx(last xs := Some y)) p (xs @ ys) None"
  supply fun_upd_apply [simp del] fun_upd_same [simp] fun_upd_other [simp]
  using assms
proof (induction xs arbitrary: p)
  case (Cons x xs)
  show ?case
  proof (cases "xs = []")
    case True
    with Cons.prems show ?thesis by auto
  next
    case False
    then have "last xs \<noteq> x" using Cons.prems by (auto dest: last_in_set)
    with False Cons show ?thesis by auto
  qed
qed simp

lemma join_chains_correct:
  assumes "chain s d xs" "chain s q ys" "set xs \<inter> set ys = {}" "join_chains d q s = (d', q', s')"
  shows "chain s' d' (xs @ ys)" "q' = None"
    "\<forall>z. z \<notin> set xs \<longrightarrow> next_in_chain s' z = next_in_chain s z \<and> last_in_chain s' z = last_in_chain s z"
    "next_free_midi_event s' = next_free_midi_event s" "heap_top s' = heap_top s" "event_data s' = event_data s"
proof -
  have "chain s' d' (xs @ ys) \<and> q' = None \<and>
    (\<forall>z. z \<notin> set xs \<longrightarrow> next_in_chain s' z = next_in_chain s z \<and> last_in_chain s' z = last_in_chain s z) \<and>
    next_free_midi_event s' = next_free_midi_event s \<and> heap_top s' = heap_top s \<and> event_data s' = event_data s"
  proof (cases q)
    case None
    with assms show ?thesis by auto
  next
    case (Some y)
    then obtain ys' where ys: "ys = y # ys'" using assms(2) chain_Some_iff by blast
    show ?thesis
    proof (cases d)
      case None
      with Some assms show ?thesis by auto
    next
      case d: (Some x)
      then obtain xs' where xs: "xs = x # xs'" using assms(1) chain_Some_iff by blast
      have le: "last_in_chain s x = Some (last xs)" using assms(1) xs by (simp add: chain_def)
      have s': "d' = Some x" "q' = None" "s' = s \<lparr> next_in_chain := (next_in_chain s)(last xs := Some y),
          last_in_chain := (last_in_chain s)(x := last_in_chain s y) \<rparr>"
        using assms(4) Some d le by (simp_all add: Let_def)
      have "lseg ((next_in_chain s)(last xs := Some y)) (Some x) (xs @ ys) None"
        using assms(1-3) Some d xs by (intro lseg_snoc_link) (auto simp: chain_def)
      moreover have "last_in_chain s y = Some (last ys)" using assms(2) ys by (simp add: chain_def)
      ultimately have "chain s' d' (xs @ ys)" using s' xs ys by (simp add: chain_def)
      with s' xs show ?thesis by (auto simp: last_in_set)
    qed
  qed
  then show "chain s' d' (xs @ ys)" "q' = None"
    "\<forall>z. z \<notin> set xs \<longrightarrow> next_in_chain s' z = next_in_chain s z \<and> last_in_chain s' z = last_in_chain s z"
    "next_free_midi_event s' = next_free_midi_event s" "heap_top s' = heap_top s" "event_data s' = event_data s"
    by blast+
qed

lemma chain_to_tail_correct:
  assumes "chain s c xs" "chain s (Some e) [e]" "e \<notin> set xs" "chain_to_tail c e s = (c', s')"
  shows "chain s' c' (xs @ [e])"
    "\<forall>z. z \<notin> set xs \<longrightarrow> next_in_chain s' z = next_in_chain s z \<and> last_in_chain s' z = last_in_chain s z"
    "next_free_midi_event s' = next_free_midi_event s" "heap_top s' = heap_top s" "event_data s' = event_data s"
proof -
  obtain q' where j: "join_chains c (Some e) s = (c', q', s')"
    using assms(4) by (auto simp: chain_to_tail_def split: prod.splits)
  have "set xs \<inter> set [e] = {}" using assms(3) by simp
  from join_chains_correct [OF assms(1,2) this j] show "chain s' c' (xs @ [e])"
    "\<forall>z. z \<notin> set xs \<longrightarrow> next_in_chain s' z = next_in_chain s z \<and> last_in_chain s' z = last_in_chain s z"
    "next_free_midi_event s' = next_free_midi_event s" "heap_top s' = heap_top s" "event_data s' = event_data s"
    by blast+
qed

end
