(* ===== verification/Midi_Builder.thy ===== *)
theory Midi_Builder
  imports Midi_Chain Std_Map
begin

text \<open>
  \<open>MidiEventBuilder\<close> (midi_generation.cc): events are queued while an output buffer is in use;
  those that do not fit wait in a chain and are written first into the next buffer. The model
  works on the node store of \<open>Midi_Chain\<close>; \<open>binv\<close> relates it to the lists of waiting and
  delivered nodes.

  \<open>PadMidiExportBuilder\<close> (midi_generation.hh) is the second implementation of the same
  interface, which turns the calls into notes. \<open>midi_call\<close> names the virtual methods, so that a
  generator can be run against either.
\<close>

datatype midi_call =
    NoteOn int int int
  | NoteOff int int int
  | Ctrl int int int
  | PitchBend int int int

definition MIDI_NOTE_OFF :: int where "MIDI_NOTE_OFF = 0x80"
definition MIDI_NOTE_ON :: int where "MIDI_NOTE_ON = 0x90"
definition MIDI_CONTROL_CHANGE :: int where "MIDI_CONTROL_CHANGE = 0xb0"
definition MIDI_PITCH_BEND :: int where "MIDI_PITCH_BEND = 0xe0"

text \<open>Controller numbers beyond the coarse controllers (\<open>Machine::Controller\<close>).\<close>

definition sc_special_first :: int where "sc_special_first = 1024"
definition sc_pitch_bend :: int where "sc_pitch_bend = 1024"

definition midi_data_3 :: "int \<Rightarrow> int \<Rightarrow> int \<Rightarrow> midi_event" where
  "midi_data_3 a b c = [word_of_int a, word_of_int b, word_of_int c]"

fun midi_bytes :: "midi_call \<Rightarrow> midi_event" where
  "midi_bytes (NoteOn note velocity channel) = midi_data_3 (MIDI_NOTE_ON OR (channel AND 0x0f)) note velocity"
| "midi_bytes (NoteOff note velocity channel) = midi_data_3 (MIDI_NOTE_OFF OR (channel AND 0x0f)) note velocity"
| "midi_bytes (Ctrl controller value channel) = midi_data_3 (MIDI_CONTROL_CHANGE OR (channel AND 0x0f)) controller value"
| "midi_bytes (PitchBend value_lsb value_msb channel) = midi_data_3 (MIDI_PITCH_BEND OR (channel AND 0x0f)) value_lsb value_msb"

section \<open>The builder\<close>

record midi_builder =
  buffer :: "ptr option list"
  buffer_size :: int
  buffer_position :: int
  buffer_p_last_skip :: int
  remaining_midi_chain :: "ptr option"
  freeable_midi_chain :: "ptr option"

type_synonym builder_state = "midi_store \<times> midi_builder"

definition new_builder :: midi_builder where
  "new_builder = \<lparr> buffer = [], buffer_size = 0, buffer_position = 1, buffer_p_last_skip = 0,
     remaining_midi_chain = None, freeable_midi_chain = None \<rparr>"

definition write_slot :: "ptr \<Rightarrow> builder_state \<Rightarrow> builder_state" where
  "write_slot mev sb =
     (case sb of (s, b) \<Rightarrow>
        case chain_to_tail (freeable_midi_chain b) mev s of (c, s') \<Rightarrow>
          (s', b \<lparr> buffer := (buffer b)[nat (buffer_position b) := Some mev],
                   buffer_position := buffer_position b + 1, freeable_midi_chain := c \<rparr>))"

definition chain_event :: "ptr \<Rightarrow> builder_state \<Rightarrow> builder_state" where
  "chain_event mev sb =
     (case sb of (s, b) \<Rightarrow>
        if buffer_size b \<le> buffer_position b
        then (case chain_to_tail (remaining_midi_chain b) mev s of (c, s') \<Rightarrow>
                (s', b \<lparr> remaining_midi_chain := c \<rparr>))
        else write_slot mev (s, b))"

partial_function (option) free_loop :: "ptr option \<Rightarrow> midi_store \<Rightarrow> midi_store option" where
  "free_loop q s =
     (case q of
        None \<Rightarrow> Some s
      | Some _ \<Rightarrow> (case get_chain_head q s of (mev, q', s1) \<Rightarrow> free_loop q' (push_next_free_midi (the mev) s1)))"

definition process_freeable_chain :: "builder_state \<Rightarrow> builder_state option" where
  "process_freeable_chain sb =
     (case sb of (s, b) \<Rightarrow>
        Option.bind (free_loop (freeable_midi_chain b) s) (\<lambda>s'. Some (s', b \<lparr> freeable_midi_chain := None \<rparr>)))"

function process_remaining_chain :: "builder_state \<Rightarrow> builder_state" where
  "process_remaining_chain (s, b) =
     (if buffer_position b < buffer_size b \<and> remaining_midi_chain b \<noteq> None
      then (case get_chain_head (remaining_midi_chain b) s of (mev, q', s1) \<Rightarrow>
              process_remaining_chain (write_slot (the mev) (s1, b \<lparr> remaining_midi_chain := q' \<rparr>)))
      else (s, b))"
  by pat_completeness auto
termination
  by (relation "measure (\<lambda>(s, b). nat (buffer_size b - buffer_position b))")
    (auto simp: write_slot_def split: prod.splits)

declare process_remaining_chain.simps [simp del]

text \<open>A buffer handed over is empty: the caller has cleared its slots.\<close>

definition use_buffer :: "nat \<Rightarrow> builder_state \<Rightarrow> builder_state" where
  "use_buffer n sb =
     (case sb of (s, b) \<Rightarrow>
        process_remaining_chain (s, b \<lparr> buffer := replicate n None, buffer_size := int n,
          buffer_position := 0, buffer_p_last_skip := 0 \<rparr>))"

definition finish_current_buffer :: "builder_state \<Rightarrow> builder_state option" where
  "finish_current_buffer sb =
     (case sb of (s, b) \<Rightarrow>
        process_freeable_chain (s, b \<lparr> buffer := [], buffer_size := 0, buffer_position := 1 \<rparr>))"

definition skip :: "int \<Rightarrow> midi_builder \<Rightarrow> bool \<times> midi_builder" where
  "skip skip_length b =
     (let ls = buffer_p_last_skip b + skip_length;
          pos = (if buffer_position b < ls then ls else buffer_position b)
      in (pos < buffer_size b, b \<lparr> buffer_p_last_skip := ls, buffer_position := pos \<rparr>))"

text \<open>The four \<open>queue_\<close> methods: take a node, fill it in, chain it.\<close>

definition queue_call :: "midi_call \<Rightarrow> builder_state \<Rightarrow> builder_state" where
  "queue_call c sb =
     (case sb of (s, b) \<Rightarrow>
        case pop_next_free_midi s of (mev, s1) \<Rightarrow>
          chain_event mev (s1 \<lparr> event_data := (event_data s1)(mev := midi_bytes c) \<rparr>, b))"

text \<open>\<open>queue_midi_data\<close>: the calls a run of raw MIDI bytes stands for. Reading behind the data is an
  error; an unknown status byte ends the loop.\<close>

fun midi_data_calls :: "8 word list \<Rightarrow> (unit, midi_call list) result" where
  "midi_data_calls [] = Inr []"
| "midi_data_calls (st # rest) =
     (let k = uint (st AND 0xf0); ch = uint (st AND 0x0f) in
      if k = MIDI_NOTE_OFF \<or> k = MIDI_NOTE_ON \<or> k = MIDI_CONTROL_CHANGE \<or> k = MIDI_PITCH_BEND
      then (case rest of
              d1 # d2 # rest' \<Rightarrow>
                rbind (midi_data_calls rest') (\<lambda>cs. Inr (
                  (if k = MIDI_NOTE_OFF then NoteOff (sint d1) (sint d2) ch
                   else if k = MIDI_NOTE_ON then NoteOn (sint d1) (sint d2) ch
                   else if k = MIDI_CONTROL_CHANGE then Ctrl (sint d1) (sint d2) ch
                   else PitchBend (sint d1) (sint d2) ch) # cs))
            | _ \<Rightarrow> Inl ())
      else Inr [])"

section \<open>Invariant\<close>

definition entries :: "ptr option list \<Rightarrow> ptr list" where
  "entries xs = List.map_filter id xs"

lemma entries_simps [simp]:
  "entries [] = []" "entries (None # xs) = entries xs" "entries (Some p # xs) = p # entries xs"
  "entries (replicate n None) = []" "entries (xs @ ys) = entries xs @ entries ys"
  by (simp_all add: entries_def map_filter_def)

lemma entries_update:
  "i < length xs \<Longrightarrow> \<forall>j. i \<le> j \<and> j < length xs \<longrightarrow> xs ! j = None \<Longrightarrow> entries (xs[i := Some p]) = entries xs @ [p]"
proof -
  assume i: "i < length xs" and none: "\<forall>j. i \<le> j \<and> j < length xs \<longrightarrow> xs ! j = None"
  have d: "drop (Suc i) xs = replicate (length xs - Suc i) None"
    using i none by (intro nth_equalityI) auto
  have n: "xs ! i = None" using i none by simp
  have "entries (xs[i := Some p]) = entries (take i xs) @ [p]"
    using i d by (simp add: upd_conv_take_nth_drop)
  moreover have "entries xs = entries (take i xs)"
    using d n by (subst id_take_nth_drop [OF i]) simp
  ultimately show ?thesis by simp
qed

definition binv :: "builder_state \<Rightarrow> ptr list \<Rightarrow> ptr list \<Rightarrow> ptr list \<Rightarrow> bool" where
  "binv sb F R L \<longleftrightarrow>
     (case sb of (s, b) \<Rightarrow>
        free_chain s F \<and> chain s (remaining_midi_chain b) R \<and> chain s (freeable_midi_chain b) L \<and>
        set F \<inter> set R = {} \<and> set F \<inter> set L = {} \<and> set R \<inter> set L = {} \<and>
        (\<forall>x \<in> set F \<union> set R \<union> set L. x < heap_top s) \<and>
        set (entries (buffer b)) \<subseteq> set L \<and>
        length (buffer b) = nat (buffer_size b) \<and> 0 \<le> buffer_position b \<and> 0 \<le> buffer_size b \<and>
        (\<forall>j. nat (buffer_position b) \<le> j \<and> j < length (buffer b) \<longrightarrow> buffer b ! j = None) \<and>
        (R \<noteq> [] \<longrightarrow> buffer_size b \<le> buffer_position b))"

lemma binvD:
  assumes "binv (s, b) F R L"
  shows "free_chain s F" "chain s (remaining_midi_chain b) R" "chain s (freeable_midi_chain b) L"
    "set F \<inter> set R = {}" "set F \<inter> set L = {}" "set R \<inter> set L = {}"
    "\<forall>x \<in> set F \<union> set R \<union> set L. x < heap_top s"
    "set (entries (buffer b)) \<subseteq> set L" "length (buffer b) = nat (buffer_size b)"
    "0 \<le> buffer_position b" "0 \<le> buffer_size b"
    "\<forall>j. nat (buffer_position b) \<le> j \<and> j < length (buffer b) \<longrightarrow> buffer b ! j = None"
    "R \<noteq> [] \<longrightarrow> buffer_size b \<le> buffer_position b"
  using assms by (simp_all add: binv_def)

text \<open>A single node that belongs to no chain is appended to one of them.\<close>

definition loose :: "midi_store \<Rightarrow> ptr \<Rightarrow> ptr list \<Rightarrow> ptr list \<Rightarrow> ptr list \<Rightarrow> bool" where
  "loose s p F R L \<longleftrightarrow> chain s (Some p) [p] \<and> p \<notin> set F \<and> p \<notin> set R \<and> p \<notin> set L \<and> p < heap_top s"

text \<open>All of the invariant but the rule that waiting events mean a full buffer.\<close>

definition binv_slots :: "builder_state \<Rightarrow> ptr list \<Rightarrow> ptr list \<Rightarrow> ptr list \<Rightarrow> bool" where
  "binv_slots sb F R L \<longleftrightarrow>
     (case sb of (s, b) \<Rightarrow>
        free_chain s F \<and> chain s (remaining_midi_chain b) R \<and> chain s (freeable_midi_chain b) L \<and>
        set F \<inter> set R = {} \<and> set F \<inter> set L = {} \<and> set R \<inter> set L = {} \<and>
        (\<forall>x \<in> set F \<union> set R \<union> set L. x < heap_top s) \<and>
        set (entries (buffer b)) \<subseteq> set L \<and>
        length (buffer b) = nat (buffer_size b) \<and> 0 \<le> buffer_position b \<and> 0 \<le> buffer_size b \<and>
        (\<forall>j. nat (buffer_position b) \<le> j \<and> j < length (buffer b) \<longrightarrow> buffer b ! j = None))"

lemma binv_iff: "binv (s, b) F R L \<longleftrightarrow> binv_slots (s, b) F R L \<and> (R \<noteq> [] \<longrightarrow> buffer_size b \<le> buffer_position b)"
  by (auto simp: binv_def binv_slots_def)

lemma write_slot_binv:
  assumes "binv_slots (s, b) F R L" "loose s p F R L" "buffer_position b < buffer_size b"
  shows "\<exists>s' b'. write_slot p (s, b) = (s', b') \<and> binv_slots (s', b') F R (L @ [p]) \<and>
    entries (buffer b') = entries (buffer b) @ [p] \<and> event_data s' = event_data s \<and>
    buffer_position b' = buffer_position b + 1 \<and> buffer_size b' = buffer_size b \<and>
    remaining_midi_chain b' = remaining_midi_chain b"
proof -
  note i = assms(1) [unfolded binv_slots_def prod.case]
  obtain c s' where t: "chain_to_tail (freeable_midi_chain b) p s = (c, s')" by fastforce
  have l: "chain s (Some p) [p]" "p \<notin> set L" "p \<notin> set F" "p \<notin> set R" "p < heap_top s"
    using assms(2) by (auto simp: loose_def)
  have L: "chain s (freeable_midi_chain b) L" using i by simp
  note tail = chain_to_tail_correct [OF L l(1,2) t]
  have F: "free_chain s' F" by (rule free_chain_frame [of s]) (use i tail in auto)
  have R: "chain s' (remaining_midi_chain b) R" by (rule chain_frame [of s]) (use i tail in auto)
  have pos: "nat (buffer_position b) < length (buffer b)" using i assms(3) by auto
  have e: "entries ((buffer b)[nat (buffer_position b) := Some p]) = entries (buffer b) @ [p]"
    using i pos by (intro entries_update) auto
  have none: "\<forall>j. nat (buffer_position b + 1) \<le> j \<and> j < length (buffer b) \<longrightarrow>
      (buffer b)[nat (buffer_position b) := Some p] ! j = None"
    using i by (auto simp: nat_le_iff)
  let ?b' = "b \<lparr> buffer := (buffer b)[nat (buffer_position b) := Some p],
      buffer_position := buffer_position b + 1, freeable_midi_chain := c \<rparr>"
  have "binv_slots (s', ?b') F R (L @ [p])"
    unfolding binv_slots_def prod.case using F R tail(1,4) i l none e by auto
  moreover have "write_slot p (s, b) = (s', ?b')" using t by (simp add: write_slot_def)
  ultimately show ?thesis using e tail(5) by auto
qed

lemma chain_event_binv:
  assumes "binv (s, b) F R L" "loose s p F R L" "chain_event p (s, b) = (s', b')"
  shows "\<exists>R' L'. binv (s', b') F R' L' \<and> event_data s' = event_data s \<and>
    entries (buffer b') @ R' = entries (buffer b) @ R @ [p]"
proof (cases "buffer_size b \<le> buffer_position b")
  case True
  note i = binvD [OF assms(1)]
  obtain c where t: "chain_to_tail (remaining_midi_chain b) p s = (c, s')" and b': "b' = b \<lparr> remaining_midi_chain := c \<rparr>"
    using True assms(3) by (auto simp: chain_event_def split: prod.splits)
  have l: "chain s (Some p) [p]" "p \<notin> set R" "p \<notin> set F" "p \<notin> set L" "p < heap_top s"
    using assms(2) by (auto simp: loose_def)
  note tail = chain_to_tail_correct [OF i(2) l(1,2) t]
  have "free_chain s' F" by (rule free_chain_frame [of s]) (use i tail in auto)
  moreover have "chain s' (freeable_midi_chain b) L" by (rule chain_frame [of s]) (use i tail in auto)
  ultimately have "binv (s', b') F (R @ [p]) L"
    unfolding binv_def prod.case using tail(1,4) i l True b' by auto
  moreover have "entries (buffer b') @ (R @ [p]) = entries (buffer b) @ R @ [p]" using b' by simp
  ultimately show ?thesis using tail(5) by blast
next
  case False
  then have "R = []" "chain_event p (s, b) = write_slot p (s, b)"
    using binvD(13) [OF assms(1)] by (auto simp: chain_event_def)
  moreover obtain s'' b'' where "write_slot p (s, b) = (s'', b'')" "binv_slots (s'', b'') F R (L @ [p])"
    "entries (buffer b'') = entries (buffer b) @ [p]" "event_data s'' = event_data s"
    using write_slot_binv [of s b F R L p] assms False by (auto simp: binv_iff)
  ultimately show ?thesis using assms(3) by (auto simp: binv_iff)
qed

lemma process_remaining_binv:
  assumes "binv_slots (s, b) F R L" "process_remaining_chain (s, b) = (s', b')"
  shows "\<exists>R' L'. binv (s', b') F R' L' \<and> event_data s' = event_data s \<and>
    entries (buffer b') @ R' = entries (buffer b) @ R"
  using assms
proof (induction R arbitrary: s b L)
  case Nil
  then have "(s', b') = (s, b)" by (auto simp: process_remaining_chain.simps binv_slots_def)
  with Nil show ?case by (auto simp: binv_iff)
next
  case (Cons p R)
  note i = Cons.prems(1) [unfolded binv_slots_def prod.case]
  show ?case
  proof (cases "buffer_position b < buffer_size b")
    case False
    then have "(s', b') = (s, b)" using Cons.prems(2) by (simp add: process_remaining_chain.simps)
    with Cons.prems False show ?thesis by (auto simp: binv_iff)
  next
    case True
    have R: "chain s (remaining_midi_chain b) (p # R)" using i by simp
    obtain mev q s1 where g: "get_chain_head (remaining_midi_chain b) s = (mev, q, s1)"
      by (cases "get_chain_head (remaining_midi_chain b) s") auto
    note h = get_chain_head_correct [OF R g]
    have pR: "p \<notin> set R" using chain_distinct [OF R] by simp
    have "free_chain s1 F" by (rule free_chain_frame [of s]) (use i h in auto)
    moreover have "chain s1 (freeable_midi_chain b) L" by (rule chain_frame [of s]) (use i h in auto)
    ultimately have "binv_slots (s1, b \<lparr> remaining_midi_chain := q \<rparr>) F R L" "loose s1 p F R L"
      using i h pR by (auto simp: binv_slots_def loose_def)
    from write_slot_binv [OF this] True obtain s2 b2 where
      w: "write_slot p (s1, b \<lparr> remaining_midi_chain := q \<rparr>) = (s2, b2)" "binv_slots (s2, b2) F R (L @ [p])"
        "entries (buffer b2) = entries (buffer b) @ [p]" "event_data s2 = event_data s1"
      by auto
    have "remaining_midi_chain b \<noteq> None" using chain_Cons_head [OF R] by simp
    then have "process_remaining_chain (s, b) = process_remaining_chain (s2, b2)"
      using True g h(1) w(1) by (subst process_remaining_chain.simps) simp
    with Cons.IH [OF w(2)] Cons.prems(2) w h(7) show ?thesis by auto
  qed
qed

lemma free_loop_correct:
  assumes "chain s q L" "free_chain s F" "set F \<inter> set L = {}"
  shows "\<exists>s'. free_loop q s = Some s' \<and> free_chain s' (rev L @ F) \<and>
    (\<forall>x. x \<notin> set L \<longrightarrow> next_in_chain s' x = next_in_chain s x \<and> last_in_chain s' x = last_in_chain s x) \<and>
    heap_top s' = heap_top s \<and> event_data s' = event_data s"
  using assms
proof (induction L arbitrary: s q F)
  case Nil
  then show ?case by (auto simp: chain_def free_loop.simps)
next
  case (Cons p L)
  obtain mev q' s1 where g: "get_chain_head q s = (mev, q', s1)"
    by (cases "get_chain_head q s") auto
  note h = get_chain_head_correct [OF Cons.prems(1) g]
  let ?s2 = "push_next_free_midi p s1"
  have pL: "p \<notin> set L" using chain_distinct [OF Cons.prems(1)] by simp
  have "free_chain s1 F" by (rule free_chain_frame [of s]) (use Cons.prems h in auto)
  then have F: "free_chain ?s2 (p # F)" using Cons.prems by (intro push_next_free_midi_correct) auto
  have L: "chain ?s2 q' L" by (rule chain_frame [of s1]) (use h pL in \<open>auto simp: push_next_free_midi_def\<close>)
  have "set (p # F) \<inter> set L = {}" using Cons.prems pL by auto
  from Cons.IH [OF L F this] obtain s' where
    s': "free_loop q' ?s2 = Some s'" "free_chain s' (rev L @ p # F)"
      "\<forall>x. x \<notin> set L \<longrightarrow> next_in_chain s' x = next_in_chain ?s2 x \<and> last_in_chain s' x = last_in_chain ?s2 x"
      "heap_top s' = heap_top ?s2" "event_data s' = event_data ?s2" by auto
  have "q \<noteq> None" using chain_Cons_head [OF Cons.prems(1)] by simp
  then have "free_loop q s = Some s'"
    using g h(1) s'(1) by (subst free_loop.simps) auto
  with s' h show ?case by (auto simp: push_next_free_midi_def)
qed

lemma queue_call_binv:
  assumes "binv (s, b) F R L" "queue_call c (s, b) = (s', b')"
  shows "\<exists>F' R' L'. binv (s', b') F' R' L' \<and>
    map (event_data s') (entries (buffer b') @ R') =
      map (event_data s) (entries (buffer b) @ R) @ [midi_bytes c]"
proof -
  note i = binvD [OF assms(1)]
  obtain p s1 where pop: "pop_next_free_midi s = (p, s1)" by fastforce
  have lt: "\<forall>x \<in> set F. x < heap_top s" using i(7) by auto
  obtain F' where F': "free_chain s1 F'" "chain s1 (Some p) [p]" "p \<notin> set F'" "heap_top s \<le> heap_top s1"
    "\<forall>x \<in> set F'. x < heap_top s1" "p < heap_top s1" "p \<in> set F \<or> heap_top s \<le> p"
    "set F' \<subseteq> set F \<union> {x. heap_top s \<le> x}"
    "\<forall>x < heap_top s. x \<noteq> p \<longrightarrow> next_in_chain s1 x = next_in_chain s x \<and> last_in_chain s1 x = last_in_chain s x"
    "event_data s1 = event_data s"
    using pop_next_free_midi_correct [OF i(1) lt pop] by blast
  let ?s2 = "s1 \<lparr> event_data := (event_data s1)(p := midi_bytes c) \<rparr>"
  have below: "x < heap_top s" if "x \<in> set R \<union> set L" for x using i(7) that by blast
  have pnot: "p \<notin> set R \<union> set L"
  proof
    assume p: "p \<in> set R \<union> set L"
    with F'(7) below [of p] have "p \<in> set F" by simp
    with p i(4,5) show False by blast
  qed
  have fr: "next_in_chain ?s2 x = next_in_chain s x \<and> last_in_chain ?s2 x = last_in_chain s x"
    if "x \<in> set R \<union> set L" for x
  proof -
    have "x \<noteq> p" using that pnot by blast
    with F'(9) below [OF that] show ?thesis by simp
  qed
  have R: "chain ?s2 (remaining_midi_chain b) R" by (rule chain_frame [OF i(2)]) (use fr in blast)+
  have L: "chain ?s2 (freeable_midi_chain b) L" by (rule chain_frame [OF i(3)]) (use fr in blast)+
  have disj: "set F' \<inter> (set R \<union> set L) = {}"
  proof -
    have "x \<notin> set F'" if "x \<in> set R \<union> set L" for x
    proof
      assume "x \<in> set F'"
      with F'(8) below [OF that] have "x \<in> set F" by auto
      with that i(4,5) show False by blast
    qed
    then show ?thesis by blast
  qed
  then have disj: "set F' \<inter> set R = {}" "set F' \<inter> set L = {}" by blast+
  have top: "\<forall>x \<in> set F' \<union> set R \<union> set L. x < heap_top s1"
  proof
    fix x assume "x \<in> set F' \<union> set R \<union> set L"
    then consider "x \<in> set F'" | "x \<in> set R \<union> set L" by blast
    then show "x < heap_top s1"
      using F'(4,5) below [of x] by cases auto
  qed
  have "free_chain ?s2 F'" by (rule free_chain_frame [OF F'(1)]) simp_all
  then have b2: "binv (?s2, b) F' R L"
    unfolding binv_def prod.case using R L disj top i by simp
  have "chain ?s2 (Some p) [p]" by (rule chain_frame [OF F'(2)]) simp_all
  then have "loose ?s2 p F' R L" using F'(3,6) pnot by (simp add: loose_def)
  from chain_event_binv [OF b2 this] assms(2) pop obtain R' L' where
    e: "binv (s', b') F' R' L'" "event_data s' = event_data ?s2" "entries (buffer b') @ R' = entries (buffer b) @ R @ [p]"
    by (auto simp: queue_call_def)
  have "map (event_data ?s2) (entries (buffer b) @ R) = map (event_data s) (entries (buffer b) @ R)"
    using pnot i(8) F'(10) by auto
  then have "map (event_data s') (entries (buffer b') @ R') =
      map (event_data s) (entries (buffer b) @ R) @ [midi_bytes c]"
    unfolding e(2,3) by simp
  with e(1) show ?thesis by blast
qed

lemma use_buffer_binv:
  assumes "binv (s, b) F R L" "use_buffer n (s, b) = (s', b')"
  shows "\<exists>R' L'. binv (s', b') F R' L' \<and> event_data s' = event_data s \<and> entries (buffer b') @ R' = R"
proof -
  let ?b = "b \<lparr> buffer := replicate n None, buffer_size := int n, buffer_position := 0, buffer_p_last_skip := 0 \<rparr>"
  have "binv_slots (s, ?b) F R L"
    using binvD [OF assms(1)] by (simp add: binv_slots_def)
  from process_remaining_binv [OF this] assms(2) show ?thesis by (simp add: use_buffer_def)
qed

lemma finish_current_buffer_binv:
  assumes "binv (s, b) F R L"
  shows "\<exists>s' b'. finish_current_buffer (s, b) = Some (s', b') \<and> binv (s', b') (rev L @ F) R [] \<and>
    event_data s' = event_data s \<and> buffer b' = []"
proof -
  note i = binvD [OF assms]
  obtain s' where s': "free_loop (freeable_midi_chain b) s = Some s'" "free_chain s' (rev L @ F)"
    "\<forall>x. x \<notin> set L \<longrightarrow> next_in_chain s' x = next_in_chain s x \<and> last_in_chain s' x = last_in_chain s x"
    "heap_top s' = heap_top s" "event_data s' = event_data s"
    using free_loop_correct [OF i(3,1,5)] by blast
  have "chain s' (remaining_midi_chain b) R"
    by (rule chain_frame [OF i(2)]) (use s'(3) i(6) in auto)
  then show ?thesis
    using s' i by (auto simp: finish_current_buffer_def process_freeable_chain_def binv_def)
qed

lemma skip_binv:
  assumes "binv (s, b) F R L" "0 \<le> k" "skip k b = (r, b')"
  shows "binv (s, b') F R L \<and> buffer b' = buffer b"
proof -
  have b': "b' = b \<lparr> buffer_p_last_skip := buffer_p_last_skip b + k,
      buffer_position := (if buffer_position b < buffer_p_last_skip b + k then buffer_p_last_skip b + k else buffer_position b) \<rparr>"
    using assms(3) by (simp add: skip_def Let_def)
  have "nat (buffer_position b) \<le> nat (buffer_position b')" "buffer_position b \<le> buffer_position b'"
    using b' by auto
  then show ?thesis
    using binvD [OF assms(1)] b' by (auto simp: binv_def)
qed

section \<open>Traces\<close>

datatype builder_op = Queue midi_call | UseBuffer nat | Finish | Skip nat

text \<open>The events the reader of the output has got so far are those of the buffers given back.\<close>

fun builder_step :: "builder_op \<Rightarrow> midi_event list \<times> builder_state \<Rightarrow> (midi_event list \<times> builder_state) option" where
  "builder_step (Queue c) (out, sb) = Some (out, queue_call c sb)"
| "builder_step (UseBuffer n) (out, (s, b)) =
     Some (out @ map (event_data s) (entries (buffer b)), use_buffer n (s, b))"
| "builder_step Finish (out, (s, b)) =
     map_option (\<lambda>sb. (out @ map (event_data s) (entries (buffer b)), sb)) (finish_current_buffer (s, b))"
| "builder_step (Skip n) (out, (s, b)) = Some (out, (s, snd (skip (int n) b)))"

fun builder_run :: "builder_op list \<Rightarrow> midi_event list \<times> builder_state \<Rightarrow> (midi_event list \<times> builder_state) option" where
  "builder_run [] st = Some st"
| "builder_run (x # xs) st = Option.bind (builder_step x st) (builder_run xs)"

fun queued :: "builder_op list \<Rightarrow> midi_event list" where
  "queued [] = []"
| "queued (Queue c # xs) = midi_bytes c # queued xs"
| "queued (_ # xs) = queued xs"

definition fifo_inv :: "midi_event list \<times> builder_state \<Rightarrow> midi_event list \<Rightarrow> bool" where
  "fifo_inv st qs \<longleftrightarrow>
     (case st of (out, (s, b)) \<Rightarrow>
        \<exists>F R L. binv (s, b) F R L \<and> out @ map (event_data s) (entries (buffer b) @ R) = qs)"

lemma builder_step_fifo [vk_inv]:
  assumes "fifo_inv st qs"
  shows "\<exists>st'. builder_step x st = Some st' \<and> fifo_inv st' (qs @ queued [x])"
proof -
  obtain out s b where st: "st = (out, (s, b))" by (cases st) auto
  obtain F R L where i: "binv (s, b) F R L" "out @ map (event_data s) (entries (buffer b) @ R) = qs"
    using assms st by (auto simp: fifo_inv_def)
  show ?thesis
  proof (cases x)
    case (Queue c)
    obtain s' b' where q: "queue_call c (s, b) = (s', b')" by fastforce
    then obtain F' R' L' where "binv (s', b') F' R' L'"
      "map (event_data s') (entries (buffer b') @ R') = map (event_data s) (entries (buffer b) @ R) @ [midi_bytes c]"
      using queue_call_binv [OF i(1) q] by blast
    then have "fifo_inv (out, (s', b')) (qs @ [midi_bytes c])"
      unfolding fifo_inv_def prod.case using i(2) by (intro exI conjI) auto
    with Queue q st show ?thesis by simp
  next
    case (UseBuffer n)
    obtain s' b' where q: "use_buffer n (s, b) = (s', b')" by fastforce
    then obtain R' L' where "binv (s', b') F R' L'" "event_data s' = event_data s" "entries (buffer b') @ R' = R"
      using use_buffer_binv [OF i(1) q] by blast
    then have "fifo_inv (out @ map (event_data s) (entries (buffer b)), (s', b')) qs"
      unfolding fifo_inv_def prod.case using i(2) by (intro exI conjI) auto
    with UseBuffer q st show ?thesis by simp
  next
    case Finish
    obtain s' b' where q: "finish_current_buffer (s, b) = Some (s', b')" "binv (s', b') (rev L @ F) R []"
      "event_data s' = event_data s" "buffer b' = []"
      using finish_current_buffer_binv [OF i(1)] by blast
    then have "fifo_inv (out @ map (event_data s) (entries (buffer b)), (s', b')) qs"
      unfolding fifo_inv_def prod.case using i(2) by (intro exI conjI) auto
    with Finish q st show ?thesis by simp
  next
    case (Skip n)
    obtain r b' where "skip (int n) b = (r, b')" by fastforce
    with skip_binv [OF i(1), of "int n"] i(2) Skip st show ?thesis
      by (auto simp: fifo_inv_def)
  qed
qed

lemma queued_append: "queued (xs @ ys) = queued xs @ queued ys"
  by (induction xs rule: queued.induct) auto

lemma builder_run_fifo:
  "fifo_inv st qs \<Longrightarrow> \<exists>st'. builder_run xs st = Some st' \<and> fifo_inv st' (qs @ queued xs)"
proof (induction xs arbitrary: st qs)
  case (Cons x xs)
  obtain st1 where s1: "builder_step x st = Some st1" "fifo_inv st1 (qs @ queued [x])"
    using builder_step_fifo [OF Cons.prems] by blast
  from Cons.IH [OF s1(2)] s1(1) queued_append [of "[x]" xs] show ?case by auto
qed simp

section \<open>PadMidiExportBuilder\<close>

record export_note =
  en_channel :: int
  en_program :: int
  en_velocity :: int
  en_note :: int
  en_on_at :: int
  en_length :: int

text \<open>\<open>exported\<close> holds the notes handed to \<open>finalize_note\<close>, in order.\<close>

record export_builder =
  active_notes :: "(int, export_note) smap"
  exported :: "export_note list"
  export_tick :: int
  current_tick :: int

definition new_export_builder :: "int \<Rightarrow> export_builder" where
  "new_export_builder start_tick =
     \<lparr> active_notes = [], exported = [], export_tick = 0, current_tick = start_tick \<rparr>"

fun export_call :: "midi_call \<Rightarrow> export_builder \<Rightarrow> export_builder" where
  "export_call (NoteOn note velocity channel) x =
     (case map_find note (active_notes x) of
        None \<Rightarrow> x \<lparr> active_notes := map_set note
          \<lparr> en_channel = channel, en_program = 0, en_velocity = velocity, en_note = note,
             en_on_at = export_tick x, en_length = 0 \<rparr> (active_notes x) \<rparr>
      | Some _ \<Rightarrow> x)"
| "export_call (NoteOff note velocity channel) x =
     (case map_find note (active_notes x) of
        Some n \<Rightarrow> x \<lparr> exported := exported x @ [n \<lparr> en_length := export_tick x - en_on_at n \<rparr>],
                      active_notes := map_erase note (active_notes x) \<rparr>
      | None \<Rightarrow> x)"
| "export_call (Ctrl controller value channel) x = x"
| "export_call (PitchBend value_lsb value_msb channel) x = x"

definition step_tick :: "export_builder \<Rightarrow> export_builder" where
  "step_tick x = x \<lparr> current_tick := current_tick x + 1, export_tick := export_tick x + 1 \<rparr>"

definition note_end :: "export_note \<Rightarrow> int" where
  "note_end n = en_on_at n + en_length n"

text \<open>Notes are well formed, and no two of the same pitch sound together.\<close>

definition export_inv :: "export_builder \<Rightarrow> bool" where
  "export_inv x \<longleftrightarrow> map_ok (active_notes x) \<and>
     (\<forall>(k, n) \<in> set (active_notes x). en_note n = k \<and> en_on_at n \<le> export_tick x) \<and>
     (\<forall>n \<in> set (exported x). 0 \<le> en_length n \<and> note_end n \<le> export_tick x) \<and>
     (\<forall>n \<in> set (exported x). \<forall>(k, a) \<in> set (active_notes x). k = en_note n \<longrightarrow> note_end n \<le> en_on_at a) \<and>
     sorted_wrt (\<lambda>m n. en_note m = en_note n \<longrightarrow> note_end m \<le> en_on_at n) (exported x)"

lemma map_erase_set: "set (map_erase k m) = {p \<in> set m. fst p \<noteq> k}"
  by (auto simp: map_erase_def)

lemma export_call_inv [vk_inv]:
  assumes "export_inv x"
  shows "export_inv (export_call c x)"
proof (cases c)
  case (NoteOn pitch velocity channel)
  show ?thesis
  proof (cases "map_find pitch (active_notes x)")
    case None
    with assms NoteOn show ?thesis
      by (auto simp: export_inv_def map_set_set)
  qed (use assms NoteOn in simp)
next
  case (NoteOff pitch velocity channel)
  show ?thesis
  proof (cases "map_find pitch (active_notes x)")
    case (Some n)
    have mem: "(pitch, n) \<in> set (active_notes x)"
      using Some assms by (simp add: export_inv_def map_find_iff)
    then have "en_note n = pitch" "en_on_at n \<le> export_tick x"
      "\<forall>m \<in> set (exported x). en_note m = pitch \<longrightarrow> note_end m \<le> en_on_at n"
      using assms by (auto simp: export_inv_def)
    then show ?thesis
      using assms NoteOff Some
      by (auto simp: export_inv_def map_erase_set sorted_wrt_append note_end_def)
  qed (use assms NoteOff in simp)
qed (use assms in simp_all)

lemma step_tick_inv [vk_inv]: "export_inv x \<Longrightarrow> export_inv (step_tick x)"
  by (fastforce simp: export_inv_def step_tick_def)

lemma new_export_builder_inv: "export_inv (new_export_builder t)"
  by (simp add: export_inv_def new_export_builder_def)

section \<open>The interface of the two builders\<close>

text \<open>What a generator of MIDI calls relies on: a call keeps the receiver well formed.\<close>

locale midi_sink =
  fixes call :: "midi_call \<Rightarrow> 's \<Rightarrow> 's"
    and ok :: "'s \<Rightarrow> bool"
  assumes call_ok: "ok s \<Longrightarrow> ok (call c s)"
begin

definition calls :: "midi_call list \<Rightarrow> 's \<Rightarrow> 's" where
  "calls cs s = fold call cs s"

lemma calls_ok: "ok s \<Longrightarrow> ok (calls cs s)"
  by (induction cs arbitrary: s) (auto simp: calls_def call_ok)

lemma calls_append: "calls (xs @ ys) s = calls ys (calls xs s)"
  by (simp add: calls_def)

end

interpretation chained: midi_sink queue_call "\<lambda>sb. \<exists>F R L. binv sb F R L"
proof
  fix sb c
  assume "\<exists>F R L. binv sb F R L"
  then show "\<exists>F R L. binv (queue_call c sb) F R L"
    using queue_call_binv [of "fst sb" "snd sb"] by (metis prod.collapse)
qed

interpretation exports: midi_sink export_call export_inv
  by unfold_locales (rule export_call_inv)

section \<open>Properties\<close>


definition empty_store :: midi_store where
  "empty_store = \<lparr> next_in_chain = \<lambda>_. None, last_in_chain = \<lambda>_. None, event_data = \<lambda>_. [],
     next_free_midi_event = None, heap_top = 0 \<rparr>"




end
