(* ===== verification/Arpeggiator.thy ===== *)
theory Arpeggiator
  imports Midi_Builder
begin

text \<open>
  The arpeggiator of a pad motion (engine_code/pad.cc, \<open>Pad::Arpeggiator\<close>): up to five keys held
  with reference counts, kept sorted by an exchange sort, and a four-phase machine that steps
  once per tick through a pattern of notes. \<open>sounding\<close> follows which notes a listener hears, so
  that the lemmas can state that no note is left hanging.
\<close>

section \<open>Patterns\<close>

definition MAX_ARP_FINGERS :: nat where "MAX_ARP_FINGERS = 5"
definition MAX_ARP_PATTERN_LENGTH :: nat where "MAX_ARP_PATTERN_LENGTH = 16"
definition MAX_BUILTIN_ARP_PATTERNS :: nat where "MAX_BUILTIN_ARP_PATTERNS = 7"

record arp_note =
  on_length :: int
  off_length :: int
  octave_offset :: int
  slide :: bool

type_synonym arp_pattern = "arp_note list"

definition mk_note :: "int \<Rightarrow> int \<Rightarrow> int \<Rightarrow> bool \<Rightarrow> arp_note" where
  "mk_note a b c d = \<lparr> on_length = a, off_length = b, octave_offset = c, slide = d \<rparr>"

definition append_note :: "arp_note \<Rightarrow> arp_pattern \<Rightarrow> arp_pattern" where
  "append_note nn p = (if MAX_ARP_PATTERN_LENGTH \<le> length p then p else p @ [nn])"

definition built_in :: "arp_pattern list" where
  "built_in =
     (let T = MACHINE_TICKS_PER_LINE; h = drop_bit 1 T; q = drop_bit 2 T; e = drop_bit 3 T in
      [fold append_note [mk_note (T - h) h 0 False] [],
       fold append_note [mk_note (h - q) q 0 False] [],
       fold append_note [mk_note (T - h) h 0 False, mk_note (T - h) h 1 False] [],
       fold append_note [mk_note (T - h) h 0 False, mk_note (T - h) h 1 False, mk_note (T - h) h (-1) False] [],
       fold append_note [mk_note (T - h) h 0 False, mk_note (T - h + 1) (h - 1) 0 False] [],
       fold append_note [mk_note (T - h) h 0 False, mk_note (T - h + 1) (h - 1) 1 False,
                         mk_note (T - h) h 0 False, mk_note (T - h + 1) (h - 1) 1 False] [],
       fold append_note [mk_note (q - e) e 0 False] []])"

section \<open>State\<close>

datatype arp_direction = arp_off | arp_forward | arp_reverse | arp_pingpong

record arp_finger =
  key :: int
  af_velocity :: int
  counter :: int

record arpeggiator =
  phase :: nat
  ticks_left :: int
  arp_sounding :: int
  arp_velocity :: int
  current_finger :: int
  pattern_index :: nat
  pingpong_direction_forward :: bool
  direction :: arp_direction
  current_pattern :: "arp_pattern option"
  finger_count :: nat
  finger :: "arp_finger list"

definition new_arpeggiator :: "arp_finger list \<Rightarrow> arpeggiator" where
  "new_arpeggiator mem =
     \<lparr> phase = 0, ticks_left = 0, arp_sounding = 0, arp_velocity = 0, current_finger = 0, pattern_index = 0,
        pingpong_direction_forward = True, direction = arp_pingpong, current_pattern = Some (built_in ! 0),
        finger_count = 0, finger = map (\<lambda>f. f \<lparr> counter := 0 \<rparr>) (take MAX_ARP_FINGERS mem) \<rparr>"

definition arp_reset :: "arpeggiator \<Rightarrow> arpeggiator" where
  "arp_reset a = a \<lparr> finger_count := 0, phase := 0, ticks_left := 0, current_finger := 0, pattern_index := 0,
     arp_sounding := -1, finger := replicate MAX_ARP_FINGERS \<lparr> key = -1, af_velocity = 0, counter = 0 \<rparr> \<rparr>"

section \<open>Keys\<close>

definition swap_keys :: "nat \<Rightarrow> nat \<Rightarrow> 'a list \<Rightarrow> 'a list" where
  "swap_keys i j xs = xs[i := xs ! j, j := xs ! i]"

text \<open>The loops of \<open>sort_keys\<close>: the numbers count the iterations left.\<close>

fun sort_inner :: "nat \<Rightarrow> nat \<Rightarrow> nat \<Rightarrow> arp_finger list \<Rightarrow> arp_finger list" where
  "sort_inner 0 l k fs = fs"
| "sort_inner (Suc m) l k fs =
     sort_inner m (l + 1) k (if key (fs ! l) < key (fs ! k) then swap_keys l k fs else fs)"

fun sort_outer :: "nat \<Rightarrow> nat \<Rightarrow> nat \<Rightarrow> arp_finger list \<Rightarrow> arp_finger list" where
  "sort_outer 0 k n fs = fs"
| "sort_outer (Suc m) k n fs = sort_outer m (k + 1) n (sort_inner (n - (k + 1)) (k + 1) k fs)"

definition sort_keys :: "nat \<Rightarrow> arp_finger list \<Rightarrow> arp_finger list" where
  "sort_keys n fs = (if n < 2 then fs else sort_outer (n - 1) 0 n fs)"

fun find_key :: "int \<Rightarrow> nat \<Rightarrow> nat \<Rightarrow> arp_finger list \<Rightarrow> nat option" where
  "find_key ky 0 k fs = None"
| "find_key ky (Suc m) k fs = (if key (fs ! k) = ky then Some k else find_key ky m (k + 1) fs)"

definition enable_key :: "int \<Rightarrow> int \<Rightarrow> arpeggiator \<Rightarrow> int \<times> arpeggiator" where
  "enable_key ky vel a =
     (case find_key ky (finger_count a) 0 (finger a) of
        Some k \<Rightarrow>
          (ky, a \<lparr> finger := (finger a)[k := (finger a ! k) \<lparr> counter := counter (finger a ! k) + 1, af_velocity := vel \<rparr>] \<rparr>)
      | None \<Rightarrow>
          if finger_count a < MAX_ARP_FINGERS then
            (ky, a \<lparr> finger := sort_keys (finger_count a + 1)
                      ((finger a)[finger_count a := \<lparr> key = ky, af_velocity = vel, counter = 1 \<rparr>]),
                    finger_count := finger_count a + 1 \<rparr>)
          else (-1, a))"

text \<open>Moving the fingers behind \<open>k\<close> down; the free ones get the key \<open>-1\<close>.\<close>

fun shift_down :: "nat \<Rightarrow> nat \<Rightarrow> 'a list \<Rightarrow> 'a list" where
  "shift_down 0 l xs = xs"
| "shift_down (Suc m) l xs = shift_down m (l + 1) (xs[l := xs ! (l + 1)])"

definition remove_finger :: "nat \<Rightarrow> nat \<Rightarrow> arp_finger list \<Rightarrow> arp_finger list" where
  "remove_finger k n fs =
     (let gs = shift_down (n - k) k fs in
      take n gs @ map (\<lambda>f. f \<lparr> key := -1 \<rparr>) (drop n gs))"

definition disable_key :: "int \<Rightarrow> arpeggiator \<Rightarrow> arpeggiator" where
  "disable_key ky a =
     (let a1 = (case find_key ky (finger_count a) 0 (finger a) of
                  None \<Rightarrow> a
                | Some k \<Rightarrow>
                    let f = (finger a ! k) \<lparr> counter := counter (finger a ! k) - 1 \<rparr>; fs = (finger a)[k := f] in
                    if counter f = 0
                    then a \<lparr> finger_count := finger_count a - 1, finger := remove_finger k (finger_count a - 1) fs \<rparr>
                    else a \<lparr> finger := fs \<rparr>);
          a2 = a1 \<lparr> finger := sort_keys (finger_count a1) (finger a1) \<rparr>
      in if finger_count a2 = 0 then a2 \<lparr> current_finger := 0 \<rparr> else a2)"

section \<open>Playing\<close>

text \<open>The remainder of C, with the sign of the dividend.\<close>

definition c_mod :: "int \<Rightarrow> int \<Rightarrow> int" where
  "c_mod a b = (if a < 0 then - (\<bar>a\<bar> mod \<bar>b\<bar>) else \<bar>a\<bar> mod \<bar>b\<bar>)"

definition advance_finger :: "arpeggiator \<Rightarrow> arpeggiator" where
  "advance_finger a =
     (let n = int (finger_count a); cf = current_finger a in
      case direction a of
        arp_off \<Rightarrow> a
      | arp_forward \<Rightarrow> a \<lparr> current_finger := c_mod (cf + 1) n \<rparr>
      | arp_reverse \<Rightarrow> a \<lparr> current_finger := (if cf - 1 < 0 then (if 0 < n then n - 1 else 0) else cf - 1) \<rparr>
      | arp_pingpong \<Rightarrow>
          if pingpong_direction_forward a then
            (if n \<le> cf + 1 then a \<lparr> pingpong_direction_forward := False, current_finger := c_mod (cf - 1) n \<rparr>
             else a \<lparr> current_finger := c_mod (cf + 1) n \<rparr>)
          else
            (if cf - 1 < 0 then a \<lparr> pingpong_direction_forward := True, current_finger := c_mod (cf + 1) n \<rparr>
             else a \<lparr> current_finger := c_mod (cf - 1) n \<rparr>))"

definition finger_id :: "arpeggiator \<Rightarrow> int" where
  "finger_id a = c_mod (current_finger a) (int (finger_count a))"

definition phase0 :: "bool \<Rightarrow> arp_pattern \<Rightarrow> arpeggiator \<Rightarrow> midi_call list \<times> arpeggiator" where
  "phase0 mute pat a =
     (let old_note = arp_sounding a; pn = pat ! pattern_index a in
      let (on, a1) =
        (if 0 < finger_count a then
           let a' = advance_finger a; f = finger a' ! nat (finger_id a');
               nt = (key f + octave_offset pn * 12) AND 0x7f
           in (if mute then [] else [NoteOn nt (af_velocity f) 0],
               a' \<lparr> arp_sounding := nt, arp_velocity := af_velocity f \<rparr>)
         else ([], a \<lparr> arp_sounding := -1 \<rparr>))
      in (on @ (if old_note \<noteq> -1 then [NoteOff old_note (arp_velocity a1) 0] else []),
          a1 \<lparr> phase := 1, ticks_left := on_length pn - 1 \<rparr>))"

definition run_phase :: "bool \<Rightarrow> arp_pattern \<Rightarrow> arpeggiator \<Rightarrow> midi_call list \<times> arpeggiator" where
  "run_phase mute pat a =
     (if phase a = 0 then phase0 mute pat a
      else if phase a = 1 then
        ([], a \<lparr> ticks_left := ticks_left a - 1, phase := (if ticks_left a - 1 \<le> 0 then 2 else 1) \<rparr>)
      else if phase a = 2 then
        (let pn = pat ! pattern_index a; off = arp_sounding a \<noteq> -1 \<and> \<not> slide pn in
         (if off then [NoteOff (arp_sounding a) (arp_velocity a) 0] else [],
          a \<lparr> arp_sounding := (if off then -1 else arp_sounding a), phase := 3, ticks_left := off_length pn - 1 \<rparr>))
      else if phase a = 3 then
        ([], a \<lparr> ticks_left := ticks_left a - 1,
                phase := (if ticks_left a - 1 \<le> 0 then 0 else 3),
                pattern_index := (if ticks_left a - 1 \<le> 0 then pattern_index a + 1 else pattern_index a) \<rparr>)
      else ([], a))"

definition process_pattern :: "bool \<Rightarrow> arpeggiator \<Rightarrow> midi_call list \<times> arpeggiator" where
  "process_pattern mute a =
     (case current_pattern a of
        None \<Rightarrow> ([], a)
      | Some pat \<Rightarrow>
          if length pat = 0 \<or> direction a = arp_off then ([], a)
          else
            let quiet = mute \<or> (finger_count a = 0 \<and> arp_sounding a \<noteq> -1);
                off = (if quiet then [NoteOff (arp_sounding a) (arp_velocity a) 0] else []);
                a1 = (if quiet then a \<lparr> arp_sounding := -1 \<rparr> else a);
                a2 = (if length pat \<le> pattern_index a1 then a1 \<lparr> pattern_index := 0, phase := 0 \<rparr> else a1)
            in case run_phase mute pat a2 of (cs, a3) \<Rightarrow> (off @ cs, a3))"

text \<open>\<open>&built_in[id]\<close>: an identifier past the last pattern points outside the array.\<close>

definition set_pattern :: "int \<Rightarrow> arpeggiator \<Rightarrow> (unit, arpeggiator) result" where
  "set_pattern i a =
     (if i < 0 then Inr (a \<lparr> current_pattern := None \<rparr>)
      else if int MAX_BUILTIN_ARP_PATTERNS \<le> i then Inl ()
      else Inr (a \<lparr> current_pattern := Some (built_in ! nat i) \<rparr>))"

definition set_direction :: "arp_direction \<Rightarrow> arpeggiator \<Rightarrow> arpeggiator" where
  "set_direction d a = a \<lparr> direction := d \<rparr>"

section \<open>The exchange sort\<close>

lemma swap_keys_nth:
  "i < length xs \<Longrightarrow> j < length xs \<Longrightarrow> m < length xs \<Longrightarrow>
     swap_keys i j xs ! m = (if m = j then xs ! i else if m = i then xs ! j else xs ! m)"
  by (auto simp: swap_keys_def nth_list_update)

lemma swap_keys_length [simp]: "length (swap_keys i j xs) = length xs"
  by (simp add: swap_keys_def)

lemma swap_keys_mset: "i < length xs \<Longrightarrow> j < length xs \<Longrightarrow> mset (swap_keys i j xs) = mset xs"
  unfolding swap_keys_def by (rule mset_swap)

definition in_range :: "nat \<Rightarrow> nat \<Rightarrow> nat \<Rightarrow> nat \<Rightarrow> bool" where
  "in_range k l m i \<longleftrightarrow> i = k \<or> (l \<le> i \<and> i < l + m)"

lemma sort_inner_props:
  assumes "k < l" "l + m \<le> length fs" "gs = sort_inner m l k fs"
  shows "length gs = length fs \<and> mset gs = mset fs \<and>
    (\<forall>i < length fs. \<not> in_range k l m i \<longrightarrow> gs ! i = fs ! i) \<and>
    (\<forall>i. in_range k l m i \<longrightarrow> (\<exists>j. in_range k l m j \<and> gs ! i = fs ! j)) \<and>
    (\<forall>i. l \<le> i \<and> i < l + m \<longrightarrow> key (gs ! k) \<le> key (gs ! i)) \<and> key (gs ! k) \<le> key (fs ! k)"
  using assms
proof (induction m arbitrary: l fs)
  case 0
  then show ?case by auto
next
  case (Suc m)
  define fs' where "fs' = (if key (fs ! l) < key (fs ! k) then swap_keys l k fs else fs)"
  have kl: "k < length fs" "l < length fs" using Suc.prems by auto
  have f': "length fs' = length fs" "mset fs' = mset fs"
    using kl by (auto simp: fs'_def swap_keys_mset)
  have nth: "fs' ! i = fs ! i" if "i < length fs" "i \<noteq> k" "i \<noteq> l" for i
    using that kl by (simp add: fs'_def swap_keys_nth)
  have two: "(fs' ! k = fs ! k \<and> fs' ! l = fs ! l \<or> fs' ! k = fs ! l \<and> fs' ! l = fs ! k) \<and>
      key (fs' ! k) \<le> key (fs' ! l) \<and> key (fs' ! k) \<le> key (fs ! k)"
    using kl Suc.prems(1) by (auto simp: fs'_def swap_keys_nth)
  have gs: "gs = sort_inner m (l + 1) k fs'" using Suc.prems(3) by (simp add: fs'_def)
  have "k < l + 1" "l + 1 + m \<le> length fs'" using Suc.prems f' by auto
  note ih = Suc.IH [OF this gs]
  have gl: "gs ! l = fs' ! l" using ih Suc.prems(1) kl f' by (auto simp: in_range_def)
  have unch: "gs ! i = fs ! i" if "i < length fs" "\<not> in_range k l (Suc m) i" for i
  proof -
    have "\<not> in_range k (l + 1) m i" "i \<noteq> k" "i \<noteq> l" using that(2) by (auto simp: in_range_def)
    with ih nth [OF that(1)] that(1) f' show ?thesis by simp
  qed
  have src: "\<exists>j. in_range k l (Suc m) j \<and> gs ! i = fs ! j" if i: "in_range k l (Suc m) i" for i
  proof -
    have "\<exists>j. in_range k l (Suc m) j \<and> gs ! i = fs' ! j"
    proof (cases "i = l")
      case True
      with gl show ?thesis using Suc.prems by (auto simp: in_range_def)
    next
      case False
      then have "in_range k (l + 1) m i" using i by (auto simp: in_range_def)
      with ih obtain j where "in_range k (l + 1) m j" "gs ! i = fs' ! j" by blast
      moreover have "in_range k l (Suc m) j" using calculation(1) by (auto simp: in_range_def)
      ultimately show ?thesis by blast
    qed
    then obtain j where j: "in_range k l (Suc m) j" "gs ! i = fs' ! j" by blast
    show ?thesis
    proof (cases "j = k \<or> j = l")
      case True
      then have "fs' ! j = fs ! k \<or> fs' ! j = fs ! l" using two by auto
      then show ?thesis using j(2) by (auto simp: in_range_def)
    next
      case False
      then have "j < length fs" using j(1) Suc.prems(2) by (auto simp: in_range_def)
      with False nth j show ?thesis by auto
    qed
  qed
  have le: "key (gs ! k) \<le> key (gs ! i)" if "l \<le> i" "i < l + Suc m" for i
    using ih two gl that by (cases "i = l") auto
  show ?case using ih f' two unch src le by auto
qed

definition sorted_upto :: "nat \<Rightarrow> nat \<Rightarrow> arp_finger list \<Rightarrow> bool" where
  "sorted_upto k n fs \<longleftrightarrow> (\<forall>i j. i < k \<and> i < j \<and> j < n \<longrightarrow> key (fs ! i) \<le> key (fs ! j))"

lemma sort_outer_props:
  assumes "k + m + 1 = n" "n \<le> length fs" "sorted_upto k n fs"
  shows "length (sort_outer m k n fs) = length fs \<and> mset (sort_outer m k n fs) = mset fs \<and>
    (\<forall>i < length fs. n \<le> i \<longrightarrow> sort_outer m k n fs ! i = fs ! i) \<and>
    sorted_upto (n - 1) n (sort_outer m k n fs)"
  using assms
proof (induction m arbitrary: k fs)
  case 0
  then show ?case by auto
next
  case (Suc m)
  define gs where "gs = sort_inner (n - (k + 1)) (k + 1) k fs"
  have rng: "in_range k (k + 1) (n - (k + 1)) i \<longleftrightarrow> k \<le> i \<and> i < n" for i
    using Suc.prems(1) by (auto simp: in_range_def)
  have "k < k + 1" "k + 1 + (n - (k + 1)) \<le> length fs" using Suc.prems by auto
  note g = sort_inner_props [OF this gs_def, unfolded rng]
  have "sorted_upto (k + 1) n gs"
    unfolding sorted_upto_def
  proof (intro allI impI)
    fix i j assume ij: "i < k + 1 \<and> i < j \<and> j < n"
    show "key (gs ! i) \<le> key (gs ! j)"
    proof (cases "i = k")
      case True
      with g ij Suc.prems show ?thesis by auto
    next
      case False
      then have ik: "i < k" "gs ! i = fs ! i" using g ij Suc.prems by auto
      obtain j' where "gs ! j = fs ! j'" "i < j'" "j' < n"
      proof (cases "k \<le> j")
        case True
        with g ij obtain j' where "k \<le> j'" "j' < n" "gs ! j = fs ! j'" by blast
        with that ik show ?thesis by auto
      next
        case False
        with g ij Suc.prems that show ?thesis by auto
      qed
      with ik Suc.prems(3) show ?thesis by (auto simp: sorted_upto_def)
    qed
  qed
  then have "sorted_upto (k + 1) n gs" .
  moreover have "k + 1 + m + 1 = n" "n \<le> length gs" using Suc.prems g by auto
  ultimately have ih: "length (sort_outer m (k + 1) n gs) = length gs \<and> mset (sort_outer m (k + 1) n gs) = mset gs \<and>
      (\<forall>i < length gs. n \<le> i \<longrightarrow> sort_outer m (k + 1) n gs ! i = gs ! i) \<and>
      sorted_upto (n - 1) n (sort_outer m (k + 1) n gs)"
    using Suc.IH by blast
  have "\<forall>i < length fs. n \<le> i \<longrightarrow> gs ! i = fs ! i" using g by auto
  moreover have "sort_outer (Suc m) k n fs = sort_outer m (k + 1) n gs"
    by (simp only: sort_outer.simps gs_def)
  ultimately show ?case using ih g by simp
qed

text \<open>\<open>sort_keys\<close> permutes the first \<open>n\<close> fingers into the order of their keys and touches no other.\<close>

lemma sort_keys_correct:
  assumes "n \<le> length fs"
  shows "length (sort_keys n fs) = length fs" "sorted (map key (take n (sort_keys n fs)))"
    "mset (take n (sort_keys n fs)) = mset (take n fs)" "drop n (sort_keys n fs) = drop n fs"
proof -
  let ?g = "sort_keys n fs"
  have p: "length ?g = length fs \<and> mset ?g = mset fs \<and> (\<forall>i < length fs. n \<le> i \<longrightarrow> ?g ! i = fs ! i) \<and>
      (\<forall>i j. i < j \<and> j < n \<longrightarrow> key (?g ! i) \<le> key (?g ! j))"
  proof (cases "n < 2")
    case True
    then show ?thesis by (auto simp: sort_keys_def)
  next
    case False
    then have "0 + (n - 1) + 1 = n" by simp
    from sort_outer_props [OF this assms] False show ?thesis
      by (auto simp: sort_keys_def sorted_upto_def)
  qed
  then show len: "length ?g = length fs" by simp
  show dr: "drop n ?g = drop n fs" using p by (intro nth_equalityI) auto
  have "mset (take n ?g) + mset (drop n ?g) = mset (take n fs) + mset (drop n fs)"
    using p by (simp flip: mset_append)
  then show "mset (take n ?g) = mset (take n fs)" using dr by simp
  show "sorted (map key (take n ?g))"
    using p assms len by (auto simp: sorted_iff_nth_mono_less)
qed

section \<open>The held keys\<close>

definition arp_inv :: "arpeggiator \<Rightarrow> bool" where
  "arp_inv a \<longleftrightarrow> length (finger a) = MAX_ARP_FINGERS \<and> finger_count a \<le> MAX_ARP_FINGERS \<and>
     sorted_wrt (<) (map key (take (finger_count a) (finger a))) \<and>
     (\<forall>f \<in> set (take (finger_count a) (finger a)). 0 < counter f) \<and> 0 \<le> current_finger a \<and> phase a \<le> 3"

text \<open>The abstract state: how often each key is held.\<close>

definition held_of :: "arp_finger list \<Rightarrow> (int, int) smap" where
  "held_of fs = map (\<lambda>f. (key f, counter f)) fs"

definition held :: "arpeggiator \<Rightarrow> (int, int) smap" where
  "held a = held_of (take (finger_count a) (finger a))"

lemma map_fst_held_of: "map fst (held_of fs) = map key fs"
  by (simp add: held_of_def)

lemma held_ok: "arp_inv a \<Longrightarrow> map_ok (held a)"
  by (simp add: arp_inv_def map_ok_def held_def map_fst_held_of)

lemma map_ok_set_eq: "map_ok m \<Longrightarrow> map_ok m' \<Longrightarrow> set m = set m' \<Longrightarrow> m = m'"
proof (rule map_ok_eqI)
  fix k
  assume a: "map_ok m" "map_ok m'" "set m = set m'"
  show "map_find k m = map_find k m'"
  proof (cases "map_find k m")
    case None
    then have "k \<notin> map_keys m'" using a by (simp add: map_find_None_iff map_keys_def)
    then have "map_find k m' = None" using map_find_None_iff [OF a(2)] by blast
    with None show ?thesis by simp
  next
    case (Some v)
    then have "(k, v) \<in> set m'" using a by (simp add: map_find_iff)
    then have "map_find k m' = Some v" using map_find_iff [OF a(2)] by blast
    with Some show ?thesis by simp
  qed
qed

lemma find_key_Some:
  "find_key ky m k fs = Some j \<Longrightarrow> k \<le> j \<and> j < k + m \<and> key (fs ! j) = ky"
  by (induction ky m k fs rule: find_key.induct) (auto split: if_splits)

lemma find_key_None:
  "find_key ky m k fs = None \<Longrightarrow> k \<le> j \<Longrightarrow> j < k + m \<Longrightarrow> key (fs ! j) \<noteq> ky"
proof (induction ky m k fs rule: find_key.induct)
  case (2 ky m k fs)
  then show ?case by (cases "j = k") (auto split: if_splits)
qed simp

lemma held_find:
  assumes "arp_inv a"
  shows "map_find ky (held a) = map_option (\<lambda>k. counter (finger a ! k)) (find_key ky (finger_count a) 0 (finger a))"
proof (cases "find_key ky (finger_count a) 0 (finger a)")
  case None
  have len: "finger_count a \<le> length (finger a)" using assms by (simp add: arp_inv_def)
  have "ky \<notin> map_keys (held a)"
  proof
    assume "ky \<in> map_keys (held a)"
    then obtain j where "j < finger_count a" "key (finger a ! j) = ky"
      using len by (auto simp: map_keys_def held_def held_of_def in_set_conv_nth)
    with find_key_None [OF None, of j] show False by simp
  qed
  with None show ?thesis using held_ok [OF assms] by (simp add: map_find_None_iff)
next
  case (Some k)
  then have "k < finger_count a" "key (finger a ! k) = ky" using find_key_Some [OF Some] by auto
  then have "(ky, counter (finger a ! k)) \<in> set (held a)"
    using assms by (force simp: held_def held_of_def arp_inv_def in_set_conv_nth intro!: image_eqI)
  with Some show ?thesis using held_ok [OF assms] by (simp add: map_find_iff)
qed

lemma finger_counted:
  assumes "arp_inv a" "k < finger_count a"
  shows "0 < counter (finger a ! k)"
proof -
  have "k < length (take (finger_count a) (finger a))" using assms by (simp add: arp_inv_def)
  from nth_mem [OF this] assms show ?thesis by (simp add: arp_inv_def)
qed

text \<open>A finger changed in place.\<close>

lemma held_update:
  assumes "arp_inv a" "k < finger_count a" "key f = key (finger a ! k)"
  shows "held_of (take (finger_count a) ((finger a)[k := f])) = map_set (key f) (counter f) (held a)"
proof (rule map_ok_set_eq)
  let ?n = "finger_count a" and ?fs = "finger a"
  let ?h = "held_of (take ?n ?fs)"
  have len: "?n \<le> length ?fs" using assms(1) by (simp add: arp_inv_def)
  have ok: "map_ok ?h" using held_ok [OF assms(1)] by (simp add: held_def)
  have h: "held_of (take ?n (?fs[k := f])) = ?h[k := (key f, counter f)]"
    using assms(2) by (simp add: held_of_def take_update_swap map_update)
  have "map fst (?h[k := (key f, counter f)]) = (map fst ?h)[k := map fst ?h ! k]"
    using assms(2,3) len by (simp add: map_update held_of_def)
  then have "map fst (?h[k := (key f, counter f)]) = map fst ?h" by simp
  then show "map_ok (held_of (take ?n (?fs[k := f])))"
    unfolding h map_ok_def using ok by (simp add: map_ok_def)
  show "map_ok (map_set (key f) (counter f) (held a))" using ok by (simp add: held_def)
  have kh: "k < length ?h" "fst (?h ! k) = key f" using assms(2,3) len by (simp_all add: held_of_def)
  have "distinct ?h" using map_ok_distinct [OF ok] by (simp add: distinct_map)
  then have "set (?h[k := (key f, counter f)]) = insert (key f, counter f) (set ?h - {?h ! k})"
    using kh by (simp add: set_update_distinct)
  moreover have "set ?h - {?h ! k} = {p \<in> set ?h. fst p \<noteq> key f}"
  proof -
    have "p = ?h ! k" if "p \<in> set ?h" "fst p = key f" for p
      using that kh map_ok_distinct [OF ok] nth_mem [OF kh(1)]
      by (metis eq_key_imp_eq_value prod.collapse)
    with kh(2) show ?thesis by auto
  qed
  ultimately show "set (held_of (take ?n (?fs[k := f]))) = set (map_set (key f) (counter f) (held a))"
    unfolding h using map_set_set [OF ok] by (simp add: held_def)
qed

lemma update_inv:
  assumes "arp_inv a" "k < finger_count a" "key f = key (finger a ! k)" "0 < counter f"
  shows "arp_inv (a \<lparr> finger := (finger a)[k := f] \<rparr>)"
proof -
  have len: "finger_count a \<le> length (finger a)" using assms(1) by (simp add: arp_inv_def)
  have "map key (take (finger_count a) ((finger a)[k := f])) = map key (take (finger_count a) (finger a))"
  proof -
    let ?ks = "map key (take (finger_count a) (finger a))"
    have "map key (take (finger_count a) ((finger a)[k := f])) = ?ks[k := ?ks ! k]"
      using assms(2,3) len by (simp add: take_update_swap map_update)
    then show ?thesis by simp
  qed
  moreover have "0 < counter g" if "g \<in> set (take (finger_count a) ((finger a)[k := f]))" for g
  proof -
    have "g \<in> insert f (set (take (finger_count a) (finger a)))"
      using that set_update_subset_insert [of "take (finger_count a) (finger a)" k f]
      by (auto simp: take_update_swap)
    with assms show ?thesis by (auto simp: arp_inv_def)
  qed
  ultimately show ?thesis using assms(1) by (simp add: arp_inv_def)
qed

lemma sorted_strict:
  assumes "mset (map key xs) = mset (map key ys)" "distinct (map key ys)" "sorted (map key xs)"
  shows "sorted_wrt (<) (map key xs)"
proof -
  have "distinct (map key xs)" using assms(1,2) mset_eq_imp_distinct_iff by blast
  with assms(3) show ?thesis by (simp add: strict_sorted_iff)
qed

text \<open>\<open>enable_key\<close> counts a held key again, or adds it while there is room.\<close>

lemma enable_key_held:
  assumes "arp_inv a" "enable_key ky vel a = (r, a')"
  shows "arp_inv a'" "held a' = (case map_find ky (held a) of
      Some c \<Rightarrow> map_set ky (c + 1) (held a)
    | None \<Rightarrow> if length (held a) < MAX_ARP_FINGERS then map_set ky 1 (held a) else held a)"
    "r = (if map_find ky (held a) = None \<and> length (held a) = MAX_ARP_FINGERS then -1 else ky)"
proof -
  let ?n = "finger_count a" and ?fs = "finger a"
  have len: "?n \<le> length ?fs" "length ?fs = 5" "length (held a) = ?n"
    using assms(1) by (auto simp: arp_inv_def held_def held_of_def MAX_ARP_FINGERS_def)
  have le5: "?n \<le> 5" using assms(1) by (simp add: arp_inv_def MAX_ARP_FINGERS_def)
  have "arp_inv a' \<and> held a' = (case map_find ky (held a) of
      Some c \<Rightarrow> map_set ky (c + 1) (held a)
    | None \<Rightarrow> if length (held a) < MAX_ARP_FINGERS then map_set ky 1 (held a) else held a) \<and>
    r = (if map_find ky (held a) = None \<and> length (held a) = MAX_ARP_FINGERS then -1 else ky)"
  proof (cases "find_key ky ?n 0 ?fs")
    case (Some k)
    let ?f = "(?fs ! k) \<lparr> counter := counter (?fs ! k) + 1, af_velocity := vel \<rparr>"
    have k: "k < ?n" "key (?fs ! k) = ky" using find_key_Some [OF Some] by auto
    have a': "r = ky" "a' = a \<lparr> finger := ?fs[k := ?f] \<rparr>"
      using assms(2) Some by (simp_all add: enable_key_def)
    have "0 < counter (?fs ! k)" using finger_counted [OF assms(1) k(1)] .
    then have "arp_inv a'" unfolding a' using k by (intro update_inv [OF assms(1)]) auto
    moreover have "held a' = map_set ky (counter (?fs ! k) + 1) (held a)"
      using held_update [OF assms(1) k(1), of ?f] k(2) a' by (simp add: held_def)
    ultimately show ?thesis using held_find [OF assms(1), of ky] Some a' by simp
  next
    case None
    have nf: "map_find ky (held a) = None" using held_find [OF assms(1), of ky] None by simp
    show ?thesis
    proof (cases "?n < MAX_ARP_FINGERS")
      case False
      then have "r = -1" "a' = a" using assms(2) None by (simp_all add: enable_key_def)
      with False nf len le5 assms(1) show ?thesis by (simp add: MAX_ARP_FINGERS_def)
    next
      case True
      let ?f = "\<lparr> key = ky, af_velocity = vel, counter = 1 \<rparr>"
      let ?gs = "?fs[?n := ?f]"
      have a': "r = ky" "a' = a \<lparr> finger := sort_keys (?n + 1) ?gs, finger_count := ?n + 1 \<rparr>"
        using assms(2) None True by (auto simp add: enable_key_def)
      have n1: "?n + 1 \<le> length ?gs" using True len by (simp add: MAX_ARP_FINGERS_def)
      have tk: "take (?n + 1) ?gs = take ?n ?fs @ [?f]"
        using n1 by (simp add: take_Suc_conv_app_nth)
      note sk = sort_keys_correct [OF n1]
      let ?ts = "take (?n + 1) (sort_keys (?n + 1) ?gs)"
      have ms: "mset ?ts = mset (take ?n ?fs @ [?f])" using sk(3) tk by simp
      have "ky \<notin> set (map key (take ?n ?fs))"
        using nf held_ok [OF assms(1)] by (simp add: map_find_None_iff map_keys_def held_def held_of_def image_image)
      then have "distinct (map key (take ?n ?fs @ [?f]))"
        using map_ok_distinct [OF held_ok [OF assms(1)]] by (simp add: held_def map_fst_held_of)
      moreover have "mset (map key ?ts) = mset (map key (take ?n ?fs @ [?f]))"
        using ms by (metis mset_map)
      ultimately have st: "sorted_wrt (<) (map key ?ts)"
        using sk(2) by (intro sorted_strict)
      have set_ts: "set ?ts = insert ?f (set (take ?n ?fs))"
        using mset_eq_setD [OF ms] by simp
      have inv: "arp_inv a'"
        unfolding arp_inv_def a' using st set_ts sk(1) len True assms(1)
        by (simp add: arp_inv_def MAX_ARP_FINGERS_def)
      have "held a' = map_set ky 1 (held a)"
      proof (rule map_ok_set_eq)
        show "map_ok (held a')" using inv by (rule held_ok)
        show "map_ok (map_set ky 1 (held a))" using held_ok [OF assms(1)] by simp
        have "set (held a') = insert (ky, 1) (set (held a))"
          using set_ts a' by (simp add: held_def held_of_def)
        moreover have "{p \<in> set (held a). fst p \<noteq> ky} = set (held a)"
          using nf held_ok [OF assms(1)] by (auto simp: map_find_None_iff map_keys_def)
        ultimately show "set (held a') = set (map_set ky 1 (held a))"
          using map_set_set [OF held_ok [OF assms(1)]] by simp
      qed
      with inv nf a' True len show ?thesis by simp
    qed
  qed
  then show "arp_inv a'" "held a' = (case map_find ky (held a) of
      Some c \<Rightarrow> map_set ky (c + 1) (held a)
    | None \<Rightarrow> if length (held a) < MAX_ARP_FINGERS then map_set ky 1 (held a) else held a)"
    "r = (if map_find ky (held a) = None \<and> length (held a) = MAX_ARP_FINGERS then -1 else ky)"
    by blast+
qed


text \<open>\<open>disable_key\<close> releases a held key once.\<close>

lemma shift_down_eq:
  "l + m < length xs \<Longrightarrow> shift_down m l xs = take l xs @ take m (drop (l + 1) xs) @ drop (l + m) xs"
proof (induction m arbitrary: l xs)
  case (Suc m)
  have l: "l < length xs" "l + 1 < length xs" using Suc.prems by auto
  have "take (l + 1) (xs[l := xs ! (l + 1)]) = take l xs @ [xs ! (l + 1)]"
    using l by (simp add: take_Suc_conv_app_nth)
  moreover have "take (Suc m) (drop (l + 1) xs) = xs ! (l + 1) # take m (drop (l + 2) xs)"
    using l by (simp add: Cons_nth_drop_Suc [symmetric])
  ultimately show ?case using Suc.IH [of "l + 1" "xs[l := xs ! (l + 1)]"] Suc.prems by simp
qed simp

lemma remove_finger_take:
  assumes "k \<le> n" "n < length fs"
  shows "take n (remove_finger k n fs) = take k fs @ take (n - k) (drop (k + 1) fs)"
    "length (remove_finger k n fs) = length fs"
  using assms by (simp_all add: remove_finger_def Let_def shift_down_eq)

lemma sort_keys_held:
  assumes "arp_inv a"
  shows "arp_inv (a \<lparr> finger := sort_keys (finger_count a) (finger a) \<rparr>)"
    "held (a \<lparr> finger := sort_keys (finger_count a) (finger a) \<rparr>) = held a"
proof -
  let ?n = "finger_count a" and ?g = "sort_keys (finger_count a) (finger a)"
  have "?n \<le> length (finger a)" using assms by (simp add: arp_inv_def)
  note sk = sort_keys_correct [OF this]
  have "mset (map key (take ?n ?g)) = mset (map key (take ?n (finger a)))" using sk(3) by (metis mset_map)
  moreover have "distinct (map key (take ?n (finger a)))"
    using map_ok_distinct [OF held_ok [OF assms]] by (simp add: held_def map_fst_held_of)
  ultimately have "sorted_wrt (<) (map key (take ?n ?g))" using sk(2) by (intro sorted_strict)
  moreover have st: "set (take ?n ?g) = set (take ?n (finger a))" using mset_eq_setD [OF sk(3)] .
  ultimately show inv: "arp_inv (a \<lparr> finger := ?g \<rparr>)" using assms sk(1) by (simp add: arp_inv_def)
  show "held (a \<lparr> finger := ?g \<rparr>) = held a"
    using st by (intro map_ok_set_eq held_ok assms inv) (simp add: held_def held_of_def)
qed

lemma remove_finger_held:
  assumes "arp_inv a" "k < finger_count a" "key f = key (finger a ! k)"
    "a' = a \<lparr> finger_count := finger_count a - 1, finger := remove_finger k (finger_count a - 1) ((finger a)[k := f]) \<rparr>"
  shows "arp_inv a'" "held a' = map_erase (key f) (held a)"
proof -
  let ?n = "finger_count a" and ?fs = "finger a"
  have len: "?n \<le> length ?fs" using assms(1) by (simp add: arp_inv_def)
  have split: "take ?n ?fs = take k ?fs @ ?fs ! k # take (?n - 1 - k) (drop (k + 1) ?fs)"
  proof -
    have "take ?n ?fs = take (k + (?n - k)) ?fs" using assms(2) by simp
    also have "\<dots> = take k ?fs @ take (?n - k) (drop k ?fs)" by (rule take_add)
    also have "take (?n - k) (drop k ?fs) = ?fs ! k # take (?n - 1 - k) (drop (k + 1) ?fs)"
      using assms(2) len by (simp add: Cons_nth_drop_Suc [symmetric] take_Cons' )
    finally show ?thesis .
  qed
  have "k \<le> ?n - 1" "?n - 1 < length (?fs[k := f])" using assms(2) len by auto
  note rt = remove_finger_take [OF this]
  have tk: "take (?n - 1) (finger a') = take k ?fs @ take (?n - 1 - k) (drop (k + 1) ?fs)"
    using rt(1) assms(4) by simp
  have ok: "map_ok (held a)" using assms(1) by (rule held_ok)
  have "set (take (?n - 1) (finger a')) \<subseteq> set (take ?n ?fs)"
    "sorted_wrt (<) (map key (take (?n - 1) (finger a')))"
    using assms(1) unfolding arp_inv_def split tk by (auto simp: sorted_wrt_append)
  then show "arp_inv a'" using assms(1,4) rt(2) by (auto simp: arp_inv_def)
  have "\<forall>g \<in> set (take k ?fs @ take (?n - 1 - k) (drop (k + 1) ?fs)). key g \<noteq> key (?fs ! k)"
    using assms(1) unfolding arp_inv_def split by (auto simp: sorted_wrt_append)
  then show "held a' = map_erase (key f) (held a)"
    unfolding held_def split using tk assms(3,4)
    by (auto simp: held_of_def map_erase_def filter_map comp_def intro!: filter_True [symmetric])
qed

lemma disable_key_held:
  assumes "arp_inv a"
  shows "arp_inv (disable_key ky a)" "held (disable_key ky a) = (case map_find ky (held a) of
      None \<Rightarrow> held a
    | Some c \<Rightarrow> if c = 1 then map_erase ky (held a) else map_set ky (c - 1) (held a))"
proof -
  let ?fs = "finger a"
  define a1 where "a1 = (case find_key ky (finger_count a) 0 ?fs of
                  None \<Rightarrow> a
                | Some k \<Rightarrow>
                    let f = (?fs ! k) \<lparr> counter := counter (?fs ! k) - 1 \<rparr>; fs = ?fs[k := f] in
                    if counter f = 0
                    then a \<lparr> finger_count := finger_count a - 1, finger := remove_finger k (finger_count a - 1) fs \<rparr>
                    else a \<lparr> finger := fs \<rparr>)"
  have a1: "arp_inv a1 \<and> held a1 = (case map_find ky (held a) of
      None \<Rightarrow> held a
    | Some c \<Rightarrow> if c = 1 then map_erase ky (held a) else map_set ky (c - 1) (held a))"
  proof (cases "find_key ky (finger_count a) 0 ?fs")
    case None
    then show ?thesis using assms held_find [OF assms, of ky] by (simp add: a1_def)
  next
    case (Some k)
    let ?f = "(?fs ! k) \<lparr> counter := counter (?fs ! k) - 1 \<rparr>"
    have k: "k < finger_count a" "key (?fs ! k) = ky" using find_key_Some [OF Some] by auto
    have kf: "key ?f = key (?fs ! k)" by simp
    have pos: "0 < counter (?fs ! k)" using finger_counted [OF assms k(1)] .
    have fnd: "map_find ky (held a) = Some (counter (?fs ! k))" using held_find [OF assms, of ky] Some by simp
    show ?thesis
    proof (cases "counter (?fs ! k) = 1")
      case True
      then show ?thesis using remove_finger_held [OF assms k(1) kf refl] Some fnd k(2) by (simp add: a1_def)
    next
      case False
      then have "0 < counter ?f" using pos by simp
      from update_inv [OF assms k(1) kf this] held_update [OF assms k(1) kf] False Some fnd k(2)
      show ?thesis by (simp add: a1_def held_def)
    qed
  qed
  have dk: "disable_key ky a = (let a2 = a1 \<lparr> finger := sort_keys (finger_count a1) (finger a1) \<rparr>
      in if finger_count a2 = 0 then a2 \<lparr> current_finger := 0 \<rparr> else a2)"
    by (simp add: disable_key_def a1_def Let_def)
  note sk = sort_keys_held [of a1]
  show "arp_inv (disable_key ky a)" using sk(1) a1 by (auto simp: dk Let_def arp_inv_def)
  have "held (disable_key ky a) = held (a1 \<lparr> finger := sort_keys (finger_count a1) (finger a1) \<rparr>)"
    by (simp add: dk held_def Let_def)
  with sk(2) a1 show "held (disable_key ky a) = (case map_find ky (held a) of
      None \<Rightarrow> held a
    | Some c \<Rightarrow> if c = 1 then map_erase ky (held a) else map_set ky (c - 1) (held a))" by simp
qed


section \<open>Playing the held keys\<close>

lemma c_mod_range: "0 < n \<Longrightarrow> 0 \<le> a \<Longrightarrow> 0 \<le> c_mod a n \<and> c_mod a n < n"
  by (simp add: c_mod_def)

lemma c_mod_nonneg: "0 < n \<Longrightarrow> 0 \<le> a \<or> n = 1 \<Longrightarrow> 0 \<le> c_mod a n"
  by (auto simp: c_mod_def)

lemma advance_finger_frame [simp]:
  "finger (advance_finger a) = finger a" "finger_count (advance_finger a) = finger_count a"
  "phase (advance_finger a) = phase a" "arp_sounding (advance_finger a) = arp_sounding a"
  "pattern_index (advance_finger a) = pattern_index a"
  by (simp_all add: advance_finger_def Let_def split: arp_direction.split)

lemma advance_finger_nonneg:
  assumes "0 \<le> current_finger a" "0 < finger_count a"
  shows "0 \<le> current_finger (advance_finger a)"
  using assms by (auto simp: advance_finger_def Let_def intro!: c_mod_nonneg split: arp_direction.split)

text \<open>The finger that is read is one of the held ones: no access outside the array.\<close>

lemma finger_id_held:
  assumes "0 \<le> current_finger a" "0 < finger_count a"
  shows "0 \<le> finger_id a" "nat (finger_id a) < finger_count a"
  using c_mod_range [of "int (finger_count a)" "current_finger a"] assms by (auto simp: finger_id_def)

lemma arp_inv_frame:
  "arp_inv a \<Longrightarrow> finger b = finger a \<Longrightarrow> finger_count b = finger_count a \<Longrightarrow> 0 \<le> current_finger b \<Longrightarrow>
     phase b \<le> 3 \<Longrightarrow> arp_inv b"
  by (simp add: arp_inv_def)

lemma run_phase_inv:
  assumes "arp_inv a"
  shows "arp_inv (snd (run_phase mute pat a))"
  using assms by (rule arp_inv_frame)
    (use assms in \<open>auto simp: run_phase_def phase0_def Let_def arp_inv_def advance_finger_nonneg\<close>)

lemma arp_reset_inv: "arp_inv (arp_reset a)"
  by (simp add: arp_inv_def arp_reset_def)

lemma new_arpeggiator_inv: "length mem = MAX_ARP_FINGERS \<Longrightarrow> arp_inv (new_arpeggiator mem)"
  by (simp add: arp_inv_def new_arpeggiator_def)

lemma set_pattern_inv: "arp_inv a \<Longrightarrow> set_pattern i a = Inr a' \<Longrightarrow> arp_inv a'"
  by (auto simp: set_pattern_def arp_inv_def split: if_splits)

lemma set_direction_inv: "arp_inv a \<Longrightarrow> arp_inv (set_direction d a)"
  by (simp add: set_direction_def arp_inv_def)

section \<open>What is heard\<close>

text \<open>The notes that sound after a sequence of calls.\<close>

fun hear :: "midi_call \<Rightarrow> int set \<Rightarrow> int set" where
  "hear (NoteOn n v c) S = insert n S"
| "hear (NoteOff n v c) S = S - {n}"
| "hear _ S = S"

definition sounding :: "midi_call list \<Rightarrow> int set \<Rightarrow> int set" where
  "sounding cs S = fold hear cs S"

lemma sounding_Nil [simp]: "sounding [] S = S"
  by (simp add: sounding_def)

lemma sounding_Cons [simp]: "sounding (c # cs) S = sounding cs (hear c S)"
  by (simp add: sounding_def)

lemma sounding_append [simp]: "sounding (cs @ ds) S = sounding ds (sounding cs S)"
  by (simp add: sounding_def)

text \<open>The note the arpeggiator believes to be sounding.\<close>

definition believed :: "arpeggiator \<Rightarrow> int set" where
  "believed a = (if arp_sounding a = -1 then {} else {arp_sounding a})"

lemma and_7f: "0 \<le> (x AND 0x7f :: int) \<and> x AND 0x7f < 128"
proof -
  have "(x AND mask 7 :: int) = x mod 2 ^ 7" by (simp add: take_bit_eq_mod flip: take_bit_eq_mask)
  moreover have "(mask 7 :: int) = 0x7f" by (simp add: mask_eq_exp_minus_1)
  ultimately show ?thesis by simp
qed

lemma run_phase_believed:
  assumes "S \<subseteq> believed a"
  shows "sounding (fst (run_phase mute pat a)) S \<subseteq> believed (snd (run_phase mute pat a))"
proof (cases "phase a = 0")
  case True
  have ne: "x AND 127 \<noteq> -1" for x :: int using and_7f [of x] by linarith
  show ?thesis using assms True
    by (auto simp: run_phase_def phase0_def Let_def believed_def ne split: if_splits)
next
  case False
  then show ?thesis using assms by (auto simp: run_phase_def Let_def believed_def split: if_splits)
qed

text \<open>One call of \<open>process_pattern\<close> does nothing, or silences what must be silent and runs a phase.\<close>

lemma process_pattern_cases:
  obtains (idle) "process_pattern mute a = ([], a)"
    | (run) pat off b where "current_pattern a = Some pat" "direction a \<noteq> arp_off"
      "process_pattern mute a = (off @ fst (run_phase mute pat b), snd (run_phase mute pat b))"
      "pattern_index b < length pat" "finger b = finger a" "finger_count b = finger_count a"
      "current_finger b = current_finger a" "direction b = direction a" "current_pattern b = Some pat"
      "ticks_left b = ticks_left a"
      "phase b = 0 \<or> phase b = phase a \<and> pattern_index b = pattern_index a"
      "sounding off (believed a) \<subseteq> believed b" "finger_count a = 0 \<Longrightarrow> believed b = {}"
proof (cases "case current_pattern a of None \<Rightarrow> True | Some pat \<Rightarrow> pat = [] \<or> direction a = arp_off")
  case True
  then show ?thesis by (intro idle) (auto simp: process_pattern_def split: option.splits)
next
  case False
  then obtain pat where pat: "current_pattern a = Some pat" "pat \<noteq> []" "direction a \<noteq> arp_off"
    by (auto split: option.splits)
  define quiet where "quiet = (mute \<or> (finger_count a = 0 \<and> arp_sounding a \<noteq> -1))"
  define a1 where "a1 = (if quiet then a \<lparr> arp_sounding := -1 \<rparr> else a)"
  define b where "b = (if length pat \<le> pattern_index a1 then a1 \<lparr> pattern_index := 0, phase := 0 \<rparr> else a1)"
  define off where "off = (if quiet then [NoteOff (arp_sounding a) (arp_velocity a) 0] else [])"
  have "process_pattern mute a = (off @ fst (run_phase mute pat b), snd (run_phase mute pat b))"
    using pat by (simp add: process_pattern_def quiet_def a1_def b_def off_def Let_def case_prod_beta)
  then show ?thesis
    using pat by (rule_tac run [of pat off b])
      (auto simp: b_def a1_def off_def quiet_def believed_def)
qed

lemma process_pattern_inv:
  assumes "arp_inv a"
  shows "arp_inv (snd (process_pattern mute a))"
proof (cases rule: process_pattern_cases [of mute a])
  case idle
  then show ?thesis using assms by simp
next
  case (run pat off b)
  then have "arp_inv b" using assms by (auto simp: arp_inv_def)
  then show ?thesis using run(3) run_phase_inv by simp
qed

lemma hear_mono: "S \<subseteq> T \<Longrightarrow> hear c S \<subseteq> hear c T"
  by (cases c) auto

lemma sounding_mono: "S \<subseteq> T \<Longrightarrow> sounding cs S \<subseteq> sounding cs T"
  by (induction cs arbitrary: S T) (auto simp: hear_mono)

lemma process_pattern_believed:
  assumes "S \<subseteq> believed a"
  shows "sounding (fst (process_pattern mute a)) S \<subseteq> believed (snd (process_pattern mute a))"
proof (cases rule: process_pattern_cases [of mute a])
  case idle
  then show ?thesis using assms by simp
next
  case (run pat off b)
  have "sounding off S \<subseteq> believed b" using sounding_mono [OF assms, of off] run(12) by blast
  from run_phase_believed [OF this] show ?thesis using run(3) by simp
qed


section \<open>Runs\<close>

text \<open>What the motions of a pad do to the arpeggiator between two resets, with the queued calls.\<close>

inductive arp_step :: "arpeggiator \<Rightarrow> midi_call list \<Rightarrow> arpeggiator \<Rightarrow> bool" where
  step_enable: "enable_key ky vel a = (r, a') \<Longrightarrow> arp_step a [] a'"
| step_disable: "arp_step a [] (disable_key ky a)"
| step_tick: "process_pattern mute a = (cs, a') \<Longrightarrow> arp_step a cs a'"
| step_pattern: "set_pattern i a = Inr a' \<Longrightarrow> arp_step a [] a'"
| step_direction: "arp_step a [] (set_direction d a)"

inductive arp_run :: "arpeggiator \<Rightarrow> midi_call list \<Rightarrow> arpeggiator \<Rightarrow> bool" for a0 where
  run_start: "arp_run a0 [] a0"
| run_step: "arp_run a0 cs a \<Longrightarrow> arp_step a ds a' \<Longrightarrow> arp_run a0 (cs @ ds) a'"

lemma enable_key_sounding: "enable_key ky vel a = (r, a') \<Longrightarrow> arp_sounding a' = arp_sounding a"
  by (auto simp: enable_key_def split: option.splits if_splits)

lemma disable_key_sounding: "arp_sounding (disable_key ky a) = arp_sounding a"
  by (simp add: disable_key_def Let_def split: option.splits)

lemma set_pattern_sounding: "set_pattern i a = Inr a' \<Longrightarrow> arp_sounding a' = arp_sounding a"
  by (auto simp: set_pattern_def split: if_splits)

lemma arp_step_keeps:
  assumes "arp_step a cs a'"
  shows "(arp_inv a \<longrightarrow> arp_inv a') \<and> (S \<subseteq> believed a \<longrightarrow> sounding cs S \<subseteq> believed a')"
  using assms
proof cases
  case (step_tick mute)
  then show ?thesis using process_pattern_inv [of a mute] process_pattern_believed [of S a mute] by auto
next
  case (step_enable ky vel r)
  then show ?thesis using enable_key_held(1) enable_key_sounding by (simp add: believed_def)
next
  case (step_disable ky)
  then show ?thesis using disable_key_held(1) disable_key_sounding by (simp add: believed_def)
next
  case (step_pattern i)
  then show ?thesis using set_pattern_inv set_pattern_sounding by (simp add: believed_def)
next
  case (step_direction d)
  then show ?thesis using set_direction_inv by (simp add: believed_def set_direction_def)
qed

lemma arp_run_keeps:
  assumes "arp_run a0 cs a" "arp_inv a0" "S \<subseteq> believed a0"
  shows "arp_inv a \<and> sounding cs S \<subseteq> believed a"
  using assms(1)
proof induction
  case run_start
  then show ?case using assms by simp
next
  case (run_step cs a ds a')
  then show ?case using arp_step_keeps [of a ds a' "sounding cs S"] by simp
qed

text \<open>The ticks left until phase 0 is entered again.\<close>

definition arp_rank :: "arp_pattern \<Rightarrow> arpeggiator \<Rightarrow> nat" where
  "arp_rank pat a =
     (let rest = nat (max 1 (off_length (pat ! pattern_index a) - 1)); t = nat (max 1 (ticks_left a)) in
      if phase a = 0 \<or> length pat \<le> pattern_index a then 0
      else if phase a = 1 then t + 1 + rest else if phase a = 2 then 1 + rest else t)"

lemma tick_plays:
  assumes "arp_inv a" "current_pattern a = Some pat" "pat \<noteq> []" "direction a \<noteq> arp_off" "0 < finger_count a"
    "arp_rank pat a = 0"
  shows "\<exists>n v. NoteOn n v 0 \<in> set (fst (process_pattern False a))"
proof -
  have "phase a \<le> 3" using assms(1) by (simp add: arp_inv_def)
  then have "phase a = 0 \<or> length pat \<le> pattern_index a"
    using assms(6) by (auto simp: arp_rank_def Let_def split: if_splits)
  then show ?thesis using assms(2-5) by (auto simp: process_pattern_def run_phase_def phase0_def Let_def case_prod_beta)
qed

lemma tick_rank:
  assumes "arp_inv a" "current_pattern a = Some pat" "direction a \<noteq> arp_off" "0 < finger_count a"
    "0 < arp_rank pat a" "process_pattern False a = (cs, a')"
  shows "arp_rank pat a' < arp_rank pat a" "current_pattern a' = Some pat" "direction a' \<noteq> arp_off"
    "finger_count a' = finger_count a"
proof -
  have ph: "phase a = 1 \<or> phase a = 2 \<or> phase a = 3" "pattern_index a < length pat"
    using assms(1,5) by (auto simp: arp_rank_def arp_inv_def Let_def split: if_splits)
  have ne: "pat \<noteq> []" using ph(2) by auto
  have pp: "(cs, a') = run_phase False pat a"
    using assms(2-4,6) ph(2) ne by (simp add: process_pattern_def Let_def case_prod_beta)
  show "arp_rank pat a' < arp_rank pat a" "current_pattern a' = Some pat" "direction a' \<noteq> arp_off"
    "finger_count a' = finger_count a"
    using pp ph assms(2-5) by (auto simp: run_phase_def arp_rank_def Let_def split: if_splits)
qed

text \<open>\<open>n\<close> ticks without mute.\<close>

fun arp_ticks :: "nat \<Rightarrow> arpeggiator \<Rightarrow> midi_call list \<times> arpeggiator" where
  "arp_ticks 0 a = ([], a)"
| "arp_ticks (Suc n) a = (case process_pattern False a of (cs, a1) \<Rightarrow>
     case arp_ticks n a1 of (ds, a2) \<Rightarrow> (cs @ ds, a2))"

lemma arp_ticks_play:
  assumes "arp_inv a" "current_pattern a = Some pat" "pat \<noteq> []" "direction a \<noteq> arp_off" "0 < finger_count a"
  shows "\<exists>n v. NoteOn n v 0 \<in> set (fst (arp_ticks (Suc (arp_rank pat a)) a))"
  using assms
proof (induction "arp_rank pat a" arbitrary: a rule: less_induct)
  case less
  obtain cs a1 where p: "process_pattern False a = (cs, a1)" by fastforce
  show ?case
  proof (cases "arp_rank pat a = 0")
    case True
    with tick_plays [OF less.prems] p show ?thesis by (auto simp: case_prod_beta)
  next
    case False
    then have pos: "0 < arp_rank pat a" by simp
    note tr = tick_rank [OF less.prems(1,2,4,5) pos p]
    have "arp_inv a1" using process_pattern_inv [OF less.prems(1), of False] p by simp
    with less.hyps [OF tr(1)] tr less.prems obtain n v
      where nv: "NoteOn n v 0 \<in> set (fst (arp_ticks (Suc (arp_rank pat a1)) a1))" by auto
    obtain d where d: "arp_rank pat a = Suc (arp_rank pat a1) + d" using tr(1) less_iff_Suc_add by auto
    have "set (fst (arp_ticks k b)) \<subseteq> set (fst (arp_ticks (k + d) b))" for k b
      by (induction k arbitrary: b) (force simp: case_prod_beta)+
    then have "NoteOn n v 0 \<in> set (fst (arp_ticks (arp_rank pat a) a1))" unfolding d using nv by blast
    then show ?thesis using p by (auto simp: case_prod_beta)
  qed
qed


lemma new_reset_inv: "arp_inv (arp_reset a) \<and> believed (arp_reset a) = {}"
  using arp_reset_inv [of a] by (simp add: believed_def arp_reset_def)

lemma tick_silences:
  assumes "current_pattern a = Some pat" "pat \<noteq> []" "direction a \<noteq> arp_off" "finger_count a = 0" "S \<subseteq> believed a"
  shows "sounding (fst (process_pattern mute a)) S = {}"
proof (cases rule: process_pattern_cases [of mute a])
  case idle
  have "arp_sounding a = -1" "\<not> mute"
    using idle assms by (auto simp: process_pattern_def Let_def case_prod_beta split: if_splits)
  then show ?thesis using idle assms(5) by (simp add: believed_def)
next
  case (run pat' off b)
  have "sounding off S \<subseteq> {}" using sounding_mono [OF assms(5), of off] run(12,13) assms(4) by blast
  moreover have "sounding (fst (run_phase mute pat' b)) {} = {}"
    using run(6) assms(4) by (auto simp: run_phase_def phase0_def Let_def)
  ultimately show ?thesis using run(3) by simp
qed

text \<open>C21: \<open>enable_key\<close> and \<open>disable_key\<close> keep a reference count per key: a key held again is counted
  up, a new key is added while fewer than five are held (and reported as refused otherwise), a
  release counts down and removes the key with its last count, and the fingers stay sorted by
  strictly increasing key.\<close>

theorem arp_keys_counted:
  assumes "arp_inv a"
  shows "arp_inv (disable_key ky a) \<and> arp_inv (snd (enable_key ky vel a)) \<and>
    held (snd (enable_key ky vel a)) = (case map_find ky (held a) of
        Some c \<Rightarrow> map_set ky (c + 1) (held a)
      | None \<Rightarrow> if length (held a) < MAX_ARP_FINGERS then map_set ky 1 (held a) else held a) \<and>
    fst (enable_key ky vel a) = (if map_find ky (held a) = None \<and> length (held a) = MAX_ARP_FINGERS then -1 else ky) \<and>
    held (disable_key ky a) = (case map_find ky (held a) of
        None \<Rightarrow> held a
      | Some c \<Rightarrow> if c = 1 then map_erase ky (held a) else map_set ky (c - 1) (held a))"
proof -
  obtain r a' where e: "enable_key ky vel a = (r, a')" by fastforce
  from enable_key_held [OF assms e] disable_key_held [OF assms] e show ?thesis by simp
qed

theorem arp_keys_counted_witness:
  "held (snd (enable_key 60 100 (snd (enable_key 64 90 (arp_reset (new_arpeggiator [])))))) = [(60, 1), (64, 1)] \<and>
   held (disable_key 64 (snd (enable_key 64 90 (arp_reset (new_arpeggiator []))))) = []"
proof -
  let ?a = "arp_reset (new_arpeggiator [])"
  note k1 = arp_keys_counted [OF arp_reset_inv, of 64 "new_arpeggiator []" 90]
  have "held ?a = []" by (simp add: held_def held_of_def arp_reset_def)
  with k1 have h1: "held (snd (enable_key 64 90 ?a)) = [(64, 1)]" "arp_inv (snd (enable_key 64 90 ?a))"
    by (simp_all add: MAX_ARP_FINGERS_def)
  with arp_keys_counted [OF h1(2), of 60 100] arp_keys_counted [OF h1(2), of 64 100]
  show ?thesis by (simp add: MAX_ARP_FINGERS_def map_erase_def)
qed

text \<open>C16: no note of the arpeggiator is left hanging. Whatever keys are pressed and released, patterns
  and directions chosen and ticks processed (muted or not) after a reset, at most the one note the
  arpeggiator remembers sounds; and once no key is held, the next tick of a running arpeggiator
  leaves silence.\<close>

theorem arp_no_hanging_note:
  assumes "arp_run (arp_reset a0) cs a"
  shows "sounding cs {} \<subseteq> believed a \<and> arp_inv a \<and>
    (\<forall>pat mute. current_pattern a = Some pat \<and> pat \<noteq> [] \<and> direction a \<noteq> arp_off \<and> finger_count a = 0 \<longrightarrow>
       sounding (cs @ fst (process_pattern mute a)) {} = {})"
  using arp_run_keeps [OF assms, of "{}"] new_reset_inv tick_silences [where S = "sounding cs {}"] by auto

theorem arp_no_hanging_note_witness:
  "let a1 = snd (enable_key 60 100 (arp_reset (new_arpeggiator [])));
       (cs, a2) = process_pattern False a1; a3 = disable_key 60 a2
   in cs = [NoteOn 60 100 0] \<and> sounding (cs @ fst (process_pattern False a3)) {} = {}"
proof -
  define a0 where "a0 = arp_reset (new_arpeggiator [])"
  define a1 where "a1 = snd (enable_key 60 100 a0)"
  define a2 where "a2 = snd (process_pattern False a1)"
  define cs where "cs = fst (process_pattern False a1)"
  define a3 where "a3 = disable_key 60 a2"
  have a1: "enable_key 60 100 a0 = (60, a1)"
    by (simp add: a1_def a0_def enable_key_def arp_reset_def MAX_ARP_FINGERS_def)
  have a2: "process_pattern False a1 = (cs, a2)" by (simp add: cs_def a2_def)
  have "arp_run a0 ([] @ [] @ cs @ []) a3"
    unfolding a3_def append_assoc [symmetric]
    by (intro run_step [OF _ step_disable] run_step [OF _ step_tick [OF a2]] run_step [OF _ step_enable [OF a1]] run_start)
  then have r: "arp_run (arp_reset (new_arpeggiator [])) cs a3" by (simp add: a0_def)
  have ev: "cs = [NoteOn 60 100 0] \<and> finger_count a3 = 0 \<and> direction a3 = arp_pingpong \<and>
      current_pattern a3 = Some (built_in ! 0) \<and> built_in ! 0 \<noteq> []"
    unfolding a3_def a2_def cs_def a1_def a0_def by code_simp
  with arp_no_hanging_note [OF r] have "sounding (cs @ fst (process_pattern False a3)) {} = {}" by simp
  with ev show ?thesis by (simp add: a3_def a2_def cs_def a1_def a0_def Let_def case_prod_beta)
qed

text \<open>C38: a held key is heard: when the arpeggiator runs a non-empty pattern and some key is held,
  a note is switched on after at most \<open>arp_rank\<close> further ticks, the length of what is left of the
  current step.\<close>

theorem arp_plays_held_keys:
  assumes "arp_inv a" "current_pattern a = Some pat" "pat \<noteq> []" "direction a \<noteq> arp_off" "0 < finger_count a"
  shows "\<exists>n v. NoteOn n v 0 \<in> set (fst (arp_ticks (Suc (arp_rank pat a)) a))"
  using assms by (rule arp_ticks_play)

theorem arp_plays_held_keys_witness:
  "let a = snd (process_pattern False (snd (enable_key 60 100 (arp_reset (new_arpeggiator []))))) in
   arp_rank (built_in ! 0) a = 15 \<and> (\<exists>n v. NoteOn n v 0 \<in> set (fst (arp_ticks 16 a)))"
proof -
  define a where "a = snd (process_pattern False (snd (enable_key 60 100 (arp_reset (new_arpeggiator [])))))"
  have "arp_inv (snd (enable_key 60 100 (arp_reset (new_arpeggiator []))))"
    using enable_key_held(1) [OF arp_reset_inv] prod.collapse by metis
  then have inv: "arp_inv a" unfolding a_def by (rule process_pattern_inv)
  have ev: "current_pattern a = Some (built_in ! 0)" "built_in ! 0 \<noteq> []" "direction a \<noteq> arp_off" "0 < finger_count a"
    "arp_rank (built_in ! 0) a = 15"
    unfolding a_def by code_simp+
  from arp_plays_held_keys [OF inv ev(1-4)] ev(5) show ?thesis by (simp add: a_def Let_def del: arp_ticks.simps)
qed

end
