(* ===== verification/Scales.thy ===== *)
theory Scales
  imports Object_Message
begin

text \<open>
  The scales object (scales.cc, scales.hh): the library of standard scales and its
  initialisation, the one custom scale, the six commands of the server side and what the client
  side makes of their replies. \<open>custom_scale\<close> and the last entry of \<open>scales\<close> are one object, so
  the custom scale is an index into the vector.
\<close>

section \<open>The library\<close>

record scale_entry =
  offset :: nat
  entry_name :: string
  entry_keys :: "int list"

definition mk_entry :: "nat \<times> string \<times> int list \<Rightarrow> scale_entry" where
  "mk_entry e = \<lparr> offset = fst e, entry_name = fst (snd e), entry_keys = snd (snd e) \<rparr>"

definition scales_library :: "scale_entry list" where
  "scales_library = map mk_entry
  [(0, ''C- '', [0, 2, 4, 5, 7, 9, 11,
     0, 2, 4, 5, 7, 9, 11,
     0, 2, 4, 5, 7, 9, 11]),
   (0, ''C-m'', [0, 2, 3, 5, 7, 8, 10,
     0, 2, 3, 5, 7, 8, 10,
     0, 2, 4, 5, 7, 9, 11]),
   (0, ''C#m'', [1, 3, 4, 6, 8, 9, 11,
     1, 3, 4, 6, 8, 9, 11,
     0, 2, 4, 5, 7, 9, 11]),
   (1, ''D- '', [1, 2, 4, 6, 7, 9, 11,
     1, 2, 4, 6, 7, 9, 11,
     0, 2, 4, 5, 7, 9, 11]),
   (1, ''D-m'', [0, 2, 4, 5, 7, 9, 10,
     0, 2, 4, 5, 7, 9, 10,
     0, 2, 4, 5, 7, 9, 11]),
   (1, ''Db '', [0, 1, 3, 5, 6, 8, 10,
     0, 1, 3, 5, 6, 8, 10,
     0, 2, 4, 5, 7, 9, 11]),
   (1, ''D#m'', [1, 3, 5, 6, 8, 10, 11,
     1, 3, 5, 6, 8, 10, 11,
     0, 2, 4, 5, 7, 9, 11]),
   (2, ''E- '', [1, 3, 4, 6, 8, 9, 11,
     1, 3, 4, 6, 8, 9, 11,
     0, 2, 4, 5, 7, 9, 11]),
   (2, ''E-m'', [0, 2, 4, 6, 7, 9, 11,
     0, 2, 4, 6, 7, 9, 11,
     0, 2, 4, 5, 7, 9, 11]),
   (2, ''Eb '', [0, 2, 3, 5, 7, 8, 10,
     0, 2, 3, 5, 7, 8, 10,
     0, 2, 4, 5, 7, 9, 11]),
   (3, ''F- '', [0, 2, 4, 5, 7, 9, 10,
     0, 2, 4, 5, 7, 9, 10,
     0, 2, 4, 5, 7, 9, 11]),
   (3, ''F-m'', [0, 1, 3, 5, 7, 8, 10,
     0, 1, 3, 5, 7, 8, 10,
     0, 2, 4, 5, 7, 9, 11]),
   (3, ''F# '', [1, 3, 5, 6, 8, 10, 11,
     1, 3, 5, 6, 8, 10, 11,
     0, 2, 4, 5, 7, 9, 11]),
   (3, ''F#m'', [1, 2, 4, 6, 8, 9, 11,
     1, 2, 4, 6, 8, 9, 11,
     0, 2, 4, 5, 7, 9, 11]),
   (4, ''G- '', [0, 2, 4, 6, 7, 9, 11,
     0, 2, 4, 6, 7, 9, 11,
     0, 2, 4, 5, 7, 9, 11]),
   (4, ''G-m'', [0, 2, 3, 5, 7, 9, 10,
     0, 2, 3, 5, 7, 9, 10,
     0, 2, 4, 5, 7, 9, 11]),
   (4, ''G#m'', [1, 3, 4, 6, 8, 10, 11,
     1, 3, 4, 6, 8, 10, 11,
     0, 2, 4, 5, 7, 9, 11]),
   (5, ''A- '', [1, 2, 4, 6, 8, 9, 11,
     1, 2, 4, 6, 8, 9, 11,
     0, 2, 4, 5, 7, 9, 11]),
   (5, ''A-m'', [0, 2, 4, 5, 7, 9, 11,
     0, 2, 4, 5, 7, 9, 11,
     0, 2, 4, 5, 7, 9, 11]),
   (5, ''Ab '', [0, 1, 3, 5, 7, 8, 10,
     0, 1, 3, 5, 7, 8, 10,
     0, 2, 4, 5, 7, 9, 11]),
   (6, ''B- '', [1, 3, 4, 6, 8, 10, 11,
     1, 3, 4, 6, 8, 10, 11,
     0, 2, 4, 5, 7, 9, 11]),
   (6, ''B-m'', [1, 2, 4, 6, 7, 9, 11,
     1, 2, 4, 6, 7, 9, 11,
     0, 2, 4, 5, 7, 9, 11]),
   (6, ''Bb '', [0, 2, 3, 5, 7, 9, 10,
     0, 2, 3, 5, 7, 9, 10,
     0, 2, 4, 5, 7, 9, 11]),
   (6, ''Bbm'', [0, 1, 3, 5, 6, 8, 10,
     0, 1, 3, 5, 6, 8, 10,
     0, 2, 4, 5, 7, 9, 11])]"

fun scale_loop :: "nat \<Rightarrow> nat \<Rightarrow> int list \<Rightarrow> int list" where
  "scale_loop 0 x ks = ks"
| "scale_loop (Suc n) x ks = scale_loop n (x + 1) (ks[x + 7 := ks ! x + 12, x + 14 := ks ! x + 24])"

definition initialize_scale :: "scale_entry \<Rightarrow> scale_entry" where
  "initialize_scale s = s \<lparr> entry_keys := scale_loop 7 0 (entry_keys s) \<rparr>"

definition initialize_scales_library :: "scale_entry list" where
  "initialize_scales_library = map initialize_scale scales_library"

definition key_text :: "string list" where
  "key_text = [''C-'', ''C#'', ''D-'', ''D#'', ''E-'', ''F-'', ''F#'', ''G-'', ''G#'', ''A-'', ''A#'', ''B-'']"

text \<open>\<open>key % 12\<close> is negative for a negative key, and the access is then outside the array.\<close>

definition get_key_text :: "int \<Rightarrow> string option" where
  "get_key_text k = (if k < 0 \<and> k mod 12 \<noteq> 0 then None else Some (key_text ! nat (k mod 12)))"

section \<open>The object\<close>

record scale =
  name :: string
  keys :: "int list"

record scales_object =
  scales :: "scale list"
  custom_scale :: nat
  scales_initialized :: bool

definition new_scales :: scales_object where
  "new_scales = \<lparr> scales = [], custom_scale = 0, scales_initialized = False \<rparr>"

definition standard_scale :: "scale_entry \<Rightarrow> scale" where
  "standard_scale e = \<lparr> name = entry_name e, keys = map (\<lambda>l. entry_keys e ! (l + offset e)) [0..<7] \<rparr>"

definition initialize_scales :: "scales_object \<Rightarrow> scales_object" where
  "initialize_scales s =
     (if scales_initialized s then s
      else \<lparr> scales = map standard_scale initialize_scales_library @ [\<lparr> name = ''CS1'', keys = [0, 2, 4, 5, 7, 9, 11] \<rparr>],
             custom_scale = length initialize_scales_library, scales_initialized = True \<rparr>)"

section \<open>The text form of a scale\<close>

definition ser_scale :: "scale \<Rightarrow> string" where
  "ser_scale s = ser_seq ser_string (ser_array ser_int) (name s, keys s)"

text \<open>\<open>std::make_shared<Scale>()\<close> value-initialises the seven keys to zero.\<close>

definition deser_scale :: "scale deser" where
  "deser_scale = dmap (\<lambda>(n, ks). \<lparr> name = n, keys = ks \<rparr>)
     (deser_seq deser_string (deser_array deser_int (replicate 7 0)))"

definition ser_scale_object :: "scale \<Rightarrow> string" where
  "ser_scale_object = ser_object ''Scales::Scale'' ser_scale"

definition deser_scale_object :: "scale deser" where
  "deser_scale_object = deser_object ''Scales::Scale'' deser_scale"

section \<open>Commands of the server side\<close>

datatype scales_error = OutOfBounds | MsgError msg_error | TextError ser_error | ServersideOnlyFunction

fun lift_msg :: "(msg_error, 'a) result \<Rightarrow> (scales_error, 'a) result" where
  "lift_msg (Inl e) = Inl (MsgError e)"
| "lift_msg (Inr a) = Inr a"

fun lift_ser :: "(ser_error, 'a) result \<Rightarrow> (scales_error, 'a) result" where
  "lift_ser (Inl e) = Inl (TextError e)"
| "lift_ser (Inr a) = Inr a"

definition index_at :: "int \<Rightarrow> 'a list \<Rightarrow> (scales_error, 'a) result" where
  "index_at i xs = (if 0 \<le> i \<and> nat i < length xs then Inr (xs ! nat i) else Inl OutOfBounds)"

definition reply_with :: "message \<Rightarrow> string \<Rightarrow> string \<Rightarrow> (scales_error, message) result" where
  "reply_with msg k v = lift_msg (rbind (acquire_reply msg) (set_value k v))"

definition handle_get_nr_scales :: "scales_object \<Rightarrow> message \<Rightarrow> (scales_error, message) result" where
  "handle_get_nr_scales s msg = reply_with msg ''nrscl'' (show_nat (length (scales (initialize_scales s))))"

definition names_text :: "scale list \<Rightarrow> string" where
  "names_text ss = ser_result (ser_container ser_scale_object ss)"

definition handle_get_scale_names :: "scales_object \<Rightarrow> message \<Rightarrow> (scales_error, message) result" where
  "handle_get_scale_names s msg = reply_with msg ''scales'' (names_text (scales (initialize_scales s)))"

definition default_keys :: "int list" where
  "default_keys = [0, 2, 4, 5, 7, 9, 11]"

text \<open>\<open>iser.process(keys)\<close> with an array selects the overload for containers.\<close>

definition keys_text :: "int list \<Rightarrow> string" where
  "keys_text ks = ser_result (ser_container ser_int ks)"

definition keys_by_name :: "scale list \<Rightarrow> string \<Rightarrow> int list" where
  "keys_by_name ss scale_name = fold (\<lambda>s ks. if name s = scale_name then take 7 (keys s) else ks) ss default_keys"

definition handle_get_scale_keys :: "scales_object \<Rightarrow> message \<Rightarrow> (scales_error, message) result" where
  "handle_get_scale_keys s msg =
     rbind (lift_msg (get_value ''name'' msg)) (\<lambda>scale_name.
       reply_with msg ''keys'' (keys_text (keys_by_name (scales (initialize_scales s)) scale_name)))"

definition handle_get_scale_keysn :: "scales_object \<Rightarrow> message \<Rightarrow> (scales_error, message) result" where
  "handle_get_scale_keysn s msg =
     rbind (lift_msg (get_value ''index'' msg)) (\<lambda>i.
     rbind (index_at (stoi i) (scales (initialize_scales s))) (\<lambda>sc.
       reply_with msg ''keys'' (keys_text (take 7 (keys sc)))))"

definition handle_get_custom_scale_key :: "scales_object \<Rightarrow> message \<Rightarrow> (scales_error, message) result" where
  "handle_get_custom_scale_key s msg =
     (let s1 = initialize_scales s in
      rbind (lift_msg (get_value ''offset'' msg)) (\<lambda>o_text.
      rbind (index_at (stoi o_text) (keys (scales s1 ! custom_scale s1))) (\<lambda>k.
        reply_with msg ''key'' (show_int k))))"

definition set_custom_key :: "int \<Rightarrow> int \<Rightarrow> scales_object \<Rightarrow> (scales_error, scales_object) result" where
  "set_custom_key o_val k s =
     (let c = scales s ! custom_scale s in
      if 0 \<le> o_val \<and> nat o_val < length (keys c)
      then Inr (s \<lparr> scales := (scales s)[custom_scale s := c \<lparr> keys := (keys c)[nat o_val := k] \<rparr>] \<rparr>)
      else Inl OutOfBounds)"

definition handle_set_custom_scale_key :: "scales_object \<Rightarrow> message \<Rightarrow> (scales_error, scales_object) result" where
  "handle_set_custom_scale_key s msg =
     rbind (lift_msg (get_value ''offset'' msg)) (\<lambda>o_text.
     rbind (lift_msg (get_value ''key'' msg)) (\<lambda>k_text.
       set_custom_key (stoi o_text) (stoi k_text) (initialize_scales s)))"

datatype scales_command =
  GET_NR_SCALES | GET_SCALE_NAMES | GET_SCALE_KEYS | GET_SCALE_KEYSN | GET_CUSTOM_SCALE_KEY | SET_CUSTOM_SCALE_KEY

definition scales_commands :: "(string \<times> scales_command) list" where
  "scales_commands =
     [(''getnrs'', GET_NR_SCALES), (''getnames'', GET_SCALE_NAMES), (''getskeys'', GET_SCALE_KEYS),
      (''getskeysn'', GET_SCALE_KEYSN), (''getcsk'', GET_CUSTOM_SCALE_KEY), (''setcsk'', SET_CUSTOM_SCALE_KEY)]"

text \<open>\<open>get_scale_keys(index, result)\<close> of the server side, used by the pads.\<close>

definition get_scale_keys_server :: "bool \<Rightarrow> scales_object \<Rightarrow> int \<Rightarrow> (scales_error, int list) result" where
  "get_scale_keys_server is_client_side s i =
     (if is_client_side then Inl ServersideOnlyFunction
      else rbind (index_at i (scales s)) (\<lambda>sc. Inr (take 7 (keys sc))))"

section \<open>What the client makes of the replies\<close>

definition read_reply :: "string \<Rightarrow> 'a deser \<Rightarrow> message \<Rightarrow> (scales_error, 'a) result" where
  "read_reply k d reply =
     rbind (lift_msg (get_value k reply)) (\<lambda>txt.
     rbind (lift_ser (ItemDeserializer txt)) (\<lambda>serder. lift_ser (fst (d serder))))"

definition get_number_of_scales :: "message \<Rightarrow> (scales_error, int) result" where
  "get_number_of_scales reply = rbind (lift_msg (get_value ''nrscl'' reply)) (\<lambda>v. Inr (stoi v))"

definition get_scale_names :: "message \<Rightarrow> (scales_error, string list) result" where
  "get_scale_names reply =
     rbind (read_reply ''scales'' (deser_container deser_scale_object) reply) (\<lambda>ss. Inr (map name ss))"

definition get_scale_keys_by_name :: "message \<Rightarrow> (scales_error, int list) result" where
  "get_scale_keys_by_name reply = read_reply ''keys'' (deser_container deser_int) reply"

definition get_scale_keys_by_index :: "int list \<Rightarrow> message \<Rightarrow> (scales_error, int list) result" where
  "get_scale_keys_by_index uninitialized reply = read_reply ''keys'' (deser_array deser_int uninitialized) reply"

definition get_custom_scale_key :: "message \<Rightarrow> (scales_error, int) result" where
  "get_custom_scale_key reply = rbind (lift_msg (get_value ''key'' reply)) (\<lambda>v. Inr (stoi v))"

section \<open>The project file\<close>

text \<open>The \<open>k\<close> elements of a \<open>scale\<close> element, as pairs of offset and key.\<close>

definition generate_scale_xml :: "scales_object \<Rightarrow> (scales_error, (int \<times> int) list) result" where
  "generate_scale_xml s =
     fold (\<lambda>k acc. rbind acc (\<lambda>out. rbind (index_at k (keys (scales s ! custom_scale s))) (\<lambda>n. Inr (out @ [(k, n)]))))
       [0, 1, 2, 3, 4, 5, 6] (Inr [])"

definition parse_scale :: "(int \<times> int) list \<Rightarrow> scales_object \<Rightarrow> (scales_error, scales_object) result" where
  "parse_scale kvs s = fold (\<lambda>(k, n) acc. rbind acc (set_custom_key k n)) kvs (Inr s)"

definition scales_set_defaults :: "scales_object \<Rightarrow> (scales_error, scales_object) result" where
  "scales_set_defaults s =
     fold (\<lambda>(k, n) acc. rbind acc (set_custom_key k n)) [(0, 0), (1, 2), (2, 4), (3, 5), (4, 7), (5, 9), (6, 11)] (Inr s)"


section \<open>Scales as serializable items\<close>

interpretation key_array: serderizable_array ser_int deser_int int_valid "replicate 7 0"
  by unfold_locales simp

definition keys_valid :: "int list \<Rightarrow> bool" where
  "keys_valid ks \<longleftrightarrow> length ks = 7 \<and> (\<forall>k \<in> set ks. int_valid k)"

interpretation scale_fields: serderizable2 ser_string deser_string string_valid "ser_array ser_int"
  "deser_array deser_int (replicate 7 0)" keys_valid
  using key_array.array.serderizable_axioms
  by (intro serderizable2.intro strings.serderizable_axioms) (simp add: keys_valid_def [abs_def])

interpretation scale_record: serderizable_record "ser_seq ser_string (ser_array ser_int)"
  "deser_seq deser_string (deser_array deser_int (replicate 7 0))"
  "\<lambda>p. string_valid (fst p) \<and> keys_valid (snd p)" "\<lambda>s. (name s, keys s)" "\<lambda>(n, ks). \<lparr> name = n, keys = ks \<rparr>"
  by unfold_locales simp

definition scale_valid :: "scale \<Rightarrow> bool" where
  "scale_valid s \<longleftrightarrow> string_valid (name s) \<and> keys_valid (keys s)"

interpretation scale_object: serderizable_object ser_scale deser_scale scale_valid "''Scales::Scale''"
  using scale_record.rec.serderizable_axioms
  by (intro serderizable_object.intro serderizable_object_axioms.intro)
    (simp_all add: ser_scale_def [abs_def] deser_scale_def scale_valid_def [abs_def] nul_free_def)

interpretation scale_list: serderizable_elements ser_scale_object deser_scale_object scale_valid
  using scale_object.object.serderizable_axioms
  by (simp add: serderizable_elements_def ser_scale_object_def deser_scale_object_def)

interpretation key_list: serderizable_elements ser_int deser_int int_valid
  by (rule serderizable_elements.intro) (rule ints.serderizable_axioms)

interpretation scales_table: command_table scales_commands
  by unfold_locales (auto simp: scales_commands_def plain_def has_delim_def nul_free_def)

lemma ser_sub_nonempty: "ser_sub i t \<noteq> []"
  by (simp add: ser_sub_def)

context serderizable
begin

lemma read_reply_text:
  assumes "get_value k r = Inr (ser_result (ser x))" "valid x"
  shows "read_reply k deser r = Inr x"
proof -
  have "decode_string (ser_result (ser x)) = Inr (ser x)"
    using assms(2) ser_nonempty ser_nul_free by (simp add: ser_result_def decode_encode_string)
  then show ?thesis
    using assms round_trip [of x "[]"] by (simp add: read_reply_def ItemDeserializer_def istringstream_def)
qed

end


section \<open>The custom scale\<close>

definition scales_inv :: "scales_object \<Rightarrow> bool" where
  "scales_inv s \<longleftrightarrow> scales_initialized s \<and> custom_scale s < length (scales s) \<and>
     (\<forall>sc \<in> set (scales s). length (keys sc) = 7)"

definition custom_keys :: "scales_object \<Rightarrow> int list" where
  "custom_keys s = keys (scales s ! custom_scale s)"

lemma length_initialize_library: "length initialize_scales_library = 24"
  by (simp add: initialize_scales_library_def scales_library_def)

lemma initialize_scales_inv: "scales_inv (initialize_scales new_scales)"
  by (auto simp: scales_inv_def initialize_scales_def new_scales_def standard_scale_def)

lemma custom_keys_length: "scales_inv s \<Longrightarrow> length (custom_keys s) = 7"
  by (simp add: scales_inv_def custom_keys_def)

lemma set_custom_key_ok:
  assumes "scales_inv s" "0 \<le> i" "i < 7"
  shows "\<exists>s'. set_custom_key i k s = Inr s' \<and> scales_inv s' \<and> custom_keys s' = (custom_keys s)[nat i := k] \<and>
    custom_scale s' = custom_scale s \<and> (\<forall>j. j \<noteq> custom_scale s \<longrightarrow> scales s' ! j = scales s ! j)"
proof -
  let ?c = "scales s ! custom_scale s"
  let ?s' = "s \<lparr> scales := (scales s)[custom_scale s := ?c \<lparr> keys := (keys ?c)[nat i := k] \<rparr>] \<rparr>"
  have len: "length (keys ?c) = 7" "custom_scale s < length (scales s)"
    using assms(1) by (auto simp: scales_inv_def)
  then have "set_custom_key i k s = Inr ?s'" using assms(2,3) by (simp add: set_custom_key_def Let_def nat_less_iff)
  moreover have "set (scales ?s') \<subseteq> insert (?c \<lparr> keys := (keys ?c)[nat i := k] \<rparr>) (set (scales s))"
    using set_update_subset_insert by simp
  then have "scales_inv ?s'" using assms(1) len by (auto simp: scales_inv_def)
  ultimately show ?thesis using len by (auto simp: custom_keys_def)
qed

lemma fold_set_custom:
  assumes "scales_inv s" "n \<le> 7" "length ks = 7"
  shows "\<exists>s'. fold (\<lambda>(k, v) acc. rbind acc (set_custom_key k v)) (map (\<lambda>k. (int k, ks ! k)) [0..<n]) (Inr s) = Inr s' \<and>
    scales_inv s' \<and> custom_keys s' = take n ks @ drop n (custom_keys s) \<and> custom_scale s' = custom_scale s \<and>
    (\<forall>j. j \<noteq> custom_scale s \<longrightarrow> scales s' ! j = scales s ! j)"
  using assms(2)
proof (induction n)
  case 0
  then show ?case using assms(1) by simp
next
  case (Suc n)
  then obtain s1 where s1: "fold (\<lambda>(k, v) acc. rbind acc (set_custom_key k v)) (map (\<lambda>k. (int k, ks ! k)) [0..<n]) (Inr s) = Inr s1"
    "scales_inv s1" "custom_keys s1 = take n ks @ drop n (custom_keys s)" "custom_scale s1 = custom_scale s"
    "\<forall>j. j \<noteq> custom_scale s \<longrightarrow> scales s1 ! j = scales s ! j" by auto
  from set_custom_key_ok [OF s1(2), of "int n" "ks ! n"] Suc.prems obtain s2 where s2:
    "set_custom_key (int n) (ks ! n) s1 = Inr s2" "scales_inv s2" "custom_keys s2 = (custom_keys s1)[n := ks ! n]"
    "custom_scale s2 = custom_scale s1" "\<forall>j. j \<noteq> custom_scale s1 \<longrightarrow> scales s2 ! j = scales s1 ! j" by auto
  have len: "length (custom_keys s) = 7" using assms(1) by (rule custom_keys_length)
  have "(take n ks @ drop n (custom_keys s))[n := ks ! n] = take (Suc n) ks @ drop (Suc n) (custom_keys s)"
    using Suc.prems assms(3) len by (simp add: take_Suc_conv_app_nth list_update_append Cons_nth_drop_Suc [symmetric])
  with s1 s2 show ?case by auto
qed

lemma generate_scale_xml_ok:
  assumes "scales_inv s"
  shows "generate_scale_xml s = Inr (map (\<lambda>k. (int k, custom_keys s ! k)) [0..<7])"
  using custom_keys_length [OF assms]
  by (simp add: generate_scale_xml_def index_at_def custom_keys_def upt_rec eval_nat_numeral)

section \<open>Properties\<close>

text \<open>What the name of a scale says: the root, and the major or the natural minor scale over it.\<close>

definition named_root :: "string \<Rightarrow> int" where
  "named_root n =
     (case map_of [(CHR ''C'', 0), (CHR ''D'', 2), (CHR ''E'', 4), (CHR ''F'', 5), (CHR ''G'', 7), (CHR ''A'', 9), (CHR ''B'', 11)] (n ! 0) of
        Some r \<Rightarrow> r | None \<Rightarrow> 0) + (if n ! 1 = CHR ''#'' then 1 else if n ! 1 = CHR ''b'' then -1 else 0)"

definition named_keys :: "string \<Rightarrow> int list" where
  "named_keys n = map ((+) (named_root n)) (if n ! 2 = CHR ''m'' then [0, 2, 3, 5, 7, 8, 10] else [0, 2, 4, 5, 7, 9, 11])"

text \<open>Every standard scale of the library holds, after initialisation, the seven ascending keys
  of the major or natural minor scale its name announces, and the custom scale comes last.\<close>

theorem library_scales_correct:
  "map keys (scales (initialize_scales new_scales)) =
     map (named_keys \<circ> name) (butlast (scales (initialize_scales new_scales))) @ [default_keys] \<and>
   name (scales (initialize_scales new_scales) ! custom_scale (initialize_scales new_scales)) = ''CS1''"
  by code_simp

text \<open>The names a client gets are the names the server has: the reply to \<open>getnames\<close>, sent over the
  wire, is read back as the list of all scale names.\<close>

theorem scale_names_arrive:
  assumes "\<forall>sc \<in> set (scales (initialize_scales s)). scale_valid sc" "get_value ''repid'' msg = Inr rid" "plain rid"
    "length (body_text (map encode_pair [(''id'', show_int MSG_REPLY), (''repid'', rid),
       (''scales'', names_text (scales (initialize_scales s)))])) < 2 ^ 32"
  shows "\<exists>m r. handle_get_scale_names s msg = Inr m \<and> read_message (get_data (encode_message m)) new_message = Inr (r, []) \<and>
    get_scale_names r = Inr (map name (scales (initialize_scales s)))"
proof -
  let ?ss = "scales (initialize_scales s)"
  have pl: "plain (names_text ?ss)"
    unfolding names_text_def
    using assms(1) scale_list.container.ser_nul_free by (intro ser_result_plain) (auto simp: ser_container_def ser_sub_nonempty)
  have k: "plain ''scales''" "''scales'' \<noteq> ''id''" "''scales'' \<noteq> ''repid''"
    by (simp_all add: plain_def has_delim_def nul_free_def)
  from reply_arrives [OF assms(2,3) k(1) pl k(2,3) assms(4)] obtain m r where
    m: "rbind (acquire_reply msg) (set_value ''scales'' (names_text ?ss)) = Inr m"
    "read_message (get_data (encode_message m)) new_message = Inr (r, [])"
    "get_value ''scales'' r = Inr (names_text ?ss)" by blast
  then have "read_reply ''scales'' (deser_container deser_scale_object) r = Inr ?ss"
    using assms(1) by (intro scale_list.container.read_reply_text) (simp_all add: names_text_def)
  with m show ?thesis by (auto simp: handle_get_scale_names_def reply_with_def get_scale_names_def)
qed

lemma default_scale_length:
  assumes "sc = \<lparr> name = ''C- '', keys = default_keys \<rparr>"
  shows "scale_valid sc" "length (names_text [sc]) < 2 ^ 20"
proof -
  have n: "\<forall>k \<in> set default_keys. int_valid k" by (simp add: default_keys_def int_valid_def)
  then have nf: "nul_free (concat (map ser_int default_keys))" using ints.ser_nul_free by simp
  have "length (concat (map ser_int default_keys)) = 43" by code_simp
  then have a: "length (ser_array ser_int default_keys) \<le> 422"
    using ser_sub_length [OF nf, of "''array''"] by (simp add: ser_array_def)
  have st: "length (ser_string ''C- '') = 11" by code_simp
  show v: "scale_valid sc"
    using n by (simp add: scale_valid_def assms string_valid_def keys_valid_def default_keys_def)
  have b: "length (ser_scale sc) \<le> 433" using a st by (simp add: assms ser_scale_def ser_seq_def)
  have c: "length (ser_scale_object sc) \<le> 4000"
    using b ser_sub_length [OF scale_object.body.ser_nul_free [OF v], of "''Scales::Scale''"]
    by (simp add: ser_scale_object_def ser_object_def)
  have "nul_free (ser_scale_object sc)"
    using scale_object.object.ser_nul_free [OF v] by (simp add: ser_scale_object_def)
  then have d: "length (ser_container ser_scale_object [sc]) \<le> 40000" "nul_free (ser_container ser_scale_object [sc])"
    using c ser_sub_length [of "ser_scale_object sc" "''container''"]
    by (simp_all add: ser_container_def ser_sub_nul_free)
  then show "length (names_text [sc]) < 2 ^ 20"
    using encode_string_length [OF d(2)] by (simp add: names_text_def ser_result_def)
qed

theorem scale_names_arrive_witness:
  "\<exists>m r. handle_get_scale_names \<lparr> scales = [\<lparr> name = ''C- '', keys = default_keys \<rparr>], custom_scale = 0, scales_initialized = True \<rparr>
       (new_message \<lparr> key2val := [(''repid'', ''3'')] \<rparr>) = Inr m \<and>
     read_message (get_data (encode_message m)) new_message = Inr (r, []) \<and> get_scale_names r = Inr [''C- '']"
proof -
  let ?s = "\<lparr> scales = [\<lparr> name = ''C- '', keys = default_keys \<rparr>], custom_scale = 0, scales_initialized = True \<rparr>"
  have i: "initialize_scales ?s = ?s" by (simp add: initialize_scales_def)
  note sc = default_scale_length [OF refl]
  have v: "\<forall>sc \<in> set (scales (initialize_scales ?s)). scale_valid sc" unfolding i using sc(1) by simp
  have r: "get_value ''repid'' (new_message \<lparr> key2val := [(''repid'', ''3'')] \<rparr>) = Inr ''3''" "plain ''3''"
    by (simp_all add: get_value_def plain_def has_delim_def nul_free_def)
  have sz: "length (body_text (map encode_pair [(''id'', show_int MSG_REPLY), (''repid'', ''3''),
       (''scales'', names_text (scales (initialize_scales ?s)))])) < 2 ^ 32"
  proof -
    have "nul_free (names_text (scales ?s))" using sc(1) scale_list.container.ser_nul_free [of "scales ?s"]
      by (simp add: names_text_def ser_result_def)
    from encode_string_length [OF this] sc(2) have "length (encode_string (names_text (scales ?s))) < 2 ^ 22" by simp
    moreover have "length (body_text (map encode_pair [(''id'', show_int MSG_REPLY), (''repid'', ''3'')])) = 14" by code_simp
    ultimately show ?thesis unfolding i by (simp add: body_text_def encode_string_chars enc_char_def)
  qed
  from scale_names_arrive [OF v r sz] show ?thesis by (simp add: i)
qed

text \<open>The keys of a scale asked for by name arrive at the client, and the keys asked for by index
  never do: the server writes them as a container and the client reads an array, which fails.\<close>

theorem scale_keys_replies:
  assumes "keys_valid ks" "get_value ''keys'' r = Inr (keys_text ks)" "old \<noteq> []"
  shows "get_scale_keys_by_name r = Inr ks \<and>
    get_scale_keys_by_index old r = Inl (TextError UnexpectedTypeWhenDeserializing)"
proof -
  have v: "\<forall>k \<in> set ks. int_valid k" using assms(1) by (simp add: keys_valid_def)
  have nf: "nul_free (ser_container ser_int ks)" using key_list.container.ser_nul_free [OF v] .
  have "ser_container ser_int ks \<noteq> []" by (simp add: ser_container_def ser_sub_nonempty)
  then have "decode_string (keys_text ks) = Inr (ser_container ser_int ks)"
    using nf by (simp add: keys_text_def ser_result_def decode_encode_string)
  moreover obtain t where "ser_container ser_int ks = ''container'' @ CHR '';'' # t" by (simp add: ser_container_def ser_sub_def)
  moreover have "verify_type ''array'' (istringstream (''container'' @ CHR '';'' # t)) = (Inl UnexpectedTypeWhenDeserializing, istringstream t)" for t
    using getline_field [of "CHR '';''" "''container''" t] by (simp add: verify_type_def istringstream_def)
  ultimately have "get_scale_keys_by_index old r = Inl (TextError UnexpectedTypeWhenDeserializing)"
    using assms(2) by (simp add: get_scale_keys_by_index_def read_reply_def ItemDeserializer_def deser_array_def deser_sub_def)
  moreover have "get_scale_keys_by_name r = Inr ks"
    using v assms(2) by (auto simp: get_scale_keys_by_name_def keys_text_def intro!: key_list.container.read_reply_text)
  ultimately show ?thesis by blast
qed

theorem scale_keys_replies_witness:
  "get_scale_keys_by_name (new_message \<lparr> key2val := [(''keys'', keys_text default_keys)] \<rparr>) = Inr default_keys \<and>
   get_scale_keys_by_index (replicate 7 0) (new_message \<lparr> key2val := [(''keys'', keys_text default_keys)] \<rparr>) =
     Inl (TextError UnexpectedTypeWhenDeserializing)"
  by (rule scale_keys_replies) (simp_all add: keys_valid_def int_valid_def default_keys_def get_value_def)

text \<open>The custom scale survives a project file: reading the elements written for one scales object
  gives the custom scale of any other object the same seven keys and leaves its other scales alone.\<close>

theorem custom_scale_xml_round_trip:
  assumes "scales_inv s" "scales_inv t"
  shows "\<exists>kvs t'. generate_scale_xml s = Inr kvs \<and> parse_scale kvs t = Inr t' \<and> custom_keys t' = custom_keys s \<and>
    (\<forall>j. j \<noteq> custom_scale t \<longrightarrow> scales t' ! j = scales t ! j)"
  using fold_set_custom [OF assms(2) order_refl custom_keys_length [OF assms(1)]] generate_scale_xml_ok [OF assms(1)]
    custom_keys_length [OF assms(1)] custom_keys_length [OF assms(2)]
  by (auto simp: parse_scale_def)

theorem custom_scale_xml_round_trip_witness:
  "\<exists>kvs t'. generate_scale_xml (initialize_scales new_scales) = Inr kvs \<and> parse_scale kvs (initialize_scales new_scales) = Inr t' \<and>
     custom_keys t' = custom_keys (initialize_scales new_scales)"
  using custom_scale_xml_round_trip [OF initialize_scales_inv initialize_scales_inv] by blast

end
