(* ===== verification/Pad_Motion.thy ===== *)
theory Pad_Motion
  imports Arpeggiator Scales
begin

text \<open>
  Pad motions (engine_code/pad.cc, \<open>Pad::PadConfiguration\<close> and \<open>Pad::PadMotion\<close>): what a finger
  drew on the pad, as positions with relative times, and the replay of it as MIDI calls, with a
  single note, a chord or the arpeggiator per position. A motion is a record that extends the
  configuration, as the class inherits it; the arguments named \<open>mem\<close> are the memory an object is
  built in, which members without initialiser keep.
\<close>

section \<open>Ticks\<close>

definition MACHINE_LINE_BITMASK :: int where "MACHINE_LINE_BITMASK = 0xffffff0"
definition MACHINE_TICK_BITMASK :: int where "MACHINE_TICK_BITMASK = 0x000000f"

definition quantize_tick :: "int \<Rightarrow> int" where
  "quantize_tick start_tick =
     (let offset = start_tick AND MACHINE_TICK_BITMASK; new_tick = start_tick AND MACHINE_LINE_BITMASK in
      if offset > drop_bit 1 (push_bit 4 1) then new_tick + push_bit 4 1 else new_tick)"

section \<open>XML elements\<close>

text \<open>An element with numbers as attributes; \<open>KXML_GET_NUMBER\<close> falls back to a default.\<close>

datatype kxml = KXML (xml_attributes: "(string \<times> int) list") (xml_children: "(string \<times> kxml) list")

definition KXML_GET_NUMBER :: "kxml \<Rightarrow> string \<Rightarrow> int \<Rightarrow> int" where
  "KXML_GET_NUMBER e n d = (case map_of (xml_attributes e) n of Some v \<Rightarrow> v | None \<Rightarrow> d)"

definition xml_elements :: "kxml \<Rightarrow> string \<Rightarrow> kxml list" where
  "xml_elements e tag = map snd (filter (\<lambda>p. fst p = tag) (xml_children e))"

section \<open>Configuration\<close>

datatype chord_mode = chord_off | chord_triad | chord_quad

record pad_configuration =
  arp_dir :: arp_direction
  chord_mode :: chord_mode
  cfg_scale :: int
  last_scale :: int
  octave :: int
  arpeggio_pattern :: int
  scale_data :: "int list"
  pad_controller_coarse :: "int list"
  pad_controller_fine :: "int list"

definition new_configuration :: "('a pad_configuration_scheme) \<Rightarrow> arp_direction \<Rightarrow> int \<Rightarrow> int \<Rightarrow> 'a pad_configuration_scheme" where
  "new_configuration mem ad sc oct =
     mem \<lparr> arp_dir := ad, chord_mode := chord_off, cfg_scale := sc, last_scale := -1, octave := oct,
           arpeggio_pattern := 0, pad_controller_coarse := [-1, -1], pad_controller_fine := [-1, -1] \<rparr>"

definition copy_configuration :: "('a pad_configuration_scheme) \<Rightarrow> ('b pad_configuration_scheme) \<Rightarrow> 'a pad_configuration_scheme" where
  "copy_configuration mem parent =
     mem \<lparr> arp_dir := arp_dir parent, chord_mode := chord_mode parent, cfg_scale := cfg_scale parent, last_scale := -1,
           octave := octave parent, arpeggio_pattern := arpeggio_pattern parent,
           pad_controller_coarse := pad_controller_coarse parent, pad_controller_fine := pad_controller_fine parent \<rparr>"

text \<open>\<open>id % 2\<close> is negative for a negative odd number, which is outside the array.\<close>

definition set_coarse_controller :: "int \<Rightarrow> int \<Rightarrow> 'a pad_configuration_scheme \<Rightarrow> 'a pad_configuration_scheme option" where
  "set_coarse_controller i c cfg =
     (if c_mod i 2 < 0 then None else Some (cfg \<lparr> pad_controller_coarse := (pad_controller_coarse cfg)[nat (c_mod i 2) := c] \<rparr>))"

definition set_fine_controller :: "int \<Rightarrow> int \<Rightarrow> 'a pad_configuration_scheme \<Rightarrow> 'a pad_configuration_scheme option" where
  "set_fine_controller i c cfg =
     (if c_mod i 2 < 0 then None else Some (cfg \<lparr> pad_controller_fine := (pad_controller_fine cfg)[nat (c_mod i 2) := c] \<rparr>))"

definition set_arpeggio_direction :: "arp_direction \<Rightarrow> 'a pad_configuration_scheme \<Rightarrow> 'a pad_configuration_scheme" where
  "set_arpeggio_direction d cfg = cfg \<lparr> arp_dir := d \<rparr>"

definition set_arpeggio_pattern :: "int \<Rightarrow> 'a pad_configuration_scheme \<Rightarrow> 'a pad_configuration_scheme" where
  "set_arpeggio_pattern i cfg = cfg \<lparr> arpeggio_pattern := i \<rparr>"

definition set_chord_mode :: "chord_mode \<Rightarrow> 'a pad_configuration_scheme \<Rightarrow> 'a pad_configuration_scheme" where
  "set_chord_mode c cfg = cfg \<lparr> chord_mode := c \<rparr>"

definition set_scale :: "int \<Rightarrow> 'a pad_configuration_scheme \<Rightarrow> 'a pad_configuration_scheme" where
  "set_scale i cfg = cfg \<lparr> cfg_scale := i \<rparr>"

definition set_octave :: "int \<Rightarrow> 'a pad_configuration_scheme \<Rightarrow> 'a pad_configuration_scheme" where
  "set_octave i cfg = cfg \<lparr> octave := i \<rparr>"

fun int_of_direction :: "arp_direction \<Rightarrow> int" where
  "int_of_direction arp_off = 0"
| "int_of_direction arp_forward = 1"
| "int_of_direction arp_reverse = 2"
| "int_of_direction arp_pingpong = 3"

fun int_of_chord :: "chord_mode \<Rightarrow> int" where
  "int_of_chord chord_off = 0"
| "int_of_chord chord_triad = 1"
| "int_of_chord chord_quad = 2"

text \<open>The casts from \<open>int\<close>; a number outside the enumeration has no value here.\<close>

definition direction_of_int :: "int \<Rightarrow> arp_direction option" where
  "direction_of_int i =
     (if i = 0 then Some arp_off else if i = 1 then Some arp_forward else if i = 2 then Some arp_reverse
      else if i = 3 then Some arp_pingpong else None)"

definition chord_of_int :: "int \<Rightarrow> chord_mode option" where
  "chord_of_int i =
     (if i = 0 then Some chord_off else if i = 1 then Some chord_triad else if i = 2 then Some chord_quad else None)"

definition get_configuration_xml :: "'a pad_configuration_scheme \<Rightarrow> kxml" where
  "get_configuration_xml cfg = KXML
     [(''m'', int_of_direction (arp_dir cfg)), (''c'', int_of_chord (chord_mode cfg)), (''s'', cfg_scale cfg),
      (''o'', octave cfg), (''arp'', arpeggio_pattern cfg),
      (''cc'', pad_controller_coarse cfg ! 0), (''cf'', pad_controller_fine cfg ! 0),
      (''czc'', pad_controller_coarse cfg ! 1), (''czf'', pad_controller_fine cfg ! 1)] []"

definition load_configuration_from_xml :: "kxml \<Rightarrow> 'a pad_configuration_scheme \<Rightarrow> 'a pad_configuration_scheme option" where
  "load_configuration_from_xml pad_xml cfg =
     (let c = (case xml_elements pad_xml ''c'' of [] \<Rightarrow> pad_xml | e # _ \<Rightarrow> e) in
      case (direction_of_int (KXML_GET_NUMBER c ''m'' 0), chord_of_int (KXML_GET_NUMBER c ''c'' 0)) of
        (Some ad, Some cm) \<Rightarrow>
          Some (cfg \<lparr> arp_dir := ad, chord_mode := cm, cfg_scale := KXML_GET_NUMBER c ''s'' (cfg_scale cfg),
                      octave := KXML_GET_NUMBER c ''o'' (octave cfg),
                      arpeggio_pattern := KXML_GET_NUMBER c ''arp'' (arpeggio_pattern cfg),
                      pad_controller_coarse := [KXML_GET_NUMBER c ''cc'' (-1), KXML_GET_NUMBER c ''czc'' (-1)],
                      pad_controller_fine := [KXML_GET_NUMBER c ''cf'' (-1), KXML_GET_NUMBER c ''czf'' (-1)] \<rparr>)
      | _ \<Rightarrow> None)"

section \<open>Motions\<close>

definition MAX_PAD_CHORD :: nat where "MAX_PAD_CHORD = 6"

record pad_motion = pad_configuration +
  index :: int
  crnt_tick :: int
  last_chord :: "int list"
  last_x :: int
  mx :: "int list"
  my :: "int list"
  mz :: "int list"
  mt :: "int list"
  arperator :: arpeggiator
  start_tick :: int
  terminated :: bool
  to_be_deleted :: bool
  prev :: "nat option"
  nxt :: "nat option"

definition add_position :: "int \<Rightarrow> int \<Rightarrow> int \<Rightarrow> pad_motion \<Rightarrow> pad_motion" where
  "add_position x y z m =
     (if terminated m then m
      else m \<lparr> mx := mx m @ [x], my := my m @ [y], mz := mz m @ [z], mt := mt m @ [crnt_tick m + 1] \<rparr>)"

text \<open>The members every constructor sets.\<close>

definition blank_motion :: "pad_motion \<Rightarrow> 'a pad_configuration_scheme \<Rightarrow> pad_motion" where
  "blank_motion mem parent =
     (copy_configuration mem parent) \<lparr> index := -1, to_be_deleted := False, prev := None, nxt := None,
        mx := [], my := [], mz := [], mt := [], arperator := new_arpeggiator (finger (arperator mem)),
        last_chord := replicate MAX_PAD_CHORD (-1) \<rparr>"

definition new_motion :: "pad_motion \<Rightarrow> 'a pad_configuration_scheme \<Rightarrow> int \<Rightarrow> int \<Rightarrow> int \<Rightarrow> int \<Rightarrow> pad_motion" where
  "new_motion mem parent session_position x y z =
     add_position x y z
       ((blank_motion mem parent) \<lparr> crnt_tick := -1, start_tick := session_position, terminated := False \<rparr>)"

definition get_padmotion_xml :: "int \<Rightarrow> pad_motion \<Rightarrow> kxml" where
  "get_padmotion_xml f m = KXML [(''f'', f), (''start'', start_tick m)]
     ((''c'', get_configuration_xml m) #
      map (\<lambda>k. (''d'', KXML [(''x'', mx m ! k), (''y'', my m ! k), (''z'', mz m ! k), (''t'', mt m ! k)] [])) [0..<length (mx m)])"

text \<open>Coordinates of old projects: seven coarse and five fine bits become seven and seven.\<close>

definition to_14bit :: "int \<Rightarrow> int" where
  "to_14bit x = push_bit 2 (x AND 0xfe0) OR (x AND 0x1f)"

definition push_position :: "int \<Rightarrow> int \<Rightarrow> int \<Rightarrow> int \<Rightarrow> pad_motion \<Rightarrow> pad_motion" where
  "push_position x y z t m = m \<lparr> mx := mx m @ [x], my := my m @ [y], mz := mz m @ [z], mt := mt m @ [t] \<rparr>"

text \<open>Project level 4 and before: absolute times; \<open>k\<close> is the number of elements read, \<open>off\<close> the start offset.\<close>

fun old_positions :: "kxml list \<Rightarrow> nat \<Rightarrow> int \<Rightarrow> int \<Rightarrow> pad_motion \<Rightarrow> int \<times> pad_motion" where
  "old_positions [] k first_tick off m = (off, m)"
| "old_positions (d # ds) k first_tick off m =
     (let x = to_14bit (KXML_GET_NUMBER d ''x'' (-1)); y = to_14bit (KXML_GET_NUMBER d ''y'' (-1));
          abs_time = KXML_GET_NUMBER d ''t'' (-1);
          at = PAD_TIME_LINE abs_time * MACHINE_TICKS_PER_LINE + PAD_TIME_TICK abs_time;
          ft = (if k = 0 then at else first_tick); t = (if k = 0 then 0 else at - first_tick)
      in old_positions ds (k + 1) ft (if k = 0 then abs_time else off)
           (if 0 \<le> t then push_position x y 0 t m else m))"

definition load_motion_old :: "pad_motion \<Rightarrow> 'a pad_configuration_scheme \<Rightarrow> int \<Rightarrow> kxml \<Rightarrow> (int \<times> pad_motion) option" where
  "load_motion_old mem parent off pad_xml =
     map_option (old_positions (xml_elements pad_xml ''d'') 0 0 off)
       (load_configuration_from_xml pad_xml ((blank_motion mem parent) \<lparr> start_tick := 0, terminated := True \<rparr>))"

definition read_position :: "int \<Rightarrow> kxml \<Rightarrow> pad_motion \<Rightarrow> pad_motion" where
  "read_position level d m =
     (let x = KXML_GET_NUMBER d ''x'' (-1); y = KXML_GET_NUMBER d ''y'' (-1); t = KXML_GET_NUMBER d ''t'' (-1) in
      if level < 8 then push_position (to_14bit x) (to_14bit y) 0 t m
      else push_position x y (KXML_GET_NUMBER d ''z'' 0) t m)"

definition load_motion :: "int \<Rightarrow> pad_motion \<Rightarrow> 'a pad_configuration_scheme \<Rightarrow> kxml \<Rightarrow> pad_motion option" where
  "load_motion level mem parent pad_xml =
     map_option (\<lambda>m. fold (read_position level) (xml_elements pad_xml ''d'')
                       (m \<lparr> start_tick := KXML_GET_NUMBER pad_xml ''start'' (-1) \<rparr>))
       (load_configuration_from_xml pad_xml ((blank_motion mem parent) \<lparr> terminated := True \<rparr>))"

definition quantize_motion :: "pad_motion \<Rightarrow> pad_motion" where
  "quantize_motion m = m \<lparr> start_tick := quantize_tick (start_tick m) \<rparr>"

definition terminate :: "pad_motion \<Rightarrow> pad_motion" where
  "terminate m =
     (let m1 = m \<lparr> terminated := True \<rparr>; last = length (mt m) - 1 in
      if 0 < last \<and> mt m ! 0 = mt m ! last then m1 \<lparr> mt := (mt m)[last := mt m ! last + 1] \<rparr> else m1)"

definition start_motion :: "int \<Rightarrow> pad_motion \<Rightarrow> (unit, bool \<times> pad_motion) result" where
  "start_motion session_position m =
     (if index m = -1 \<and> session_position = start_tick m then
        rbind (set_pattern (arpeggio_pattern m) (set_direction (arp_dir m) (arp_reset (arperator m)))) (\<lambda>a.
          Inr (True, m \<lparr> index := 0, crnt_tick := -1, last_x := -1, arperator := a \<rparr>))
      else Inr (False, m))"

definition reset_motion :: "pad_motion \<Rightarrow> pad_motion" where
  "reset_motion m = m \<lparr> index := -1, crnt_tick := -1, last_x := -1 \<rparr>"

section \<open>Replay\<close>

definition build_chord :: "pad_motion \<Rightarrow> int list \<Rightarrow> nat \<Rightarrow> int list" where
  "build_chord m chord col =
     (let nt = (\<lambda>k. octave m * 12 + scale_data m ! (col + k)) in
      case chord_mode m of
        chord_triad \<Rightarrow> [nt 0, nt 2, nt 4, -1, -1, -1]
      | chord_quad \<Rightarrow> [nt 0, nt 2, nt 4, nt 0 + 12, -1, -1]
      | chord_off \<Rightarrow> chord)"


definition pad_controller_calls :: "int \<Rightarrow> int \<Rightarrow> int \<Rightarrow> int \<Rightarrow> midi_call list" where
  "pad_controller_calls pcc pcf c_c c_f =
     (if pcc AND (NOT 0x7f) = 0
      then Ctrl pcc c_c 0 # (if pcf \<noteq> -1 then [Ctrl pcf c_f 0] else [])
      else if sc_special_first \<le> pcc \<and> pcc = sc_pitch_bend then [PitchBend c_f c_c 0]
      else [])"

fun chord_calls :: "bool \<Rightarrow> int \<Rightarrow> int list \<Rightarrow> int list \<Rightarrow> midi_call list" where
  "chord_calls mute vel (l # ls) (c # cs) =
     (if l \<noteq> c then (if l \<noteq> -1 then [NoteOff l 0x7f 0] else []) @ (if c \<noteq> -1 \<and> \<not> mute then [NoteOn c vel 0] else [])
      else []) @ chord_calls mute vel ls cs"
| "chord_calls mute vel _ _ = []"

fun arp_chord :: "int \<Rightarrow> int list \<Rightarrow> int list \<Rightarrow> arpeggiator \<Rightarrow> int list \<times> arpeggiator" where
  "arp_chord vel (l # ls) (c # cs) a =
     (let a1 = (if l \<noteq> -1 then disable_key l a else a);
          (c', a2) = (if c \<noteq> -1 then enable_key c vel a1 else (c, a1));
          (cs', a3) = arp_chord vel ls cs a2
      in (c' # cs', a3))"
| "arp_chord vel _ cs a = (cs, a)"

definition note_calls :: "bool \<Rightarrow> bool \<Rightarrow> int \<Rightarrow> int \<Rightarrow> pad_motion \<Rightarrow> midi_call list" where
  "note_calls mute playing nt vel m =
     (if \<not> to_be_deleted m \<and> last_x m \<noteq> nt then
        (if \<not> mute \<and> playing then [NoteOn nt vel 0] else []) @
        (if last_x m \<noteq> -1 then [NoteOff (last_x m) 0x7f 0] else [])
      else if to_be_deleted m \<or> \<not> playing then [NoteOff (last_x m) 0x7f 0]
      else [])"

definition note_keys :: "bool \<Rightarrow> int \<Rightarrow> int \<Rightarrow> pad_motion \<Rightarrow> int \<times> arpeggiator" where
  "note_keys playing nt vel m =
     (if \<not> to_be_deleted m then
        let a1 = (if last_x m \<noteq> -1 then disable_key (last_x m) (arperator m) else arperator m) in
        if playing then enable_key nt vel a1 else (nt, a1)
      else (nt, disable_key (last_x m) (arperator m)))"

datatype motion_error = ScaleDataOutOfBounds | NoSuchScale | IndexOutOfBounds

text \<open>One iteration of the loop over the positions that are due; \<open>playing\<close> is the test
  \<open>(!terminated) || (index < (max - 1))\<close>.\<close>

definition play_position :: "bool \<Rightarrow> pad_motion \<Rightarrow> (motion_error, midi_call list \<times> pad_motion) result" where
  "play_position mute m =
     (let i = nat (index m); col = drop_bit 4 (drop_bit 7 (mx m ! i));
          playing = (\<not> terminated m \<or> index m < int (length (mx m)) - 1);
          want_chord = (\<not> to_be_deleted m \<and> chord_mode m \<noteq> chord_off \<and> playing)
      in if col < 0 \<or> int (length (scale_data m)) \<le> col + (if want_chord then 4 else 0) then Inl ScaleDataOutOfBounds
      else
        let nt = octave m * 12 + scale_data m ! nat col;
            chord = (if want_chord then build_chord m (replicate MAX_PAD_CHORD (-1)) (nat col) else replicate MAX_PAD_CHORD (-1));
            c_cy = drop_bit 7 (my m ! i); c_cz = drop_bit 7 (mz m ! i);
            c_fy = my m ! i AND 0x7f; c_fz = mz m ! i AND 0x7f;
            vel = (if pad_controller_coarse m ! 0 = -1 then c_cy else 0x7f);
            ctrls = pad_controller_calls (pad_controller_coarse m ! 0) (pad_controller_fine m ! 0) c_cy c_fy @
                    pad_controller_calls (pad_controller_coarse m ! 1) (pad_controller_fine m ! 1) c_cz c_fz;
            (notes, chord', nt', a) =
              (if arp_dir m = arp_off then
                 (if chord_mode m \<noteq> chord_off then chord_calls mute vel (last_chord m) chord
                  else note_calls mute playing nt vel m, chord, nt, arperator m)
               else if chord_mode m \<noteq> chord_off then
                 (case arp_chord vel (last_chord m) chord (arperator m) of (cs, a) \<Rightarrow> ([], cs, nt, a))
               else (case note_keys playing nt vel m of (nt', a) \<Rightarrow> ([], chord, nt', a)))
        in Inr (ctrls @ notes,
                m \<lparr> arperator := a, last_chord := chord', last_x := nt', index := index m + 1 \<rparr>))"

text \<open>The loop; the number bounds the iterations by the positions left.\<close>

fun motion_loop :: "nat \<Rightarrow> bool \<Rightarrow> pad_motion \<Rightarrow> (motion_error, midi_call list \<times> pad_motion) result" where
  "motion_loop 0 mute m = Inr ([], m)"
| "motion_loop (Suc n) mute m =
     (if index m < int (length (mx m)) \<and> mt m ! nat (index m) \<le> crnt_tick m then
        rbind (play_position mute m) (\<lambda>(cs, m1). rbind (motion_loop n mute m1) (\<lambda>(ds, m2). Inr (cs @ ds, m2)))
      else Inr ([], m))"

definition def_scale_data :: "int list" where
  "def_scale_data = [0, 2, 4, 5, 7, 9, 11, 12, 14, 16, 17, 19, 21, 23, 24, 26, 28, 29, 31, 33, 35]"

definition load_scale :: "scales_object option \<Rightarrow> pad_motion \<Rightarrow> (motion_error, pad_motion) result" where
  "load_scale scalo m =
     (if cfg_scale m = last_scale m then Inr m
      else let m1 = m \<lparr> last_scale := cfg_scale m \<rparr> in
        case scalo of
          None \<Rightarrow> Inr (m1 \<lparr> scale_data := def_scale_data \<rparr>)
        | Some s \<Rightarrow>
            (case get_scale_keys_server False s (cfg_scale m) of
               Inl e \<Rightarrow> Inl NoSuchScale
             | Inr ks \<Rightarrow> Inr (m1 \<lparr> scale_data := ks @ map (\<lambda>k. k + 12) ks @ map (\<lambda>k. k + 24) ks \<rparr>)))"

definition process_motion ::
  "scales_object option \<Rightarrow> bool \<Rightarrow> pad_motion \<Rightarrow> (motion_error, bool \<times> midi_call list \<times> pad_motion) result" where
  "process_motion scalo mute m =
     (if terminated m \<and> int (length (mx m)) \<le> index m then
        (case process_pattern mute (arperator m) of (cs, a) \<Rightarrow>
           Inr (True, cs, m \<lparr> index := -1, arperator := a \<rparr>))
      else if index m < 0 then Inl IndexOutOfBounds
      else
        rbind (load_scale scalo (m \<lparr> crnt_tick := crnt_tick m + 1 \<rparr>)) (\<lambda>m1.
        rbind (motion_loop (length (mx m1) - nat (index m1)) mute m1) (\<lambda>(cs, m2).
          case process_pattern mute (arperator m2) of (ds, a) \<Rightarrow>
            Inr (False, cs @ ds, m2 \<lparr> arperator := a \<rparr>))))"


section \<open>Bit fields\<close>

lemma and_push_bit: "(a :: int) AND push_bit n b = push_bit n (drop_bit n a AND b)"
  by (rule bit_eqI) (auto simp: bit_simps)

lemma quantize_tick_arith:
  assumes "0 \<le> t" "t < 2 ^ 28"
  shows "quantize_tick t = (if 8 < t mod 16 then 16 * (t div 16) + 16 else 16 * (t div 16))"
proof -
  have 1: "t AND MACHINE_TICK_BITMASK = t mod 16"
  proof -
    have "t AND 0x000000f = take_bit 4 t" by (simp add: take_bit_eq_mask mask_eq_exp_minus_1)
    then show ?thesis unfolding MACHINE_TICK_BITMASK_def by (simp add: take_bit_eq_mod)
  qed
  have 2: "t AND MACHINE_LINE_BITMASK = 16 * (t div 16)"
  proof -
    have "t AND 0xffffff0 = t AND push_bit 4 (mask 24)" by (simp add: mask_eq_exp_minus_1 push_bit_eq_mult)
    also have "\<dots> = push_bit 4 (drop_bit 4 t AND mask 24)" by (rule and_push_bit)
    also have "drop_bit 4 t AND mask 24 = t div 16"
    proof -
      have "t div 16 < 2 ^ 24" using assms by (simp add: div_less_iff_less_mult)
      then show ?thesis using assms(1) by (simp add: drop_bit_eq_div flip: take_bit_eq_mask) (simp add: take_bit_eq_mod)
    qed
    finally show ?thesis unfolding MACHINE_LINE_BITMASK_def by (simp add: push_bit_eq_mult)
  qed
  show ?thesis unfolding quantize_tick_def Let_def 1 2 by (simp add: push_bit_eq_mult drop_bit_eq_div)
qed

lemma to_14bit_coarse:
  assumes "0 \<le> x" "x < 2 ^ 12"
  shows "0 \<le> to_14bit x" "to_14bit x < 2 ^ 14" "drop_bit 7 (to_14bit x) = drop_bit 5 x" "to_14bit x AND 0x7f = x AND 0x1f"
proof -
  have m: "(0xfe0 :: int) = push_bit 5 (mask 7)" "(0x1f :: int) = mask 5" "(0x7f :: int) = mask 7"
    by (simp_all add: mask_eq_exp_minus_1 push_bit_eq_mult)
  have d: "drop_bit 5 x AND mask 7 = drop_bit 5 x"
  proof -
    have "drop_bit 5 x < 2 ^ 7" using assms by (simp add: drop_bit_eq_div div_less_iff_less_mult)
    then show ?thesis using assms(1) by (simp flip: take_bit_eq_mask) (simp add: take_bit_eq_mod)
  qed
  have t: "to_14bit x = push_bit 7 (drop_bit 5 x) OR (x AND mask 5)"
    unfolding to_14bit_def m and_push_bit d by simp
  show "drop_bit 7 (to_14bit x) = drop_bit 5 x"
    unfolding t by (rule bit_eqI) (auto simp: bit_simps)
  then have "to_14bit x div 128 = x div 32" by (simp add: drop_bit_eq_div)
  then show "to_14bit x < 2 ^ 14" using assms by simp presburger
  show "0 \<le> to_14bit x" unfolding t using assms(1) by simp
  show "to_14bit x AND 0x7f = x AND 0x1f"
    unfolding t m by (rule bit_eqI) (auto simp: bit_simps)
qed

section \<open>The arpeggiator under a motion\<close>

lemma disable_key_frame [simp]:
  "direction (disable_key ky a) = direction a" "current_pattern (disable_key ky a) = current_pattern a"
  "believed (disable_key ky a) = believed a"
  by (simp_all add: disable_key_def believed_def Let_def split: option.splits)

lemma enable_key_frame [simp]:
  "direction (snd (enable_key ky vel a)) = direction a" "current_pattern (snd (enable_key ky vel a)) = current_pattern a"
  "believed (snd (enable_key ky vel a)) = believed a"
  by (simp_all add: enable_key_def believed_def split: option.splits)

lemma run_phase_frame:
  "direction (snd (run_phase mute pat a)) = direction a" "current_pattern (snd (run_phase mute pat a)) = current_pattern a"
  "finger (snd (run_phase mute pat a)) = finger a" "finger_count (snd (run_phase mute pat a)) = finger_count a"
  by (auto simp: run_phase_def phase0_def advance_finger_def Let_def split: arp_direction.split)

lemma process_pattern_frame [simp]:
  "direction (snd (process_pattern mute a)) = direction a"
  "current_pattern (snd (process_pattern mute a)) = current_pattern a"
  "held (snd (process_pattern mute a)) = held a"
proof -
  have "direction (snd (process_pattern mute a)) = direction a \<and>
     current_pattern (snd (process_pattern mute a)) = current_pattern a \<and> held (snd (process_pattern mute a)) = held a"
  proof (cases rule: process_pattern_cases [of mute a])
    case (run pat off b)
    then show ?thesis by (simp add: run_phase_frame held_def)
  qed simp
  then show "direction (snd (process_pattern mute a)) = direction a"
    "current_pattern (snd (process_pattern mute a)) = current_pattern a" "held (snd (process_pattern mute a)) = held a"
    by blast+
qed

lemma held_empty_count: "arp_inv a \<Longrightarrow> held a = [] \<Longrightarrow> finger_count a = 0"
  by (auto simp: held_def held_of_def arp_inv_def MAX_ARP_FINGERS_def)

lemma disable_only_key:
  "arp_inv a \<Longrightarrow> held a = [] \<or> held a = [(ky, 1)] \<Longrightarrow> held (disable_key ky a) = []"
  by (auto simp: disable_key_held map_erase_def)

lemma enable_first_key:
  assumes "arp_inv a" "held a = []"
  shows "fst (enable_key ky vel a) = ky" "held (snd (enable_key ky vel a)) = [(ky, 1)]" "arp_inv (snd (enable_key ky vel a))"
proof -
  obtain r a' where e: "enable_key ky vel a = (r, a')" by fastforce
  from enable_key_held [OF assms(1) e] assms(2) e
  show "fst (enable_key ky vel a) = ky" "held (snd (enable_key ky vel a)) = [(ky, 1)]" "arp_inv (snd (enable_key ky vel a))"
    by (simp_all add: MAX_ARP_FINGERS_def)
qed


section \<open>Motions that play one note at a time\<close>

definition finished :: "pad_motion \<Rightarrow> bool" where
  "finished m \<longleftrightarrow> terminated m \<and> index m = int (length (mx m))"

definition data_ok :: "int list \<Rightarrow> bool" where
  "data_ok ks \<longleftrightarrow> length ks = 21 \<and> (\<forall>k \<in> set ks. 0 \<le> k)"

definition positions_ok :: "pad_motion \<Rightarrow> bool" where
  "positions_ok m \<longleftrightarrow> length (my m) = length (mx m) \<and> length (mz m) = length (mx m) \<and> length (mt m) = length (mx m) \<and>
     (\<forall>x \<in> set (mx m). 0 \<le> x \<and> x < 2 ^ 14)"

definition arp_ready :: "pad_motion \<Rightarrow> bool" where
  "arp_ready m \<longleftrightarrow> arp_inv (arperator m) \<and> direction (arperator m) = arp_dir m \<and>
     current_pattern (arperator m) \<noteq> Some [] \<and>
     (arp_dir m = arp_off \<or> current_pattern (arperator m) = None \<longrightarrow> believed (arperator m) = {}) \<and>
     (arp_dir m \<noteq> arp_off \<longrightarrow> held (arperator m) = [] \<or>
        held (arperator m) = [(last_x m, 1)] \<and> last_x m \<noteq> -1 \<and> \<not> finished m)"

definition motion_inv :: "pad_motion \<Rightarrow> bool" where
  "motion_inv m \<longleftrightarrow> positions_ok m \<and> chord_mode m = chord_off \<and> 0 \<le> octave m \<and>
     (cfg_scale m \<noteq> last_scale m \<or> data_ok (scale_data m)) \<and> 0 \<le> index m \<and> index m \<le> int (length (mx m)) \<and> arp_ready m"

text \<open>The note that may sound.\<close>

definition motion_sounds :: "pad_motion \<Rightarrow> int set" where
  "motion_sounds m =
     (if arp_dir m \<noteq> arp_off then believed (arperator m)
      else if last_x m = -1 \<or> finished m then {} else {last_x m})"

text \<open>The scale of the motion exists and its keys are not negative.\<close>

definition scale_fits :: "scales_object option \<Rightarrow> int \<Rightarrow> bool" where
  "scale_fits scalo i \<longleftrightarrow> (case scalo of None \<Rightarrow> True
     | Some s \<Rightarrow> 0 \<le> i \<and> nat i < length (scales s) \<and> length (keys (scales s ! nat i)) = 7 \<and>
         (\<forall>k \<in> set (keys (scales s ! nat i)). 0 \<le> k))"

lemma load_scale_ok:
  assumes "motion_inv m" "scale_fits scalo (cfg_scale m)"
  shows "\<exists>m'. load_scale scalo m = Inr m' \<and> motion_inv m' \<and> data_ok (scale_data m') \<and> motion_sounds m' = motion_sounds m \<and>
    mx m' = mx m \<and> mt m' = mt m \<and> index m' = index m \<and> crnt_tick m' = crnt_tick m \<and> terminated m' = terminated m \<and>
    cfg_scale m' = cfg_scale m"
proof (cases "cfg_scale m = last_scale m")
  case True
  then show ?thesis using assms(1) by (simp add: load_scale_def motion_inv_def)
next
  case False
  have "\<exists>ks. load_scale scalo m = Inr (m \<lparr> last_scale := cfg_scale m, scale_data := ks \<rparr>) \<and> data_ok ks"
  proof (cases scalo)
    case None
    then show ?thesis using False
      by (intro exI [of _ def_scale_data]) (simp add: load_scale_def data_ok_def def_scale_data_def)
  next
    case (Some s)
    let ?ks = "keys (scales s ! nat (cfg_scale m))"
    show ?thesis using Some False assms(2)
      by (intro exI [of _ "?ks @ map (\<lambda>k. k + 12) ?ks @ map (\<lambda>k. k + 24) ?ks"])
        (auto simp: load_scale_def scale_fits_def get_scale_keys_server_def index_at_def data_ok_def)
  qed
  then obtain ks where "load_scale scalo m = Inr (m \<lparr> last_scale := cfg_scale m, scale_data := ks \<rparr>)" "data_ok ks" by blast
  then show ?thesis using assms(1)
    by (simp add: motion_inv_def positions_ok_def arp_ready_def finished_def motion_sounds_def)
qed

lemma sounding_controllers [simp]: "sounding (pad_controller_calls pcc pcf c f) S = S"
  by (simp add: pad_controller_calls_def)

lemma column_bound:
  assumes "0 \<le> x" "x < 2 ^ 14"
  shows "0 \<le> drop_bit 4 (drop_bit 7 x)" "drop_bit 4 (drop_bit 7 x) < (8 :: int)"
proof -
  have "drop_bit 4 (drop_bit 7 x) = x div 2048" by (simp add: drop_bit_eq_div zdiv_zmult2_eq [symmetric])
  then show "0 \<le> drop_bit 4 (drop_bit 7 x)" "drop_bit 4 (drop_bit 7 x) < (8 :: int)"
    using assms by (simp_all add: div_less_iff_less_mult)
qed

text \<open>What a position does, for a motion without chords.\<close>

lemma play_position_single:
  assumes "motion_inv m" "data_ok (scale_data m)" "index m < int (length (mx m))"
  obtains nt vel ctrls playing where "0 \<le> nt" "playing = (\<not> terminated m \<or> index m < int (length (mx m)) - 1)"
    "\<And>S. sounding ctrls S = S"
    "play_position mute m = Inr (ctrls @ (if arp_dir m = arp_off then note_calls mute playing nt vel m else []),
      m \<lparr> arperator := (if arp_dir m = arp_off then arperator m else snd (note_keys playing nt vel m)),
          last_chord := replicate MAX_PAD_CHORD (-1),
          last_x := (if arp_dir m = arp_off then nt else fst (note_keys playing nt vel m)), index := index m + 1 \<rparr>)"
proof -
  define i where "i = nat (index m)"
  define playing where "playing = (\<not> terminated m \<or> index m < int (length (mx m)) - 1)"
  define col where "col = drop_bit 4 (drop_bit 7 (mx m ! i))"
  have il: "i < length (mx m)" using assms(1,3) by (simp add: i_def motion_inv_def nat_less_iff)
  then have "mx m ! i \<in> set (mx m)" by simp
  then have col: "0 \<le> col" "col < 8"
    using assms(1) column_bound unfolding col_def motion_inv_def positions_ok_def by blast+
  define nt where "nt = octave m * 12 + scale_data m ! nat col"
  define vel where "vel = (if pad_controller_coarse m ! 0 = -1 then drop_bit 7 (my m ! i) else 0x7f)"
  define ctrls where "ctrls = pad_controller_calls (pad_controller_coarse m ! 0) (pad_controller_fine m ! 0)
      (drop_bit 7 (my m ! i)) (my m ! i AND 0x7f) @
    pad_controller_calls (pad_controller_coarse m ! 1) (pad_controller_fine m ! 1)
      (drop_bit 7 (mz m ! i)) (mz m ! i AND 0x7f)"
  have "scale_data m ! nat col \<in> set (scale_data m)" using col assms(2) by (simp add: data_ok_def)
  then have "0 \<le> nt" using assms(1,2) by (simp add: nt_def data_ok_def motion_inv_def)
  moreover have "sounding ctrls S = S" for S by (simp add: ctrls_def)
  moreover have "chord_mode m = chord_off" using assms(1) by (simp add: motion_inv_def)
  then have "play_position mute m = Inr (ctrls @ (if arp_dir m = arp_off then note_calls mute playing nt vel m else []),
      m \<lparr> arperator := (if arp_dir m = arp_off then arperator m else snd (note_keys playing nt vel m)),
          last_chord := replicate MAX_PAD_CHORD (-1),
          last_x := (if arp_dir m = arp_off then nt else fst (note_keys playing nt vel m)), index := index m + 1 \<rparr>)"
    using col assms(2) unfolding play_position_def Let_def i_def [symmetric] col_def [symmetric] playing_def [symmetric]
    by (simp add: data_ok_def nt_def vel_def ctrls_def case_prod_beta)
  ultimately show thesis using that playing_def by blast
qed


text \<open>The keys a position leaves held.\<close>

lemma note_keys_held:
  assumes "arp_inv (arperator m)" "0 \<le> nt"
    "held (arperator m) = [] \<or> held (arperator m) = [(last_x m, 1)] \<and> last_x m \<noteq> -1"
  shows "arp_inv (snd (note_keys playing nt vel m)) \<and> fst (note_keys playing nt vel m) = nt \<and>
    (held (snd (note_keys playing nt vel m)) = [] \<or> held (snd (note_keys playing nt vel m)) = [(nt, 1)] \<and> playing)"
proof -
  let ?a1 = "if last_x m \<noteq> -1 then disable_key (last_x m) (arperator m) else arperator m"
  have a1: "arp_inv ?a1" "held ?a1 = []"
    using assms(1,3) disable_key_held(1) disable_only_key [of "arperator m" "last_x m"] by auto
  have tbd: "arp_inv (disable_key (last_x m) (arperator m))" "held (disable_key (last_x m) (arperator m)) = []"
    using assms(1,3) disable_key_held(1) disable_only_key [of "arperator m" "last_x m"] by auto
  show ?thesis
    unfolding note_keys_def Let_def using enable_first_key [OF a1] a1 tbd by auto
qed

lemma note_keys_frame [simp]:
  "direction (snd (note_keys playing nt vel m)) = direction (arperator m)"
  "current_pattern (snd (note_keys playing nt vel m)) = current_pattern (arperator m)"
  "believed (snd (note_keys playing nt vel m)) = believed (arperator m)"
  by (simp_all add: note_keys_def Let_def)

lemma note_calls_sounds:
  assumes "S \<subseteq> (if last_x m = -1 then {} else {last_x m})"
  shows "sounding (note_calls mute playing nt vel m) S \<subseteq> (if playing then {nt} else {})"
  using assms by (auto simp: note_calls_def split: if_splits)

lemma play_position_inv:
  assumes "motion_inv m" "data_ok (scale_data m)" "index m < int (length (mx m))" "S \<subseteq> motion_sounds m"
  shows "\<exists>cs m'. play_position mute m = Inr (cs, m') \<and> motion_inv m' \<and> scale_data m' = scale_data m \<and>
    sounding cs S \<subseteq> motion_sounds m' \<and> mx m' = mx m \<and> mt m' = mt m \<and> index m' = index m + 1 \<and>
    crnt_tick m' = crnt_tick m \<and> terminated m' = terminated m \<and> cfg_scale m' = cfg_scale m"
proof (rule play_position_single [OF assms(1-3)])
  fix nt vel ctrls playing
  assume nt: "0 \<le> nt" and pl: "playing = (\<not> terminated m \<or> index m < int (length (mx m)) - 1)"
    and ctrls: "\<And>S. sounding ctrls S = S"
    and pp: "play_position mute m = Inr (ctrls @ (if arp_dir m = arp_off then note_calls mute playing nt vel m else []),
      m \<lparr> arperator := (if arp_dir m = arp_off then arperator m else snd (note_keys playing nt vel m)),
          last_chord := replicate MAX_PAD_CHORD (-1),
          last_x := (if arp_dir m = arp_off then nt else fst (note_keys playing nt vel m)), index := index m + 1 \<rparr>)"
  have nfin: "\<not> finished m" using assms(3) by (simp add: finished_def)
  show ?thesis
  proof (cases "arp_dir m = arp_off")
    case True
    let ?m' = "m \<lparr> last_chord := replicate MAX_PAD_CHORD (-1), last_x := nt, index := index m + 1 \<rparr>"
    have fin: "finished ?m' \<longleftrightarrow> \<not> playing" using pl assms(3) by (auto simp: finished_def)
    have "S \<subseteq> (if last_x m = -1 then {} else {last_x m})" using assms(4) True nfin by (simp add: motion_sounds_def)
    from note_calls_sounds [OF this, of mute playing nt vel] have "sounding (note_calls mute playing nt vel m) S \<subseteq> motion_sounds ?m'"
      using True nt fin by (cases playing) (simp_all add: motion_sounds_def)
    moreover have "motion_inv ?m'"
      using assms(1,3) True by (auto simp: motion_inv_def positions_ok_def arp_ready_def)
    ultimately show ?thesis using pp True ctrls by simp
  next
    case False
    let ?a = "snd (note_keys playing nt vel m)"
    let ?m' = "m \<lparr> arperator := ?a, last_chord := replicate MAX_PAD_CHORD (-1), last_x := nt, index := index m + 1 \<rparr>"
    have r: "arp_ready m" using assms(1) by (simp add: motion_inv_def)
    have "held (arperator m) = [] \<or> held (arperator m) = [(last_x m, 1)] \<and> last_x m \<noteq> -1" "arp_inv (arperator m)"
      using r False unfolding arp_ready_def by blast+
    then have k: "arp_inv ?a \<and> fst (note_keys playing nt vel m) = nt \<and> (held ?a = [] \<or> held ?a = [(nt, 1)] \<and> playing)"
      using nt by (intro note_keys_held)
    have "finished ?m' \<longleftrightarrow> \<not> playing" using pl assms(3) by (auto simp: finished_def)
    then have "held ?a = [] \<or> held ?a = [(nt, 1)] \<and> nt \<noteq> -1 \<and> \<not> finished ?m'" using k nt by simp
    with k r False have "arp_ready ?m'" by (simp add: arp_ready_def)
    then have "motion_inv ?m'" using assms(1,3) by (auto simp: motion_inv_def positions_ok_def)
    moreover have "motion_sounds ?m' = motion_sounds m" using False by (simp add: motion_sounds_def)
    ultimately show ?thesis using pp False ctrls k assms(4) by simp
  qed
qed

lemma motion_loop_inv:
  assumes "motion_inv m" "data_ok (scale_data m)" "S \<subseteq> motion_sounds m"
  shows "\<exists>cs m'. motion_loop n mute m = Inr (cs, m') \<and> motion_inv m' \<and> scale_data m' = scale_data m \<and>
    sounding cs S \<subseteq> motion_sounds m' \<and> mx m' = mx m \<and> mt m' = mt m \<and> index m \<le> index m' \<and>
    crnt_tick m' = crnt_tick m \<and> terminated m' = terminated m \<and> cfg_scale m' = cfg_scale m \<and>
    (length (mx m) \<le> n + nat (index m) \<longrightarrow> (\<forall>t \<in> set (mt m). t \<le> crnt_tick m) \<longrightarrow> index m' = int (length (mx m)))"
  using assms
proof (induction n arbitrary: m S)
  case 0
  then show ?case by (auto simp: motion_inv_def)
next
  case (Suc n)
  show ?case
  proof (cases "index m < int (length (mx m)) \<and> mt m ! nat (index m) \<le> crnt_tick m")
    case False
    have i: "0 \<le> index m" "index m \<le> int (length (mx m))" "length (mt m) = length (mx m)"
      using Suc.prems(1) by (auto simp: motion_inv_def positions_ok_def)
    have "index m = int (length (mx m))" if "\<forall>t \<in> set (mt m). t \<le> crnt_tick m"
    proof (rule ccontr)
      assume "index m \<noteq> int (length (mx m))"
      then have "nat (index m) < length (mt m)" using i by (simp add: nat_less_iff)
      then have "mt m ! nat (index m) \<le> crnt_tick m" using that by simp
      with False i \<open>index m \<noteq> int (length (mx m))\<close> show False by simp
    qed
    with False Suc.prems show ?thesis by auto
  next
    case True
    from play_position_inv [OF Suc.prems(1,2) conjunct1 [OF True] Suc.prems(3), of mute] obtain cs m1 where
      m1: "play_position mute m = Inr (cs, m1)" "motion_inv m1" "scale_data m1 = scale_data m"
      "sounding cs S \<subseteq> motion_sounds m1" "mx m1 = mx m" "mt m1 = mt m" "index m1 = index m + 1"
      "crnt_tick m1 = crnt_tick m" "terminated m1 = terminated m" "cfg_scale m1 = cfg_scale m" by blast
    have "data_ok (scale_data m1)" using Suc.prems(2) m1(3) by simp
    from Suc.IH [OF m1(2) this m1(4)] obtain ds m2 where
      m2: "motion_loop n mute m1 = Inr (ds, m2)" "motion_inv m2" "scale_data m2 = scale_data m1"
      "sounding ds (sounding cs S) \<subseteq> motion_sounds m2" "mx m2 = mx m1" "mt m2 = mt m1" "index m1 \<le> index m2"
      "crnt_tick m2 = crnt_tick m1" "terminated m2 = terminated m1" "cfg_scale m2 = cfg_scale m1"
      "length (mx m1) \<le> n + nat (index m1) \<longrightarrow> (\<forall>t \<in> set (mt m1). t \<le> crnt_tick m1) \<longrightarrow> index m2 = int (length (mx m1))"
      by blast
    have "0 \<le> index m" using Suc.prems(1) by (simp add: motion_inv_def)
    then have "nat (index m1) = Suc (nat (index m))" using m1(7) by simp
    with m1 m2 True show ?thesis by auto
  qed
qed


lemma process_motion_inv:
  assumes "motion_inv m" "scale_fits scalo (cfg_scale m)" "S \<subseteq> motion_sounds m" "\<not> (terminated m \<and> int (length (mx m)) \<le> index m)"
  shows "\<exists>cs m'. process_motion scalo mute m = Inr (False, cs, m') \<and> motion_inv m' \<and> sounding cs S \<subseteq> motion_sounds m' \<and>
    mx m' = mx m \<and> mt m' = mt m \<and> crnt_tick m' = crnt_tick m + 1 \<and> terminated m' = terminated m \<and> cfg_scale m' = cfg_scale m \<and>
    ((\<forall>t \<in> set (mt m). t \<le> crnt_tick m + 1) \<longrightarrow> index m' = int (length (mx m)))"
proof -
  let ?m0 = "m \<lparr> crnt_tick := crnt_tick m + 1 \<rparr>"
  have i0: "motion_inv ?m0" "motion_sounds ?m0 = motion_sounds m"
    using assms(1) by (simp_all add: motion_inv_def positions_ok_def arp_ready_def finished_def motion_sounds_def)
  obtain m1 where m1: "load_scale scalo ?m0 = Inr m1" "motion_inv m1" "data_ok (scale_data m1)" "motion_sounds m1 = motion_sounds m"
    "mx m1 = mx m" "mt m1 = mt m" "index m1 = index m" "crnt_tick m1 = crnt_tick m + 1" "terminated m1 = terminated m"
    "cfg_scale m1 = cfg_scale m"
    using load_scale_ok [OF i0(1), of scalo] assms(2) i0(2) by auto
  have S1: "S \<subseteq> motion_sounds m1" using assms(3) m1(4) by simp
  from motion_loop_inv [OF m1(2,3) S1, of "length (mx m1) - nat (index m1)" mute] obtain cs m2 where
    m2: "motion_loop (length (mx m1) - nat (index m1)) mute m1 = Inr (cs, m2)" "motion_inv m2"
    "sounding cs S \<subseteq> motion_sounds m2" "mx m2 = mx m1" "mt m2 = mt m1"
    "crnt_tick m2 = crnt_tick m1" "terminated m2 = terminated m1" "cfg_scale m2 = cfg_scale m1"
    "(\<forall>t \<in> set (mt m1). t \<le> crnt_tick m1) \<longrightarrow> index m2 = int (length (mx m1))" by auto
  let ?a = "snd (process_pattern mute (arperator m2))"
  let ?ds = "fst (process_pattern mute (arperator m2))"
  let ?m3 = "m2 \<lparr> arperator := ?a \<rparr>"
  have r2: "arp_ready m2" using m2(2) by (simp add: motion_inv_def)
  have idle: "?ds = [] \<and> ?a = arperator m2" if "arp_dir m2 = arp_off \<or> current_pattern (arperator m2) = None"
    using that r2 by (auto simp: arp_ready_def process_pattern_def split: option.split)
  have "arp_inv ?a" using r2 process_pattern_inv by (simp add: arp_ready_def)
  then have r3: "arp_ready ?m3"
    using r2 idle unfolding arp_ready_def by (simp add: finished_def)
  then have i3: "motion_inv ?m3" using m2(2) by (simp add: motion_inv_def positions_ok_def)
  have "sounding (cs @ ?ds) S \<subseteq> motion_sounds ?m3"
  proof (cases "arp_dir m2 = arp_off")
    case True
    then have "?ds = []" "motion_sounds ?m3 = motion_sounds m2" using idle by (simp_all add: motion_sounds_def finished_def)
    with m2(3) show ?thesis by simp
  next
    case False
    then have "sounding cs S \<subseteq> believed (arperator m2)" using m2(3) by (simp add: motion_sounds_def)
    from process_pattern_believed [OF this, of mute] False show ?thesis by (simp add: motion_sounds_def)
  qed
  moreover have "process_motion scalo mute m = Inr (False, cs @ ?ds, ?m3)"
    using assms(1,4) m1(1) m2(1) by (simp add: process_motion_def motion_inv_def case_prod_beta)
  ultimately show ?thesis using i3 m1 m2 by simp
qed

text \<open>The last call of a finished motion leaves silence.\<close>

lemma process_motion_end:
  assumes "motion_inv m" "S \<subseteq> motion_sounds m" "terminated m" "int (length (mx m)) \<le> index m"
  shows "\<exists>cs m'. process_motion scalo mute m = Inr (True, cs, m') \<and> sounding cs S = {}"
proof -
  have fin: "finished m" using assms by (simp add: finished_def motion_inv_def)
  have r: "arp_ready m" using assms(1) by (simp add: motion_inv_def)
  have "sounding (fst (process_pattern mute (arperator m))) S = {}"
  proof (cases "arp_dir m = arp_off \<or> current_pattern (arperator m) = None")
    case True
    then have "fst (process_pattern mute (arperator m)) = []"
      using r by (auto simp: arp_ready_def process_pattern_def split: option.split)
    moreover have "motion_sounds m = {}" using True r fin by (auto simp: motion_sounds_def arp_ready_def)
    ultimately show ?thesis using assms(2) by simp
  next
    case False
    then obtain pat where pat: "current_pattern (arperator m) = Some pat" by auto
    have "held (arperator m) = []" "arp_inv (arperator m)" using r fin False by (auto simp: arp_ready_def)
    then have "finger_count (arperator m) = 0" by (intro held_empty_count)
    then show ?thesis
      using r False assms(2) pat by (intro tick_silences [OF pat]) (auto simp: arp_ready_def motion_sounds_def)
  qed
  then show ?thesis using assms(3,4) by (simp add: process_motion_def case_prod_beta)
qed

text \<open>\<open>n\<close> ticks of a motion, until it reports its end.\<close>

fun play_motion :: "nat \<Rightarrow> scales_object option \<Rightarrow> bool \<Rightarrow> pad_motion \<Rightarrow> (motion_error, bool \<times> midi_call list \<times> pad_motion) result" where
  "play_motion 0 scalo mute m = Inr (False, [], m)"
| "play_motion (Suc n) scalo mute m =
     rbind (process_motion scalo mute m) (\<lambda>(done, cs, m1).
       if done then Inr (True, cs, m1)
       else rbind (play_motion n scalo mute m1) (\<lambda>(done', ds, m2). Inr (done', cs @ ds, m2)))"

lemma play_motion_ends:
  assumes "motion_inv m" "scale_fits scalo (cfg_scale m)" "S \<subseteq> motion_sounds m" "terminated m"
    "\<forall>t \<in> set (mt m). t \<le> crnt_tick m + int n + 1"
  shows "\<exists>cs m'. play_motion (n + 2) scalo mute m = Inr (True, cs, m') \<and> sounding cs S = {}"
  using assms
proof (induction n arbitrary: m S)
  case 0
  show ?case
  proof (cases "int (length (mx m)) \<le> index m")
    case True
    from process_motion_end [OF 0(1,3,4) True, of scalo mute] show ?thesis by (auto simp: numeral_2_eq_2)
  next
    case False
    from process_motion_inv [OF 0(1-3), of mute] False 0(5) obtain cs m1 where m1:
      "process_motion scalo mute m = Inr (False, cs, m1)" "motion_inv m1" "sounding cs S \<subseteq> motion_sounds m1"
      "mx m1 = mx m" "terminated m1" "index m1 = int (length (mx m))" using 0(4) by auto
    from process_motion_end [OF m1(2,3,5), of scalo mute] m1 show ?thesis by (auto simp: numeral_2_eq_2)
  qed
next
  case (Suc n)
  show ?case
  proof (cases "int (length (mx m)) \<le> index m")
    case True
    from process_motion_end [OF Suc.prems(1,3,4) True, of scalo mute] show ?thesis by auto
  next
    case False
    from process_motion_inv [OF Suc.prems(1-3), of mute] False obtain cs m1 where m1:
      "process_motion scalo mute m = Inr (False, cs, m1)" "motion_inv m1" "sounding cs S \<subseteq> motion_sounds m1"
      "mt m1 = mt m" "crnt_tick m1 = crnt_tick m + 1" "terminated m1" "cfg_scale m1 = cfg_scale m" using Suc.prems(4) by auto
    have "\<forall>t \<in> set (mt m1). t \<le> crnt_tick m1 + int n + 1" using Suc.prems(5) m1(4,5) by auto
    from Suc.IH [OF m1(2) _ m1(3,6) this] Suc.prems(2) m1(7) obtain ds m2 where
      "play_motion (n + 2) scalo mute m1 = Inr (True, ds, m2)" "sounding ds (sounding cs S) = {}" by auto
    with m1(1) show ?thesis by auto
  qed
qed


section \<open>A motion under a finger\<close>

lemma built_in_nonempty: "i < MAX_BUILTIN_ARP_PATTERNS \<Longrightarrow> built_in ! i \<noteq> []"
proof -
  assume "i < MAX_BUILTIN_ARP_PATTERNS"
  moreover have "length built_in = MAX_BUILTIN_ARP_PATTERNS \<and> list_all (\<lambda>p. p \<noteq> []) built_in" by code_simp
  ultimately show ?thesis by (auto simp: list_all_length)
qed

definition motion_fresh :: "pad_motion \<Rightarrow> bool" where
  "motion_fresh m \<longleftrightarrow> positions_ok m \<and> chord_mode m = chord_off \<and> 0 \<le> octave m \<and>
     (cfg_scale m \<noteq> last_scale m \<or> data_ok (scale_data m))"

lemma set_pattern_ready:
  assumes "set_pattern i a = Inr a'" "arp_inv a" "held a = []" "believed a = {}"
  shows "arp_inv a'" "held a' = []" "believed a' = {}" "direction a' = direction a" "current_pattern a' \<noteq> Some []"
  using assms built_in_nonempty
  by (auto simp: set_pattern_def held_def believed_def arp_inv_def nat_less_iff split: if_splits)

lemma start_motion_inv:
  assumes "motion_fresh m" "start_motion p m = Inr (True, m')"
  shows "motion_inv m' \<and> motion_sounds m' = {} \<and> crnt_tick m' = -1 \<and> mt m' = mt m \<and> mx m' = mx m \<and>
    terminated m' = terminated m \<and> cfg_scale m' = cfg_scale m"
proof -
  obtain a where a: "set_pattern (arpeggio_pattern m) (set_direction (arp_dir m) (arp_reset (arperator m))) = Inr a"
    "m' = m \<lparr> index := 0, crnt_tick := -1, last_x := -1, arperator := a \<rparr>"
  proof (cases "set_pattern (arpeggio_pattern m) (set_direction (arp_dir m) (arp_reset (arperator m)))")
    case (Inr a)
    with assms(2) that show ?thesis by (auto simp: start_motion_def split: if_splits)
  qed (use assms(2) in \<open>auto simp: start_motion_def split: if_splits\<close>)
  have "arp_inv (set_direction (arp_dir m) (arp_reset (arperator m)))" by (intro set_direction_inv arp_reset_inv)
  moreover have "held (set_direction (arp_dir m) (arp_reset (arperator m))) = []"
    "believed (set_direction (arp_dir m) (arp_reset (arperator m))) = {}"
    by (simp_all add: held_def held_of_def believed_def set_direction_def arp_reset_def)
  moreover note sp = set_pattern_ready [OF a(1)]
  ultimately have r: "arp_inv a" "held a = []" "believed a = {}" "direction a = arp_dir m" "current_pattern a \<noteq> Some []"
    using sp by (simp_all add: set_direction_def)
  then show ?thesis using assms(1) a(2)
    by (simp add: motion_fresh_def motion_inv_def positions_ok_def arp_ready_def motion_sounds_def)
qed

text \<open>What happens to a motion while it plays: ticks, slides, the release of the finger and the
  request to delete it.\<close>

inductive motion_step :: "scales_object option \<Rightarrow> pad_motion \<Rightarrow> midi_call list \<Rightarrow> pad_motion \<Rightarrow> bool" for scalo where
  tick: "process_motion scalo mute m = Inr (False, cs, m') \<Longrightarrow> motion_step scalo m cs m'"
| slide: "0 \<le> x \<Longrightarrow> x < 2 ^ 14 \<Longrightarrow> motion_step scalo m [] (add_position x y z m)"
| release: "0 \<le> x \<Longrightarrow> x < 2 ^ 14 \<Longrightarrow> motion_step scalo m [] (terminate (add_position x y z m))"
| mark: "motion_step scalo m [] (m \<lparr> to_be_deleted := True \<rparr>)"

inductive motion_run :: "scales_object option \<Rightarrow> pad_motion \<Rightarrow> midi_call list \<Rightarrow> pad_motion \<Rightarrow> bool" for scalo m0 where
  begin_run: "motion_run scalo m0 [] m0"
| step_run: "motion_run scalo m0 cs m \<Longrightarrow> motion_step scalo m ds m' \<Longrightarrow> motion_run scalo m0 (cs @ ds) m'"

definition live :: "scales_object option \<Rightarrow> int set \<Rightarrow> pad_motion \<Rightarrow> bool" where
  "live scalo S m \<longleftrightarrow> motion_inv m \<and> scale_fits scalo (cfg_scale m) \<and> S \<subseteq> motion_sounds m"

lemma terminate_frame [simp]:
  "mx (terminate m) = mx m" "my (terminate m) = my m" "mz (terminate m) = mz m" "length (mt (terminate m)) = length (mt m)"
  "index (terminate m) = index m" "arperator (terminate m) = arperator m" "arp_dir (terminate m) = arp_dir m"
  "last_x (terminate m) = last_x m" "cfg_scale (terminate m) = cfg_scale m" "last_scale (terminate m) = last_scale m"
  "scale_data (terminate m) = scale_data m" "octave (terminate m) = octave m" "chord_mode (terminate m) = chord_mode m"
  "terminated (terminate m)"
  by (simp_all add: terminate_def Let_def)

lemma terminate_live:
  assumes "live scalo S m" "terminated m \<or> index m < int (length (mx m))"
  shows "live scalo S (terminate m)"
proof -
  have fin: "finished (terminate m) = finished m" using assms(2) by (auto simp: finished_def)
  have "arp_ready (terminate m) = arp_ready m" by (simp add: arp_ready_def fin)
  then have "motion_inv (terminate m) = motion_inv m" by (simp add: motion_inv_def positions_ok_def)
  moreover have "motion_sounds (terminate m) = motion_sounds m" by (simp add: motion_sounds_def fin)
  ultimately show ?thesis using assms(1) by (simp add: live_def)
qed

lemma add_position_frame [simp]:
  "index (add_position x y z m) = index m" "arperator (add_position x y z m) = arperator m" "arp_dir (add_position x y z m) = arp_dir m"
  "last_x (add_position x y z m) = last_x m" "cfg_scale (add_position x y z m) = cfg_scale m"
  "last_scale (add_position x y z m) = last_scale m" "scale_data (add_position x y z m) = scale_data m"
  "octave (add_position x y z m) = octave m" "chord_mode (add_position x y z m) = chord_mode m"
  "terminated (add_position x y z m) = terminated m"
  by (simp_all add: add_position_def)

lemma mark_live: "live scalo S m \<Longrightarrow> live scalo S (m \<lparr> to_be_deleted := True \<rparr>)"
proof -
  let ?m = "m \<lparr> to_be_deleted := True \<rparr>"
  have fin: "finished ?m = finished m" by (simp add: finished_def)
  have "arp_ready ?m = arp_ready m" by (simp add: arp_ready_def fin)
  then have "motion_inv ?m = motion_inv m" by (simp add: motion_inv_def positions_ok_def)
  moreover have "motion_sounds ?m = motion_sounds m" by (simp add: motion_sounds_def fin)
  ultimately show "live scalo S m \<Longrightarrow> live scalo S ?m" by (simp add: live_def)
qed

lemma add_position_live:
  assumes "live scalo S m" "0 \<le> x" "x < 2 ^ 14"
  shows "live scalo S (add_position x y z m) \<and>
    (terminated (add_position x y z m) \<or> index (add_position x y z m) < int (length (mx (add_position x y z m))))"
proof (cases "terminated m")
  case True
  then show ?thesis using assms(1) by (simp add: add_position_def)
next
  case False
  let ?m = "add_position x y z m"
  have fin: "\<not> finished ?m" "\<not> finished m" using False by (simp_all add: finished_def)
  have "arp_ready ?m = arp_ready m" by (simp add: arp_ready_def fin)
  moreover have "positions_ok m \<Longrightarrow> positions_ok ?m" using False assms(2,3) by (simp add: positions_ok_def add_position_def)
  moreover have "length (mx ?m) = length (mx m) + 1" using False by (simp add: add_position_def)
  ultimately have "motion_inv m \<Longrightarrow> motion_inv ?m \<and> index ?m < int (length (mx ?m))" by (simp add: motion_inv_def)
  moreover have "motion_sounds ?m = motion_sounds m" by (simp add: motion_sounds_def fin)
  ultimately show ?thesis using assms(1) by (simp add: live_def)
qed

lemma motion_step_live:
  assumes "motion_step scalo m cs m'" "live scalo S m"
  shows "live scalo (sounding cs S) m'"
  using assms(1)
proof cases
  case (tick mute)
  have "\<not> (terminated m \<and> int (length (mx m)) \<le> index m)" using tick by (auto simp: process_motion_def case_prod_beta)
  then show ?thesis using process_motion_inv [of m scalo S mute] assms(2) tick by (auto simp: live_def)
next
  case (slide x y z)
  then show ?thesis using add_position_live [OF assms(2), of x y z] by simp
next
  case (release x y z)
  then show ?thesis using add_position_live [OF assms(2), of x y z] terminate_live [of scalo S "add_position x y z m"] by simp
next
  case mark
  then show ?thesis using mark_live [OF assms(2)] by simp
qed

lemma motion_run_live:
  assumes "motion_run scalo m0 cs m" "live scalo S m0"
  shows "live scalo (sounding cs S) m"
  using assms(1)
proof induction
  case begin_run
  then show ?case using assms(2) by simp
next
  case (step_run cs m ds m')
  then show ?case using motion_step_live by simp
qed

section \<open>Properties of motions\<close>

text \<open>Quantising a tick moves it to the nearest line, by at most half a line, keeps ticks that are
  on a line and never reorders two ticks.\<close>

theorem quantize_tick_nearest:
  assumes "0 \<le> t" "t \<le> u" "u < 2 ^ 28"
  shows "quantize_tick t mod MACHINE_TICKS_PER_LINE = 0 \<and> \<bar>quantize_tick t - t\<bar> \<le> 8 \<and>
    (t mod MACHINE_TICKS_PER_LINE = 0 \<longrightarrow> quantize_tick t = t) \<and> quantize_tick t \<le> quantize_tick u"
proof -
  obtain a r where t: "t = 16 * a + r" "0 \<le> r" "r < 16" using that [of "t div 16" "t mod 16"] by simp
  obtain b s where u: "u = 16 * b + s" "0 \<le> s" "s < 16" using that [of "u div 16" "u mod 16"] by simp
  have "quantize_tick t = (if 8 < r then 16 * a + 16 else 16 * a)" "quantize_tick u = (if 8 < s then 16 * b + 16 else 16 * b)"
    using quantize_tick_arith [of t] quantize_tick_arith [of u] assms t u by auto
  moreover have "(16 * a + 16) mod 16 = 0" by presburger
  moreover have "a < b \<or> a = b \<and> r \<le> s" using assms(2) t u by linarith
  ultimately show ?thesis using t u by (auto simp: MACHINE_TICKS_PER_LINE_def)
qed

theorem quantize_tick_nearest_witness: "quantize_tick 25 mod 16 = 0 \<and> \<bar>quantize_tick 25 - 25\<bar> \<le> 8 \<and> quantize_tick 25 \<le> quantize_tick 40"
  using quantize_tick_nearest [of 25 40] by (simp add: MACHINE_TICKS_PER_LINE_def)

text \<open>C25: a motion without chords never leaves a note hanging. Started afresh, and whatever ticks,
  slides, release and deletion mark it then gets, it never fails, at most the note it remembers
  sounds, and once the finger is released it ends after a bounded number of ticks, in silence.\<close>

theorem motion_ends_silent:
  assumes "motion_fresh m" "scale_fits scalo (cfg_scale m)" "start_motion p m = Inr (True, m0)" "motion_run scalo m0 cs m1"
  shows "sounding cs {} \<subseteq> motion_sounds m1 \<and>
    (terminated m1 \<and> (\<forall>t \<in> set (mt m1). t \<le> crnt_tick m1 + int n + 1) \<longrightarrow>
      (\<exists>ds m2. play_motion (n + 2) scalo mute m1 = Inr (True, ds, m2) \<and> sounding (cs @ ds) {} = {}))"
proof -
  have "live scalo {} m0" using start_motion_inv [OF assms(1,3)] assms(2) by (simp add: live_def)
  from motion_run_live [OF assms(4) this] have l: "live scalo (sounding cs {}) m1" .
  then have "sounding cs {} \<subseteq> motion_sounds m1" by (simp add: live_def)
  moreover have "\<exists>ds m2. play_motion (n + 2) scalo mute m1 = Inr (True, ds, m2) \<and> sounding (cs @ ds) {} = {}"
    if "terminated m1" "\<forall>t \<in> set (mt m1). t \<le> crnt_tick m1 + int n + 1"
    using play_motion_ends [OF _ _ _ that] l by (simp add: live_def)
  ultimately show ?thesis by blast
qed


text \<open>A press of the pad in the first column, with velocity 64, by the default configuration.\<close>

definition zero_memory :: pad_motion where
  "zero_memory = \<lparr> arp_dir = arp_off, chord_mode = chord_off, cfg_scale = 0, last_scale = 0, octave = 0, arpeggio_pattern = 0,
     scale_data = [], pad_controller_coarse = [0, 0], pad_controller_fine = [0, 0], index = 0, crnt_tick = 0,
     last_chord = [], last_x = 0, mx = [], my = [], mz = [], mt = [],
     arperator = new_arpeggiator (replicate 5 \<lparr> key = 0, af_velocity = 0, counter = 0 \<rparr>), start_tick = 0, terminated = False,
     to_be_deleted = False, prev = None, nxt = None \<rparr>"

definition press :: "arp_direction \<Rightarrow> chord_mode \<Rightarrow> int \<Rightarrow> pad_motion" where
  "press ad cm x = new_motion zero_memory ((new_configuration zero_memory ad 0 4) \<lparr> chord_mode := cm \<rparr>) 0 x 8192 0"

fun motion_of :: "pad_motion \<Rightarrow> (motion_error, bool \<times> midi_call list \<times> pad_motion) result \<Rightarrow> pad_motion" where
  "motion_of d (Inl e) = d"
| "motion_of d (Inr (b, cs, m)) = m"

fun outcome :: "(motion_error, bool \<times> midi_call list \<times> pad_motion) result \<Rightarrow> (bool \<times> midi_call list) option" where
  "outcome (Inl e) = None"
| "outcome (Inr (b, cs, m)) = Some (b, cs)"

lemma outcome_Inr: "outcome r = Some (b, cs) \<Longrightarrow> r = Inr (b, cs, motion_of d r)"
  by (cases "(d, r)" rule: motion_of.cases) auto

definition started :: "pad_motion \<Rightarrow> pad_motion" where
  "started m = (case start_motion (start_tick m) m of Inr (b, m') \<Rightarrow> m' | Inl _ \<Rightarrow> m)"

theorem motion_ends_silent_witness:
  "\<exists>m1 ds m2. motion_run None (started (press arp_off chord_off 0)) [NoteOn 48 64 0] m1 \<and>
     play_motion 3 None False m1 = Inr (True, ds, m2) \<and> sounding ([NoteOn 48 64 0] @ ds) {} = {}"
proof -
  define m where "m = press arp_off chord_off 0"
  define m0 where "m0 = started m"
  define m' where "m' = motion_of m0 (process_motion None False m0)"
  define m1 where "m1 = terminate (add_position 100 8192 0 m')"
  have st: "start_motion 0 m = Inr (True, m0)"
    by (simp add: m0_def started_def start_motion_def m_def press_def new_motion_def add_position_def blank_motion_def
        copy_configuration_def new_configuration_def set_pattern_def zero_memory_def MAX_BUILTIN_ARP_PATTERNS_def)
  have "outcome (process_motion None False m0) = Some (False, [NoteOn 48 64 0])"
    unfolding m0_def m_def by code_simp
  then have t: "process_motion None False m0 = Inr (False, [NoteOn 48 64 0], m')"
    unfolding m'_def by (rule outcome_Inr)
  have fr: "motion_fresh m"
    by (simp add: m_def press_def new_motion_def add_position_def blank_motion_def copy_configuration_def new_configuration_def
        motion_fresh_def positions_ok_def zero_memory_def)
  have "motion_run None m0 (([] @ [NoteOn 48 64 0]) @ []) m1"
    unfolding m1_def by (intro step_run [OF _ release] step_run [OF _ tick [OF t]] begin_run) simp_all
  then have run: "motion_run None m0 [NoteOn 48 64 0] m1" by simp
  have "terminated m1 \<and> list_all (\<lambda>t. t \<le> crnt_tick m1 + int 1 + 1) (mt m1)"
    unfolding m1_def m'_def m0_def m_def by code_simp
  then have fin: "terminated m1 \<and> (\<forall>t \<in> set (mt m1). t \<le> crnt_tick m1 + int 1 + 1)" unfolding list_all_iff .
  have sf: "scale_fits None (cfg_scale m)" by (simp add: scale_fits_def)
  from motion_ends_silent [OF fr sf st run, of 1 False] fin run show ?thesis
    by (auto simp: m0_def m_def numeral_3_eq_3)
qed

text \<open>A chord that shares notes with the chord before it loses them: sliding from the first to the
  third column moves the triad from C, E, G to E, G, B, and because every slot is switched off after
  the slot before it was switched on, only B is left sounding.\<close>

theorem chord_change_drops_notes:
  "chord_calls False 64 [48, 52, 55, -1, -1, -1] [52, 55, 59, -1, -1, -1] =
     [NoteOff 48 127 0, NoteOn 52 64 0, NoteOff 52 127 0, NoteOn 55 64 0, NoteOff 55 127 0, NoteOn 59 64 0] \<and>
   sounding (chord_calls False 64 [48, 52, 55, -1, -1, -1] [52, 55, 59, -1, -1, -1]) {48, 52, 55} = {59} \<and>
   outcome (play_motion 2 None False (started (add_position 4096 8192 0 (press arp_off chord_triad 0)))) =
     Some (False, [NoteOn 48 64 0, NoteOn 52 64 0, NoteOn 55 64 0,
       NoteOff 48 127 0, NoteOn 52 64 0, NoteOff 52 127 0, NoteOn 55 64 0, NoteOff 55 127 0, NoteOn 59 64 0])"
proof (intro conjI)
  show "sounding (chord_calls False 64 [48, 52, 55, -1, -1, -1] [52, 55, 59, -1, -1, -1]) {48, 52, 55} = {59}"
    by auto
  show "outcome (play_motion 2 None False (started (add_position 4096 8192 0 (press arp_off chord_triad 0)))) =
     Some (False, [NoteOn 48 64 0, NoteOn 52 64 0, NoteOn 55 64 0,
       NoteOff 48 127 0, NoteOn 52 64 0, NoteOff 52 127 0, NoteOn 55 64 0, NoteOff 55 127 0, NoteOn 59 64 0])"
    by code_simp
qed simp

text \<open>A motion that is terminated without a last position, as happens when recording stops while
  the finger is down, ends without switching its note off.\<close>

theorem terminated_while_held_hangs:
  "outcome (play_motion 2 None False (started (press arp_off chord_off 0))) = Some (False, [NoteOn 48 64 0]) \<and>
   outcome (play_motion 1 None False (terminate (motion_of zero_memory (play_motion 2 None False (started (press arp_off chord_off 0)))))) =
     Some (True, [])"
  by code_simp


section \<open>Motions in project files\<close>

lemma enum_round_trip [vk_round]:
  "direction_of_int (int_of_direction d) = Some d" "chord_of_int (int_of_chord c) = Some c"
  by (cases d; simp add: direction_of_int_def) (cases c; simp add: chord_of_int_def)

lemma two_elements: "length xs = 2 \<Longrightarrow> [xs ! 0, xs ! Suc 0] = xs"
  by (cases xs) (auto simp: length_Suc_conv numeral_2_eq_2)

definition position_xml :: "pad_motion \<Rightarrow> nat \<Rightarrow> kxml" where
  "position_xml m k = KXML [(''x'', mx m ! k), (''y'', my m ! k), (''z'', mz m ! k), (''t'', mt m ! k)] []"

lemma read_position_written: "8 \<le> level \<Longrightarrow> read_position level (position_xml m k) = push_position (mx m ! k) (my m ! k) (mz m ! k) (mt m ! k)"
  by (rule ext) (simp add: read_position_def position_xml_def KXML_GET_NUMBER_def Let_def)

lemma read_positions_written:
  assumes "8 \<le> level" "n \<le> length (mx m)" "positions_ok m"
  shows "fold (read_position level) (map (position_xml m) [0..<n]) b =
    b \<lparr> mx := mx b @ take n (mx m), my := my b @ take n (my m), mz := mz b @ take n (mz m), mt := mt b @ take n (mt m) \<rparr>"
  using assms(2)
proof (induction n)
  case (Suc n)
  then show ?case using assms(1,3)
    by (simp add: read_position_written push_position_def positions_ok_def take_Suc_conv_app_nth)
qed simp

lemma xml_elements_written: "xml_elements (get_padmotion_xml f m) ''d'' = map (position_xml m) [0..<length (mx m)]"
  "xml_elements (get_padmotion_xml f m) ''c'' = [get_configuration_xml m]"
proof -
  let ?d = "map (\<lambda>k. (''d'', position_xml m k)) [0..<length (mx m)]"
  have x: "xml_children (get_padmotion_xml f m) = (''c'', get_configuration_xml m) # ?d"
    by (simp add: get_padmotion_xml_def position_xml_def)
  have "filter (\<lambda>p. fst p = ''d'') ?d = ?d" "filter (\<lambda>p. fst p = ''c'') ?d = []" by (simp_all add: filter_map comp_def)
  then show "xml_elements (get_padmotion_xml f m) ''d'' = map (position_xml m) [0..<length (mx m)]"
    "xml_elements (get_padmotion_xml f m) ''c'' = [get_configuration_xml m]"
    unfolding xml_elements_def x by simp_all
qed

text \<open>A motion survives a project file of the current level: the motion read from the element
  written for it has the same configuration, positions, times and start, is terminated and is
  not playing.\<close>

theorem motion_xml_round_trip:
  assumes "positions_ok m" "length (pad_controller_coarse m) = 2" "length (pad_controller_fine m) = 2" "8 \<le> level"
  shows "\<exists>m'. load_motion level mem parent (get_padmotion_xml f m) = Some m' \<and>
    arp_dir m' = arp_dir m \<and> chord_mode m' = chord_mode m \<and> cfg_scale m' = cfg_scale m \<and> octave m' = octave m \<and>
    arpeggio_pattern m' = arpeggio_pattern m \<and> pad_controller_coarse m' = pad_controller_coarse m \<and>
    pad_controller_fine m' = pad_controller_fine m \<and> mx m' = mx m \<and> my m' = my m \<and> mz m' = mz m \<and> mt m' = mt m \<and>
    start_tick m' = start_tick m \<and> terminated m' \<and> index m' = -1"
proof -
  let ?b = "(blank_motion mem parent) \<lparr> terminated := True \<rparr>"
  let ?c = "?b \<lparr> arp_dir := arp_dir m, chord_mode := chord_mode m, cfg_scale := cfg_scale m, octave := octave m,
      arpeggio_pattern := arpeggio_pattern m, pad_controller_coarse := pad_controller_coarse m,
      pad_controller_fine := pad_controller_fine m \<rparr>"
  have "load_configuration_from_xml (get_padmotion_xml f m) ?b = Some ?c"
    using assms(2,3) unfolding load_configuration_from_xml_def xml_elements_written
    by (simp add: get_configuration_xml_def KXML_GET_NUMBER_def enum_round_trip two_elements)
  moreover have "KXML_GET_NUMBER (get_padmotion_xml f m) ''start'' (-1) = start_tick m"
    by (simp add: KXML_GET_NUMBER_def get_padmotion_xml_def)
  ultimately have "load_motion level mem parent (get_padmotion_xml f m) =
      Some (fold (read_position level) (map (position_xml m) [0..<length (mx m)]) (?c \<lparr> start_tick := start_tick m \<rparr>))"
    unfolding load_motion_def by (simp only: xml_elements_written option.map)
  then show ?thesis
    using read_positions_written [OF assms(4) order_refl assms(1)] assms(1)
    by (simp add: blank_motion_def positions_ok_def)
qed

theorem motion_xml_round_trip_witness:
  "\<exists>m'. load_motion 8 zero_memory zero_memory (get_padmotion_xml 0 (press arp_pingpong chord_quad 300)) = Some m' \<and>
     mx m' = [300] \<and> chord_mode m' = chord_quad"
proof -
  let ?m = "press arp_pingpong chord_quad 300"
  have f: "positions_ok ?m" "length (pad_controller_coarse ?m) = 2" "length (pad_controller_fine ?m) = 2" "mx ?m = [300]" "chord_mode ?m = chord_quad"
    by (simp_all add: press_def new_motion_def add_position_def blank_motion_def copy_configuration_def new_configuration_def
        positions_ok_def)
  from motion_xml_round_trip [OF f(1-3) order_refl, of zero_memory zero_memory 0] f(4,5) show ?thesis by auto
qed

end
