(* ===== verification/Pad_Session.thy ===== *)
theory Pad_Session
  imports Pad_Motion
begin

text \<open>
  Fingers, sessions and the pad (engine_code/pad.cc, \<open>PadFinger\<close>, \<open>PadSession\<close>, \<open>Pad\<close>; the export
  loop of engine_code/pad.hh). Motions are objects in a store, linked by their \<open>prev\<close> and \<open>nxt\<close>
  members and referred to by the recorded chain, the list of playing motions and \<open>current\<close>; an
  access to a deleted motion is an error value. Loops over a chain count down from the number of
  motions ever allocated, which no chain without repetition exceeds.
\<close>

datatype pad_error = UseAfterFree | ChainTooLong | NoSuchFinger | PatternOutOfBounds | MotionFailed motion_error | BadXml

record motion_store =
  motions :: "nat \<Rightarrow> pad_motion option"
  next_motion :: nat

definition motion_at :: "nat \<Rightarrow> motion_store \<Rightarrow> (pad_error, pad_motion) result" where
  "motion_at p st = (case motions st p of Some m \<Rightarrow> Inr m | None \<Rightarrow> Inl UseAfterFree)"

definition put_motion :: "nat \<Rightarrow> pad_motion \<Rightarrow> motion_store \<Rightarrow> motion_store" where
  "put_motion p m st = st \<lparr> motions := (motions st)(p := Some m) \<rparr>"

definition modify_motion :: "nat \<Rightarrow> (pad_motion \<Rightarrow> pad_motion) \<Rightarrow> motion_store \<Rightarrow> (pad_error, motion_store) result" where
  "modify_motion p f st = rbind (motion_at p st) (\<lambda>m. Inr (put_motion p (f m) st))"

definition alloc_motion :: "pad_motion \<Rightarrow> motion_store \<Rightarrow> nat \<times> motion_store" where
  "alloc_motion m st = (next_motion st, st \<lparr> motions := (motions st)(next_motion st := Some m), next_motion := next_motion st + 1 \<rparr>)"

definition free_motion :: "nat \<Rightarrow> motion_store \<Rightarrow> (pad_error, motion_store) result" where
  "free_motion p st = rbind (motion_at p st) (\<lambda>_. Inr (st \<lparr> motions := (motions st)(p := None) \<rparr>))"

section \<open>Deleting and recording motions\<close>

definition can_be_deleted_now :: "nat \<Rightarrow> motion_store \<Rightarrow> (pad_error, motion_store) result" where
  "can_be_deleted_now p st =
     rbind (motion_at p st) (\<lambda>m. if to_be_deleted m then free_motion p st else Inr st)"

definition delete_motion :: "nat \<Rightarrow> motion_store \<Rightarrow> (pad_error, motion_store) result" where
  "delete_motion p st =
     rbind (motion_at p st) (\<lambda>m.
       if index m \<noteq> -1 then Inr (put_motion p (m \<lparr> to_be_deleted := True \<rparr>) st) else free_motion p st)"

text \<open>The walk of \<open>record_motion\<close> along a chain that is not empty.\<close>

fun record_loop :: "nat \<Rightarrow> nat option \<Rightarrow> nat \<Rightarrow> nat \<Rightarrow> motion_store \<Rightarrow> (pad_error, nat option \<times> motion_store) result" where
  "record_loop 0 head target tp st = Inl ChainTooLong"
| "record_loop (Suc n) head target tp st =
     rbind (motion_at target st) (\<lambda>mt0. rbind (motion_at tp st) (\<lambda>mtop.
       if start_tick mt0 < start_tick mtop then
         rbind (modify_motion target (\<lambda>m. m \<lparr> nxt := Some tp, prev := prev mtop \<rparr>) st) (\<lambda>st1.
         rbind (case prev mtop of
                  None \<Rightarrow> Inr (Some target, st1)
                | Some q \<Rightarrow> rbind (modify_motion q (\<lambda>m. m \<lparr> nxt := Some target \<rparr>) st1) (\<lambda>st2. Inr (head, st2))) (\<lambda>(head', st2).
         rbind (modify_motion tp (\<lambda>m. m \<lparr> prev := Some target \<rparr>) st2) (\<lambda>st3. Inr (head', st3))))
       else (case nxt mtop of
         None \<Rightarrow>
           rbind (modify_motion tp (\<lambda>m. m \<lparr> nxt := Some target \<rparr>) st) (\<lambda>st1.
           rbind (modify_motion target (\<lambda>m. m \<lparr> prev := Some tp, nxt := None \<rparr>) st1) (\<lambda>st2. Inr (head, st2)))
       | Some q \<Rightarrow> record_loop n head target q st)))"

definition record_motion :: "nat option \<Rightarrow> nat \<Rightarrow> motion_store \<Rightarrow> (pad_error, nat option \<times> motion_store) result" where
  "record_motion head target st =
     (case head of
        None \<Rightarrow> rbind (modify_motion target (\<lambda>m. m \<lparr> nxt := None, prev := None \<rparr>) st) (\<lambda>st1. Inr (Some target, st1))
      | Some tp \<Rightarrow> record_loop (next_motion st) head target tp st)"

section \<open>Fingers\<close>

datatype pad_event_t = ms_pad_press | ms_pad_slide | ms_pad_release | ms_pad_no_event

record pad_event =
  ev_t :: pad_event_t
  ev_finger :: int
  ev_x :: int
  ev_y :: int
  ev_z :: int

record pad_finger =
  pf_to_be_deleted :: bool
  recorded :: "nat option"
  next_motion_to_play :: "nat option"
  playing_motions :: "nat list"
  current :: "nat option"

definition new_finger :: pad_finger where
  "new_finger = \<lparr> pf_to_be_deleted = False, recorded = None, next_motion_to_play = None, playing_motions = [], current = None \<rparr>"

definition start_from_the_top :: "pad_finger \<Rightarrow> pad_finger" where
  "start_from_the_top f = f \<lparr> next_motion_to_play := recorded f, playing_motions := [] \<rparr>"

definition start_stored :: "int \<Rightarrow> nat \<Rightarrow> motion_store \<Rightarrow> (pad_error, bool \<times> motion_store) result" where
  "start_stored pos p st =
     rbind (motion_at p st) (\<lambda>m. case start_motion pos m of
        Inl _ \<Rightarrow> Inl PatternOutOfBounds
      | Inr (b, m') \<Rightarrow> Inr (b, put_motion p m' st))"

definition process_finger_events ::
  "pad_motion \<Rightarrow> 'a pad_configuration_scheme \<Rightarrow> pad_event \<Rightarrow> int \<Rightarrow> pad_finger \<Rightarrow> motion_store \<Rightarrow>
    (pad_error, pad_finger \<times> motion_store) result" where
  "process_finger_events mem cfg pe session_position f st =
     (if pf_to_be_deleted f then Inr (f, st)
      else let pos = session_position + 1; x = ev_x pe; y = ev_y pe; z = ev_z pe in
        case ev_t pe of
          ms_pad_press \<Rightarrow>
            (case alloc_motion (new_motion mem cfg pos x y z) st of (p, st1) \<Rightarrow>
              rbind (start_stored pos p st1) (\<lambda>(started, st2).
                if started then Inr (f \<lparr> current := Some p, playing_motions := playing_motions f @ [p] \<rparr>, st2)
                else rbind (free_motion p st2) (\<lambda>st3. Inr (f \<lparr> current := None \<rparr>, st3))))
        | ms_pad_release \<Rightarrow>
            (case current f of
               None \<Rightarrow> Inr (f, st)
             | Some p \<Rightarrow> rbind (modify_motion p (\<lambda>m. terminate (add_position x y z m)) st) (\<lambda>st1. Inr (f, st1)))
        | ms_pad_slide \<Rightarrow>
            (case current f of
               None \<Rightarrow> Inr (f, st)
             | Some p \<Rightarrow> rbind (modify_motion p (add_position x y z) st) (\<lambda>st1. Inr (f, st1)))
        | ms_pad_no_event \<Rightarrow> Inr (f, st))"

text \<open>Starting the recorded motions that are due.\<close>

fun start_due :: "nat \<Rightarrow> int \<Rightarrow> nat option \<Rightarrow> nat list \<Rightarrow> motion_store \<Rightarrow> (pad_error, nat option \<times> nat list \<times> motion_store) result" where
  "start_due n pos None pm st = Inr (None, pm, st)"
| "start_due 0 pos (Some p) pm st = Inl ChainTooLong"
| "start_due (Suc n) pos (Some p) pm st =
     rbind (start_stored pos p st) (\<lambda>(started, st1).
       if started then rbind (motion_at p st1) (\<lambda>m. start_due n pos (nxt m) (pm @ [p]) st1)
       else Inr (Some p, pm, st1))"

definition run_stored ::
  "scales_object option \<Rightarrow> bool \<Rightarrow> nat \<Rightarrow> motion_store \<Rightarrow> (pad_error, bool \<times> midi_call list \<times> motion_store) result" where
  "run_stored scalo mute p st =
     rbind (motion_at p st) (\<lambda>m. case process_motion scalo mute m of
        Inl e \<Rightarrow> Inl (MotionFailed e)
      | Inr (b, cs, m') \<Rightarrow> Inr (b, cs, put_motion p m' st))"

text \<open>A motion that has come to its end: the finger's own one is recorded or deleted.\<close>

definition end_motion :: "bool \<Rightarrow> bool \<Rightarrow> nat \<Rightarrow> pad_finger \<Rightarrow> motion_store \<Rightarrow> (pad_error, pad_finger \<times> motion_store) result" where
  "end_motion do_record quantize p f st =
     (if current f = Some p then
        rbind (if do_record then
                 rbind (record_motion (recorded f) p st) (\<lambda>(h, st1).
                 rbind (if quantize then modify_motion p quantize_motion st1 else Inr st1) (\<lambda>st2.
                   Inr (f \<lparr> recorded := h \<rparr>, st2)))
               else rbind (free_motion p st) (\<lambda>st1. Inr (f, st1))) (\<lambda>(f1, st1).
        Inr (f1 \<lparr> current := None \<rparr>, st1))
      else rbind (can_be_deleted_now p st) (\<lambda>st1. Inr (f, st1)))"

fun play_all ::
  "scales_object option \<Rightarrow> bool \<Rightarrow> bool \<Rightarrow> bool \<Rightarrow> nat list \<Rightarrow> pad_finger \<Rightarrow> motion_store \<Rightarrow>
    (pad_error, nat list \<times> midi_call list \<times> pad_finger \<times> motion_store) result" where
  "play_all scalo do_record mute quantize [] f st = Inr ([], [], f, st)"
| "play_all scalo do_record mute quantize (p # ps) f st =
     rbind (run_stored scalo mute p st) (\<lambda>(done, cs, st1).
     rbind (if done then end_motion do_record quantize p f st1 else Inr (f, st1)) (\<lambda>(f1, st2).
     rbind (play_all scalo do_record mute quantize ps f1 st2) (\<lambda>(left, ds, f2, st3).
       Inr (if done then left else p # left, cs @ ds, f2, st3))))"

definition process_finger_motions ::
  "scales_object option \<Rightarrow> bool \<Rightarrow> bool \<Rightarrow> int \<Rightarrow> bool \<Rightarrow> pad_finger \<Rightarrow> motion_store \<Rightarrow>
    (pad_error, bool \<times> midi_call list \<times> pad_finger \<times> motion_store) result" where
  "process_finger_motions scalo do_record mute session_position quantize f st =
     rbind (if \<not> pf_to_be_deleted f \<and> \<not> mute \<and> next_motion_to_play f \<noteq> None then
              rbind (start_due (next_motion st + 1) session_position (next_motion_to_play f) (playing_motions f) st) (\<lambda>(tp, pm, st1).
                Inr (f \<lparr> next_motion_to_play := tp, playing_motions := pm \<rparr>, st1))
            else Inr (if mute then f \<lparr> next_motion_to_play := None \<rparr> else f, st)) (\<lambda>(f1, st1).
     rbind (play_all scalo do_record mute quantize (playing_motions f1) f1 st1) (\<lambda>(left, cs, f2, st2).
       Inr (left = [] \<and> next_motion_to_play f2 = None, cs, f2 \<lparr> playing_motions := left \<rparr>, st2)))"

fun modify_all :: "(pad_motion \<Rightarrow> pad_motion) \<Rightarrow> nat list \<Rightarrow> motion_store \<Rightarrow> (pad_error, motion_store) result" where
  "modify_all g [] st = Inr st"
| "modify_all g (p # ps) st = rbind (modify_motion p g st) (modify_all g ps)"

definition reset_finger :: "pad_finger \<Rightarrow> motion_store \<Rightarrow> (pad_error, pad_finger \<times> motion_store) result" where
  "reset_finger f st =
     rbind (modify_all reset_motion (playing_motions f) st) (\<lambda>st1.
       Inr (f \<lparr> playing_motions := [], next_motion_to_play := recorded f \<rparr>, st1))"

fun delete_chain :: "nat \<Rightarrow> nat option \<Rightarrow> motion_store \<Rightarrow> (pad_error, motion_store) result" where
  "delete_chain n None st = Inr st"
| "delete_chain 0 (Some p) st = Inl ChainTooLong"
| "delete_chain (Suc n) (Some p) st =
     rbind (motion_at p st) (\<lambda>m. rbind (delete_motion p st) (delete_chain n (nxt m)))"

definition delete_pad_finger :: "pad_finger \<Rightarrow> motion_store \<Rightarrow> (pad_error, pad_finger \<times> motion_store) result" where
  "delete_pad_finger f st =
     rbind (delete_chain (next_motion st + 1) (recorded f) st) (\<lambda>st1.
       Inr (f \<lparr> recorded := None, next_motion_to_play := None, pf_to_be_deleted := True \<rparr>, st1))"

definition terminate_finger :: "pad_finger \<Rightarrow> motion_store \<Rightarrow> (pad_error, motion_store) result" where
  "terminate_finger f st = (case current f of None \<Rightarrow> Inr st | Some p \<Rightarrow> modify_motion p terminate st)"

section \<open>Sessions\<close>

definition MAX_PAD_FINGERS :: nat where "MAX_PAD_FINGERS = 5"

record pad_session =
  ps_to_be_deleted :: bool
  ps_terminated :: bool
  fingers :: "pad_finger list"
  start_at_tick :: int
  playback_position :: int
  in_play :: bool

definition new_session :: "int \<Rightarrow> bool \<Rightarrow> pad_session" where
  "new_session start term =
     \<lparr> ps_to_be_deleted = False, ps_terminated = term, fingers = replicate MAX_PAD_FINGERS new_finger,
        start_at_tick = start, playback_position = -1, in_play = False \<rparr>"

definition record_on_finger :: "int \<Rightarrow> nat \<Rightarrow> pad_session \<Rightarrow> motion_store \<Rightarrow> (pad_error, pad_session \<times> motion_store) result" where
  "record_on_finger fid p s st =
     (if 0 \<le> fid \<and> nat fid < length (fingers s) then
        rbind (record_motion (recorded (fingers s ! nat fid)) p st) (\<lambda>(h, st1).
          Inr (s \<lparr> fingers := (fingers s)[nat fid := (fingers s ! nat fid) \<lparr> recorded := h \<rparr>] \<rparr>, st1))
      else Inl NoSuchFinger)"

definition new_session_with :: "int \<Rightarrow> nat \<Rightarrow> int \<Rightarrow> motion_store \<Rightarrow> (pad_error, pad_session \<times> motion_store) result" where
  "new_session_with start padmot fid st = record_on_finger fid padmot (new_session start True) st"

fun load_session_motions ::
  "int \<Rightarrow> pad_motion \<Rightarrow> 'a pad_configuration_scheme \<Rightarrow> kxml list \<Rightarrow> pad_session \<Rightarrow> motion_store \<Rightarrow>
    (pad_error, pad_session \<times> motion_store) result" where
  "load_session_motions level mem cfg [] s st = Inr (s, st)"
| "load_session_motions level mem cfg (mxml # ms) s st =
     (case load_motion level mem cfg mxml of
        None \<Rightarrow> Inl BadXml
      | Some m \<Rightarrow> (case alloc_motion m st of (p, st1) \<Rightarrow>
          rbind (record_on_finger (KXML_GET_NUMBER mxml ''f'' 0) p s st1) (\<lambda>(s1, st2).
            load_session_motions level mem cfg ms s1 st2)))"

text \<open>Without any \<open>m\<close> element \<open>get_count\<close> throws, and no session is made.\<close>

definition load_session ::
  "int \<Rightarrow> pad_motion \<Rightarrow> 'a pad_configuration_scheme \<Rightarrow> kxml \<Rightarrow> motion_store \<Rightarrow> (pad_error, pad_session \<times> motion_store) result" where
  "load_session level mem cfg ps_xml st =
     (case xml_elements ps_xml ''m'' of
        [] \<Rightarrow> Inl BadXml
      | ms \<Rightarrow> load_session_motions level mem cfg ms (new_session (KXML_GET_NUMBER ps_xml ''start'' 0) True) st)"

definition start_play :: "int \<Rightarrow> pad_session \<Rightarrow> bool \<times> pad_session" where
  "start_play crnt s =
     (if in_play s then (True, s)
      else if start_at_tick s = crnt then
        (True, s \<lparr> in_play := True, playback_position := -1, fingers := map start_from_the_top (fingers s) \<rparr>)
      else (False, s))"

fun play_fingers ::
  "scales_object option \<Rightarrow> bool \<Rightarrow> bool \<Rightarrow> int \<Rightarrow> bool \<Rightarrow> pad_finger list \<Rightarrow> motion_store \<Rightarrow>
    (pad_error, bool \<times> midi_call list \<times> pad_finger list \<times> motion_store) result" where
  "play_fingers scalo do_record mute pos quantize [] st = Inr (True, [], [], st)"
| "play_fingers scalo do_record mute pos quantize (f # fs) st =
     rbind (process_finger_motions scalo do_record mute pos quantize f st) (\<lambda>(done, cs, f1, st1).
     rbind (play_fingers scalo do_record mute pos quantize fs st1) (\<lambda>(all_done, ds, fs1, st2).
       Inr (done \<and> all_done, cs @ ds, f1 # fs1, st2)))"

definition process_session ::
  "scales_object option \<Rightarrow> bool \<Rightarrow> bool \<Rightarrow> bool \<Rightarrow> pad_session \<Rightarrow> motion_store \<Rightarrow>
    (pad_error, bool \<times> midi_call list \<times> pad_session \<times> motion_store) result" where
  "process_session scalo do_record mute quantize s st =
     (let pos = playback_position s + 1 in
      rbind (play_fingers scalo do_record mute pos quantize (fingers s) st) (\<lambda>(session_completed, cs, fs, st1).
        Inr (session_completed \<and> ps_to_be_deleted s, cs,
             s \<lparr> playback_position := pos, fingers := fs, in_play := \<not> (session_completed \<and> ps_terminated s) \<rparr>, st1)))"

fun each_finger ::
  "(pad_finger \<Rightarrow> motion_store \<Rightarrow> (pad_error, pad_finger \<times> motion_store) result) \<Rightarrow> pad_finger list \<Rightarrow> motion_store \<Rightarrow>
    (pad_error, pad_finger list \<times> motion_store) result" where
  "each_finger g [] st = Inr ([], st)"
| "each_finger g (f # fs) st =
     rbind (g f st) (\<lambda>(f1, st1). rbind (each_finger g fs st1) (\<lambda>(fs1, st2). Inr (f1 # fs1, st2)))"

definition reset_session :: "pad_session \<Rightarrow> motion_store \<Rightarrow> (pad_error, pad_session \<times> motion_store) result" where
  "reset_session s st =
     rbind (each_finger reset_finger (fingers s) st) (\<lambda>(fs, st1). Inr (s \<lparr> in_play := False, fingers := fs \<rparr>, st1))"

definition delete_session :: "pad_session \<Rightarrow> motion_store \<Rightarrow> (pad_error, pad_session \<times> motion_store) result" where
  "delete_session s st =
     rbind (each_finger delete_pad_finger (fingers s) st) (\<lambda>(fs, st1). Inr (s \<lparr> ps_to_be_deleted := True, fingers := fs \<rparr>, st1))"

definition terminate_session :: "pad_session \<Rightarrow> motion_store \<Rightarrow> (pad_error, pad_session \<times> motion_store) result" where
  "terminate_session s st =
     rbind (each_finger (\<lambda>f st. rbind (terminate_finger f st) (\<lambda>st1. Inr (f, st1))) (fingers s) st) (\<lambda>(fs, st1).
       Inr (s \<lparr> ps_terminated := True, fingers := fs \<rparr>, st1))"

text \<open>The elements of a recorded chain, in order.\<close>

fun chain_xml :: "nat \<Rightarrow> int \<Rightarrow> nat option \<Rightarrow> motion_store \<Rightarrow> (pad_error, (string \<times> kxml) list) result" where
  "chain_xml n fid None st = Inr []"
| "chain_xml 0 fid (Some p) st = Inl ChainTooLong"
| "chain_xml (Suc n) fid (Some p) st =
     rbind (motion_at p st) (\<lambda>m. rbind (chain_xml n fid (nxt m) st) (\<lambda>xs. Inr ((''m'', get_padmotion_xml fid m) # xs)))"

fun fingers_xml :: "int \<Rightarrow> pad_finger list \<Rightarrow> motion_store \<Rightarrow> (pad_error, (string \<times> kxml) list) result" where
  "fingers_xml fid [] st = Inr []"
| "fingers_xml fid (f # fs) st =
     rbind (chain_xml (next_motion st + 1) fid (recorded f) st) (\<lambda>xs. rbind (fingers_xml (fid + 1) fs st) (\<lambda>ys. Inr (xs @ ys)))"

definition get_session_xml :: "pad_session \<Rightarrow> motion_store \<Rightarrow> (pad_error, kxml) result" where
  "get_session_xml s st =
     rbind (fingers_xml 0 (fingers s) st) (\<lambda>ms. Inr (KXML [(''start'', start_at_tick s)] ms))"

section \<open>The pad\<close>

text \<open>Sessions are numbered, so that \<open>current_session\<close> can be compared with an entry of the vector.\<close>

record pad =
  store :: motion_store
  recorded_sessions :: "(nat \<times> pad_session) list"
  next_session :: nat
  current_session :: "nat option"
  do_record :: bool
  do_quantize :: bool
  config :: pad_configuration
  padEventQueue :: "pad_event list"

definition new_pad :: "pad_configuration \<Rightarrow> pad" where
  "new_pad mem =
     \<lparr> store = \<lparr> motions = (\<lambda>_. None), next_motion = 0 \<rparr>, recorded_sessions = [], next_session = 0,
        current_session = None, do_record = False, do_quantize = False,
        config = new_configuration mem arp_off 0 4, padEventQueue = [] \<rparr>"

text \<open>\<open>reset\<close> deletes the current session with the motions its fingers hold.\<close>

fun free_recorded :: "nat \<Rightarrow> nat option \<Rightarrow> motion_store \<Rightarrow> (pad_error, motion_store) result" where
  "free_recorded n None st = Inr st"
| "free_recorded 0 (Some p) st = Inl ChainTooLong"
| "free_recorded (Suc n) (Some p) st = rbind (motion_at p st) (\<lambda>m. rbind (free_motion p st) (free_recorded n (nxt m)))"

definition destroy_finger :: "pad_finger \<Rightarrow> motion_store \<Rightarrow> (pad_error, motion_store) result" where
  "destroy_finger f st =
     rbind (free_recorded (next_motion st + 1) (recorded f) st) (\<lambda>st1.
       case current f of None \<Rightarrow> Inr st1 | Some p \<Rightarrow> free_motion p st1)"

fun destroy_fingers :: "pad_finger list \<Rightarrow> motion_store \<Rightarrow> (pad_error, motion_store) result" where
  "destroy_fingers [] st = Inr st"
| "destroy_fingers (f # fs) st = rbind (destroy_finger f st) (destroy_fingers fs)"

fun reset_sessions ::
  "nat option \<Rightarrow> (nat \<times> pad_session) list \<Rightarrow> motion_store \<Rightarrow> (pad_error, (nat \<times> pad_session) list \<times> motion_store) result" where
  "reset_sessions cur [] st = Inr ([], st)"
| "reset_sessions cur ((i, s) # ss) st =
     (if cur = Some i then
        rbind (destroy_fingers (fingers s) st) (\<lambda>st1. reset_sessions None ss st1)
      else
        rbind (reset_session s st) (\<lambda>(s1, st1).
        rbind (reset_sessions cur ss st1) (\<lambda>(ss1, st2). Inr ((i, s1) # ss1, st2))))"

definition reset_pad :: "pad \<Rightarrow> (pad_error, pad) result" where
  "reset_pad p =
     rbind (reset_sessions (current_session p) (recorded_sessions p) (store p)) (\<lambda>(ss, st).
       Inr (p \<lparr> recorded_sessions := ss, store := st,
                current_session := (case current_session p of
                   Some c \<Rightarrow> if c \<in> fst ` set (recorded_sessions p) then None else Some c | None \<Rightarrow> None) \<rparr>))"

record loop_settings =
  loop_state :: bool
  loop_start :: int
  loop_length :: int

definition session_start :: "loop_settings \<Rightarrow> bool \<Rightarrow> int \<Rightarrow> int" where
  "session_start env quantize tk =
     (let start = (if quantize then quantize_tick tk else tk);
          loop_end = loop_length env + loop_start env
      in if loop_state env \<and> push_bit 4 loop_end \<le> start then start - push_bit 4 (loop_start env) else start)"

definition find_session :: "nat \<Rightarrow> (nat \<times> pad_session) list \<Rightarrow> pad_session option" where
  "find_session i ss = map_of ss i"

definition replace_session :: "nat \<Rightarrow> pad_session \<Rightarrow> (nat \<times> pad_session) list \<Rightarrow> (nat \<times> pad_session) list" where
  "replace_session i s ss = map (\<lambda>(j, t). if j = i then (j, s) else (j, t)) ss"

definition process_event :: "pad_motion \<Rightarrow> loop_settings \<Rightarrow> int \<Rightarrow> pad_event \<Rightarrow> pad \<Rightarrow> (pad_error, pad) result" where
  "process_event mem env tk pe p =
     (if 0 \<le> ev_finger pe \<and> ev_finger pe < int MAX_PAD_FINGERS then
        let p1 = (if current_session p = None then
                    let s = (new_session (session_start env (do_quantize p) tk) False) \<lparr> in_play := True, playback_position := -1 \<rparr> in
                    p \<lparr> current_session := Some (next_session p), next_session := next_session p + 1,
                        recorded_sessions := recorded_sessions p @ [(next_session p, s)] \<rparr>
                  else p);
            i = the (current_session p1); k = nat (ev_finger pe)
        in case find_session i (recorded_sessions p1) of
             None \<Rightarrow> Inl UseAfterFree
           | Some s \<Rightarrow>
               rbind (process_finger_events mem (config p1) pe (playback_position s) (fingers s ! k) (store p1)) (\<lambda>(f, st).
                 Inr (p1 \<lparr> store := st,
                           recorded_sessions := replace_session i (s \<lparr> fingers := (fingers s)[k := f] \<rparr>) (recorded_sessions p1) \<rparr>))
      else Inr p)"

fun process_event_list :: "pad_motion \<Rightarrow> loop_settings \<Rightarrow> int \<Rightarrow> pad_event list \<Rightarrow> pad \<Rightarrow> (pad_error, pad) result" where
  "process_event_list mem env tk [] p = Inr p"
| "process_event_list mem env tk (e # es) p = rbind (process_event mem env tk e p) (process_event_list mem env tk es)"

definition process_events :: "pad_motion \<Rightarrow> loop_settings \<Rightarrow> int \<Rightarrow> pad \<Rightarrow> (pad_error, pad) result" where
  "process_events mem env tk p = process_event_list mem env tk (padEventQueue p) (p \<lparr> padEventQueue := [] \<rparr>)"

fun run_sessions ::
  "scales_object option \<Rightarrow> bool \<Rightarrow> bool \<Rightarrow> bool \<Rightarrow> nat option \<Rightarrow> int \<Rightarrow> (nat \<times> pad_session) list \<Rightarrow> motion_store \<Rightarrow>
    (pad_error, midi_call list \<times> (nat \<times> pad_session) list \<times> motion_store) result" where
  "run_sessions scalo rec mute quantize cur tk [] st = Inr ([], [], st)"
| "run_sessions scalo rec mute quantize cur tk ((i, s) # ss) st =
     (let no_sound = (if cur = Some i then False else mute) in
      case start_play tk s of
        (False, s1) \<Rightarrow>
          rbind (run_sessions scalo rec mute quantize cur tk ss st) (\<lambda>(cs, ss1, st1). Inr (cs, (i, s1) # ss1, st1))
      | (True, s1) \<Rightarrow>
          rbind (process_session scalo rec no_sound quantize s1 st) (\<lambda>(gone, cs, s2, st1).
          rbind (if gone then destroy_fingers (fingers s2) st1 else Inr st1) (\<lambda>st2.
          rbind (run_sessions scalo rec mute quantize cur tk ss st2) (\<lambda>(ds, ss1, st3).
            Inr (cs @ ds, if gone then ss1 else (i, s2) # ss1, st3)))))"

definition process_sessions :: "scales_object option \<Rightarrow> bool \<Rightarrow> int \<Rightarrow> pad \<Rightarrow> (pad_error, midi_call list \<times> pad) result" where
  "process_sessions scalo mute tk p =
     rbind (run_sessions scalo (do_record p) mute (do_quantize p) (current_session p) tk (recorded_sessions p) (store p)) (\<lambda>(cs, ss, st).
       Inr (cs, p \<lparr> recorded_sessions := ss, store := st \<rparr>))"

definition process_pad ::
  "pad_motion \<Rightarrow> loop_settings \<Rightarrow> scales_object option \<Rightarrow> bool \<Rightarrow> int \<Rightarrow> pad \<Rightarrow> (pad_error, midi_call list \<times> pad) result" where
  "process_pad mem env scalo mute tk p = rbind (process_events mem env tk p) (process_sessions scalo mute tk)"

fun sessions_xml :: "nat option \<Rightarrow> (nat \<times> pad_session) list \<Rightarrow> motion_store \<Rightarrow> (pad_error, (string \<times> kxml) list) result" where
  "sessions_xml cur [] st = Inr []"
| "sessions_xml cur ((i, s) # ss) st =
     (if cur = Some i then sessions_xml cur ss st
      else rbind (get_session_xml s st) (\<lambda>x. rbind (sessions_xml cur ss st) (\<lambda>xs. Inr ((''s'', x) # xs))))"

definition get_pad_xml :: "pad \<Rightarrow> (pad_error, kxml) result" where
  "get_pad_xml p =
     rbind (sessions_xml (current_session p) (recorded_sessions p) (store p)) (\<lambda>xs.
       Inr (KXML [] ((''c'', get_configuration_xml (config p)) # xs)))"

definition push_session :: "pad_session \<Rightarrow> motion_store \<Rightarrow> pad \<Rightarrow> pad" where
  "push_session s st p =
     p \<lparr> store := st, recorded_sessions := recorded_sessions p @ [(next_session p, s)], next_session := next_session p + 1 \<rparr>"

text \<open>Old projects: a session per motion. A failure leaves the sessions loaded before it.\<close>

fun load_old_sessions :: "pad_motion \<Rightarrow> kxml list \<Rightarrow> pad \<Rightarrow> pad" where
  "load_old_sessions mem [] p = p"
| "load_old_sessions mem (mxml # ms) p =
     (case load_motion_old mem (config p) 0 mxml of
        None \<Rightarrow> p
      | Some (start_offset, m) \<Rightarrow>
          (case alloc_motion m (store p) of (q, st1) \<Rightarrow>
             case new_session_with start_offset q (KXML_GET_NUMBER mxml ''f'' 0) st1 of
               Inl _ \<Rightarrow> p
             | Inr (s, st2) \<Rightarrow> load_old_sessions mem ms (push_session s st2 p)))"

fun load_new_sessions :: "int \<Rightarrow> pad_motion \<Rightarrow> kxml list \<Rightarrow> pad \<Rightarrow> pad" where
  "load_new_sessions level mem [] p = p"
| "load_new_sessions level mem (x # xs) p =
     (case load_session level mem (config p) x (store p) of
        Inl _ \<Rightarrow> load_new_sessions level mem xs p
      | Inr (s, st) \<Rightarrow> load_new_sessions level mem xs (push_session s st p))"

definition load_pad_from_xml :: "int \<Rightarrow> pad_motion \<Rightarrow> kxml \<Rightarrow> pad \<Rightarrow> pad" where
  "load_pad_from_xml level mem pad_xml p =
     (case load_configuration_from_xml pad_xml (config p) of
        None \<Rightarrow> p
      | Some cfg \<Rightarrow>
          let p1 = p \<lparr> config := cfg \<rparr> in
          if level < 5 then load_old_sessions mem (xml_elements pad_xml ''m'') p1
          else load_new_sessions level mem (xml_elements pad_xml ''s'') p1)"

definition enqueue_event :: "int \<Rightarrow> pad_event_t \<Rightarrow> int \<Rightarrow> int \<Rightarrow> int \<Rightarrow> pad \<Rightarrow> pad" where
  "enqueue_event fid t x y z p =
     p \<lparr> padEventQueue := padEventQueue p @
       [\<lparr> ev_t = t, ev_finger = fid, ev_x = x AND 0x3fff, ev_y = y AND 0x3fff, ev_z = z AND 0x3fff \<rparr>] \<rparr>"

definition internal_set_record :: "bool \<Rightarrow> pad \<Rightarrow> (pad_error, pad) result" where
  "internal_set_record b p =
     (if do_record p = b then Inr p
      else case current_session p of
        None \<Rightarrow> Inr (p \<lparr> do_record := b \<rparr>)
      | Some i \<Rightarrow>
          (case find_session i (recorded_sessions p) of
             None \<Rightarrow> Inl UseAfterFree
           | Some s \<Rightarrow>
               rbind (if \<not> do_record p then delete_session s (store p) else terminate_session s (store p)) (\<lambda>(s1, st).
                 Inr (p \<lparr> store := st, recorded_sessions := replace_session i s1 (recorded_sessions p),
                          current_session := None, do_record := b \<rparr>))))"

definition set_quantize :: "bool \<Rightarrow> pad \<Rightarrow> pad" where
  "set_quantize b p = p \<lparr> do_quantize := b \<rparr>"

fun delete_sessions ::
  "(nat \<times> pad_session) list \<Rightarrow> motion_store \<Rightarrow> (pad_error, (nat \<times> pad_session) list \<times> motion_store) result" where
  "delete_sessions [] st = Inr ([], st)"
| "delete_sessions ((i, s) # ss) st =
     rbind (delete_session s st) (\<lambda>(s1, st1). rbind (delete_sessions ss st1) (\<lambda>(ss1, st2). Inr ((i, s1) # ss1, st2)))"

definition internal_clear_pad :: "pad \<Rightarrow> (pad_error, pad) result" where
  "internal_clear_pad p =
     rbind (delete_sessions (recorded_sessions p) (store p)) (\<lambda>(ss, st).
       Inr (p \<lparr> recorded_sessions := ss, store := st, current_session := None \<rparr>))"

section \<open>Export to a loop\<close>

text \<open>Sessions that start now move to the active ones; those no longer in play leave them. The
  sessions keep their numbers, so that their state can be put back into the pad.\<close>

type_synonym numbered = "(nat \<times> pad_session) list"

fun start_sessions :: "int \<Rightarrow> numbered \<Rightarrow> numbered \<times> numbered" where
  "start_sessions tk [] = ([], [])"
| "start_sessions tk ((i, s) # ss) =
     (case start_sessions tk ss of (go, stay) \<Rightarrow>
        case start_play tk s of (True, s1) \<Rightarrow> ((i, s1) # go, stay) | (False, s1) \<Rightarrow> (go, (i, s1) # stay))"

fun export_sessions ::
  "scales_object option \<Rightarrow> numbered \<Rightarrow> motion_store \<Rightarrow> (pad_error, midi_call list \<times> numbered \<times> numbered \<times> motion_store) result" where
  "export_sessions scalo [] st = Inr ([], [], [], st)"
| "export_sessions scalo ((i, s) # ss) st =
     rbind (process_session scalo False False False s st) (\<lambda>(_, cs, s1, st1).
     rbind (export_sessions scalo ss st1) (\<lambda>(ds, active, ended, st2).
       case start_play (-1) s1 of
         (True, s2) \<Rightarrow> Inr (cs @ ds, (i, s2) # active, ended, st2)
       | (False, s2) \<Rightarrow> Inr (cs @ ds, active, (i, s2) # ended, st2)))"

text \<open>The number bounds the ticks; \<open>None\<close> when it is used up first.\<close>

fun export_loop ::
  "nat \<Rightarrow> scales_object option \<Rightarrow> int \<Rightarrow> numbered \<Rightarrow> numbered \<Rightarrow> numbered \<Rightarrow> motion_store \<Rightarrow> export_builder \<Rightarrow>
    (pad_error, export_builder \<times> numbered \<times> motion_store) result option" where
  "export_loop n scalo stop_tick remaining active ended st pmxb =
     (if current_tick pmxb < stop_tick \<or> active \<noteq> [] then
        (case n of
           0 \<Rightarrow> None
         | Suc k \<Rightarrow>
             (case start_sessions (current_tick pmxb) remaining of (go, stay) \<Rightarrow>
                case export_sessions scalo (active @ go) st of
                  Inl e \<Rightarrow> Some (Inl e)
                | Inr (cs, active1, ended1, st1) \<Rightarrow>
                    export_loop k scalo stop_tick stay active1 (ended @ ended1) st1 (step_tick (fold export_call cs pmxb))))
      else Some (Inr (pmxb, remaining @ ended, st)))"

declare export_loop.simps [simp del]

definition export_to_loop ::
  "nat \<Rightarrow> scales_object option \<Rightarrow> int \<Rightarrow> int \<Rightarrow> export_builder \<Rightarrow> pad \<Rightarrow> (pad_error, export_builder \<times> pad) result option" where
  "export_to_loop n scalo start stop pmxb p =
     (let stop_tick = (if stop < start then 0x7fffffff else stop) in
      case reset_pad p of
        Inl e \<Rightarrow> Some (Inl e)
      | Inr p1 \<Rightarrow>
          (case export_loop n scalo stop_tick
                  (filter (\<lambda>(i, s). current_session p1 \<noteq> Some i \<and> start \<le> start_at_tick s \<and> start_at_tick s < stop_tick)
                     (recorded_sessions p1)) [] [] (store p1) pmxb of
             None \<Rightarrow> None
           | Some (Inl e) \<Rightarrow> Some (Inl e)
           | Some (Inr (pmxb1, ss, st)) \<Rightarrow>
               Some (rbind (reset_pad (p1 \<lparr> store := st,
                       recorded_sessions := fold (\<lambda>(i, s). replace_session i s) ss (recorded_sessions p1) \<rparr>)) (\<lambda>p2.
                 Inr (pmxb1, p2)))))"

section \<open>Recorded chains\<close>

text \<open>A doubly linked segment: \<open>pv\<close> and \<open>h\<close> are the previous node and the pointer into it, \<open>lst\<close> and
  \<open>nx\<close> the last node and the pointer out of it.\<close>

fun dseg :: "motion_store \<Rightarrow> nat option \<Rightarrow> nat option \<Rightarrow> nat list \<Rightarrow> nat option \<Rightarrow> nat option \<Rightarrow> bool" where
  "dseg st pv h [] lst nx \<longleftrightarrow> h = nx \<and> lst = pv"
| "dseg st pv h (p # ps) lst nx \<longleftrightarrow>
     h = Some p \<and> (\<exists>m. motions st p = Some m \<and> prev m = pv \<and> dseg st (Some p) (nxt m) ps lst nx)"

definition recorded_chain :: "motion_store \<Rightarrow> nat option \<Rightarrow> nat list \<Rightarrow> bool" where
  "recorded_chain st h ps \<longleftrightarrow> (\<exists>lst. dseg st None h ps lst None) \<and> distinct ps"

definition tick_of :: "motion_store \<Rightarrow> nat \<Rightarrow> int" where
  "tick_of st p = (case motions st p of Some m \<Rightarrow> start_tick m | None \<Rightarrow> 0)"

lemma dseg_append: "dseg st pv h (xs @ ys) lst nx \<longleftrightarrow> (\<exists>l x. dseg st pv h xs l x \<and> dseg st l x ys lst nx)"
  by (induction xs arbitrary: pv h) auto

lemma dseg_frame: "\<forall>p \<in> set ps. motions st' p = motions st p \<Longrightarrow> dseg st' pv h ps lst nx = dseg st pv h ps lst nx"
  by (induction ps arbitrary: pv h) auto

lemma dseg_last: "dseg st pv h ps lst nx \<Longrightarrow> lst = (if ps = [] then pv else Some (last ps))"
  by (induction ps arbitrary: pv h) auto

lemma dseg_mem: "dseg st pv h ps lst nx \<Longrightarrow> q \<in> set ps \<Longrightarrow> motions st q \<noteq> None"
  by (induction ps arbitrary: pv h) auto

lemma motions_put [simp]: "motions (put_motion p m st) = (motions st)(p := Some m)"
  "next_motion (put_motion p m st) = next_motion st"
  by (simp_all add: put_motion_def)

lemma modify_motion_Some [simp]: "motions st p = Some m \<Longrightarrow> modify_motion p f st = Inr (put_motion p (f m) st)"
  by (simp add: modify_motion_def motion_at_def)

lemma motion_at_Some [simp]: "motions st p = Some m \<Longrightarrow> motion_at p st = Inr m"
  by (simp add: motion_at_def)

text \<open>Redirecting the pointer out of a segment.\<close>

lemma dseg_redirect:
  assumes "dseg st pv h (xs @ [q]) lst nx" "q \<notin> set xs" "motions st q = Some mq"
  shows "dseg (put_motion q (mq \<lparr> nxt := nx' \<rparr>) st) pv h (xs @ [q]) (Some q) nx'"
proof -
  obtain l where l: "dseg st pv h xs l (Some q)" "prev mq = l" using assms(1,3) by (auto simp: dseg_append)
  have "dseg (put_motion q (mq \<lparr> nxt := nx' \<rparr>) st) pv h xs l (Some q)"
    using l(1) assms(2) by (subst dseg_frame [of _ _ st]) auto
  with l(2) show ?thesis by (auto simp: dseg_append)
qed

text \<open>Linking a node in front of a segment, behind another one.\<close>

lemma dseg_insert:
  assumes pre: "dseg st None h pre l (Some tp)" and top: "motions st tp = Some mtp" "prev mtp = l"
    and post: "dseg st (Some tp) (nxt mtp) post lst None" and tg: "motions st t = Some tm"
    and dist: "distinct (pre @ tp # post)" "t \<notin> set (pre @ tp # post)"
    and st1: "st1 = put_motion t (tm \<lparr> nxt := Some tp, prev := l \<rparr>) st"
    and st2: "st2 = (case l of None \<Rightarrow> st1 | Some q \<Rightarrow> put_motion q ((the (motions st q)) \<lparr> nxt := Some t \<rparr>) st1)"
    and st3: "st3 = put_motion tp (mtp \<lparr> prev := Some t \<rparr>) st2"
  shows "\<exists>h'. dseg st3 None h' (pre @ t # tp # post) lst None \<and> h' = (if l = None then Some t else h)"
proof -
  have l: "l = (if pre = [] then None else Some (last pre))" using dseg_last [OF pre] .
  then have l_pre: "q \<in> set pre" if "l = Some q" for q using that last_in_set [of pre] by (simp split: if_splits)
  then have lq: "q \<in> set pre" "q \<notin> set post" "q \<noteq> t" "q \<noteq> tp" if "l = Some q" for q
    using l_pre [OF that] dist by auto
  have post3: "dseg st3 (Some tp) (nxt mtp) post lst None"
    using post dist lq by (subst dseg_frame [of _ _ st]) (auto simp: st1 st2 st3 split: option.split)
  have tg3: "motions st3 t = Some (tm \<lparr> nxt := Some tp, prev := l \<rparr>)"
    using dist lq by (auto simp: st1 st2 st3 split: option.split)
  have tp3: "motions st3 tp = Some (mtp \<lparr> prev := Some t \<rparr>)" by (simp add: st3)
  have rest: "dseg st3 l (Some t) (t # tp # post) lst None" using tg3 tp3 post3 by simp
  show ?thesis
  proof (cases "pre = []")
    case True
    then show ?thesis using rest l by auto
  next
    case False
    then obtain xs q where xs: "pre = xs @ [q]" using rev_exhaust by blast
    then have lq: "l = Some q" using l by simp
    obtain mq where mq: "motions st q = Some mq" using pre xs by (auto simp: dseg_append)
    have "dseg (put_motion q (mq \<lparr> nxt := Some t \<rparr>) st) None h pre (Some q) (Some t)"
      unfolding xs using pre dist mq xs by (intro dseg_redirect) auto
    moreover have "motions st3 p = motions (put_motion q (mq \<lparr> nxt := Some t \<rparr>) st) p" if "p \<in> set pre" for p
      using that dist mq lq xs by (auto simp: st1 st2 st3)
    ultimately have "dseg st3 None h pre (Some q) (Some t)"
      using dseg_frame [of pre st3 "put_motion q (mq \<lparr> nxt := Some t \<rparr>) st"] by blast
    with rest lq show ?thesis by (auto simp: dseg_append)
  qed
qed


lemma dseg_append_node:
  assumes "dseg st None h (pre @ [tp]) lst None" "distinct (pre @ [tp])" "t \<notin> set (pre @ [tp])"
    "motions st tp = Some mtp" "motions st t = Some tm"
  shows "dseg (put_motion t (tm \<lparr> prev := Some tp, nxt := None \<rparr>) (put_motion tp (mtp \<lparr> nxt := Some t \<rparr>) st)) None h
    (pre @ [tp, t]) (Some t) None"
proof -
  let ?st1 = "put_motion tp (mtp \<lparr> nxt := Some t \<rparr>) st"
  let ?st2 = "put_motion t (tm \<lparr> prev := Some tp, nxt := None \<rparr>) ?st1"
  have "dseg ?st1 None h (pre @ [tp]) (Some tp) (Some t)"
    using assms by (intro dseg_redirect [OF assms(1)]) auto
  then have "dseg ?st2 None h (pre @ [tp]) (Some tp) (Some t)"
    using assms(3) by (subst dseg_frame [of _ _ ?st1]) auto
  then have "dseg ?st2 None h ((pre @ [tp]) @ [t]) (Some t) None" unfolding dseg_append by auto
  then show ?thesis by simp
qed

definition keeps_ticks :: "motion_store \<Rightarrow> motion_store \<Rightarrow> bool" where
  "keeps_ticks st st' \<longleftrightarrow> (\<forall>p. tick_of st' p = tick_of st p) \<and> (\<forall>p. (motions st' p = None) = (motions st p = None)) \<and>
     next_motion st' = next_motion st"

lemma keeps_ticks_put:
  "keeps_ticks st st' \<Longrightarrow> tick_of st p = start_tick m \<Longrightarrow> motions st p \<noteq> None \<Longrightarrow> keeps_ticks st (put_motion p m st')"
  by (auto simp: keeps_ticks_def tick_of_def)

lemma keeps_ticks_refl: "keeps_ticks st st"
  by (simp add: keeps_ticks_def)

abbreviation insert_by_tick :: "motion_store \<Rightarrow> nat \<Rightarrow> nat list \<Rightarrow> nat list" where
  "insert_by_tick st \<equiv> insert_behind (tick_of st)"

lemma record_loop_inserts:
  assumes "dseg st None h pre l (Some tp)" "dseg st l (Some tp) (tp # post) lst None" "distinct (pre @ tp # post)"
    "t \<notin> set (pre @ tp # post)" "motions st t = Some tm" "\<forall>p \<in> set pre. tick_of st p \<le> tick_of st t" "length post < n"
  shows "\<exists>h' st'. record_loop n h t tp st = Inr (h', st') \<and> (\<exists>lst'. dseg st' None h' (insert_by_tick st t (pre @ tp # post)) lst' None) \<and>
    keeps_ticks st st'"
  using assms
proof (induction n arbitrary: pre l tp post)
  case (Suc n)
  obtain mtp where mtp: "motions st tp = Some mtp" "prev mtp = l" "dseg st (Some tp) (nxt mtp) post lst None"
    using Suc.prems(2) by auto
  have tk: "tick_of st tp = start_tick mtp" "tick_of st t = start_tick tm" using mtp Suc.prems(5) by (simp_all add: tick_of_def)
  have tw: "takeWhile (\<lambda>p. tick_of st p \<le> tick_of st t) (pre @ ys) = pre @ takeWhile (\<lambda>p. tick_of st p \<le> tick_of st t) ys"
    "dropWhile (\<lambda>p. tick_of st p \<le> tick_of st t) (pre @ ys) = dropWhile (\<lambda>p. tick_of st p \<le> tick_of st t) ys" for ys
    using Suc.prems(6) by auto
  show ?case
  proof (cases "start_tick tm < start_tick mtp")
    case True
    define st1 where "st1 = put_motion t (tm \<lparr> nxt := Some tp, prev := l \<rparr>) st"
    define st2 where "st2 = (case l of None \<Rightarrow> st1 | Some q \<Rightarrow> put_motion q ((the (motions st q)) \<lparr> nxt := Some t \<rparr>) st1)"
    define st3 where "st3 = put_motion tp (mtp \<lparr> prev := Some t \<rparr>) st2"
    from dseg_insert [OF Suc.prems(1) mtp Suc.prems(5,3,4) st1_def st2_def st3_def]
    obtain h' where h': "dseg st3 None h' (pre @ t # tp # post) lst None" "h' = (if l = None then Some t else h)" by blast
    have lq: "q \<in> set pre \<and> q \<noteq> t \<and> q \<noteq> tp" if "l = Some q" for q
      using dseg_last [OF Suc.prems(1)] that Suc.prems(3,4) by (auto split: if_splits)
    have qm: "motions st q \<noteq> None" if "q \<in> set pre" for q
      using dseg_mem [OF Suc.prems(1) that] .
    have st1': "motions st1 tp = Some mtp" using mtp Suc.prems(4) by (auto simp: st1_def)
    have m2: "motions st2 tp = Some mtp" using st1' lq by (auto simp: st2_def split: option.split)
    have "record_loop (Suc n) h t tp st = Inr (h', st3)"
    proof (cases l)
      case None
      then show ?thesis using True mtp Suc.prems(5) h' st1' by (simp add: st2_def st3_def st1_def)
    next
      case (Some q)
      then obtain mq where "motions st q = Some mq" using lq qm by blast
      then show ?thesis using Some True mtp Suc.prems(5) h' m2 lq by (simp add: st2_def st3_def st1_def)
    qed
    moreover have "keeps_ticks st st3"
    proof -
      have "keeps_ticks st st1" unfolding st1_def using tk(2) Suc.prems(5) by (intro keeps_ticks_put keeps_ticks_refl) auto
      moreover have "keeps_ticks st st2"
      proof (cases l)
        case (Some q)
        then obtain mq where "motions st q = Some mq" using lq qm by blast
        then show ?thesis using Some \<open>keeps_ticks st st1\<close> unfolding st2_def
          by (auto intro!: keeps_ticks_put simp: tick_of_def)
      qed (use \<open>keeps_ticks st st1\<close> in \<open>simp add: st2_def\<close>)
      ultimately show ?thesis unfolding st3_def using tk(1) mtp(1) by (intro keeps_ticks_put) auto
    qed
    moreover have "insert_by_tick st t (pre @ tp # post) = pre @ t # tp # post"
      unfolding insert_behind_def tw using True tk by simp
    ultimately show ?thesis using h'(1) by auto
  next
    case False
    show ?thesis
    proof (cases post)
      case Nil
      then have nx: "nxt mtp = None" using mtp(3) by simp
      have "dseg st None h (pre @ [tp]) (Some tp) None" using Suc.prems(1) mtp nx by (auto simp: dseg_append)
      from dseg_append_node [OF this] Suc.prems(3,4,5) mtp(1) Nil
      have "dseg (put_motion t (tm \<lparr> prev := Some tp, nxt := None \<rparr>) (put_motion tp (mtp \<lparr> nxt := Some t \<rparr>) st)) None h
        (pre @ [tp, t]) (Some t) None" by auto
      moreover have "keeps_ticks st (put_motion t (tm \<lparr> prev := Some tp, nxt := None \<rparr>) (put_motion tp (mtp \<lparr> nxt := Some t \<rparr>) st))"
        using tk mtp(1) Suc.prems(5) by (intro keeps_ticks_put keeps_ticks_refl) auto
      moreover have "insert_by_tick st t (pre @ tp # post) = pre @ [tp, t]"
        unfolding insert_behind_def tw using False tk Nil by simp
      moreover have "motions (put_motion tp (mtp \<lparr> nxt := Some t \<rparr>) st) t = Some tm" using Suc.prems(4,5) by auto
      ultimately show ?thesis using False mtp(1) nx Suc.prems(5) by auto
    next
      case (Cons q qs)
      then have nx: "nxt mtp = Some q" "dseg st (Some tp) (Some q) (q # qs) lst None" using mtp(3) by auto
      have pre': "dseg st None h (pre @ [tp]) (Some tp) (Some q)" using Suc.prems(1) mtp nx by (auto simp: dseg_append)
      have "\<exists>h' st'. record_loop n h t q st = Inr (h', st') \<and>
          (\<exists>lst'. dseg st' None h' (insert_by_tick st t ((pre @ [tp]) @ q # qs)) lst' None) \<and> keeps_ticks st st'"
        using Suc.prems False tk Cons by (intro Suc.IH [OF pre' nx(2)]) auto
      then show ?thesis using False mtp(1) nx(1) Suc.prems(5) Cons by simp
    qed
  qed
qed simp


definition store_ok :: "motion_store \<Rightarrow> bool" where
  "store_ok st \<longleftrightarrow> (\<forall>p. motions st p \<noteq> None \<longrightarrow> p < next_motion st)"

lemma chain_shorter:
  assumes "store_ok st" "dseg st None h ps lst None" "distinct ps"
  shows "length ps \<le> next_motion st"
proof -
  have "set ps \<subseteq> {..<next_motion st}" using assms(1) dseg_mem [OF assms(2)] by (auto simp: store_ok_def)
  then have "card (set ps) \<le> card {..<next_motion st}" by (intro card_mono) auto
  then show ?thesis using assms(3) by (simp add: distinct_card)
qed

section \<open>Properties of sessions\<close>

text \<open>C34: \<open>record_motion\<close> links the motion into the doubly linked chain of its finger behind every
  motion that starts no later, changes no start tick and allocates nothing; a chain in the order
  of start ticks stays in that order.\<close>

theorem record_motion_ordered:
  assumes "store_ok st" "recorded_chain st h ps" "motions st t \<noteq> None" "t \<notin> set ps"
  shows "\<exists>h' st'. record_motion h t st = Inr (h', st') \<and> recorded_chain st' h' (insert_by_tick st t ps) \<and> keeps_ticks st st' \<and>
    (sorted (map (tick_of st) ps) \<longrightarrow> sorted (map (tick_of st') (insert_by_tick st t ps)))"
proof -
  obtain tm where tm: "motions st t = Some tm" using assms(3) by blast
  obtain lst where seg: "dseg st None h ps lst None" and d: "distinct ps" using assms(2) by (auto simp: recorded_chain_def)
  have "\<exists>h' st'. record_motion h t st = Inr (h', st') \<and> (\<exists>l. dseg st' None h' (insert_by_tick st t ps) l None) \<and> keeps_ticks st st'"
  proof (cases ps)
    case Nil
    let ?st' = "put_motion t (tm \<lparr> nxt := None, prev := None \<rparr>) st"
    have "keeps_ticks st ?st'" using tm by (intro keeps_ticks_put keeps_ticks_refl) (auto simp: tick_of_def)
    then show ?thesis using Nil seg tm by (simp add: record_motion_def insert_behind_def)
  next
    case (Cons tp post)
    have h: "h = Some tp" using seg Cons by simp
    have "length ps \<le> next_motion st" using assms(1) seg d by (rule chain_shorter)
    then have "length post < next_motion st" using Cons by simp
    from record_loop_inserts [of st h "[]" None tp post lst t tm, OF _ _ _ _ tm _ this] seg d assms(4) Cons h
    show ?thesis by (simp add: record_motion_def)
  qed
  then obtain h' st' where r: "record_motion h t st = Inr (h', st')" "\<exists>l. dseg st' None h' (insert_by_tick st t ps) l None"
    "keeps_ticks st st'" by blast
  moreover have "tick_of st' = tick_of st" using r(3) by (auto simp: keeps_ticks_def)
  ultimately show ?thesis
    using sorted_insert_behind [of "tick_of st" ps t] d assms(4) by (auto simp: recorded_chain_def)
qed

definition two_motions :: motion_store where
  "two_motions = \<lparr> motions = [0 \<mapsto> (press arp_off chord_off 0) \<lparr> start_tick := 7 \<rparr>, 1 \<mapsto> (press arp_off chord_off 0) \<lparr> start_tick := 7 \<rparr>],
     next_motion = 2 \<rparr>"

theorem record_motion_ordered_witness:
  "\<exists>h' st'. record_motion (Some 0) 1 two_motions = Inr (h', st') \<and> recorded_chain st' h' (insert_by_tick two_motions 1 [0])"
proof -
  have "store_ok two_motions" "motions two_motions 1 \<noteq> None" "1 \<notin> set [0 :: nat]" by (auto simp: store_ok_def two_motions_def)
  moreover have "recorded_chain two_motions (Some 0) [0]"
    by (simp add: recorded_chain_def two_motions_def press_def new_motion_def add_position_def blank_motion_def)
  ultimately show ?thesis using record_motion_ordered [of two_motions "Some 0" "[0]" 1] by blast
qed

text \<open>A finger whose next recorded motion should have started earlier is stuck: it plays nothing,
  changes nothing and never reports completion. Recording with quantisation makes such chains,
  since the start tick is quantised after the motion was linked in by its old one.\<close>

theorem late_motion_blocks_finger:
  assumes "next_motion_to_play f = Some p" "motions st p = Some m" "start_tick m < pos" "playing_motions f = []" "\<not> pf_to_be_deleted f"
  shows "process_finger_motions scalo rec False pos qu f st = Inr (False, [], f, st)"
proof -
  have "start_motion pos m = Inr (False, m)" using assms(3) by (simp add: start_motion_def)
  then have "start_stored pos p st = Inr (False, put_motion p m st)" using assms(2) by (simp add: start_stored_def)
  moreover have "put_motion p m st = st" using assms(2) by (simp add: put_motion_def fun_upd_idem)
  ultimately have "start_due (next_motion st + 1) pos (Some p) [] st = Inr (Some p, [], st)" by simp
  then show ?thesis using assms by (simp add: process_finger_motions_def)
qed

definition quantized_finger :: "(pad_finger \<times> motion_store) option" where
  "quantized_finger =
     (case end_motion True True 1 (new_finger \<lparr> recorded := Some 0, current := Some 1 \<rparr>) two_motions of
        Inl _ \<Rightarrow> None | Inr r \<Rightarrow> Some r)"

theorem late_motion_blocks_finger_witness:
  "\<exists>f st. quantized_finger = Some (f, st) \<and> recorded f = Some 0 \<and> tick_of st 0 = 7 \<and> tick_of st 1 = 0 \<and>
     process_finger_motions None True False 8 True (f \<lparr> next_motion_to_play := Some 1 \<rparr>) st =
       Inr (False, [], f \<lparr> next_motion_to_play := Some 1 \<rparr>, st)"
proof -
  define q where "q = quantized_finger"
  have ev: "(case quantized_finger of None \<Rightarrow> False | Some (f, st) \<Rightarrow>
      recorded f = Some 0 \<and> tick_of st 0 = 7 \<and> tick_of st 1 = 0 \<and> motions st 1 \<noteq> None \<and> playing_motions f = [] \<and> \<not> pf_to_be_deleted f)"
    by code_simp
  then obtain f st where f: "quantized_finger = Some (f, st)" "recorded f = Some 0" "tick_of st 0 = 7" "tick_of st 1 = 0"
    "motions st 1 \<noteq> None" "playing_motions f = []" "\<not> pf_to_be_deleted f" by (auto split: option.splits)
  then obtain m where m: "motions st 1 = Some m" "start_tick m = 0" by (auto simp: tick_of_def)
  have "process_finger_motions None True False 8 True (f \<lparr> next_motion_to_play := Some 1 \<rparr>) st =
       Inr (False, [], f \<lparr> next_motion_to_play := Some 1 \<rparr>, st)"
    using f m by (intro late_motion_blocks_finger [where p = 1 and m = m]) auto
  with f show ?thesis by blast
qed

end
