(* ===== verification/Note_Loop.thy ===== *)
theory Note_Loop
  imports Doubly_Linked Pad_Session
begin

text \<open>
  The loops of a machine sequencer (machine_sequencer.cc, \<open>MachineSequencer::NoteEntry\<close> and
  \<open>MachineSequencer::Loop\<close>): notes on the heap, held together by a doubly linked list in order of
  their start, a pointer to the note that is played next and sixteen slots of notes that sound.
  Following a pointer to a note that has been deleted is \<open>DanglingNote\<close>. The walks along a list carry
  a number of steps, one more than there ever were notes; a list with a cycle uses it up.
\<close>

section \<open>Notes\<close>

record note_entry =
  nt_channel :: "8 word"
  nt_program :: "8 word"
  nt_velocity :: "8 word"
  nt_note :: "8 word"
  nt_on_at :: int
  nt_length :: int
  nt_prev :: "nat option"
  nt_next :: "nat option"
  nt_ticks2off :: int

record note_heap =
  note_mem :: "nat \<Rightarrow> note_entry option"
  note_top :: nat

datatype loop_error = DanglingNote | EndlessList

text \<open>The constructor gives \<open>ticks2off\<close> no value; it is written before it is read, and is 0 here.\<close>

definition new_note_entry :: note_entry where
  "new_note_entry = \<lparr> nt_channel = 0, nt_program = 0, nt_velocity = 0x7f, nt_note = 0, nt_on_at = -1, nt_length = -1,
     nt_prev = None, nt_next = None, nt_ticks2off = 0 \<rparr>"

definition note_set_to :: "note_entry \<Rightarrow> note_entry \<Rightarrow> note_entry" where
  "note_set_to original n =
     n \<lparr> nt_channel := nt_channel original AND 0x0f, nt_program := nt_program original AND 0x7f,
         nt_velocity := nt_velocity original AND 0x7f, nt_note := nt_note original AND 0x7f,
         nt_on_at := nt_on_at original, nt_length := nt_length original \<rparr>"

definition copy_note_entry :: "note_entry \<Rightarrow> note_entry" where
  "copy_note_entry original = note_set_to original (new_note_entry \<lparr> nt_prev := None, nt_next := None \<rparr>)"

definition alloc_note :: "note_entry \<Rightarrow> note_heap \<Rightarrow> nat \<times> note_heap" where
  "alloc_note n h = (note_top h, h \<lparr> note_mem := (note_mem h)(note_top h := Some n), note_top := Suc (note_top h) \<rparr>)"

definition note_at :: "nat \<Rightarrow> note_heap \<Rightarrow> (loop_error, note_entry) result" where
  "note_at p h = (case note_mem h p of None \<Rightarrow> Inl DanglingNote | Some n \<Rightarrow> Inr n)"

definition modify_note :: "nat \<Rightarrow> (note_entry \<Rightarrow> note_entry) \<Rightarrow> note_heap \<Rightarrow> (loop_error, note_heap) result" where
  "modify_note p f h = rbind (note_at p h) (\<lambda>n. Inr (h \<lparr> note_mem := (note_mem h)(p := Some (f n)) \<rparr>))"

definition free_note :: "nat \<Rightarrow> note_heap \<Rightarrow> (loop_error, note_heap) result" where
  "free_note p h = rbind (note_at p h) (\<lambda>_. Inr (h \<lparr> note_mem := (note_mem h)(p := None) \<rparr>))"

section \<open>Loops\<close>

definition MAX_ACTIVE_NOTES :: nat where "MAX_ACTIVE_NOTES = 16"

record note_loop =
  loop_position :: int
  loop_notes :: "nat option"
  next_note_to_play :: "nat option"
  active_note :: "nat option list"

text \<open>The constructor leaves \<open>loop_position\<close> to \<open>start_to_play\<close>.\<close>

definition new_loop :: note_loop where
  "new_loop = \<lparr> loop_position = 0, loop_notes = None, next_note_to_play = None,
     active_note = replicate MAX_ACTIVE_NOTES None \<rparr>"

type_synonym loop_state = "note_loop \<times> note_heap"

subsection \<open>Editing\<close>

fun insert_note_walk :: "nat \<Rightarrow> nat \<Rightarrow> nat \<Rightarrow> loop_state \<Rightarrow> (loop_error, loop_state) result" where
  "insert_note_walk 0 crnt new_one lh = Inl EndlessList"
| "insert_note_walk (Suc k) crnt new_one (l, h) =
     rbind (note_at crnt h) (\<lambda>c. rbind (note_at new_one h) (\<lambda>n.
       if nt_on_at c > nt_on_at n then
         rbind (modify_note new_one (\<lambda>x. x \<lparr> nt_prev := nt_prev c, nt_next := Some crnt \<rparr>) h) (\<lambda>h1.
         rbind (case nt_prev c of
                  Some q \<Rightarrow> rbind (modify_note q (\<lambda>x. x \<lparr> nt_next := Some new_one \<rparr>) h1) (\<lambda>h2. Inr (l, h2))
                | None \<Rightarrow> Inr (l \<lparr> loop_notes := Some new_one \<rparr>, h1)) (\<lambda>(l1, h2).
         rbind (modify_note crnt (\<lambda>x. x \<lparr> nt_prev := Some new_one \<rparr>) h2) (\<lambda>h3. Inr (l1, h3))))
       else case nt_next c of
         None \<Rightarrow>
           rbind (modify_note crnt (\<lambda>x. x \<lparr> nt_next := Some new_one \<rparr>) h) (\<lambda>h1.
           rbind (modify_note new_one (\<lambda>x. x \<lparr> nt_prev := Some crnt, nt_next := None \<rparr>) h1) (\<lambda>h2. Inr (l, h2)))
       | Some c' \<Rightarrow> insert_note_walk k c' new_one (l, h)))"

definition internal_insert_note :: "nat \<Rightarrow> loop_state \<Rightarrow> (loop_error, loop_state) result" where
  "internal_insert_note new_one lh =
     (case lh of (l, h) \<Rightarrow>
        case loop_notes l of
          None \<Rightarrow> rbind (modify_note new_one (\<lambda>x. x \<lparr> nt_next := None, nt_prev := None \<rparr>) h) (\<lambda>h1.
                    Inr (l \<lparr> loop_notes := Some new_one \<rparr>, h1))
        | Some crnt \<Rightarrow> insert_note_walk (Suc (note_top h)) crnt new_one (l, h))"

definition note_insert :: "note_entry \<Rightarrow> loop_state \<Rightarrow> (loop_error, nat \<times> loop_state) result" where
  "note_insert new_entry lh =
     (case lh of (l, h) \<Rightarrow> case alloc_note (copy_note_entry new_entry) h of (p, h1) \<Rightarrow>
        rbind (internal_insert_note p (l, h1)) (\<lambda>lh1. Inr (p, lh1)))"

text \<open>The note is taken out of the list; the slots of sounding notes keep the pointer to it.\<close>

definition unchain_note :: "nat \<Rightarrow> note_entry \<Rightarrow> loop_state \<Rightarrow> (loop_error, loop_state) result" where
  "unchain_note crnt c lh =
     (case lh of (l, h) \<Rightarrow>
        rbind (case nt_prev c of Some q \<Rightarrow> modify_note q (\<lambda>x. x \<lparr> nt_next := nt_next c \<rparr>) h | None \<Rightarrow> Inr h) (\<lambda>h1.
        rbind (case nt_next c of Some q \<Rightarrow> modify_note q (\<lambda>x. x \<lparr> nt_prev := nt_prev c \<rparr>) h1 | None \<Rightarrow> Inr h1) (\<lambda>h2.
          Inr (l \<lparr> next_note_to_play := (if next_note_to_play l = Some crnt then nt_next c else next_note_to_play l),
                   loop_notes := (if loop_notes l = Some crnt then nt_next c else loop_notes l) \<rparr>, h2))))"

fun delete_note_walk :: "nat \<Rightarrow> nat option \<Rightarrow> nat \<Rightarrow> loop_state \<Rightarrow> (loop_error, nat option \<times> loop_state) result" where
  "delete_note_walk k None net lh = Inr (None, lh)"
| "delete_note_walk 0 (Some crnt) net lh = Inl EndlessList"
| "delete_note_walk (Suc k) (Some crnt) net (l, h) =
     rbind (note_at crnt h) (\<lambda>c.
       if crnt = net then rbind (unchain_note crnt c (l, h)) (\<lambda>lh. Inr (Some crnt, lh))
       else delete_note_walk k (nt_next c) net (l, h))"

definition internal_delete_note :: "nat \<Rightarrow> loop_state \<Rightarrow> (loop_error, nat option \<times> loop_state) result" where
  "internal_delete_note net lh = delete_note_walk (Suc (note_top (snd lh))) (loop_notes (fst lh)) net lh"

definition note_delete :: "nat \<Rightarrow> loop_state \<Rightarrow> (loop_error, loop_state) result" where
  "note_delete net lh =
     rbind (internal_delete_note net lh) (\<lambda>(deletable, l, h).
       case deletable of None \<Rightarrow> Inr (l, h) | Some p \<Rightarrow> rbind (free_note p h) (\<lambda>h1. Inr (l, h1)))"

fun update_note_walk :: "nat \<Rightarrow> nat option \<Rightarrow> nat \<Rightarrow> note_entry \<Rightarrow> note_heap \<Rightarrow> (loop_error, note_heap) result" where
  "update_note_walk k None original new_entry h = Inr h"
| "update_note_walk 0 (Some crnt) original new_entry h = Inl EndlessList"
| "update_note_walk (Suc k) (Some crnt) original new_entry h =
     rbind (note_at crnt h) (\<lambda>c.
       if crnt = original then modify_note crnt (note_set_to new_entry) h
       else update_note_walk k (nt_next c) original new_entry h)"

definition note_update :: "nat \<Rightarrow> note_entry \<Rightarrow> loop_state \<Rightarrow> (loop_error, loop_state) result" where
  "note_update original new_entry lh =
     (case lh of (l, h) \<Rightarrow>
        rbind (update_note_walk (Suc (note_top h)) (loop_notes l) original new_entry h) (\<lambda>h1. Inr (l, h1)))"

text \<open>Neither \<open>next_note_to_play\<close> nor the slots are cleared.\<close>

definition internal_clear :: "note_loop \<Rightarrow> nat option \<times> note_loop" where
  "internal_clear l = (loop_notes l, l \<lparr> loop_notes := None \<rparr>)"

fun delete_notes :: "nat \<Rightarrow> nat option \<Rightarrow> note_heap \<Rightarrow> (loop_error, note_heap) result" where
  "delete_notes k None h = Inr h"
| "delete_notes 0 (Some p) h = Inl EndlessList"
| "delete_notes (Suc k) (Some p) h = rbind (note_at p h) (\<lambda>n. rbind (free_note p h) (delete_notes k (nt_next n)))"

definition clear_loop :: "loop_state \<Rightarrow> (loop_error, loop_state) result" where
  "clear_loop lh =
     (case lh of (l, h) \<Rightarrow> case internal_clear l of (notes_to_delete, l1) \<Rightarrow>
        rbind (delete_notes (Suc (note_top h)) notes_to_delete h) (\<lambda>h1. Inr (l1, h1)))"

fun insert_notes_walk :: "nat \<Rightarrow> nat option \<Rightarrow> loop_state \<Rightarrow> (loop_error, loop_state) result" where
  "insert_notes_walk k None lh = Inr lh"
| "insert_notes_walk 0 (Some p) lh = Inl EndlessList"
| "insert_notes_walk (Suc k) (Some p) lh =
     rbind (note_at p (snd lh)) (\<lambda>n. rbind (internal_insert_note p lh) (insert_notes_walk k (nt_next n)))"

definition internal_insert_notes :: "nat option \<Rightarrow> loop_state \<Rightarrow> (loop_error, nat option \<times> loop_state) result" where
  "internal_insert_notes new_notes lh =
     (case lh of (l, h) \<Rightarrow> case internal_clear l of (notes_to_delete, l1) \<Rightarrow>
        rbind (insert_notes_walk (Suc (note_top h)) new_notes (l1, h)) (\<lambda>lh1. Inr (notes_to_delete, lh1)))"

text \<open>The clones are chained in the order of the originals, \<open>clone\<close> is the last one so far.\<close>

fun clone_notes :: "nat \<Rightarrow> nat option \<Rightarrow> nat option \<Rightarrow> nat option \<Rightarrow> note_heap \<Rightarrow> (loop_error, nat option \<times> note_heap) result" where
  "clone_notes k None new_ones clone h = Inr (new_ones, h)"
| "clone_notes 0 (Some original) new_ones clone h = Inl EndlessList"
| "clone_notes (Suc k) (Some original) new_ones clone h =
     rbind (note_at original h) (\<lambda>n.
       case clone of
         None \<Rightarrow> (case alloc_note (copy_note_entry n) h of (p, h1) \<Rightarrow> clone_notes k (nt_next n) (Some p) (Some p) h1)
       | Some c \<Rightarrow> (case alloc_note ((copy_note_entry n) \<lparr> nt_prev := Some c \<rparr>) h of (p, h1) \<Rightarrow>
             rbind (modify_note c (\<lambda>x. x \<lparr> nt_next := Some p \<rparr>) h1) (clone_notes k (nt_next n) new_ones (Some p))))"

definition copy_loop :: "note_loop \<Rightarrow> loop_state \<Rightarrow> (loop_error, loop_state) result" where
  "copy_loop src lh =
     (case lh of (l, h) \<Rightarrow>
        rbind (clone_notes (Suc (note_top h)) (loop_notes src) None None h) (\<lambda>(new_notes, h1).
        rbind (internal_insert_notes new_notes (l, h1)) (\<lambda>(notes_to_delete, l2, h2).
        rbind (delete_notes (Suc (note_top h2)) notes_to_delete h2) (\<lambda>h3. Inr (l2, h3)))))"

subsection \<open>Saving and loading\<close>

definition note_xml :: "note_entry \<Rightarrow> kxml" where
  "note_xml n = KXML [(''channel'', uint (nt_channel n)), (''program'', uint (nt_program n)),
     (''velocity'', uint (nt_velocity n)), (''note'', uint (nt_note n)), (''on_tick'', nt_on_at n), (''length'', nt_length n)] []"

fun notes_xml :: "nat \<Rightarrow> nat option \<Rightarrow> note_heap \<Rightarrow> (loop_error, (string \<times> kxml) list) result" where
  "notes_xml k None h = Inr []"
| "notes_xml 0 (Some p) h = Inl EndlessList"
| "notes_xml (Suc k) (Some p) h =
     rbind (note_at p h) (\<lambda>n. rbind (notes_xml k (nt_next n) h) (\<lambda>xs. Inr ((''note'', note_xml n) # xs)))"

definition get_loop_xml :: "int \<Rightarrow> loop_state \<Rightarrow> (loop_error, kxml) result" where
  "get_loop_xml i lh =
     (case lh of (l, h) \<Rightarrow>
        rbind (notes_xml (Suc (note_top h)) (loop_notes l) h) (\<lambda>xs. Inr (KXML [(''id'', i)] xs)))"

definition read_note_xml :: "kxml \<Rightarrow> note_entry" where
  "read_note_xml x =
     (let line = KXML_GET_NUMBER x ''on'' (-1); tick = KXML_GET_NUMBER x ''on_tick'' 0; len = KXML_GET_NUMBER x ''length'' (-1)
      in (note_set_to new_note_entry new_note_entry)
           \<lparr> nt_channel := word_of_int (KXML_GET_NUMBER x ''channel'' 0), nt_program := word_of_int (KXML_GET_NUMBER x ''program'' 0),
             nt_velocity := word_of_int (KXML_GET_NUMBER x ''velocity'' 127), nt_note := word_of_int (KXML_GET_NUMBER x ''note'' 0),
             nt_on_at := (if line \<noteq> -1 then PAD_TIME line tick else tick),
             nt_length := (if line \<noteq> -1 then PAD_TIME len 0 else len) \<rparr>)"

fun load_notes :: "kxml list \<Rightarrow> loop_state \<Rightarrow> (loop_error, loop_state) result" where
  "load_notes [] lh = Inr lh"
| "load_notes (x # xs) (l, h) =
     (let temp_note = read_note_xml x in
      if 0 \<le> nt_length temp_note then
        (case alloc_note (copy_note_entry temp_note) h of (p, h1) \<Rightarrow> rbind (internal_insert_note p (l, h1)) (load_notes xs))
      else load_notes xs (l, h))"

definition load_loop :: "kxml \<Rightarrow> note_heap \<Rightarrow> (loop_error, loop_state) result" where
  "load_loop loop_xml h = load_notes (xml_elements loop_xml ''note'') (new_loop, h)"

subsection \<open>Playing\<close>

definition start_to_play :: "note_loop \<Rightarrow> note_loop" where
  "start_to_play l = l \<lparr> loop_position := 0, next_note_to_play := loop_notes l \<rparr>"

text \<open>The first slot that holds a given value.\<close>

fun first_slot :: "nat option \<Rightarrow> nat option list \<Rightarrow> nat option" where
  "first_slot v [] = None"
| "first_slot v (x # xs) = (if x = v then Some 0 else map_option Suc (first_slot v xs))"

definition activate_note :: "nat \<Rightarrow> note_loop \<Rightarrow> bool \<times> note_loop" where
  "activate_note n l =
     (case first_slot None (active_note l) of
        Some x \<Rightarrow> (True, l \<lparr> active_note := (active_note l)[x := Some n] \<rparr>)
      | None \<Rightarrow> (False, l))"

definition deactivate_note :: "nat \<Rightarrow> note_loop \<Rightarrow> note_loop" where
  "deactivate_note n l =
     (case first_slot (Some n) (active_note l) of
        Some x \<Rightarrow> l \<lparr> active_note := (active_note l)[x := None] \<rparr>
      | None \<Rightarrow> l)"

fun process_note_on :: "nat \<Rightarrow> bool \<Rightarrow> bool \<Rightarrow> loop_state \<Rightarrow> (loop_error, midi_call list \<times> loop_state) result" where
  "process_note_on 0 playing mute lh = Inl EndlessList"
| "process_note_on (Suc k) playing mute (l, h) =
     (case next_note_to_play l of
        None \<Rightarrow> Inr ([], (l, h))
      | Some n \<Rightarrow>
          rbind (note_at n h) (\<lambda>e.
            if nt_on_at e \<noteq> loop_position l then Inr ([], (l, h))
            else
              let (started, l1) = (if playing \<and> \<not> mute then activate_note n l else (False, l));
                  cs = (if started then [NoteOn (uint (nt_note e)) (uint (nt_velocity e)) (uint (nt_channel e))] else []);
                  h1 = (if started then h \<lparr> note_mem := (note_mem h)(n := Some (e \<lparr> nt_ticks2off := nt_length e + 1 \<rparr>)) \<rparr> else h)
              in rbind (process_note_on k playing mute (l1 \<lparr> next_note_to_play := nt_next e \<rparr>, h1)) (\<lambda>(ds, lh). Inr (cs @ ds, lh))))"

fun process_note_off :: "nat list \<Rightarrow> loop_state \<Rightarrow> (loop_error, midi_call list \<times> loop_state) result" where
  "process_note_off [] lh = Inr ([], lh)"
| "process_note_off (k # ks) (l, h) =
     (case active_note l ! k of
        None \<Rightarrow> process_note_off ks (l, h)
      | Some n \<Rightarrow>
          rbind (note_at n h) (\<lambda>e.
            if nt_ticks2off e > 0
            then process_note_off ks (l, h \<lparr> note_mem := (note_mem h)(n := Some (e \<lparr> nt_ticks2off := nt_ticks2off e - 1 \<rparr>)) \<rparr>)
            else rbind (process_note_off ks (deactivate_note n l, h)) (\<lambda>(ds, lh).
                   Inr (NoteOff (uint (nt_note e)) 0x80 (uint (nt_channel e)) # ds, lh))))"

definition process_loop :: "bool \<Rightarrow> bool \<Rightarrow> loop_state \<Rightarrow> (loop_error, midi_call list \<times> loop_state) result" where
  "process_loop playing mute lh =
     rbind (process_note_on (Suc (note_top (snd lh))) playing mute lh) (\<lambda>(cs, lh1).
     rbind (process_note_off [0..<MAX_ACTIVE_NOTES] lh1) (\<lambda>(ds, l, h).
       Inr (cs @ ds, (l \<lparr> loop_position := loop_position l + 1 \<rparr>, h))))"

section \<open>The list of notes\<close>

abbreviation note_pv :: "note_heap \<Rightarrow> nat \<Rightarrow> nat option" where
  "note_pv h \<equiv> \<lambda>p. case note_mem h p of Some n \<Rightarrow> nt_prev n | None \<Rightarrow> None"

abbreviation note_nx :: "note_heap \<Rightarrow> nat \<Rightarrow> nat option" where
  "note_nx h \<equiv> \<lambda>p. case note_mem h p of Some n \<Rightarrow> nt_next n | None \<Rightarrow> None"

definition note_chain :: "note_heap \<Rightarrow> nat option \<Rightarrow> nat list \<Rightarrow> bool" where
  "note_chain h head ps \<longleftrightarrow> (\<exists>l. sseg (note_pv h) (note_nx h) None head ps None l) \<and> distinct ps \<and> (\<forall>p \<in> set ps. note_mem h p \<noteq> None)"

definition heap_ok :: "note_heap \<Rightarrow> bool" where
  "heap_ok h \<longleftrightarrow> (\<forall>p. note_mem h p \<noteq> None \<longrightarrow> p < note_top h)"

definition starts :: "note_heap \<Rightarrow> nat \<Rightarrow> int" where
  "starts h p = (case note_mem h p of Some n \<Rightarrow> nt_on_at n | None \<Rightarrow> 0)"

text \<open>What editing the list keeps of a heap: which notes there are and everything in them but the links.\<close>

definition unlinked :: "note_entry \<Rightarrow> note_entry" where
  "unlinked n = n \<lparr> nt_prev := None, nt_next := None \<rparr>"

definition same_notes :: "note_heap \<Rightarrow> note_heap \<Rightarrow> bool" where
  "same_notes h h' \<longleftrightarrow> note_top h' = note_top h \<and> (\<forall>p. map_option unlinked (note_mem h' p) = map_option unlinked (note_mem h p))"

lemma same_notes_refl [simp]: "same_notes h h"
  by (simp add: same_notes_def)

lemma same_notes_put:
  "same_notes h h' \<Longrightarrow> note_mem h' p = Some n \<Longrightarrow> unlinked n' = unlinked n \<Longrightarrow>
     same_notes h (h' \<lparr> note_mem := (note_mem h')(p := Some n') \<rparr>)"
  unfolding same_notes_def by (auto simp: fun_upd_def) (metis option.map(2))

lemma same_notes_ok: "same_notes h h' \<Longrightarrow> heap_ok h \<Longrightarrow> heap_ok h'"
  unfolding same_notes_def heap_ok_def by (metis option.map_disc_iff)

lemma unlinked_fields [simp]:
  "nt_on_at (unlinked n) = nt_on_at n" "nt_length (unlinked n) = nt_length n" "nt_note (unlinked n) = nt_note n"
  "nt_velocity (unlinked n) = nt_velocity n" "nt_channel (unlinked n) = nt_channel n" "nt_program (unlinked n) = nt_program n"
  "nt_ticks2off (unlinked n) = nt_ticks2off n"
  by (simp_all add: unlinked_def)

lemma starts_cong:
  assumes "map_option unlinked (note_mem h' p) = map_option unlinked (note_mem h p)"
  shows "starts h' p = starts h p"
  using assms by (cases "note_mem h' p"; cases "note_mem h p") (simp_all add: starts_def, metis unlinked_fields(1))

lemma same_notes_starts: "same_notes h h' \<Longrightarrow> starts h' = starts h"
  by (auto simp: same_notes_def intro: starts_cong)

lemma unlinked_links [simp]:
  "unlinked (n \<lparr> nt_prev := a \<rparr>) = unlinked n" "unlinked (n \<lparr> nt_next := a \<rparr>) = unlinked n"
  by (simp_all add: unlinked_def)

lemma note_at_Some [simp]: "note_mem h p = Some n \<Longrightarrow> note_at p h = Inr n"
  by (simp add: note_at_def)

lemma modify_note_Some [simp]:
  "note_mem h p = Some n \<Longrightarrow> modify_note p f h = Inr (h \<lparr> note_mem := (note_mem h)(p := Some (f n)) \<rparr>)"
  by (simp add: modify_note_def)

lemma chain_length:
  assumes "note_chain h head ps" "heap_ok h"
  shows "length ps \<le> note_top h"
proof -
  have "set ps \<subseteq> {..<note_top h}" using assms by (auto simp: note_chain_def heap_ok_def)
  then have "card (set ps) \<le> note_top h" using card_mono [of "{..<note_top h}" "set ps"] by simp
  with assms(1) show ?thesis by (simp add: note_chain_def distinct_card)
qed

subsection \<open>Inserting\<close>

text \<open>A note goes behind all those that do not start after it.\<close>

abbreviation insert_by_start :: "note_heap \<Rightarrow> nat \<Rightarrow> nat list \<Rightarrow> nat list" where
  "insert_by_start h \<equiv> insert_behind (starts h)"

lemma insert_before:
  assumes "note_chain h (loop_notes l) (xs @ c # ys)" "z \<notin> set (xs @ c # ys)" "note_mem h z = Some n" "note_mem h c = Some e"
    "nt_on_at n < nt_on_at e"
  shows "\<exists>l' h'. insert_note_walk (Suc k) c z (l, h) = Inr (l', h') \<and> note_chain h' (loop_notes l') (xs @ z # c # ys) \<and>
    same_notes h h' \<and> l' = l \<lparr> loop_notes := loop_notes l' \<rparr>"
proof -
  obtain lst where seg: "sseg (note_pv h) (note_nx h) None (loop_notes l) (xs @ c # ys) None lst" and dist: "distinct (xs @ z # c # ys)"
    and live: "\<forall>p \<in> set (xs @ c # ys). note_mem h p \<noteq> None"
    using assms(1,2) by (auto simp: note_chain_def)
  obtain l1 where l1: "sseg (note_pv h) (note_nx h) None (loop_notes l) xs (Some c) l1" "nt_prev e = l1"
    using seg assms(4) by (auto simp: sseg_append)
  have pc: "nt_prev e = (if xs = [] then None else Some (last xs))" using sseg_last [OF l1(1)] l1(2) by simp
  define h1 where "h1 = h \<lparr> note_mem := (note_mem h)(z := Some (n \<lparr> nt_prev := nt_prev e, nt_next := Some c \<rparr>)) \<rparr>"
  have h1: "same_notes h h1" unfolding h1_def using assms(3) by (intro same_notes_put) auto
  show ?thesis
  proof (cases "nt_prev e")
    case None
    define h3 where "h3 = h1 \<lparr> note_mem := (note_mem h1)(c := Some (e \<lparr> nt_prev := Some z \<rparr>)) \<rparr>"
    have "note_mem h1 c = Some e" using assms(4) dist by (simp add: h1_def)
    then have run: "insert_note_walk (Suc k) c z (l, h) = Inr (l \<lparr> loop_notes := Some z \<rparr>, h3)" and h3: "same_notes h h3"
      using None assms(3-5) same_notes_put [OF h1] by (auto simp: h1_def h3_def)
    have "note_pv h3 = (note_pv h)(z := note_pv h c, c := Some z)" "note_nx h3 = (note_nx h)(z := Some c)"
      using assms(4) dist None by (auto simp: h3_def h1_def fun_eq_iff)
    then have "\<exists>l'. sseg (note_pv h3) (note_nx h3) None (Some z) (xs @ z # c # ys) None l'"
      using sseg_insert_before [OF seg dist] None assms(4) by simp
    moreover have "\<forall>p \<in> set (xs @ z # c # ys). note_mem h3 p \<noteq> None" using live by (auto simp: h3_def h1_def)
    ultimately show ?thesis using run h3 dist by (auto simp: note_chain_def)
  next
    case (Some q)
    then have q: "q \<in> set xs" using pc last_in_set [of xs] by (auto split: if_splits)
    then obtain m where m: "note_mem h q = Some m" using live by auto
    have ne: "q \<noteq> z" "q \<noteq> c" using q dist by auto
    define h2 where "h2 = h1 \<lparr> note_mem := (note_mem h1)(q := Some (m \<lparr> nt_next := Some z \<rparr>)) \<rparr>"
    define h3 where "h3 = h2 \<lparr> note_mem := (note_mem h2)(c := Some (e \<lparr> nt_prev := Some z \<rparr>)) \<rparr>"
    have mems: "note_mem h1 q = Some m" "note_mem h2 c = Some e" using m ne assms(4) dist by (auto simp: h1_def h2_def)
    have h2: "same_notes h h2" unfolding h2_def using mems by (intro same_notes_put [OF h1]) auto
    have h3: "same_notes h h3" unfolding h3_def using mems by (intro same_notes_put [OF h2]) auto
    have run: "insert_note_walk (Suc k) c z (l, h) = Inr (l, h3)"
      using Some assms(3-5) mems h1_def [unfolded Some, symmetric] by (simp add: h2_def [symmetric] h3_def [symmetric])
    have "note_pv h3 = (note_pv h)(z := note_pv h c, c := Some z)" "note_nx h3 = (note_nx h)(z := Some c, q := Some z)"
      using assms(4) dist Some m ne by (auto simp: h3_def h2_def h1_def fun_eq_iff)
    then have "\<exists>l'. sseg (note_pv h3) (note_nx h3) None (loop_notes l) (xs @ z # c # ys) None l'"
      using sseg_insert_before [OF seg dist] Some assms(4) by simp
    moreover have "\<forall>p \<in> set (xs @ z # c # ys). note_mem h3 p \<noteq> None" using live by (auto simp: h3_def h2_def h1_def)
    ultimately show ?thesis using run h3 dist by (auto simp: note_chain_def)
  qed
qed

lemma insert_at_end:
  assumes "note_chain h (loop_notes l) (xs @ [c])" "z \<notin> set (xs @ [c])" "note_mem h z = Some n" "note_mem h c = Some e"
    "\<not> nt_on_at n < nt_on_at e" "nt_next e = None"
  shows "\<exists>h'. insert_note_walk (Suc k) c z (l, h) = Inr (l, h') \<and> note_chain h' (loop_notes l) (xs @ [c, z]) \<and> same_notes h h'"
proof -
  obtain lst where seg: "sseg (note_pv h) (note_nx h) None (loop_notes l) (xs @ [c]) None lst" and dist: "distinct (xs @ [c, z])"
    and live: "\<forall>p \<in> set (xs @ [c]). note_mem h p \<noteq> None"
    using assms(1,2) by (auto simp: note_chain_def)
  define h1 where "h1 = h \<lparr> note_mem := (note_mem h)(c := Some (e \<lparr> nt_next := Some z \<rparr>)) \<rparr>"
  define h2 where "h2 = h1 \<lparr> note_mem := (note_mem h1)(z := Some (n \<lparr> nt_prev := Some c, nt_next := None \<rparr>)) \<rparr>"
  have z1: "note_mem h1 z = Some n" using assms(3) dist by (simp add: h1_def)
  have "same_notes h h1" unfolding h1_def using assms(4) by (intro same_notes_put) auto
  then have h2: "same_notes h h2" unfolding h2_def using z1 by (intro same_notes_put) auto
  have run: "insert_note_walk (Suc k) c z (l, h) = Inr (l, h2)"
    using assms(3-6) z1 by (simp add: h1_def [symmetric] h2_def [symmetric])
  have "note_pv h2 = (note_pv h)(z := Some c)" "note_nx h2 = (note_nx h)(c := Some z, z := None)"
    using assms(4) dist by (auto simp: h2_def h1_def fun_eq_iff)
  then have "\<exists>l'. sseg (note_pv h2) (note_nx h2) None (loop_notes l) (xs @ [c, z]) None l'"
    using sseg_insert_end [OF seg dist] by simp
  moreover have "\<forall>p \<in> set (xs @ [c, z]). note_mem h2 p \<noteq> None" using live by (auto simp: h2_def h1_def)
  ultimately show ?thesis using run h2 dist by (auto simp: note_chain_def)
qed

lemma insert_walk_ok:
  assumes "note_chain h (loop_notes l) (xs @ c # ys)" "z \<notin> set (xs @ c # ys)" "note_mem h z = Some n"
    "\<forall>q \<in> set xs. starts h q \<le> starts h z" "length ys < k"
  shows "\<exists>l' h'. insert_note_walk k c z (l, h) = Inr (l', h') \<and> note_chain h' (loop_notes l') (insert_by_start h z (xs @ c # ys)) \<and>
    same_notes h h' \<and> l' = l \<lparr> loop_notes := loop_notes l' \<rparr>"
  using assms
proof (induction k arbitrary: xs c ys)
  case (Suc k)
  obtain e where e: "note_mem h c = Some e" using Suc.prems(1) by (auto simp: note_chain_def)
  have st: "starts h c = nt_on_at e" "starts h z = nt_on_at n" using e Suc.prems(3) by (simp_all add: starts_def)
  have pre: "takeWhile (\<lambda>q. starts h q \<le> starts h z) (xs @ vs) = xs @ takeWhile (\<lambda>q. starts h q \<le> starts h z) vs"
    "dropWhile (\<lambda>q. starts h q \<le> starts h z) (xs @ vs) = dropWhile (\<lambda>q. starts h q \<le> starts h z) vs" for vs
    using Suc.prems(4) by auto
  show ?case
  proof (cases "nt_on_at n < nt_on_at e")
    case True
    then have "insert_by_start h z (xs @ c # ys) = xs @ z # c # ys" unfolding insert_behind_def pre using st True by simp
    with insert_before [OF Suc.prems(1-3) e True, of k] show ?thesis by simp
  next
    case False
    obtain lst where "sseg (note_pv h) (note_nx h) None (loop_notes l) (xs @ c # ys) None lst"
      using Suc.prems(1) by (auto simp: note_chain_def)
    then obtain l1 where seg: "sseg (note_pv h) (note_nx h) (Some c) (nt_next e) ys None l1"
      using e by (auto simp: sseg_append)
    show ?thesis
    proof (cases ys)
      case Nil
      then have "insert_by_start h z (xs @ c # ys) = xs @ [c, z]" unfolding insert_behind_def pre using st False Nil by simp
      moreover have "nt_next e = None" using seg Nil by simp
      ultimately show ?thesis using insert_at_end [of h l xs c z n e k] Suc.prems(1-3) e False Nil by auto
    next
      case (Cons d ds)
      then have nxt: "nt_next e = Some d" using seg by simp
      have "insert_note_walk (Suc k) c z (l, h) = insert_note_walk k d z (l, h)"
        using e Suc.prems(3) False nxt by simp
      with Suc.IH [of "xs @ [c]" d ds] Suc.prems Cons False st show ?thesis by simp
    qed
  qed
qed simp

lemma internal_insert_note_ok:
  assumes "note_chain h (loop_notes l) ps" "heap_ok h" "note_mem h z \<noteq> None" "z \<notin> set ps"
  shows "\<exists>l' h'. internal_insert_note z (l, h) = Inr (l', h') \<and> note_chain h' (loop_notes l') (insert_by_start h z ps) \<and>
    same_notes h h' \<and> l' = l \<lparr> loop_notes := loop_notes l' \<rparr>"
proof -
  obtain n where n: "note_mem h z = Some n" using assms(3) by auto
  show ?thesis
  proof (cases ps)
    case Nil
    then have "loop_notes l = None" using assms(1) by (auto simp: note_chain_def)
    moreover have "same_notes h (h \<lparr> note_mem := (note_mem h)(z := Some (n \<lparr> nt_next := None, nt_prev := None \<rparr>)) \<rparr>)"
      using n by (intro same_notes_put) auto
    ultimately show ?thesis using n Nil by (auto simp: internal_insert_note_def insert_behind_def note_chain_def)
  next
    case (Cons c ys)
    then have "loop_notes l = Some c" using assms(1) by (auto simp: note_chain_def)
    moreover have "length ys < Suc (note_top h)" using chain_length [OF assms(1,2)] Cons by simp
    ultimately show ?thesis using insert_walk_ok [of h l "[]" c ys z n "Suc (note_top h)"] assms n Cons
      by (auto simp: internal_insert_note_def simp del: insert_note_walk.simps)
  qed
qed

subsection \<open>Deleting\<close>

text \<open>The links after a note has been taken out.\<close>

lemma chain_links:
  assumes "note_chain h head (xs @ z # ys)" "note_mem h z = Some e"
  shows "nt_next e = (case ys of [] \<Rightarrow> None | y # _ \<Rightarrow> Some y)" "nt_prev e = (if xs = [] then None else Some (last xs))"
    "head = Some (hd (xs @ [z]))"
proof -
  obtain l where l: "sseg (note_pv h) (note_nx h) None head (xs @ z # ys) None l" using assms(1) by (auto simp: note_chain_def)
  then obtain l1 where l1: "sseg (note_pv h) (note_nx h) None head xs (Some z) l1" "nt_prev e = l1"
    "sseg (note_pv h) (note_nx h) (Some z) (nt_next e) ys None l"
    using assms(2) by (auto simp: sseg_append)
  show "nt_next e = (case ys of [] \<Rightarrow> None | y # _ \<Rightarrow> Some y)" using l1(3) by (cases ys) auto
  show "nt_prev e = (if xs = [] then None else Some (last xs))" using sseg_last [OF l1(1)] l1(2) by simp
  show "head = Some (hd (xs @ [z]))" using l1(1) by (cases xs) auto
qed

lemma unchain_note_ok:
  assumes "note_chain h (loop_notes l) (xs @ z # ys)" "note_mem h z = Some e"
  shows "\<exists>h'. unchain_note z e (l, h) = Inr (l \<lparr>
      next_note_to_play := (if next_note_to_play l = Some z then nt_next e else next_note_to_play l),
      loop_notes := (if loop_notes l = Some z then nt_next e else loop_notes l) \<rparr>, h') \<and>
    note_chain h' (if loop_notes l = Some z then nt_next e else loop_notes l) (xs @ ys) \<and> same_notes h h'"
proof -
  obtain lst where seg: "sseg (note_pv h) (note_nx h) None (loop_notes l) (xs @ z # ys) None lst" and dist: "distinct (xs @ z # ys)"
    and live: "\<forall>p \<in> set (xs @ z # ys). note_mem h p \<noteq> None"
    using assms(1) by (auto simp: note_chain_def)
  note links = chain_links [OF assms]
  define h1 where "h1 = (case nt_prev e of Some q \<Rightarrow> h \<lparr> note_mem := (note_mem h)(q := Some (the (note_mem h q) \<lparr> nt_next := nt_next e \<rparr>)) \<rparr> | None \<Rightarrow> h)"
  define h2 where "h2 = (case nt_next e of Some q \<Rightarrow> h1 \<lparr> note_mem := (note_mem h1)(q := Some (the (note_mem h q) \<lparr> nt_prev := nt_prev e \<rparr>)) \<rparr> | None \<Rightarrow> h1)"
  have pm: "q \<in> set xs \<and> q \<noteq> z \<and> q \<notin> set ys" if "nt_prev e = Some q" for q
    using that links(2) dist by (cases xs rule: rev_cases) auto
  have nm: "q \<in> set ys \<and> q \<noteq> z \<and> q \<notin> set xs" if "nt_next e = Some q" for q
    using that links(1) dist by (cases ys) auto
  have s1: "(case nt_prev e of Some q \<Rightarrow> modify_note q (\<lambda>x. x \<lparr> nt_next := nt_next e \<rparr>) h | None \<Rightarrow> Inr h) = Inr h1"
    using pm live by (fastforce simp: h1_def split: option.split)
  have keep: "note_mem h1 q = note_mem h q" if "nt_next e = Some q" for q
    using nm [OF that] pm by (auto simp: h1_def split: option.split)
  have s2: "(case nt_next e of Some q \<Rightarrow> modify_note q (\<lambda>x. x \<lparr> nt_prev := nt_prev e \<rparr>) h1 | None \<Rightarrow> Inr h1) = Inr h2"
    using nm live keep by (fastforce simp: h2_def split: option.split)
  have s3: "same_notes h h1"
  proof (cases "nt_prev e")
    case (Some q)
    then obtain m where "note_mem h q = Some m" using pm live by fastforce
    then show ?thesis using Some same_notes_put [OF same_notes_refl, of h q m] by (simp add: h1_def)
  qed (simp add: h1_def)
  have sn: "same_notes h h2"
  proof (cases "nt_next e")
    case (Some q)
    then obtain m where "note_mem h q = Some m" using nm live by fastforce
    then show ?thesis using Some same_notes_put [OF s3, of q m] keep by (simp add: h2_def)
  qed (simp add: h2_def s3)
  have "note_pv h2 = (case note_nx h z of None \<Rightarrow> note_pv h | Some q \<Rightarrow> (note_pv h)(q := note_pv h z))"
    "note_nx h2 = (case note_pv h z of None \<Rightarrow> note_nx h | Some q \<Rightarrow> (note_nx h)(q := note_nx h z))"
    using assms(2) pm nm live by (force simp: h2_def h1_def fun_eq_iff split: option.split)+
  with sseg_unchain [OF seg dist] have "\<exists>l'. sseg (note_pv h2) (note_nx h2) None (if xs = [] then note_nx h z else loop_notes l) (xs @ ys) None l'"
    by simp
  moreover have "(xs = []) = (loop_notes l = Some z)" using links(3) dist by (cases xs) auto
  moreover have "\<forall>p \<in> set (xs @ ys). note_mem h2 p \<noteq> None" using live by (auto simp: h2_def h1_def split: option.split)
  ultimately have "note_chain h2 (if loop_notes l = Some z then nt_next e else loop_notes l) (xs @ ys)"
    using assms(2) dist by (auto simp: note_chain_def)
  with sn s1 s2 show ?thesis by (simp add: unchain_note_def)
qed

lemma delete_walk_ok:
  assumes "note_chain h (loop_notes l) (xs @ vs @ z # ys)" "length vs < k"
    "c = (case vs @ [z] of [] \<Rightarrow> None | v # _ \<Rightarrow> Some v)" "note_mem h z = Some e"
  shows "delete_note_walk k c z (l, h) = rbind (unchain_note z e (l, h)) (\<lambda>lh. Inr (Some z, lh))"
  using assms
proof (induction vs arbitrary: k xs c)
  case Nil
  then show ?case by (cases k) auto
next
  case (Cons v vs)
  then obtain k' where k: "k = Suc k'" "length vs < k'" by (cases k) auto
  obtain n where n: "note_mem h v = Some n" using Cons.prems(1) by (auto simp: note_chain_def)
  have ne: "v \<noteq> z" using Cons.prems(1) by (auto simp: note_chain_def)
  have nx: "nt_next n = (case vs @ [z] of [] \<Rightarrow> None | v # _ \<Rightarrow> Some v)"
    using chain_links(1) [of h "loop_notes l" xs v "vs @ z # ys" n] Cons.prems(1) n by (cases vs) auto
  show ?case using Cons.IH [of "xs @ [v]" k' "nt_next n"] Cons.prems k n ne nx by simp
qed

lemma internal_delete_note_ok:
  assumes "note_chain h (loop_notes l) (xs @ z # ys)" "heap_ok h" "note_mem h z = Some e"
  shows "\<exists>h'. internal_delete_note z (l, h) = Inr (Some z, l \<lparr>
      next_note_to_play := (if next_note_to_play l = Some z then nt_next e else next_note_to_play l),
      loop_notes := (if loop_notes l = Some z then nt_next e else loop_notes l) \<rparr>, h') \<and>
    note_chain h' (if loop_notes l = Some z then nt_next e else loop_notes l) (xs @ ys) \<and> same_notes h h'"
proof -
  have "loop_notes l = (case xs @ [z] of [] \<Rightarrow> None | v # _ \<Rightarrow> Some v)"
    using chain_links(3) [OF assms(1,3)] by (cases xs) auto
  moreover have "length xs < Suc (note_top h)" using chain_length [OF assms(1,2)] by simp
  ultimately have "internal_delete_note z (l, h) = rbind (unchain_note z e (l, h)) (\<lambda>lh. Inr (Some z, lh))"
    using delete_walk_ok [of h l "[]" xs z ys "Suc (note_top h)" _ e] assms(1,3) by (simp add: internal_delete_note_def)
  with unchain_note_ok [OF assms(1,3)] show ?thesis by auto
qed

text \<open>Deleting frees the note, which is not in the list any more.\<close>

definition without_note :: "nat \<Rightarrow> note_heap \<Rightarrow> note_heap" where
  "without_note p h = h \<lparr> note_mem := (note_mem h)(p := None) \<rparr>"

lemma chain_without:
  assumes "note_chain h head ps" "z \<notin> set ps"
  shows "note_chain (without_note z h) head ps"
proof -
  have "sseg (note_pv (without_note z h)) (note_nx (without_note z h)) None head ps None l =
      sseg (note_pv h) (note_nx h) None head ps None l" for l
    using assms(2) by (intro sseg_cong) (auto simp: without_note_def)
  with assms show ?thesis by (auto simp: note_chain_def without_note_def)
qed

lemma heap_ok_without: "heap_ok h \<Longrightarrow> heap_ok (without_note z h)"
  by (auto simp: heap_ok_def without_note_def)

lemma note_delete_ok:
  assumes "note_chain h (loop_notes l) ps" "heap_ok h" "z \<in> set ps"
  shows "\<exists>l' h'. note_delete z (l, h) = Inr (l', h') \<and> note_chain h' (loop_notes l') (remove1 z ps) \<and> heap_ok h' \<and>
    active_note l' = active_note l \<and> loop_position l' = loop_position l \<and> note_mem h' z = None \<and>
    (\<forall>p. p \<noteq> z \<longrightarrow> map_option unlinked (note_mem h' p) = map_option unlinked (note_mem h p)) \<and>
    (next_note_to_play l \<in> {None} \<union> Some ` set ps \<longrightarrow> next_note_to_play l' \<in> {None} \<union> Some ` set (remove1 z ps))"
proof -
  obtain xs ys where ps: "ps = xs @ z # ys" using assms(3) by (meson split_list)
  have d: "distinct (xs @ z # ys)" using assms(1) ps by (simp add: note_chain_def)
  then have rm: "remove1 z ps = xs @ ys" using ps by (simp add: remove1_append)
  obtain e where e: "note_mem h z = Some e" using assms(1,3) by (auto simp: note_chain_def)
  obtain h' where h': "internal_delete_note z (l, h) = Inr (Some z, l \<lparr>
      next_note_to_play := (if next_note_to_play l = Some z then nt_next e else next_note_to_play l),
      loop_notes := (if loop_notes l = Some z then nt_next e else loop_notes l) \<rparr>, h')"
    "note_chain h' (if loop_notes l = Some z then nt_next e else loop_notes l) (xs @ ys)" "same_notes h h'"
    using internal_delete_note_ok [of h l xs z ys e] assms(1,2) e ps by blast
  have "note_mem h' z \<noteq> None" using h'(3) e by (metis option.map_disc_iff option.simps(3) same_notes_def)
  then have "free_note z h' = Inr (without_note z h')" by (auto simp: free_note_def without_note_def)
  then have run: "note_delete z (l, h) = Inr (l \<lparr>
      next_note_to_play := (if next_note_to_play l = Some z then nt_next e else next_note_to_play l),
      loop_notes := (if loop_notes l = Some z then nt_next e else loop_notes l) \<rparr>, without_note z h')"
    using h'(1) by (simp add: note_delete_def)
  have nxt: "nt_next e \<in> {None} \<union> Some ` set (xs @ ys)"
    using chain_links(1) [of h "loop_notes l" xs z ys e] assms(1) e ps by (cases ys) auto
  have "note_chain (without_note z h') (if loop_notes l = Some z then nt_next e else loop_notes l) (xs @ ys)"
    using chain_without [OF h'(2)] d by simp
  moreover have "heap_ok (without_note z h')" using same_notes_ok [OF h'(3) assms(2)] by (rule heap_ok_without)
  moreover have "note_mem (without_note z h') z = None" by (simp add: without_note_def)
  moreover have "\<forall>p. p \<noteq> z \<longrightarrow> map_option unlinked (note_mem (without_note z h') p) = map_option unlinked (note_mem h p)"
    using h'(3) by (simp add: same_notes_def without_note_def)
  ultimately show ?thesis
    using run nxt ps unfolding rm by (auto simp: image_iff)
qed

lemma delete_notes_ok:
  assumes "sseg (note_pv h) (note_nx h) p head ps None l" "distinct ps" "\<forall>q \<in> set ps. note_mem h q \<noteq> None" "length ps < k"
  shows "\<exists>h'. delete_notes k head h = Inr h' \<and> note_top h' = note_top h \<and>
    note_mem h' = (\<lambda>q. if q \<in> set ps then None else note_mem h q)"
  using assms
proof (induction ps arbitrary: k p head h)
  case Nil
  then show ?case by (cases k) auto
next
  case (Cons q qs)
  then obtain k' where k: "k = Suc k'" "length qs < k'" by (cases k) auto
  obtain n where n: "note_mem h q = Some n" using Cons.prems(3) by auto
  let ?h = "without_note q h"
  have "sseg (note_pv ?h) (note_nx ?h) (Some q) (nt_next n) qs None l = sseg (note_pv h) (note_nx h) (Some q) (nt_next n) qs None l"
    using Cons.prems(2) by (intro sseg_cong) (auto simp: without_note_def)
  then have "sseg (note_pv ?h) (note_nx ?h) (Some q) (nt_next n) qs None l" using Cons.prems(1) n by simp
  moreover have "\<forall>r \<in> set qs. note_mem ?h r \<noteq> None" using Cons.prems(2,3) by (auto simp: without_note_def)
  ultimately obtain h' where "delete_notes k' (nt_next n) ?h = Inr h'" "note_top h' = note_top h"
    "note_mem h' = (\<lambda>r. if r \<in> set qs then None else note_mem ?h r)"
    using Cons.IH [of ?h "Some q" "nt_next n" k'] Cons.prems(2) k(2) by (auto simp: without_note_def)
  moreover have "free_note q h = Inr ?h" using n by (simp add: free_note_def without_note_def)
  ultimately show ?case using Cons.prems(1) n k by (auto simp: without_note_def fun_eq_iff)
qed

lemma clear_loop_ok:
  assumes "note_chain h (loop_notes l) ps" "heap_ok h"
  shows "\<exists>h'. clear_loop (l, h) = Inr (l \<lparr> loop_notes := None \<rparr>, h') \<and> note_top h' = note_top h \<and>
    note_mem h' = (\<lambda>q. if q \<in> set ps then None else note_mem h q)"
  using delete_notes_ok [of h None "loop_notes l" ps _ "Suc (note_top h)"] chain_length [OF assms] assms(1)
  by (fastforce simp: clear_loop_def internal_clear_def note_chain_def)

end
