(* ===== verification/Loop_Slots.thy ===== *)
theory Loop_Slots
  imports Note_Loop
begin

text \<open>
  One tick of a loop of Note_Loop (machine_sequencer.cc, \<open>Loop::process_note_on\<close> and \<open>Loop::process_note_off\<close>):
  what it does to the slots of sounding notes and to the counters of the notes.
\<close>

section \<open>Playing\<close>

subsection \<open>The slots\<close>

lemma first_slot_None: "first_slot v xs = None \<longleftrightarrow> v \<notin> set xs"
  by (induction xs) auto

lemma first_slot_Some: "first_slot v xs = Some i \<longleftrightarrow> i < length xs \<and> xs ! i = v \<and> (\<forall>j < i. xs ! j \<noteq> v)"
proof (induction xs arbitrary: i)
  case (Cons x xs)
  show ?case
  proof (cases i)
    case (Suc k)
    then show ?thesis using Cons.IH [of k] by (auto simp: less_Suc_eq_0_disj)
  qed auto
qed simp

lemma entries_Cons: "entries (x # xs) = (case x of None \<Rightarrow> entries xs | Some p \<Rightarrow> p # entries xs)"
  by (cases x) auto

lemma set_entries: "p \<in> set (entries xs) \<longleftrightarrow> Some p \<in> set xs"
  by (induction xs) (auto simp: entries_Cons split: option.split)

lemma entries_slot: "p \<in> set (entries xs) \<longleftrightarrow> (\<exists>j < length xs. xs ! j = Some p)"
  unfolding set_entries by (auto simp: in_set_conv_nth)

lemma slot_update:
  assumes "i < length xs"
  shows "mset (entries (xs[i := v])) + mset (entries [xs ! i]) = mset (entries xs) + mset (entries [v])"
  using assms
proof (induction xs arbitrary: i)
  case (Cons x xs)
  show ?case
  proof (cases i)
    case 0
    then show ?thesis by (cases x; cases v) auto
  next
    case (Suc j)
    then show ?thesis using Cons.IH [of j] Cons.prems by (cases x) auto
  qed
qed simp

lemma entries_full: "None \<notin> set xs \<Longrightarrow> length (entries xs) = length xs"
proof (induction xs)
  case (Cons x xs)
  then show ?case by (cases x) auto
qed simp

lemma activate_note_ok:
  assumes "length (entries (active_note l)) < length (active_note l)"
  shows "\<exists>a. activate_note n l = (True, l \<lparr> active_note := a \<rparr>) \<and> length a = length (active_note l) \<and>
    mset (entries a) = add_mset n (mset (entries (active_note l)))"
proof -
  have "None \<in> set (active_note l)" using assms entries_full by fastforce
  then obtain i where i: "first_slot None (active_note l) = Some i" using first_slot_None [of None] by fastforce
  then have "i < length (active_note l)" "active_note l ! i = None" by (auto simp: first_slot_Some)
  then show ?thesis using i slot_update [of i "active_note l" "Some n"] by (auto simp: activate_note_def)
qed

lemma activate_note_cases:
  obtains "activate_note n l = (False, l)"
  | a where "activate_note n l = (True, l \<lparr> active_note := a \<rparr>)" "length a = length (active_note l)"
      "mset (entries a) = add_mset n (mset (entries (active_note l)))"
proof (cases "first_slot None (active_note l)")
  case (Some i)
  then have i: "i < length (active_note l)" "active_note l ! i = None" by (auto simp: first_slot_Some)
  then have "activate_note n l = (True, l \<lparr> active_note := (active_note l)[i := Some n] \<rparr>)" using Some by (simp add: activate_note_def)
  moreover have "mset (entries ((active_note l)[i := Some n])) = add_mset n (mset (entries (active_note l)))"
    using slot_update [OF i(1), of "Some n"] i(2) by auto
  ultimately show ?thesis using that(2) by simp
qed (use that(1) in \<open>simp add: activate_note_def\<close>)

lemma slots_inj:
  "xs ! i = Some n \<Longrightarrow> xs ! j = Some n \<Longrightarrow> i < length xs \<Longrightarrow> j < length xs \<Longrightarrow> distinct (entries xs) \<Longrightarrow> i = j"
proof (induction xs arbitrary: i j)
  case (Cons x xs)
  have tl: "Some n \<notin> set xs" if "x = Some n" using Cons.prems(5) that by (auto simp: set_entries)
  show ?case
    using Cons.IH [of "i - 1" "j - 1"] Cons.prems tl by (cases i; cases j) (auto simp: entries_Cons in_set_conv_nth split: option.splits)
qed simp

lemma deactivate_note_ok:
  assumes "k < length (active_note l)" "active_note l ! k = Some n" "distinct (entries (active_note l))"
  shows "deactivate_note n l = l \<lparr> active_note := (active_note l)[k := None] \<rparr>"
proof -
  have "first_slot (Some n) (active_note l) = Some k"
    using assms slots_inj unfolding first_slot_Some by (metis less_irrefl order.strict_trans)
  then show ?thesis by (simp add: deactivate_note_def)
qed

lemma slot_clear:
  assumes "k < length xs" "xs ! k = Some n"
  shows "mset (entries xs) = add_mset n (mset (entries (xs[k := None])))"
  using slot_update [OF assms(1), of None] assms(2) by simp

subsection \<open>Notes off\<close>

definition ticks :: "note_heap \<Rightarrow> nat \<Rightarrow> int" where
  "ticks h p = nt_ticks2off (the (note_mem h p))"

definition on_call :: "note_heap \<Rightarrow> nat \<Rightarrow> midi_call" where
  "on_call h p = (let e = the (note_mem h p) in NoteOn (uint (nt_note e)) (uint (nt_velocity e)) (uint (nt_channel e)))"

definition off_call :: "note_heap \<Rightarrow> nat \<Rightarrow> midi_call" where
  "off_call h p = (let e = the (note_mem h p) in NoteOff (uint (nt_note e)) 0x80 (uint (nt_channel e)))"

definition set_ticks :: "(nat \<Rightarrow> int) \<Rightarrow> nat set \<Rightarrow> note_heap \<Rightarrow> note_heap" where
  "set_ticks f P h = h \<lparr> note_mem := \<lambda>p. if p \<in> P then map_option (\<lambda>e. e \<lparr> nt_ticks2off := f p \<rparr>) (note_mem h p) else note_mem h p \<rparr>"

lemma set_ticks_empty [simp]: "set_ticks f {} h = h"
  by (simp add: set_ticks_def)

lemma set_ticks_one:
  "note_mem h p = Some e \<Longrightarrow> h \<lparr> note_mem := (note_mem h)(p := Some (e \<lparr> nt_ticks2off := x \<rparr>)) \<rparr> = set_ticks (\<lambda>_. x) {p} h"
  by (rule note_heap.equality) (auto simp: set_ticks_def fun_eq_iff)

lemma set_ticks_set_ticks:
  "P \<inter> Q = {} \<Longrightarrow> (\<forall>p \<in> P. f p = f' p) \<Longrightarrow> (\<forall>p \<in> Q. g p = f' p) \<Longrightarrow> set_ticks g Q (set_ticks f P h) = set_ticks f' (P \<union> Q) h"
  by (rule note_heap.equality) (auto simp: set_ticks_def fun_eq_iff)

lemma set_ticks_cong: "(\<And>p. p \<in> P \<Longrightarrow> f p = g p) \<Longrightarrow> set_ticks f P h = set_ticks g P h"
  by (rule note_heap.equality) (auto simp: set_ticks_def fun_eq_iff)

lemma set_ticks_facts [simp]:
  "note_top (set_ticks f P h) = note_top h" "(note_mem (set_ticks f P h) p = None) = (note_mem h p = None)"
  "on_call (set_ticks f P h) p = on_call h p" "off_call (set_ticks f P h) p = off_call h p"
  "starts (set_ticks f P h) p = starts h p" "note_pv (set_ticks f P h) = note_pv h" "note_nx (set_ticks f P h) = note_nx h"
  by (cases "note_mem h p"; auto simp: set_ticks_def on_call_def off_call_def starts_def fun_eq_iff Let_def split: option.split)+

lemma ticks_set_ticks: "note_mem h p \<noteq> None \<Longrightarrow> ticks (set_ticks f P h) p = (if p \<in> P then f p else ticks h p)"
  by (auto simp: ticks_def set_ticks_def)

lemma note_mem_eq_ticks: "note_mem h p = Some e \<Longrightarrow> nt_ticks2off e = ticks h p"
  by (simp add: ticks_def)

text \<open>The slots once the notes that \<open>P\<close> picks have left those that \<open>ks\<close> lists.\<close>

definition cleared :: "nat list \<Rightarrow> (nat \<Rightarrow> bool) \<Rightarrow> nat option list \<Rightarrow> nat option list" where
  "cleared ks P xs = map (\<lambda>i. if i \<in> set ks \<and> (\<exists>p. xs ! i = Some p \<and> P p) then None else xs ! i) [0..<length xs]"

lemma cleared_Nil [simp]: "cleared [] P xs = xs"
  by (auto simp: cleared_def intro: nth_equalityI)

lemma length_cleared [simp]: "length (cleared ks P xs) = length xs"
  by (simp add: cleared_def)

lemma cleared_skip: "(\<And>p. xs ! k = Some p \<Longrightarrow> \<not> P p) \<Longrightarrow> cleared (k # ks) P xs = cleared ks P xs"
  by (auto simp: cleared_def)

lemma cleared_step: "k < length xs \<Longrightarrow> xs ! k = Some n \<Longrightarrow> P n \<Longrightarrow> k \<notin> set ks \<Longrightarrow> cleared (k # ks) P xs = cleared ks P (xs[k := None])"
  by (rule nth_equalityI) (auto simp: cleared_def nth_list_update)

lemma cleared_cong: "(\<And>k p. k \<in> set ks \<Longrightarrow> xs ! k = Some p \<Longrightarrow> P p = Q p) \<Longrightarrow> cleared ks P xs = cleared ks Q xs"
  by (auto simp: cleared_def)

lemma entries_cleared: "entries (cleared [0..<length xs] P xs) = filter (\<lambda>p. \<not> P p) (entries xs)"
proof -
  have "cleared [0..<length xs] P xs = map (\<lambda>x. if (\<exists>p. x = Some p \<and> P p) then None else x) xs"
    by (rule nth_equalityI) (auto simp: cleared_def)
  moreover have "entries (map (\<lambda>x. if (\<exists>p. x = Some p \<and> P p) then None else x) xs) = filter (\<lambda>p. \<not> P p) (entries xs)"
    by (induction xs) (auto simp: entries_Cons split: option.split)
  ultimately show ?thesis by simp
qed

text \<open>With no note in two slots, the notes whose time is up leave their slots and the others lose a tick.\<close>

abbreviation in_slots :: "nat list \<Rightarrow> note_loop \<Rightarrow> nat \<Rightarrow> bool" where
  "in_slots ks l p \<equiv> \<exists>k \<in> set ks. active_note l ! k = Some p"

lemma process_note_off_ok:
  assumes "distinct (entries (active_note l))" "\<forall>p \<in> set (entries (active_note l)). note_mem h p \<noteq> None"
    "distinct ks" "\<forall>k \<in> set ks. k < length (active_note l)"
  shows "process_note_off ks (l, h) =
      Inr (map (off_call h) (filter (\<lambda>p. ticks h p \<le> 0) (entries (map ((!) (active_note l)) ks))),
        l \<lparr> active_note := cleared ks (\<lambda>p. ticks h p \<le> 0) (active_note l) \<rparr>,
        set_ticks (\<lambda>p. ticks h p - 1) {p. 0 < ticks h p \<and> in_slots ks l p} h)"
  using assms
proof (induction ks arbitrary: l h)
  case (Cons k ks)
  have k: "k < length (active_note l)" "k \<notin> set ks" using Cons.prems by auto
  show ?case
  proof (cases "active_note l ! k")
    case None
    then have "cleared (k # ks) (\<lambda>p. ticks h p \<le> 0) (active_note l) = cleared ks (\<lambda>p. ticks h p \<le> 0) (active_note l)"
      by (intro cleared_skip) simp
    then show ?thesis using None Cons.IH [of l h] Cons.prems by simp
  next
    case (Some n)
    have n: "note_mem h n \<noteq> None" using Cons.prems(2) Some k by (metis nth_mem set_entries)
    then obtain e where e: "note_mem h n = Some e" by auto
    have other: "active_note l ! j \<noteq> Some n" if "j \<in> set ks" for j
      using slots_inj [of "active_note l" k n j] that Some k Cons.prems by auto
    show ?thesis
    proof (cases "0 < ticks h n")
      case True
      let ?h = "set_ticks (\<lambda>p. ticks h p - 1) {n} h"
      have h: "h \<lparr> note_mem := (note_mem h)(n := Some (e \<lparr> nt_ticks2off := nt_ticks2off e - 1 \<rparr>)) \<rparr> = ?h"
        using set_ticks_one [OF e] note_mem_eq_ticks [OF e] set_ticks_cong [of "{n}" "\<lambda>_. ticks h n - 1" "\<lambda>p. ticks h p - 1"] by simp
      have t: "ticks ?h p = ticks h p" if "p \<noteq> n" for p using that by (simp add: ticks_def set_ticks_def)
      have t': "ticks ?h p = ticks h p" if "p \<in> set (entries (map ((!) (active_note l)) ks))" for p
        using that other by (intro t) (force simp: set_entries)
      have t'': "ticks ?h p = ticks h p" if "j \<in> set ks" "active_note l ! j = Some p" for j p
        using that other by (intro t) auto
      have "process_note_off (k # ks) (l, h) = process_note_off ks (l, ?h)"
        using Some e True h note_mem_eq_ticks [OF e] by simp
      also have "\<dots> = Inr (map (off_call ?h) (filter (\<lambda>p. ticks ?h p \<le> 0) (entries (map ((!) (active_note l)) ks))),
          l \<lparr> active_note := cleared ks (\<lambda>p. ticks ?h p \<le> 0) (active_note l) \<rparr>,
          set_ticks (\<lambda>p. ticks ?h p - 1) {p. 0 < ticks ?h p \<and> in_slots ks l p} ?h)"
        using Cons.prems by (intro Cons.IH) simp_all
      also have "filter (\<lambda>p. ticks ?h p \<le> 0) (entries (map ((!) (active_note l)) ks)) =
          filter (\<lambda>p. ticks h p \<le> 0) (entries (map ((!) (active_note l)) (k # ks)))"
        using Some True by (simp add: t' cong: filter_cong)
      also have "cleared ks (\<lambda>p. ticks ?h p \<le> 0) (active_note l) = cleared (k # ks) (\<lambda>p. ticks h p \<le> 0) (active_note l)"
        using Some True by (subst cleared_skip [of "active_note l" k]) (auto intro!: cleared_cong simp: t'')
      also have "set_ticks (\<lambda>p. ticks ?h p - 1) {p. 0 < ticks ?h p \<and> in_slots ks l p} ?h =
          set_ticks (\<lambda>p. ticks h p - 1) ({n} \<union> {p. 0 < ticks ?h p \<and> in_slots ks l p}) h"
        using other t'' by (intro set_ticks_set_ticks) auto
      also have "{n} \<union> {p. 0 < ticks ?h p \<and> in_slots ks l p} = {p. 0 < ticks h p \<and> in_slots (k # ks) l p}"
        using Some True t'' by auto
      finally show ?thesis by (simp add: off_call_def set_ticks_facts [unfolded off_call_def])
    next
      case False
      let ?l = "l \<lparr> active_note := (active_note l)[k := None] \<rparr>"
      have de: "deactivate_note n l = ?l" using deactivate_note_ok [OF k(1) Some Cons.prems(1)] .
      have ms: "mset (entries (active_note l)) = mset (n # entries (active_note ?l))"
        using slot_clear [OF k(1) Some] by simp
      have d: "distinct (entries (active_note ?l))" using mset_eq_imp_distinct_iff [OF ms] Cons.prems(1) by simp
      have "set (entries (active_note ?l)) \<subseteq> set (entries (active_note l))" using mset_eq_setD [OF ms] by auto
      then have live: "\<forall>p \<in> set (entries (active_note ?l)). note_mem h p \<noteq> None" using Cons.prems(2) by blast
      have "process_note_off (k # ks) (l, h) = rbind (process_note_off ks (?l, h)) (\<lambda>(ds, lh). Inr (off_call h n # ds, lh))"
        using Some e False de note_mem_eq_ticks [OF e] by (simp add: off_call_def Let_def)
      also have "process_note_off ks (?l, h) =
          Inr (map (off_call h) (filter (\<lambda>p. ticks h p \<le> 0) (entries (map ((!) (active_note ?l)) ks))),
            ?l \<lparr> active_note := cleared ks (\<lambda>p. ticks h p \<le> 0) (active_note ?l) \<rparr>,
            set_ticks (\<lambda>p. ticks h p - 1) {p. 0 < ticks h p \<and> in_slots ks ?l p} h)"
        using Cons.prems d live by (intro Cons.IH) simp_all
      also have "map ((!) (active_note ?l)) ks = map ((!) (active_note l)) ks"
        using k(2) by (simp, metis nth_list_update_neq)
      also have "cleared ks (\<lambda>p. ticks h p \<le> 0) (active_note ?l) = cleared (k # ks) (\<lambda>p. ticks h p \<le> 0) (active_note l)"
        using Some False k by (simp add: cleared_step)
      also have "{p. 0 < ticks h p \<and> in_slots ks ?l p} = {p. 0 < ticks h p \<and> in_slots (k # ks) l p}"
        using Some False k(2) by (simp, metis nth_list_update_neq option.inject)
      finally show ?thesis using Some False by simp
    qed
  qed
qed simp

subsection \<open>Notes on\<close>

definition lasts :: "note_heap \<Rightarrow> nat \<Rightarrow> int" where
  "lasts h p = nt_length (the (note_mem h p))"

lemma lasts_set_ticks [simp]: "note_mem h p \<noteq> None \<Longrightarrow> lasts (set_ticks f P h) p = lasts h p"
  by (auto simp: lasts_def set_ticks_def)

abbreviation first :: "nat list \<Rightarrow> nat option" where
  "first qs \<equiv> (case qs of [] \<Rightarrow> None | q # _ \<Rightarrow> Some q)"

text \<open>
  From the next note on, all notes that start at the position of the loop are passed; those that find
  a slot are played. With enough slots, and neither stopped nor muted, these are all of them.
\<close>

lemma process_note_on_ok:
  assumes "sseg (note_pv h) (note_nx h) p (next_note_to_play l) qs None lst" "distinct qs"
    "\<forall>q \<in> set qs. note_mem h q \<noteq> None" "length qs < k"
  shows "\<exists>D a. process_note_on k playing mute (l, h) = Inr (map (on_call h) D,
      l \<lparr> active_note := a, next_note_to_play := first (dropWhile (\<lambda>q. starts h q = loop_position l) qs) \<rparr>,
      set_ticks (\<lambda>q. lasts h q + 1) (set D) h) \<and>
    length a = length (active_note l) \<and> mset (entries a) = mset (entries (active_note l)) + mset D \<and> set D \<subseteq> set qs \<and>
    (\<not> playing \<or> mute \<longrightarrow> D = []) \<and>
    (playing \<and> \<not> mute \<and> length (entries (active_note l)) + length (takeWhile (\<lambda>q. starts h q = loop_position l) qs) \<le> length (active_note l) \<longrightarrow>
       D = takeWhile (\<lambda>q. starts h q = loop_position l) qs)"
  using assms
proof (induction qs arbitrary: k p l h)
  case Nil
  then obtain k' where "k = Suc k'" by (cases k) auto
  then show ?case using Nil by (intro exI [of _ "[]"] exI [of _ "active_note l"]) simp
next
  case (Cons q qs)
  then obtain k' where k: "k = Suc k'" "length qs < k'" by (cases k) auto
  obtain e where e: "note_mem h q = Some e" using Cons.prems(3) by auto
  have nx: "next_note_to_play l = Some q" and tail: "sseg (note_pv h) (note_nx h) (Some q) (nt_next e) qs None lst"
    using Cons.prems(1) e by auto
  have st: "starts h q = nt_on_at e" using e by (simp add: starts_def)
  show ?case
  proof (cases "nt_on_at e = loop_position l")
    case False
    then have "process_note_on k playing mute (l, h) = Inr ([], l, h)" using k nx e by simp
    moreover have "l = l \<lparr> active_note := active_note l, next_note_to_play := Some q \<rparr>" using nx by simp
    ultimately show ?thesis using False st by (intro exI [of _ "[]"] exI [of _ "active_note l"]) simp
  next
    case True
    let ?step = "if playing \<and> \<not> mute then activate_note q l else (False, l)"
    show ?thesis
    proof (cases "fst ?step")
      case False
      then have step: "?step = (False, l)" by (cases q l rule: activate_note_cases) (auto split: if_splits)
      let ?l = "l \<lparr> next_note_to_play := nt_next e \<rparr>"
      have run: "process_note_on k playing mute (l, h) = process_note_on k' playing mute (?l, h)"
        using k nx e True step by (cases "process_note_on k' playing mute (?l, h)") auto
      from Cons.IH [of h "Some q" ?l k'] tail Cons.prems(2,3) k(2) obtain D a where
        D: "process_note_on k' playing mute (?l, h) = Inr (map (on_call h) D,
          ?l \<lparr> active_note := a, next_note_to_play := first (dropWhile (\<lambda>q. starts h q = loop_position ?l) qs) \<rparr>,
          set_ticks (\<lambda>q. lasts h q + 1) (set D) h)"
        "length a = length (active_note l)" "mset (entries a) = mset (entries (active_note l)) + mset D" "set D \<subseteq> set qs"
        "\<not> playing \<or> mute \<longrightarrow> D = []"
        by auto
      have "\<not> (playing \<and> \<not> mute \<and> length (entries (active_note l)) < length (active_note l))"
        using activate_note_ok [of l q] step by auto
      then show ?thesis using run D True st by (intro exI [of _ D] exI [of _ a]) auto
    next
      case on: True
      then have pm: "playing" "\<not> mute" "fst (activate_note q l)" by (auto split: if_splits)
      then obtain a1 where a1: "activate_note q l = (True, l \<lparr> active_note := a1 \<rparr>)" "length a1 = length (active_note l)"
        "mset (entries a1) = add_mset q (mset (entries (active_note l)))"
        by (cases q l rule: activate_note_cases) auto
      let ?l = "l \<lparr> active_note := a1, next_note_to_play := nt_next e \<rparr>" and ?h = "set_ticks (\<lambda>q. lasts h q + 1) {q} h"
      have h: "h \<lparr> note_mem := (note_mem h)(q := Some (e \<lparr> nt_ticks2off := nt_length e + 1 \<rparr>)) \<rparr> = ?h"
        using set_ticks_one [OF e] e set_ticks_cong [of "{q}" "\<lambda>_. nt_length e + 1" "\<lambda>q. lasts h q + 1"] by (simp add: lasts_def)
      have oc: "NoteOn (uint (nt_note e)) (uint (nt_velocity e)) (uint (nt_channel e)) = on_call h q"
        using e by (simp add: on_call_def)
      have run: "process_note_on k playing mute (l, h) =
          rbind (process_note_on k' playing mute (?l, ?h)) (\<lambda>(ds, lh). Inr (on_call h q # ds, lh))"
        using k nx e True pm a1 by (simp add: h oc)
      have lens: "length (entries a1) = Suc (length (entries (active_note l)))" using a1(3) by (metis size_add_mset size_mset)
      have sf: "starts ?h = starts h" "on_call ?h = on_call h" by (simp_all add: fun_eq_iff)
      from Cons.IH [of ?h "Some q" ?l k'] tail Cons.prems(2,3) k(2) obtain D a where
        D: "process_note_on k' playing mute (?l, ?h) = Inr (map (on_call h) D,
          ?l \<lparr> active_note := a, next_note_to_play := first (dropWhile (\<lambda>q. starts h q = loop_position ?l) qs) \<rparr>,
          set_ticks (\<lambda>q. lasts ?h q + 1) (set D) ?h)"
        "length a = length (active_note l)" "mset (entries a) = mset (entries a1) + mset D" "set D \<subseteq> set qs"
        "length (entries a1) + length (takeWhile (\<lambda>q. starts h q = loop_position l) qs) \<le> length (active_note l) \<longrightarrow>
           D = takeWhile (\<lambda>q. starts h q = loop_position l) qs"
        using pm a1(2) by (auto simp: sf)
      have "set_ticks (\<lambda>q. lasts ?h q + 1) (set D) ?h = set_ticks (\<lambda>q. lasts h q + 1) ({q} \<union> set D) h"
        using Cons.prems(2,3) D(4) by (intro set_ticks_set_ticks) auto
      then show ?thesis using run D True st pm a1 lens by (intro exI [of _ "q # D"] exI [of _ a]) auto
    qed
  qed
qed

end
