(* ===== verification/Loop_Playback.thy ===== *)
theory Loop_Playback
  imports Loop_Slots
begin

text \<open>
  Playing the loops of Note_Loop (machine_sequencer.cc, \<open>Loop::process\<close>): the schedule a loop follows, how
  it falls silent, editing while it plays, and saving and loading.
\<close>

subsection \<open>One tick\<close>

lemma chain_tail:
  assumes "note_chain h head (xs @ qs)"
  shows "\<exists>p l. sseg (note_pv h) (note_nx h) p (first qs) qs None l" "distinct qs" "\<forall>q \<in> set qs. note_mem h q \<noteq> None"
proof -
  obtain l h' l' where "sseg (note_pv h) (note_nx h) l' h' qs None l" using assms by (auto simp: note_chain_def sseg_append)
  moreover from this have "h' = first qs" by (cases qs) auto
  ultimately show "\<exists>p l. sseg (note_pv h) (note_nx h) p (first qs) qs None l" by blast
qed (use assms in \<open>auto simp: note_chain_def\<close>)

lemma chain_set_ticks [simp]: "note_chain (set_ticks f P h) head ps = note_chain h head ps"
  by (simp add: note_chain_def)

lemma heap_ok_set_ticks [simp]: "heap_ok (set_ticks f P h) = heap_ok h"
  by (simp add: heap_ok_def)

text \<open>A loop whose list, slots and next note are in order.\<close>

definition loop_ok :: "nat list \<Rightarrow> loop_state \<Rightarrow> bool" where
  "loop_ok ps lh \<longleftrightarrow> (case lh of (l, h) \<Rightarrow>
     note_chain h (loop_notes l) ps \<and> heap_ok h \<and> length (active_note l) = MAX_ACTIVE_NOTES \<and>
     (\<exists>xs qs. ps = xs @ qs \<and> next_note_to_play l = first qs) \<and>
     (\<forall>p \<in> set (entries (active_note l)). note_mem h p \<noteq> None))"

lemma loop_on:
  assumes "loop_ok ps (l, h)" "ps = xs @ qs" "next_note_to_play l = first qs"
  shows "\<exists>D a. process_note_on (Suc (note_top h)) playing mute (l, h) = Inr (map (on_call h) D,
      l \<lparr> active_note := a, next_note_to_play := first (dropWhile (\<lambda>q. starts h q = loop_position l) qs) \<rparr>,
      set_ticks (\<lambda>q. lasts h q + 1) (set D) h) \<and>
    length a = MAX_ACTIVE_NOTES \<and> mset (entries a) = mset (entries (active_note l)) + mset D \<and> set D \<subseteq> set ps \<and>
    (\<not> playing \<or> mute \<longrightarrow> D = []) \<and>
    (playing \<and> \<not> mute \<and> length (entries (active_note l)) + length (takeWhile (\<lambda>q. starts h q = loop_position l) qs) \<le> MAX_ACTIVE_NOTES \<longrightarrow>
      D = takeWhile (\<lambda>q. starts h q = loop_position l) qs)"
proof -
  have c: "note_chain h (loop_notes l) (xs @ qs)" "heap_ok h" "length (active_note l) = MAX_ACTIVE_NOTES"
    using assms by (auto simp: loop_ok_def)
  then obtain p lst where "sseg (note_pv h) (note_nx h) p (next_note_to_play l) qs None lst"
    using chain_tail(1) [OF c(1)] assms(3) by metis
  moreover have "length qs < Suc (note_top h)" using chain_length [OF c(1,2)] by simp
  ultimately show ?thesis
    using process_note_on_ok [of h p l qs lst "Suc (note_top h)" playing mute] chain_tail(2,3) [OF c(1)]
    unfolding c(3) assms(2) set_append by (meson le_supI2)
qed

subsection \<open>The schedule\<close>

definition ends :: "note_heap \<Rightarrow> nat \<Rightarrow> int" where
  "ends h p = starts h p + lasts h p + 1"

lemma sorted_takeWhile_eq: "sorted (map f xs) \<Longrightarrow> takeWhile (\<lambda>x. f x = t) (dropWhile (\<lambda>x. f x < t) xs) = filter (\<lambda>x. f x = (t :: int)) xs"
proof (induction xs)
  case (Cons x xs)
  show ?case
  proof (cases "f x < t")
    case False
    then have "dropWhile (\<lambda>x. f x < t) xs = xs" using Cons.prems by (cases xs) auto
    moreover have "filter (\<lambda>x. f x = t) xs = []" if "t < f x" using Cons.prems that by (force simp: filter_empty_conv)
    ultimately show ?thesis using Cons False by (cases "f x = t") auto
  qed (use Cons in simp)
qed simp

lemma sorted_dropWhile_eq: "sorted (map f xs) \<Longrightarrow> dropWhile (\<lambda>x. f x = t) (dropWhile (\<lambda>x. f x < t) xs) = dropWhile (\<lambda>x. f x < t + (1 :: int)) xs"
proof (induction xs)
  case (Cons x xs)
  show ?case
  proof (cases "f x < t")
    case False
    then have "dropWhile (\<lambda>x. f x < t) xs = xs" using Cons.prems by (cases xs) auto
    then show ?thesis using Cons False by (cases "f x = t") auto
  qed (use Cons in simp)
qed simp

lemma mset_filter_split:
  "(\<And>x. x \<in> set xs \<Longrightarrow> C x \<longleftrightarrow> A x \<or> B x) \<Longrightarrow> (\<And>x. x \<in> set xs \<Longrightarrow> \<not> (A x \<and> B x)) \<Longrightarrow>
     mset (filter A xs) + mset (filter B xs) = mset (filter C xs)"
  by (induction xs) auto

text \<open>
  The state of the loop at the tick \<open>t\<close>: the next note is the first that starts at \<open>n\<close> or later, the notes
  that sound are those that \<open>A\<close> picks, and each of them counts down to its end.
\<close>

definition playing_at :: "nat list \<Rightarrow> note_heap \<Rightarrow> int \<Rightarrow> int \<Rightarrow> (nat \<Rightarrow> bool) \<Rightarrow> loop_state \<Rightarrow> bool" where
  "playing_at ps h0 t n A lh \<longleftrightarrow> (case lh of (l, h) \<Rightarrow>
     (\<exists>f P. h = set_ticks f P h0) \<and> note_chain h (loop_notes l) ps \<and> heap_ok h \<and> length (active_note l) = MAX_ACTIVE_NOTES \<and>
     loop_position l = t \<and> next_note_to_play l = first (dropWhile (\<lambda>q. starts h0 q < n) ps) \<and>
     mset (entries (active_note l)) = mset (filter A ps) \<and> (\<forall>q \<in> set (entries (active_note l)). ticks h q = ends h0 q - t))"

lemma playing_at_ok:
  assumes "playing_at ps h0 t n A (l, h)"
  shows "loop_ok ps (l, h)"
proof -
  have "mset (entries (active_note l)) = mset (filter A ps)"
    using assms by (simp add: playing_at_def)
  then have "set (entries (active_note l)) \<subseteq> set ps" using mset_eq_setD by fastforce
  moreover have "\<exists>xs qs. ps = xs @ qs \<and> next_note_to_play l = first qs"
    using assms by (intro exI [of _ "takeWhile (\<lambda>q. starts h0 q < n) ps"] exI [of _ "dropWhile (\<lambda>q. starts h0 q < n) ps"])
      (simp add: playing_at_def)
  ultimately show ?thesis using assms by (auto simp: playing_at_def loop_ok_def note_chain_def)
qed

lemma playing_at_facts:
  assumes "playing_at ps h0 t n A (l, h)"
  shows "\<forall>q \<in> set ps. note_mem h0 q \<noteq> None \<and> note_mem h q \<noteq> None \<and> lasts h q = lasts h0 q"
    "starts h = starts h0" "on_call h = on_call h0" "off_call h = off_call h0" "distinct ps"
    "set (entries (active_note l)) = set (filter A ps)" "distinct (entries (active_note l))"
proof -
  obtain f P where h: "h = set_ticks f P h0" using assms by (auto simp: playing_at_def)
  have ms: "mset (entries (active_note l)) = mset (filter A ps)" and d: "distinct ps"
    using assms by (simp_all add: playing_at_def note_chain_def)
  show "\<forall>q \<in> set ps. note_mem h0 q \<noteq> None \<and> note_mem h q \<noteq> None \<and> lasts h q = lasts h0 q"
  proof
    fix q assume "q \<in> set ps"
    then have "note_mem h q \<noteq> None" using assms by (simp add: playing_at_def note_chain_def)
    then show "note_mem h0 q \<noteq> None \<and> note_mem h q \<noteq> None \<and> lasts h q = lasts h0 q"
      unfolding h by (metis lasts_set_ticks set_ticks_facts(2))
  qed
  show "starts h = starts h0" "on_call h = on_call h0" "off_call h = off_call h0" by (simp_all add: h fun_eq_iff)
  show "set (entries (active_note l)) = set (filter A ps)" using ms by (rule mset_eq_setD)
  show "distinct ps" "distinct (entries (active_note l))" using mset_eq_imp_distinct_iff [OF ms] d by auto
qed

lemma set_ticks_again: "\<exists>f' P'. set_ticks g Q (set_ticks f P h) = set_ticks f' P' h"
proof -
  have "set_ticks g Q (set_ticks f P h) = set_ticks (\<lambda>p. if p \<in> Q then g p else f p) (P \<union> Q) h"
    by (rule note_heap.equality) (auto simp: set_ticks_def fun_eq_iff option.map_comp comp_def)
  then show ?thesis by blast
qed

lemma in_all_slots: "length (active_note l) = n \<Longrightarrow> in_slots [0..<n] l p \<longleftrightarrow> p \<in> set (entries (active_note l))"
  by (auto simp: entries_slot)

lemma all_slots: "length xs = n \<Longrightarrow> map ((!) xs) [0..<n] = xs"
  using map_nth [of xs] by simp

lemma loop_off:
  assumes "distinct (entries (active_note l))" "\<forall>p \<in> set (entries (active_note l)). note_mem h p \<noteq> None"
    "length (active_note l) = MAX_ACTIVE_NOTES"
  shows "\<exists>a. process_note_off [0..<MAX_ACTIVE_NOTES] (l, h) =
      Inr (map (off_call h) (filter (\<lambda>p. ticks h p \<le> 0) (entries (active_note l))), l \<lparr> active_note := a \<rparr>,
        set_ticks (\<lambda>p. ticks h p - 1) {p. 0 < ticks h p \<and> p \<in> set (entries (active_note l))} h) \<and>
    length a = MAX_ACTIVE_NOTES \<and> entries a = filter (\<lambda>p. 0 < ticks h p) (entries (active_note l))"
proof -
  have "{p. 0 < ticks h p \<and> in_slots [0..<MAX_ACTIVE_NOTES] l p} = {p. 0 < ticks h p \<and> p \<in> set (entries (active_note l))}"
    using in_all_slots [OF assms(3)] by simp
  then show ?thesis
    using process_note_off_ok [OF assms(1,2), of "[0..<MAX_ACTIVE_NOTES]"] assms(3) entries_cleared [of "active_note l" "\<lambda>p. ticks h p \<le> 0"]
    by (intro exI [of _ "cleared [0..<MAX_ACTIVE_NOTES] (\<lambda>p. ticks h p \<le> 0) (active_note l)"])
      (simp add: all_slots not_le)
qed

lemma mset_filter_entries:
  assumes "mset xs = mset (filter A ps)" "\<And>q. q \<in> set xs \<Longrightarrow> q \<in> set ps \<Longrightarrow> P q = Q q" "\<And>q. q \<in> set ps \<Longrightarrow> A q \<and> Q q \<longleftrightarrow> R q"
  shows "mset (filter P xs) = mset (filter R ps)"
proof -
  have sub: "set xs = set (filter A ps)" using assms(1) by (rule mset_eq_setD)
  have "filter P xs = filter Q xs" using assms(2) sub by (intro filter_cong) auto
  then have "mset (filter P xs) = filter_mset Q (mset xs)" by simp
  also have "\<dots> = mset (filter Q (filter A ps))" using assms(1) by (simp only: mset_filter)
  also have "filter Q (filter A ps) = filter R ps" using assms(3) by (induction ps) auto
  finally show ?thesis .
qed

lemma schedule_on:
  assumes "playing_at ps h0 t t (\<lambda>q. starts h0 q < t \<and> t \<le> ends h0 q) (l, h)" "sorted (map (starts h0) ps)" "\<forall>q \<in> set ps. 0 \<le> lasts h0 q"
    "length (filter (\<lambda>q. starts h0 q \<le> t \<and> t \<le> ends h0 q) ps) \<le> MAX_ACTIVE_NOTES"
  shows "\<exists>lh. process_note_on (Suc (note_top h)) True False (l, h) = Inr (map (on_call h0) (filter (\<lambda>q. starts h0 q = t) ps), lh) \<and>
    playing_at ps h0 t (t + 1) (\<lambda>q. starts h0 q \<le> t \<and> t \<le> ends h0 q) lh"
proof -
  note sch = assms(1) [unfolded playing_at_def prod.case] and facts = playing_at_facts [OF assms(1)]
  let ?D = "filter (\<lambda>q. starts h0 q = t) ps" and ?old = "filter (\<lambda>q. starts h0 q < t \<and> t \<le> ends h0 q) ps"
    and ?now = "filter (\<lambda>q. starts h0 q \<le> t \<and> t \<le> ends h0 q) ps" and ?qs = "dropWhile (\<lambda>q. starts h0 q < t) ps"
  have gt: "t < ends h0 q" if "q \<in> set ps" "starts h0 q = t" for q using that assms(3) by (fastforce simp: ends_def)
  have both: "mset ?old + mset ?D = mset ?now"
    by (rule mset_filter_split) (use gt in force)+
  have eold: "mset (entries (active_note l)) = mset ?old" and pos: "loop_position l = t" using sch by blast+
  have room: "length (entries (active_note l)) + length ?D \<le> MAX_ACTIVE_NOTES"
    using assms(4) both eold by (metis size_mset size_union)
  have tw: "takeWhile (\<lambda>q. starts h q = loop_position l) ?qs = ?D" "dropWhile (\<lambda>q. starts h q = loop_position l) ?qs = dropWhile (\<lambda>q. starts h0 q < t + 1) ps"
    using sorted_takeWhile_eq [OF assms(2)] sorted_dropWhile_eq [OF assms(2)] facts(2) pos by simp_all
  have nx: "next_note_to_play l = first ?qs" using sch by blast
  from loop_on [OF playing_at_ok [OF assms(1)] takeWhile_dropWhile_id [symmetric] nx, of True False] room
  obtain a where on: "process_note_on (Suc (note_top h)) True False (l, h) = Inr (map (on_call h) ?D,
      l \<lparr> active_note := a, next_note_to_play := first (dropWhile (\<lambda>q. starts h0 q < t + 1) ps) \<rparr>,
      set_ticks (\<lambda>q. lasts h q + 1) (set ?D) h)"
    "length a = MAX_ACTIVE_NOTES" "mset (entries a) = mset (entries (active_note l)) + mset ?D"
    unfolding tw by auto
  let ?h1 = "set_ticks (\<lambda>q. lasts h q + 1) (set ?D) h"
  have now: "mset (entries a) = mset ?now" using on(3) eold both by simp
  have tk: "ticks ?h1 q = ends h0 q - t" if "q \<in> set (entries a)" for q
  proof -
    have q: "q \<in> set ps" "starts h0 q \<le> t" "t \<le> ends h0 q" using that mset_eq_setD [OF now] by auto
    then show ?thesis
      using sch facts(1,6) by (cases "starts h0 q = t") (auto simp: ticks_set_ticks ends_def)
  qed
  have "\<exists>f P. ?h1 = set_ticks f P h0" using sch set_ticks_again by metis
  then have "playing_at ps h0 t (t + 1) (\<lambda>q. starts h0 q \<le> t \<and> t \<le> ends h0 q)
      (l \<lparr> active_note := a, next_note_to_play := first (dropWhile (\<lambda>q. starts h0 q < t + 1) ps) \<rparr>, ?h1)"
    using sch on(2) now tk unfolding playing_at_def prod.case by simp
  with on(1) facts(3) show ?thesis by auto
qed

lemma schedule_off:
  assumes "playing_at ps h0 t (t + 1) (\<lambda>q. starts h0 q \<le> t \<and> t \<le> ends h0 q) (l, h)" "\<forall>q \<in> set ps. 0 \<le> lasts h0 q"
  shows "\<exists>offs l' h'. process_note_off [0..<MAX_ACTIVE_NOTES] (l, h) = Inr (map (off_call h0) offs, l', h') \<and>
    mset offs = mset (filter (\<lambda>q. ends h0 q = t) ps) \<and>
    playing_at ps h0 (t + 1) (t + 1) (\<lambda>q. starts h0 q < t + 1 \<and> t + 1 \<le> ends h0 q) (l' \<lparr> loop_position := loop_position l' + 1 \<rparr>, h')"
proof -
  note sch = assms(1) [unfolded playing_at_def prod.case] and facts = playing_at_facts [OF assms(1)]
  have now: "mset (entries (active_note l)) = mset (filter (\<lambda>q. starts h0 q \<le> t \<and> t \<le> ends h0 q) ps)"
    and tk: "\<And>q. q \<in> set (entries (active_note l)) \<Longrightarrow> ticks h q = ends h0 q - t" using sch by blast+
  have live: "\<forall>q \<in> set (entries (active_note l)). note_mem h q \<noteq> None" using facts(1,6) by auto
  obtain b where off: "process_note_off [0..<MAX_ACTIVE_NOTES] (l, h) =
      Inr (map (off_call h) (filter (\<lambda>p. ticks h p \<le> 0) (entries (active_note l))), l \<lparr> active_note := b \<rparr>,
        set_ticks (\<lambda>p. ticks h p - 1) {p. 0 < ticks h p \<and> p \<in> set (entries (active_note l))} h)"
    "length b = MAX_ACTIVE_NOTES" "entries b = filter (\<lambda>p. 0 < ticks h p) (entries (active_note l))"
    using loop_off [OF facts(7) live] sch by blast
  let ?h2 = "set_ticks (\<lambda>p. ticks h p - 1) {p. 0 < ticks h p \<and> p \<in> set (entries (active_note l))} h"
  have offs: "mset (filter (\<lambda>p. ticks h p \<le> 0) (entries (active_note l))) = mset (filter (\<lambda>q. ends h0 q = t) ps)"
    by (rule mset_filter_entries [OF now, where Q = "\<lambda>q. ends h0 q \<le> t"]) (use tk assms(2) in \<open>force simp: ends_def\<close>)+
  have eb: "mset (entries b) = mset (filter (\<lambda>q. starts h0 q < t + 1 \<and> t + 1 \<le> ends h0 q) ps)"
    unfolding off(3) by (rule mset_filter_entries [OF now, where Q = "\<lambda>q. t < ends h0 q"]) (use tk in auto)
  have tb: "ticks ?h2 q = ends h0 q - (t + 1)" if "q \<in> set (entries b)" for q
  proof -
    have "q \<in> set (entries (active_note l))" "0 < ticks h q" using that off(3) by auto
    then show ?thesis using tk [of q] live by (simp add: ticks_set_ticks)
  qed
  have "\<exists>f P. ?h2 = set_ticks f P h0" using sch set_ticks_again by metis
  then have "playing_at ps h0 (t + 1) (t + 1) (\<lambda>q. starts h0 q < t + 1 \<and> t + 1 \<le> ends h0 q)
      (l \<lparr> active_note := b \<rparr> \<lparr> loop_position := loop_position (l \<lparr> active_note := b \<rparr>) + 1 \<rparr>, ?h2)"
    using sch off(2) eb tb unfolding playing_at_def prod.case by simp
  with off(1) offs facts(4) show ?thesis by auto
qed

subsection \<open>Silence\<close>

definition pitch :: "note_heap \<Rightarrow> nat \<Rightarrow> int" where
  "pitch h p = uint (nt_note (the (note_mem h p)))"

lemma pitch_set_ticks [simp]: "pitch (set_ticks f P h) p = pitch h p"
  by (cases "note_mem h p") (auto simp: pitch_def set_ticks_def)

lemma set_ticks_live [simp]: "(\<exists>e. note_mem (set_ticks f P h) p = Some e) = (\<exists>e. note_mem h p = Some e)"
  by (auto simp: set_ticks_def)

lemma hear_calls [simp]: "hear (on_call h p) S = insert (pitch h p) S" "hear (off_call h p) S = S - {pitch h p}"
  by (auto simp: on_call_def off_call_def pitch_def Let_def)

lemma sounding_on: "sounding (map (on_call h) D) S = S \<union> pitch h ` set D"
  by (induction D arbitrary: S) auto

lemma deactivate_note_some:
  assumes "n \<in> set (entries (active_note l))"
  shows "\<exists>a. deactivate_note n l = l \<lparr> active_note := a \<rparr> \<and> length a = length (active_note l) \<and>
    mset (entries (active_note l)) = add_mset n (mset (entries a)) \<and> (\<forall>j p. a ! j = Some p \<longrightarrow> active_note l ! j = Some p)"
proof -
  obtain i where i: "first_slot (Some n) (active_note l) = Some i"
    using assms first_slot_None [of "Some n" "active_note l"] by (auto simp: set_entries)
  then have "i < length (active_note l)" "active_note l ! i = Some n" by (auto simp: first_slot_Some)
  with i slot_clear [of i "active_note l" n] show ?thesis
    by (intro exI [of _ "(active_note l)[i := None]"]) (auto simp: deactivate_note_def nth_list_update split: if_splits)
qed

text \<open>Whatever the slots hold, notes only leave them with a note off, and time runs out.\<close>

lemma process_note_off_safe:
  assumes "\<forall>p \<in> set (entries (active_note l)). note_mem h p \<noteq> None" "\<forall>k \<in> set ks. k < length (active_note l)"
  shows "\<exists>cs a f P. process_note_off ks (l, h) = Inr (cs, l \<lparr> active_note := a \<rparr>, set_ticks f P h) \<and>
    length a = length (active_note l) \<and> (\<forall>j p. a ! j = Some p \<longrightarrow> active_note l ! j = Some p) \<and>
    (\<forall>S. S \<subseteq> pitch h ` set (entries (active_note l)) \<longrightarrow> sounding cs S \<subseteq> pitch h ` set (entries a)) \<and>
    (\<forall>p. ticks (set_ticks f P h) p \<le> ticks h p) \<and>
    (\<forall>k \<in> set ks. \<forall>p. a ! k = Some p \<longrightarrow> ticks (set_ticks f P h) p \<le> max 0 (ticks h p - 1))"
  using assms
proof (induction ks arbitrary: l h)
  case Nil
  then show ?case by (intro exI [of _ "[]"] exI [of _ "active_note l"] exI [of _ "\<lambda>_. 0"] exI [of _ "{}"]) simp
next
  case (Cons k ks)
  have k: "k < length (active_note l)" using Cons.prems by auto
  show ?case
  proof (cases "active_note l ! k")
    case None
    from Cons.IH [of l h] Cons.prems obtain cs a f P where IH: "process_note_off ks (l, h) = Inr (cs, l \<lparr> active_note := a \<rparr>, set_ticks f P h)"
      "length a = length (active_note l)" "\<forall>j p. a ! j = Some p \<longrightarrow> active_note l ! j = Some p"
      "\<forall>S. S \<subseteq> pitch h ` set (entries (active_note l)) \<longrightarrow> sounding cs S \<subseteq> pitch h ` set (entries a)"
      "\<forall>p. ticks (set_ticks f P h) p \<le> ticks h p"
      "\<forall>k \<in> set ks. \<forall>p. a ! k = Some p \<longrightarrow> ticks (set_ticks f P h) p \<le> max 0 (ticks h p - 1)"
      by auto
    show ?thesis using None IH by (intro exI [of _ cs] exI [of _ a] exI [of _ f] exI [of _ P]) auto
  next
    case (Some n)
    have nin: "n \<in> set (entries (active_note l))" using Some k by (metis nth_mem set_entries)
    then obtain e where e: "note_mem h n = Some e" using Cons.prems(1) by auto
    show ?thesis
    proof (cases "0 < ticks h n")
      case True
      let ?h = "set_ticks (\<lambda>_. ticks h n - 1) {n} h"
      have run: "process_note_off (k # ks) (l, h) = process_note_off ks (l, ?h)"
        using Some e True set_ticks_one [OF e] note_mem_eq_ticks [OF e] by simp
      have tn: "ticks ?h p \<le> ticks h p" "ticks ?h n = ticks h n - 1" for p
        using e by (auto simp: ticks_def set_ticks_def)
      from Cons.IH [of l ?h] Cons.prems obtain cs a f P where IH: "process_note_off ks (l, ?h) = Inr (cs, l \<lparr> active_note := a \<rparr>, set_ticks f P ?h)"
        "length a = length (active_note l)" "\<forall>j p. a ! j = Some p \<longrightarrow> active_note l ! j = Some p"
        "\<forall>S. S \<subseteq> pitch h ` set (entries (active_note l)) \<longrightarrow> sounding cs S \<subseteq> pitch h ` set (entries a)"
        "\<forall>p. ticks (set_ticks f P ?h) p \<le> ticks ?h p"
        "\<forall>k \<in> set ks. \<forall>p. a ! k = Some p \<longrightarrow> ticks (set_ticks f P ?h) p \<le> max 0 (ticks ?h p - 1)"
        by auto
      obtain g Q where g: "set_ticks f P ?h = set_ticks g Q h" using set_ticks_again by blast
      have "ticks (set_ticks g Q h) p \<le> ticks h p" for p using IH(5) tn(1) unfolding g by (meson order_trans)
      moreover have "ticks (set_ticks g Q h) p \<le> max 0 (ticks h p - 1)" if "a ! j = Some p" "j \<in> set (k # ks)" for j p
      proof (cases "j = k")
        case True
        then have "p = n" using that IH(3) Some by fastforce
        then show ?thesis using IH(5) tn unfolding g by (metis max.coboundedI2)
      next
        case False
        then have "ticks (set_ticks g Q h) p \<le> max 0 (ticks ?h p - 1)" using IH(6) that unfolding g by auto
        then show ?thesis using tn(1) [of p] by linarith
      qed
      ultimately show ?thesis using run IH(1-4) unfolding g
        by (intro exI [of _ cs] exI [of _ a] exI [of _ g] exI [of _ Q]) auto
    next
      case False
      obtain b where b: "deactivate_note n l = l \<lparr> active_note := b \<rparr>" "length b = length (active_note l)"
        "mset (entries (active_note l)) = mset (n # entries b)" "\<forall>j p. b ! j = Some p \<longrightarrow> active_note l ! j = Some p"
        using deactivate_note_some [OF nin] by auto
      have sub: "set (entries (active_note l)) = insert n (set (entries b))" using mset_eq_setD [OF b(3)] by simp
      from Cons.IH [of "l \<lparr> active_note := b \<rparr>" h] Cons.prems b(2) sub obtain cs a f P where
        IH: "process_note_off ks (l \<lparr> active_note := b \<rparr>, h) = Inr (cs, l \<lparr> active_note := a \<rparr>, set_ticks f P h)"
        "length a = length (active_note l)" "\<forall>j p. a ! j = Some p \<longrightarrow> b ! j = Some p"
        "\<forall>S. S \<subseteq> pitch h ` set (entries b) \<longrightarrow> sounding cs S \<subseteq> pitch h ` set (entries a)"
        "\<forall>p. ticks (set_ticks f P h) p \<le> ticks h p"
        "\<forall>k \<in> set ks. \<forall>p. a ! k = Some p \<longrightarrow> ticks (set_ticks f P h) p \<le> max 0 (ticks h p - 1)"
        by auto
      have run: "process_note_off (k # ks) (l, h) = Inr (off_call h n # cs, l \<lparr> active_note := a \<rparr>, set_ticks f P h)"
        using Some e False b(1) IH(1) note_mem_eq_ticks [OF e] by (simp add: off_call_def Let_def)
      have "sounding (off_call h n # cs) S \<subseteq> pitch h ` set (entries a)" if "S \<subseteq> pitch h ` set (entries (active_note l))" for S
      proof -
        have "S - {pitch h n} \<subseteq> pitch h ` set (entries b)" using that sub by auto
        then show ?thesis using IH(4) by simp
      qed
      moreover have "ticks (set_ticks f P h) p \<le> max 0 (ticks h p - 1)" if "a ! j = Some p" "j \<in> set (k # ks)" for j p
      proof (cases "j = k")
        case True
        then have "p = n" using that IH(3) b(4) Some by fastforce
        then show ?thesis using IH(5) False by (metis max.coboundedI1 not_less order_trans)
      qed (use that IH(6) in auto)
      ultimately show ?thesis using run IH(2,3,5) b(4)
        by (intro exI [of _ "off_call h n # cs"] exI [of _ a] exI [of _ f] exI [of _ P]) auto
    qed
  qed
qed

text \<open>Once the time of all is up, one more tick empties the slots.\<close>

lemma process_note_off_empties:
  assumes "\<forall>p \<in> set (entries (active_note l)). note_mem h p \<noteq> None \<and> ticks h p \<le> 0" "\<forall>j < i. active_note l ! j = None"
    "length (active_note l) = i + m"
  shows "\<exists>cs a. process_note_off [i..<i + m] (l, h) = Inr (cs, l \<lparr> active_note := a \<rparr>, h) \<and> length a = i + m \<and> entries a = []"
  using assms
proof (induction m arbitrary: i l)
  case 0
  have "entries xs = []" if "\<forall>j < length xs. xs ! j = None" for xs :: "nat option list"
    using that by (metis entries_simps(4) nth_equalityI length_replicate nth_replicate)
  then show ?case using 0 by (intro exI [of _ "[]"] exI [of _ "active_note l"]) simp
next
  case (Suc m)
  have up: "[i..<i + Suc m] = i # [Suc i..<Suc i + m]" by (simp add: upt_conv_Cons)
  show ?case
  proof (cases "active_note l ! i")
    case None
    then show ?thesis using Suc.IH [of l "Suc i"] Suc.prems unfolding up by (auto simp: less_Suc_eq simp del: upt_Suc)
  next
    case (Some n)
    have i: "i < length (active_note l)" using Suc.prems(3) by simp
    then have "n \<in> set (entries (active_note l))" using Some by (metis nth_mem set_entries)
    then obtain e where e: "note_mem h n = Some e" "ticks h n \<le> 0" using Suc.prems(1) by auto
    have "first_slot (Some n) (active_note l) = Some i" using i Some Suc.prems(2) by (auto simp: first_slot_Some)
    then have de: "deactivate_note n l = l \<lparr> active_note := (active_note l)[i := None] \<rparr>" by (simp add: deactivate_note_def)
    let ?l = "l \<lparr> active_note := (active_note l)[i := None] \<rparr>"
    have "mset (entries (active_note l)) = mset (n # entries (active_note ?l))" using slot_clear [OF i Some] by simp
    then have "set (entries (active_note ?l)) \<subseteq> set (entries (active_note l))" using mset_eq_setD by fastforce
    then obtain cs a where "process_note_off [Suc i..<Suc i + m] (?l, h) = Inr (cs, ?l \<lparr> active_note := a \<rparr>, h)" "length a = Suc i + m" "entries a = []"
      using Suc.IH [of ?l "Suc i"] Suc.prems i by (force simp: less_Suc_eq nth_list_update simp del: upt_Suc)
    then show ?thesis using Some e de note_mem_eq_ticks [OF e(1)] unfolding up by (auto simp del: upt_Suc)
  qed
qed

lemma process_loop_safe:
  assumes "loop_ok ps (l, h)" "S \<subseteq> pitch h ` set (entries (active_note l))"
  shows "\<exists>cs l' h'. process_loop playing mute (l, h) = Inr (cs, l', h') \<and> loop_ok ps (l', h') \<and>
    sounding cs S \<subseteq> pitch h' ` set (entries (active_note l')) \<and>
    (\<not> playing \<or> mute \<longrightarrow> (\<forall>p \<in> set (entries (active_note l')). p \<in> set (entries (active_note l)) \<and> ticks h' p \<le> max 0 (ticks h p - 1)) \<and>
      ((\<forall>p \<in> set (entries (active_note l)). ticks h p \<le> 0) \<longrightarrow> entries (active_note l') = []))"
proof -
  obtain xs qs where qs: "ps = xs @ qs" "next_note_to_play l = first qs" using assms(1) by (auto simp: loop_ok_def)
  define qs' where "qs' = dropWhile (\<lambda>q. starts h q = loop_position l) qs"
  obtain D a where on: "process_note_on (Suc (note_top h)) playing mute (l, h) = Inr (map (on_call h) D,
      l \<lparr> active_note := a, next_note_to_play := first qs' \<rparr>, set_ticks (\<lambda>q. lasts h q + 1) (set D) h)"
    "length a = MAX_ACTIVE_NOTES" "mset (entries a) = mset (entries (active_note l)) + mset D" "set D \<subseteq> set ps"
    "\<not> playing \<or> mute \<longrightarrow> D = []"
    using loop_on [OF assms(1) qs, of playing mute] unfolding qs'_def by blast
  let ?l1 = "l \<lparr> active_note := a, next_note_to_play := first qs' \<rparr>" and ?h1 = "set_ticks (\<lambda>q. lasts h q + 1) (set D) h"
  have sa: "set (entries a) = set (entries (active_note l)) \<union> set D" using on(3) by (metis set_append mset_append mset_eq_setD)
  have live: "\<forall>p \<in> set (entries a). note_mem h p \<noteq> None" using assms(1) on(4) sa by (auto simp: loop_ok_def note_chain_def)
  have l1: "\<forall>p \<in> set (entries (active_note ?l1)). note_mem ?h1 p \<noteq> None" "\<forall>k \<in> set [0..<MAX_ACTIVE_NOTES]. k < length (active_note ?l1)"
    using live on(2) by simp_all
  from process_note_off_safe [OF l1] obtain ds b f P where
    off: "process_note_off [0..<MAX_ACTIVE_NOTES] (?l1, ?h1) = Inr (ds, ?l1 \<lparr> active_note := b \<rparr>, set_ticks f P ?h1)"
    "length b = length (active_note ?l1)" "\<forall>j p. b ! j = Some p \<longrightarrow> active_note ?l1 ! j = Some p"
    "\<forall>S. S \<subseteq> pitch ?h1 ` set (entries (active_note ?l1)) \<longrightarrow> sounding ds S \<subseteq> pitch ?h1 ` set (entries b)"
    "\<forall>p. ticks (set_ticks f P ?h1) p \<le> ticks ?h1 p"
    "\<forall>k \<in> set [0..<MAX_ACTIVE_NOTES]. \<forall>p. b ! k = Some p \<longrightarrow> ticks (set_ticks f P ?h1) p \<le> max 0 (ticks ?h1 p - 1)"
    by (elim exE conjE) (rule that; assumption)
  let ?l2 = "?l1 \<lparr> active_note := b \<rparr> \<lparr> loop_position := loop_position l + 1 \<rparr>" and ?h2 = "set_ticks f P ?h1"
  have run: "process_loop playing mute (l, h) = Inr (map (on_call h) D @ ds, ?l2, ?h2)"
    using on(1) off(1) by (simp add: process_loop_def)
  have lb: "length b = MAX_ACTIVE_NOTES" using off(2) on(2) by simp
  have sb: "set (entries b) \<subseteq> set (entries a)"
  proof
    fix p assume "p \<in> set (entries b)"
    then obtain j where j: "j < length b" "b ! j = Some p" unfolding entries_slot by blast
    then have "a ! j = Some p" using off(3) by simp
    then show "p \<in> set (entries a)" using j(1) lb on(2) unfolding entries_slot by auto
  qed
  have slot: "\<exists>k \<in> set [0..<MAX_ACTIVE_NOTES]. b ! k = Some p" if "p \<in> set (entries b)" for p
    using that lb unfolding entries_slot by auto
  obtain ys where ys: "qs = ys @ qs'" unfolding qs'_def by (metis takeWhile_dropWhile_id)
  have "\<exists>xs qs. ps = xs @ qs \<and> next_note_to_play ?l2 = first qs"
    using qs(1) ys by (intro exI [of _ "xs @ ys"] exI [of _ qs']) simp
  then have ok: "loop_ok ps (?l2, ?h2)" using assms(1) off(2) on(2) sb live by (simp add: loop_ok_def subset_eq)
  have "S \<union> pitch h ` set D \<subseteq> pitch h ` set (entries a)" using assms(2) sa by auto
  then have snd: "sounding (map (on_call h) D @ ds) S \<subseteq> pitch ?h2 ` set (entries (active_note ?l2))"
    using off(4) by (simp add: sounding_on)
  have fade: "\<forall>p \<in> set (entries b). p \<in> set (entries (active_note l)) \<and> ticks ?h2 p \<le> max 0 (ticks h p - 1)" if "D = []"
  proof
    fix p assume p: "p \<in> set (entries b)"
    then obtain k where "k \<in> set [0..<MAX_ACTIVE_NOTES]" "b ! k = Some p" using slot by blast
    then have "ticks ?h2 p \<le> max 0 (ticks ?h1 p - 1)" using off(6) by blast
    then show "p \<in> set (entries (active_note l)) \<and> ticks ?h2 p \<le> max 0 (ticks h p - 1)" using p sb sa that by auto
  qed
  have gone: "entries b = []" if z: "D = []" "\<forall>p \<in> set (entries (active_note l)). ticks h p \<le> 0"
  proof -
    obtain cs c where "process_note_off [0..<MAX_ACTIVE_NOTES] (?l1, h) = Inr (cs, ?l1 \<lparr> active_note := c \<rparr>, h)" "entries c = []"
      using process_note_off_empties [of ?l1 h 0 MAX_ACTIVE_NOTES] z sa live on(2) by auto
    moreover from this have "active_note (?l1 \<lparr> active_note := b \<rparr>) = active_note (?l1 \<lparr> active_note := c \<rparr>)"
      using off(1) z(1) by simp
    ultimately show ?thesis by simp
  qed
  show ?thesis
    by (rule exI [of _ "map (on_call h) D @ ds"], rule exI [of _ ?l2], rule exI [of _ ?h2])
      (use run ok snd fade gone on(5) in simp)
qed

section \<open>Editing a loop that plays\<close>

lemma alloc_note_ok:
  assumes "heap_ok h"
  shows "heap_ok (snd (alloc_note n h))" "note_mem h (note_top h) = None"
    "note_chain h head ps \<Longrightarrow> note_chain (snd (alloc_note n h)) head ps"
    "p < note_top h \<Longrightarrow> note_mem (snd (alloc_note n h)) p = note_mem h p"
    "note_mem (snd (alloc_note n h)) (note_top h) = Some n"
proof -
  show free: "note_mem h (note_top h) = None" using assms by (auto simp: heap_ok_def)
  show "heap_ok (snd (alloc_note n h))" using assms by (auto simp: heap_ok_def alloc_note_def less_SucI)
  show "p < note_top h \<Longrightarrow> note_mem (snd (alloc_note n h)) p = note_mem h p"
    "note_mem (snd (alloc_note n h)) (note_top h) = Some n" by (simp_all add: alloc_note_def)
  show "note_chain (snd (alloc_note n h)) head ps" if c: "note_chain h head ps"
  proof -
    have ne: "note_top h \<notin> set ps" using c free by (auto simp: note_chain_def)
    have "sseg (note_pv (snd (alloc_note n h))) (note_nx (snd (alloc_note n h))) None head ps None l =
        sseg (note_pv h) (note_nx h) None head ps None l" for l
      using ne by (intro sseg_cong) (auto simp: alloc_note_def)
    then show ?thesis using c ne by (auto simp: note_chain_def alloc_note_def)
  qed
qed

text \<open>A note put into the list leaves the next note where it was.\<close>

lemma suffix_insert:
  assumes "ps = xs @ qs"
  shows "\<exists>us vs. insert_behind f z ps = us @ vs \<and> first vs = first qs"
proof -
  define A where "A = takeWhile (\<lambda>x. f x \<le> f z) ps"
  define B where "B = dropWhile (\<lambda>x. f x \<le> f z) ps"
  have AB: "ps = A @ B" by (simp add: A_def B_def)
  have ins: "insert_behind f z ps = A @ z # B" by (simp add: insert_behind_def A_def B_def)
  from AB assms consider us where "A = xs @ us" "qs = us @ B" | us where "xs = A @ us" "B = us @ qs"
    by (metis append_eq_append_conv2)
  then show ?thesis
  proof cases
    case 1
    show ?thesis
    proof (cases us)
      case Nil
      then show ?thesis using 1 ins by (intro exI [of _ "xs @ [z]"] exI [of _ B]) simp
    next
      case (Cons u vs)
      then show ?thesis using 1 ins by (intro exI [of _ xs] exI [of _ "us @ z # B"]) simp
    qed
  next
    case 2
    then show ?thesis using ins by (intro exI [of _ "A @ z # us"] exI [of _ qs]) simp
  qed
qed

lemma note_insert_ok:
  assumes "loop_ok ps (l, h)"
  shows "\<exists>l' h'. note_insert e (l, h) = Inr (note_top h, (l', h')) \<and>
    loop_ok (insert_behind (starts h') (note_top h) ps) (l', h') \<and> note_top h \<notin> set ps \<and>
    active_note l' = active_note l \<and> loop_position l' = loop_position l \<and>
    map_option unlinked (note_mem h' (note_top h)) = Some (copy_note_entry e) \<and>
    (\<forall>p < note_top h. map_option unlinked (note_mem h' p) = map_option unlinked (note_mem h p))"
proof -
  have ok: "note_chain h (loop_notes l) ps" "heap_ok h" "length (active_note l) = MAX_ACTIVE_NOTES"
    "\<forall>p \<in> set (entries (active_note l)). note_mem h p \<noteq> None"
    using assms by (auto simp: loop_ok_def)
  obtain xs qs where qs: "ps = xs @ qs" "next_note_to_play l = first qs" using assms by (auto simp: loop_ok_def)
  define z where "z = note_top h"
  define h1 where "h1 = snd (alloc_note (copy_note_entry e) h)"
  have al: "alloc_note (copy_note_entry e) h = (z, h1)" by (simp add: alloc_note_def z_def h1_def)
  have h1: "heap_ok h1" "note_chain h1 (loop_notes l) ps" "note_mem h1 z = Some (copy_note_entry e)"
    "\<And>p. p < z \<Longrightarrow> note_mem h1 p = note_mem h p"
    using alloc_note_ok [OF ok(2)] ok(1) by (auto simp: h1_def z_def)
  have znew: "z \<notin> set ps" using ok(1) alloc_note_ok(2) [OF ok(2)] by (auto simp: note_chain_def z_def)
  obtain l' h' where ins: "internal_insert_note z (l, h1) = Inr (l', h')" "note_chain h' (loop_notes l') (insert_by_start h1 z ps)"
    "same_notes h1 h'" "l' = l \<lparr> loop_notes := loop_notes l' \<rparr>"
    using internal_insert_note_ok [OF h1(2,1), of z] h1(3) znew by auto
  have l': "active_note l' = active_note l" "next_note_to_play l' = next_note_to_play l" "loop_position l' = loop_position l"
    by (subst ins(4), simp)+
  have sm: "map_option unlinked (note_mem h' p) = map_option unlinked (note_mem h1 p)" for p using ins(3) by (simp add: same_notes_def)
  have live: "note_mem h' p \<noteq> None" if "p \<in> set (entries (active_note l))" for p
  proof -
    have "note_mem h p \<noteq> None" "p < z" using that ok(2,4) by (auto simp: heap_ok_def z_def)
    then show ?thesis using h1(4) [of p] sm [of p] by (metis option.map_disc_iff)
  qed
  have "\<exists>us vs. insert_by_start h1 z ps = us @ vs \<and> next_note_to_play l = first vs" using suffix_insert [OF qs(1)] qs(2) by metis
  moreover have st: "starts h' = starts h1" using same_notes_starts [OF ins(3)] .
  ultimately have "loop_ok (insert_behind (starts h') z ps) (l', h')"
    using ins(2) same_notes_ok [OF ins(3) h1(1)] ok(3) l' live qs(2) by (auto simp: loop_ok_def)
  moreover have "map_option unlinked (note_mem h' z) = Some (copy_note_entry e)"
    unfolding sm h1(3) by (simp add: unlinked_def copy_note_entry_def note_set_to_def new_note_entry_def)
  moreover have "\<forall>p < z. map_option unlinked (note_mem h' p) = map_option unlinked (note_mem h p)" using sm h1(4) by simp
  moreover have "note_insert e (l, h) = Inr (z, (l', h'))" using ins(1) al by (simp add: note_insert_def)
  ultimately show ?thesis
    using znew l' unfolding z_def by blast
qed

text \<open>
  What may happen to a loop while it plays: ticks, with or without sound, a restart, and new notes.
\<close>

inductive loop_run :: "loop_state \<Rightarrow> midi_call list \<Rightarrow> loop_state \<Rightarrow> bool" for lh0 :: loop_state where
  loop_run_start: "loop_run lh0 [] lh0"
| loop_run_tick: "loop_run lh0 cs lh \<Longrightarrow> process_loop playing mute lh = Inr (ds, lh') \<Longrightarrow> loop_run lh0 (cs @ ds) lh'"
| loop_run_restart: "loop_run lh0 cs (l, h) \<Longrightarrow> loop_run lh0 cs (start_to_play l, h)"
| loop_run_insert: "loop_run lh0 cs lh \<Longrightarrow> note_insert e lh = Inr (p, lh') \<Longrightarrow> loop_run lh0 cs lh'"

definition heard_ok :: "midi_call list \<Rightarrow> loop_state \<Rightarrow> bool" where
  "heard_ok cs lh \<longleftrightarrow> (\<exists>ps. loop_ok ps lh) \<and> sounding cs {} \<subseteq> pitch (snd lh) ` set (entries (active_note (fst lh)))"

lemma loop_ok_restart:
  assumes "loop_ok ps (l, h)"
  shows "loop_ok ps (start_to_play l, h)"
proof -
  have "loop_notes l = first ps" using assms by (cases ps) (auto simp: loop_ok_def note_chain_def)
  then have "\<exists>xs qs. ps = xs @ qs \<and> loop_notes l = first qs" by (intro exI [of _ "[]"] exI [of _ ps]) simp
  then show ?thesis using assms by (simp add: loop_ok_def start_to_play_def)
qed

lemma loop_run_heard:
  assumes "loop_run lh0 cs lh" "loop_ok ps0 lh0" "entries (active_note (fst lh0)) = []"
  shows "heard_ok cs lh"
  using assms(1)
proof induction
  case loop_run_start
  then show ?case using assms(2,3) by (auto simp: heard_ok_def)
next
  case (loop_run_tick cs lh playing mute ds lh')
  obtain l h where lh: "lh = (l, h)" by fastforce
  obtain ps where ps: "loop_ok ps (l, h)" using loop_run_tick.IH lh by (auto simp: heard_ok_def)
  have "sounding cs {} \<subseteq> pitch h ` set (entries (active_note l))" using loop_run_tick.IH lh by (simp add: heard_ok_def)
  from process_loop_safe [OF ps this, of playing mute] loop_run_tick.hyps(2) lh show ?case by (auto simp: heard_ok_def)
next
  case (loop_run_restart cs l h)
  then show ?case using loop_ok_restart by (auto simp: heard_ok_def start_to_play_def)
next
  case (loop_run_insert cs lh e p lh')
  obtain l h where lh: "lh = (l, h)" by fastforce
  obtain ps where ps: "loop_ok ps (l, h)" using loop_run_insert.IH lh by (auto simp: heard_ok_def)
  obtain l' h' where r: "lh' = (l', h')" "loop_ok (insert_behind (starts h') (note_top h) ps) (l', h')" "active_note l' = active_note l"
    "\<forall>p < note_top h. map_option unlinked (note_mem h' p) = map_option unlinked (note_mem h p)"
    using note_insert_ok [OF ps, of e] loop_run_insert.hyps(2) lh by auto
  have "pitch h' q = pitch h q" if "q \<in> set (entries (active_note l))" for q
  proof -
    have "note_mem h q \<noteq> None" "q < note_top h" using that ps by (auto simp: loop_ok_def heap_ok_def)
    then obtain e e' where "note_mem h q = Some e" "note_mem h' q = Some e'" "unlinked e' = unlinked e" using r(4) by fastforce
    then show ?thesis by (simp add: pitch_def) (metis unlinked_fields(3))
  qed
  then have "pitch h' ` set (entries (active_note l)) = pitch h ` set (entries (active_note l))" by (rule image_cong [OF refl])
  then show ?case using loop_run_insert.IH r(1,2,3) lh unfolding heard_ok_def by auto
qed

section \<open>Whole runs\<close>

fun play_loop :: "nat \<Rightarrow> bool \<Rightarrow> bool \<Rightarrow> loop_state \<Rightarrow> (loop_error, midi_call list list \<times> loop_state) result" where
  "play_loop 0 playing mute lh = Inr ([], lh)"
| "play_loop (Suc n) playing mute lh =
     rbind (process_loop playing mute lh) (\<lambda>(cs, lh1). rbind (play_loop n playing mute lh1) (\<lambda>(fs, lh2). Inr (cs # fs, lh2)))"

lemma muted_loop_fades:
  assumes "loop_ok ps (l, h)" "S \<subseteq> pitch h ` set (entries (active_note l))" "\<forall>p \<in> set (entries (active_note l)). ticks h p \<le> int n"
  shows "\<exists>fs lh'. play_loop (Suc n) playing True (l, h) = Inr (fs, lh') \<and> sounding (concat fs) S = {}"
  using assms
proof (induction n arbitrary: l h S)
  case 0
  from process_loop_safe [OF 0(1,2), of playing True] 0(3) show ?case by auto
next
  case (Suc n)
  from process_loop_safe [OF Suc.prems(1,2), of playing True] obtain cs l1 h1 where
    t: "process_loop playing True (l, h) = Inr (cs, l1, h1)" "loop_ok ps (l1, h1)" "sounding cs S \<subseteq> pitch h1 ` set (entries (active_note l1))"
    "\<forall>p \<in> set (entries (active_note l1)). p \<in> set (entries (active_note l)) \<and> ticks h1 p \<le> max 0 (ticks h p - 1)" by auto
  have "\<forall>p \<in> set (entries (active_note l1)). ticks h1 p \<le> int n" using t(4) Suc.prems(3) by fastforce
  from Suc.IH [OF t(2,3) this] t(1) show ?case by (auto simp del: play_loop.simps(2) simp: play_loop.simps(2) [of "Suc n"])
qed

lemma schedule_tick:
  assumes "playing_at ps h0 t t (\<lambda>q. starts h0 q < t \<and> t \<le> ends h0 q) lh" "sorted (map (starts h0) ps)" "\<forall>q \<in> set ps. 0 \<le> lasts h0 q"
    "length (filter (\<lambda>q. starts h0 q \<le> t \<and> t \<le> ends h0 q) ps) \<le> MAX_ACTIVE_NOTES"
  shows "\<exists>offs lh'. process_loop True False lh = Inr (map (on_call h0) (filter (\<lambda>q. starts h0 q = t) ps) @ map (off_call h0) offs, lh') \<and>
    mset offs = mset (filter (\<lambda>q. ends h0 q = t) ps) \<and>
    playing_at ps h0 (t + 1) (t + 1) (\<lambda>q. starts h0 q < t + 1 \<and> t + 1 \<le> ends h0 q) lh'"
proof -
  obtain l h where lh: "lh = (l, h)" by fastforce
  obtain l1 h1 where on: "process_note_on (Suc (note_top h)) True False (l, h) = Inr (map (on_call h0) (filter (\<lambda>q. starts h0 q = t) ps), l1, h1)"
    "playing_at ps h0 t (t + 1) (\<lambda>q. starts h0 q \<le> t \<and> t \<le> ends h0 q) (l1, h1)"
    using schedule_on [OF assms(1) [unfolded lh] assms(2-4)] by auto
  from schedule_off [OF on(2) assms(3)] on(1) show ?thesis by (auto simp: process_loop_def lh)
qed

lemma schedule_run:
  assumes "playing_at ps h0 t t (\<lambda>q. starts h0 q < t \<and> t \<le> ends h0 q) lh" "sorted (map (starts h0) ps)" "\<forall>q \<in> set ps. 0 \<le> lasts h0 q"
    "\<forall>u. length (filter (\<lambda>q. starts h0 q \<le> u \<and> u \<le> ends h0 q) ps) \<le> MAX_ACTIVE_NOTES"
  shows "\<exists>fs lh'. play_loop n True False lh = Inr (fs, lh') \<and> length fs = n \<and>
    (\<forall>i < n. \<exists>offs. fs ! i = map (on_call h0) (filter (\<lambda>q. starts h0 q = t + int i) ps) @ map (off_call h0) offs \<and>
       mset offs = mset (filter (\<lambda>q. ends h0 q = t + int i) ps))"
  using assms(1)
proof (induction n arbitrary: t lh)
  case (Suc n)
  obtain offs lh1 where t: "process_loop True False lh = Inr (map (on_call h0) (filter (\<lambda>q. starts h0 q = t) ps) @ map (off_call h0) offs, lh1)"
    "mset offs = mset (filter (\<lambda>q. ends h0 q = t) ps)"
    "playing_at ps h0 (t + 1) (t + 1) (\<lambda>q. starts h0 q < t + 1 \<and> t + 1 \<le> ends h0 q) lh1"
    using schedule_tick [OF Suc.prems assms(2,3)] assms(4) by blast
  obtain fs lh' where r: "play_loop n True False lh1 = Inr (fs, lh')" "length fs = n"
    "\<forall>i < n. \<exists>offs. fs ! i = map (on_call h0) (filter (\<lambda>q. starts h0 q = t + 1 + int i) ps) @ map (off_call h0) offs \<and>
       mset offs = mset (filter (\<lambda>q. ends h0 q = t + 1 + int i) ps)"
    using Suc.IH [OF t(3)] by blast
  let ?fs = "(map (on_call h0) (filter (\<lambda>q. starts h0 q = t) ps) @ map (off_call h0) offs) # fs"
  have "\<exists>offs. ?fs ! i = map (on_call h0) (filter (\<lambda>q. starts h0 q = t + int i) ps) @ map (off_call h0) offs \<and>
      mset offs = mset (filter (\<lambda>q. ends h0 q = t + int i) ps)" if "i < Suc n" for i
  proof (cases i)
    case 0
    then show ?thesis using t(2) by auto
  next
    case (Suc j)
    then have j: "t + int i = t + 1 + int j" "j < n" using that by auto
    show ?thesis unfolding j(1) unfolding Suc nth_Cons_Suc using r(3) j(2) by blast
  qed
  then show ?case using t(1) r(1,2) by auto
qed simp

section \<open>Saving and loading\<close>

text \<open>What a note sounds like: everything but its links and its counter.\<close>

definition note_data :: "note_entry \<Rightarrow> note_entry" where
  "note_data n = n \<lparr> nt_prev := None, nt_next := None, nt_ticks2off := 0 \<rparr>"

definition note_in_range :: "note_entry \<Rightarrow> bool" where
  "note_in_range n \<longleftrightarrow> nt_channel n AND 0x0f = nt_channel n \<and> nt_program n AND 0x7f = nt_program n \<and>
     nt_velocity n AND 0x7f = nt_velocity n \<and> nt_note n AND 0x7f = nt_note n \<and> 0 \<le> nt_length n"

lemma read_note_xml_note_xml:
  assumes "note_in_range n"
  shows "copy_note_entry (read_note_xml (note_xml n)) = note_data n" "nt_length (read_note_xml (note_xml n)) = nt_length n"
proof -
  have r: "read_note_xml (note_xml n) = new_note_entry \<lparr> nt_channel := nt_channel n, nt_program := nt_program n,
      nt_velocity := nt_velocity n, nt_note := nt_note n, nt_on_at := nt_on_at n, nt_length := nt_length n \<rparr>"
    by (simp add: read_note_xml_def note_xml_def KXML_GET_NUMBER_def Let_def note_set_to_def new_note_entry_def)
  show "nt_length (read_note_xml (note_xml n)) = nt_length n" by (simp add: r)
  show "copy_note_entry (read_note_xml (note_xml n)) = note_data n"
    using assms unfolding r by (cases n) (simp add: copy_note_entry_def note_set_to_def new_note_entry_def note_data_def note_in_range_def)
qed

lemma notes_xml_ok:
  assumes "sseg (note_pv h) (note_nx h) p head ps None l" "\<forall>q \<in> set ps. note_mem h q \<noteq> None" "length ps < k"
  shows "notes_xml k head h = Inr (map (\<lambda>q. (''note'', note_xml (the (note_mem h q)))) ps)"
  using assms
proof (induction ps arbitrary: k p head)
  case (Cons q qs)
  then obtain k' e where "k = Suc k'" "note_mem h q = Some e" by (cases k) auto
  then show ?case using Cons by auto
qed (cases k, auto)

text \<open>Notes that come in order of their start are appended.\<close>

lemma load_notes_ok:
  assumes "note_chain h (loop_notes l) ps" "heap_ok h" "\<forall>n \<in> set ns. note_in_range n"
    "sorted (map (starts h) ps @ map nt_on_at ns)"
  shows "\<exists>l' h' qs. load_notes (map note_xml ns) (l, h) = Inr (l', h') \<and> note_chain h' (loop_notes l') (ps @ qs) \<and> heap_ok h' \<and>
    map (\<lambda>q. map_option note_data (note_mem h' q)) (ps @ qs) =
      map (\<lambda>q. map_option note_data (note_mem h q)) ps @ map (Some \<circ> note_data) ns \<and> l' = l \<lparr> loop_notes := loop_notes l' \<rparr>"
  using assms
proof (induction ns arbitrary: l h ps)
  case Nil
  then show ?case by (intro exI [of _ l] exI [of _ h] exI [of _ "[]"]) simp
next
  case (Cons n ns)
  define z where "z = note_top h"
  define h1 where "h1 = snd (alloc_note (note_data n) h)"
  have al: "alloc_note (note_data n) h = (z, h1)" by (simp add: alloc_note_def z_def h1_def)
  have h1: "heap_ok h1" "note_chain h1 (loop_notes l) ps" "note_mem h1 z = Some (note_data n)"
    "\<And>p. p < z \<Longrightarrow> note_mem h1 p = note_mem h p"
    using alloc_note_ok [OF Cons.prems(2)] Cons.prems(1) by (auto simp: h1_def z_def)
  have znew: "z \<notin> set ps" "\<And>p. p \<in> set ps \<Longrightarrow> p < z"
    using Cons.prems(1,2) by (auto simp: note_chain_def heap_ok_def z_def) (metis less_irrefl option.simps(3))
  obtain l' h' where ins: "internal_insert_note z (l, h1) = Inr (l', h')" "note_chain h' (loop_notes l') (insert_by_start h1 z ps)"
    "same_notes h1 h'" "l' = l \<lparr> loop_notes := loop_notes l' \<rparr>"
    using internal_insert_note_ok [OF h1(2,1), of z] h1(3) znew by auto
  have sz: "starts h1 z = nt_on_at n" using h1(3) by (simp add: starts_def note_data_def)
  have sp: "starts h1 p = starts h p" if "p \<in> set ps" for p using h1(4) znew(2) [OF that] by (simp add: starts_def)
  have app: "insert_by_start h1 z ps = ps @ [z]"
    using Cons.prems(4) by (intro insert_behind_last) (auto simp: sz sp sorted_append)
  have st: "starts h' = starts h1" using same_notes_starts [OF ins(3)] .
  have "sorted (map (starts h') (ps @ [z]) @ map nt_on_at ns)"
    using Cons.prems(4) by (simp add: st sz sp cong: map_cong)
  from Cons.IH [OF ins(2) [unfolded app] same_notes_ok [OF ins(3) h1(1)] _ this] Cons.prems(3) obtain l2 h2 qs where
    r: "load_notes (map note_xml ns) (l', h') = Inr (l2, h2)" "note_chain h2 (loop_notes l2) ((ps @ [z]) @ qs)" "heap_ok h2"
      "map (\<lambda>q. map_option note_data (note_mem h2 q)) ((ps @ [z]) @ qs) =
        map (\<lambda>q. map_option note_data (note_mem h' q)) (ps @ [z]) @ map (Some \<circ> note_data) ns"
      "l2 = l' \<lparr> loop_notes := loop_notes l2 \<rparr>"
    by auto
  have nd: "note_data = note_data \<circ> unlinked" by (auto simp: note_data_def unlinked_def fun_eq_iff)
  have md: "map_option note_data (note_mem h' q) = map_option note_data (note_mem h1 q)" for q
  proof -
    have "map_option unlinked (note_mem h' q) = map_option unlinked (note_mem h1 q)" using ins(3) by (simp add: same_notes_def)
    then show ?thesis by (metis nd option.map_comp)
  qed
  have "note_data (note_data n) = note_data n" by (simp add: note_data_def)
  then have "map (\<lambda>q. map_option note_data (note_mem h' q)) (ps @ [z]) =
      map (\<lambda>q. map_option note_data (note_mem h q)) ps @ [Some (note_data n)]"
    using h1(3,4) znew(2) by (simp add: md cong: map_cong)
  moreover have "l2 = l \<lparr> loop_notes := loop_notes l2 \<rparr>" by (subst r(5), subst ins(4), simp)
  moreover have "load_notes (map note_xml (n # ns)) (l, h) = Inr (l2, h2)"
    using r(1) ins(1) al read_note_xml_note_xml [of n] Cons.prems(3) by (simp add: note_in_range_def Let_def)
  ultimately show ?case using r(2,3,4) by (intro exI [of _ l2] exI [of _ h2] exI [of _ "z # qs"]) simp
qed

lemma process_note_off_dangles:
  assumes "k \<in> set ks" "active_note l ! k = Some p" "note_mem h p = None"
  shows "process_note_off ks (l, h) = Inl DanglingNote"
  using assms
proof (induction ks arbitrary: l h)
  case (Cons j ks)
  show ?case
  proof (cases "active_note l ! j")
    case None
    then have "k \<in> set ks" using Cons.prems(1,2) by auto
    then show ?thesis using Cons.IH Cons.prems(2,3) None by simp
  next
    case (Some n)
    show ?thesis
    proof (cases "note_mem h n")
      case None
      then show ?thesis using Some by (simp add: note_at_def)
    next
      case live: (Some e)
      then have "k \<in> set ks" "n \<noteq> p" using Cons.prems Some by auto
      moreover have "active_note (deactivate_note n l) ! k = Some p"
        using Cons.prems(2) \<open>n \<noteq> p\<close> by (auto simp: deactivate_note_def nth_list_update first_slot_Some split: option.split)
      ultimately show ?thesis using Some live Cons.IH Cons.prems(2,3) by auto
    qed
  qed
qed simp

lemma loop_saved_and_loaded:
  assumes "note_chain h (loop_notes l) ps" "heap_ok h" "sorted (map (starts h) ps)" "\<forall>q \<in> set ps. note_in_range (the (note_mem h q))" "heap_ok h2"
  shows "\<exists>x l' h' qs. get_loop_xml i (l, h) = Inr x \<and> KXML_GET_NUMBER x ''id'' (-1) = i \<and> load_loop x h2 = Inr (l', h') \<and>
    note_chain h' (loop_notes l') qs \<and> heap_ok h' \<and>
    map (\<lambda>q. map_option note_data (note_mem h' q)) qs = map (\<lambda>q. map_option note_data (note_mem h q)) ps"
proof -
  let ?ns = "map (\<lambda>q. the (note_mem h q)) ps"
  have live: "\<forall>q \<in> set ps. note_mem h q \<noteq> None" using assms(1) by (simp add: note_chain_def)
  obtain lst where "sseg (note_pv h) (note_nx h) None (loop_notes l) ps None lst" using assms(1) by (auto simp: note_chain_def)
  from notes_xml_ok [OF this live, of "Suc (note_top h)"] chain_length [OF assms(1,2)]
  have x: "get_loop_xml i (l, h) = Inr (KXML [(''id'', i)] (map (\<lambda>q. (''note'', note_xml (the (note_mem h q)))) ps))"
    by (simp add: get_loop_xml_def)
  have els: "xml_elements (KXML [(''id'', i)] (map (\<lambda>q. (''note'', note_xml (the (note_mem h q)))) ps)) ''note'' = map note_xml ?ns"
    by (simp add: xml_elements_def comp_def filter_map)
  have st: "map nt_on_at ?ns = map (starts h) ps" using live by (auto simp: starts_def split: option.split)
  have c: "note_chain h2 (loop_notes new_loop) []" by (simp add: note_chain_def new_loop_def)
  have rng: "\<forall>n \<in> set ?ns. note_in_range n" using assms(4) by auto
  have srt: "sorted (map (starts h2) [] @ map nt_on_at ?ns)" using assms(3) unfolding st by simp
  from load_notes_ok [OF c assms(5) rng srt] obtain l' h' qs where
    "load_notes (map note_xml ?ns) (new_loop, h2) = Inr (l', h')" "note_chain h' (loop_notes l') qs" "heap_ok h'"
    "map (\<lambda>q. map_option note_data (note_mem h' q)) qs = map (Some \<circ> note_data) ?ns"
    unfolding append_Nil list.map(1) by (elim exE conjE) (rule that; assumption)
  moreover have "map (Some \<circ> note_data) ?ns = map (\<lambda>q. map_option note_data (note_mem h q)) ps" using live by auto
  ultimately show ?thesis using x by (auto simp: load_loop_def els KXML_GET_NUMBER_def)
qed

section \<open>Properties\<close>

text \<open>C30: inserting a note puts a copy of it, masked to the range of MIDI, behind the notes that start no
  later, without moving the note that plays next; deleting it again gives the list as it was.\<close>

theorem note_insert_delete:
  assumes "loop_ok ps (l, h)"
  shows "\<exists>p l' h' l'' h''. note_insert e (l, h) = Inr (p, (l', h')) \<and> p \<notin> set ps \<and>
    loop_ok (insert_by_start h' p ps) (l', h') \<and> map_option unlinked (note_mem h' p) = Some (copy_note_entry e) \<and>
    (sorted (map (starts h) ps) \<longrightarrow> sorted (map (starts h') (insert_by_start h' p ps))) \<and>
    note_delete p (l', h') = Inr (l'', h'') \<and> note_chain h'' (loop_notes l'') ps \<and> active_note l'' = active_note l \<and>
    (\<forall>q \<in> set ps. map_option unlinked (note_mem h'' q) = map_option unlinked (note_mem h q))"
proof -
  define z where "z = note_top h"
  obtain l' h' where ins: "note_insert e (l, h) = Inr (z, (l', h'))" "loop_ok (insert_by_start h' z ps) (l', h')" "z \<notin> set ps"
    "active_note l' = active_note l" "map_option unlinked (note_mem h' z) = Some (copy_note_entry e)"
    "\<forall>p < z. map_option unlinked (note_mem h' p) = map_option unlinked (note_mem h p)"
    using note_insert_ok [OF assms, of e] unfolding z_def by blast
  have old: "map_option unlinked (note_mem h' p) = map_option unlinked (note_mem h p)" if "p \<in> set ps" for p
    using that assms ins(6) by (auto simp: loop_ok_def note_chain_def heap_ok_def z_def)
  have "starts h' p = starts h p" if "p \<in> set ps" for p using old [OF that] by (rule starts_cong)
  then have "map (starts h') ps = map (starts h) ps" by (intro map_cong) simp_all
  then have srt: "sorted (map (starts h) ps) \<longrightarrow> sorted (map (starts h') (insert_by_start h' z ps))"
    using sorted_insert_behind [of "starts h'" ps z] by metis
  have "remove1 z (insert_by_start h' z ps) = ps"
  proof -
    have "z \<notin> set (takeWhile P ps)" for P using ins(3) by (meson set_takeWhileD)
    then show ?thesis by (simp add: insert_behind_def remove1_append)
  qed
  then obtain l'' h'' where del: "note_delete z (l', h') = Inr (l'', h'')" "note_chain h'' (loop_notes l'') ps" "active_note l'' = active_note l'"
    "\<forall>p. p \<noteq> z \<longrightarrow> map_option unlinked (note_mem h'' p) = map_option unlinked (note_mem h' p)"
    using note_delete_ok [of h' l' "insert_by_start h' z ps" z] ins(2) by (auto simp: loop_ok_def)
  have "\<forall>q \<in> set ps. map_option unlinked (note_mem h'' q) = map_option unlinked (note_mem h q)" using del(4) ins(3) old by metis
  with ins del(1-3) srt show ?thesis by auto
qed

definition one_note_heap :: note_heap where
  "one_note_heap = \<lparr> note_mem = [0 \<mapsto> new_note_entry \<lparr> nt_note := 60, nt_on_at := 4, nt_length := 2 \<rparr>], note_top = 1 \<rparr>"

definition one_note_loop :: note_loop where
  "one_note_loop = new_loop \<lparr> loop_notes := Some 0, next_note_to_play := Some 0 \<rparr>"

lemma one_note_ok: "loop_ok [0] (one_note_loop, one_note_heap)" "starts one_note_heap 0 = 4" "lasts one_note_heap 0 = 2"
  "entries (active_note one_note_loop) = []"
proof -
  have "\<exists>xs qs. [0] = xs @ qs \<and> next_note_to_play one_note_loop = first qs"
    by (intro exI [of _ "[]"] exI [of _ "[0]"]) (simp add: one_note_loop_def)
  then show "loop_ok [0] (one_note_loop, one_note_heap)"
    by (simp add: loop_ok_def note_chain_def heap_ok_def one_note_loop_def one_note_heap_def new_loop_def new_note_entry_def)
qed (simp_all add: one_note_heap_def one_note_loop_def starts_def lasts_def new_loop_def)

theorem note_insert_delete_witness:
  "\<exists>p l' h' l'' h''. note_insert (new_note_entry \<lparr> nt_length := 1 \<rparr>) (one_note_loop, one_note_heap) = Inr (p, (l', h')) \<and> p \<noteq> 0 \<and>
     note_delete p (l', h') = Inr (l'', h'') \<and> note_chain h'' (loop_notes l'') [0]"
  using note_insert_delete [OF one_note_ok(1), of "new_note_entry \<lparr> nt_length := 1 \<rparr>"] by auto

text \<open>C8: a loop started with empty slots, whose notes are in order and never more than sixteen at a time,
  plays in every tick exactly the notes that start at that tick and ends exactly those whose length has
  passed since they started.\<close>

theorem loop_plays_schedule:
  assumes "loop_ok ps (l, h)" "entries (active_note l) = []" "sorted (map (starts h) ps)" "\<forall>q \<in> set ps. 0 \<le> starts h q \<and> 0 \<le> lasts h q"
    "\<forall>t. length (filter (\<lambda>q. starts h q \<le> t \<and> t \<le> ends h q) ps) \<le> MAX_ACTIVE_NOTES"
  shows "\<exists>fs lh'. play_loop n True False (start_to_play l, h) = Inr (fs, lh') \<and> length fs = n \<and>
    (\<forall>t < n. \<exists>offs. fs ! t = map (on_call h) (filter (\<lambda>q. starts h q = int t) ps) @ map (off_call h) offs \<and>
       mset offs = mset (filter (\<lambda>q. ends h q = int t) ps))"
proof -
  have e: "\<And>q. q \<in> set ps \<Longrightarrow> \<not> starts h q < 0" using assms(4) by force
  have "loop_notes l = first ps" using assms(1) by (cases ps) (auto simp: loop_ok_def note_chain_def)
  moreover have "dropWhile (\<lambda>q. starts h q < 0) ps = ps" using e by (cases ps) auto
  moreover have "filter (\<lambda>q. starts h q < 0 \<and> 0 \<le> ends h q) ps = []" using e by (auto simp: filter_empty_conv)
  moreover have "\<exists>f P. h = set_ticks f P h" by (intro exI [of _ "{}"] exI [of _ "\<lambda>_. 0"]) simp
  ultimately have "playing_at ps h 0 0 (\<lambda>q. starts h q < 0 \<and> 0 \<le> ends h q) (start_to_play l, h)"
    using assms(1,2) by (simp add: playing_at_def loop_ok_def start_to_play_def)
  from schedule_run [OF this assms(3)] assms(4,5) show ?thesis by auto
qed

theorem loop_plays_schedule_witness:
  "\<exists>fs lh'. play_loop 8 True False (start_to_play one_note_loop, one_note_heap) = Inr (fs, lh') \<and>
     fs ! 4 = [NoteOn 60 127 0] \<and> fs ! 7 = [NoteOff 60 0x80 0]"
proof -
  have "length (filter (\<lambda>q. starts one_note_heap q \<le> t \<and> t \<le> ends one_note_heap q) [0]) \<le> MAX_ACTIVE_NOTES" for t
    by (simp add: MAX_ACTIVE_NOTES_def)
  then obtain fs lh' where r: "play_loop 8 True False (start_to_play one_note_loop, one_note_heap) = Inr (fs, lh')"
    "\<forall>t < 8. \<exists>offs. fs ! t = map (on_call one_note_heap) (filter (\<lambda>q. starts one_note_heap q = int t) [0]) @ map (off_call one_note_heap) offs \<and>
       mset offs = mset (filter (\<lambda>q. ends one_note_heap q = int t) [0])"
    using loop_plays_schedule [OF one_note_ok(1,4), of 8] one_note_ok(2,3) by auto
  have "fs ! 4 = [on_call one_note_heap 0]" "fs ! 7 = [off_call one_note_heap 0]"
    using r(2) [rule_format, of 4] r(2) [rule_format, of 7] one_note_ok(2,3) by (auto simp: ends_def)
  then show ?thesis using r(1) by (auto simp: on_call_def off_call_def one_note_heap_def new_note_entry_def)
qed



text \<open>A loop whose notes are in order and in the range of MIDI is saved and loaded again with the same
  notes in the same order.\<close>

theorem loop_xml_round_trip:
  assumes "note_chain h (loop_notes l) ps" "heap_ok h" "sorted (map (starts h) ps)" "\<forall>q \<in> set ps. note_in_range (the (note_mem h q))" "heap_ok h2"
  shows "\<exists>x l' h' qs. get_loop_xml i (l, h) = Inr x \<and> KXML_GET_NUMBER x ''id'' (-1) = i \<and> load_loop x h2 = Inr (l', h') \<and>
    note_chain h' (loop_notes l') qs \<and> heap_ok h' \<and>
    map (\<lambda>q. map_option note_data (note_mem h' q)) qs = map (\<lambda>q. map_option note_data (note_mem h q)) ps"
  by (rule loop_saved_and_loaded [OF assms])

theorem loop_xml_round_trip_witness:
  "\<exists>x l' h' qs. get_loop_xml 7 (one_note_loop, one_note_heap) = Inr x \<and> load_loop x one_note_heap = Inr (l', h') \<and>
     note_chain h' (loop_notes l') qs \<and> length qs = 1"
proof -
  have ok: "note_chain one_note_heap (loop_notes one_note_loop) [0]" "heap_ok one_note_heap" using one_note_ok(1) by (auto simp: loop_ok_def)
  have "note_in_range (the (note_mem one_note_heap 0))" by (simp add: note_in_range_def one_note_heap_def new_note_entry_def)
  then obtain x l' h' qs where "get_loop_xml 7 (one_note_loop, one_note_heap) = Inr x" "load_loop x one_note_heap = Inr (l', h')"
    "note_chain h' (loop_notes l') qs" "map (\<lambda>q. map_option note_data (note_mem h' q)) qs = map (\<lambda>q. map_option note_data (note_mem one_note_heap q)) [0]"
    using loop_xml_round_trip [OF ok _ _ ok(2), of 7] by auto
  moreover from this(4) have "length qs = 1" by (metis length_map One_nat_def length_Cons list.size(3))
  ultimately show ?thesis by blast
qed

text \<open>C39: deleting a note that sounds, or clearing a loop before its last note, makes the next tick follow a
  pointer to a deleted note.\<close>

theorem deleted_notes_are_played:
  assumes "loop_ok ps (l, h)" "p \<in> set ps"
  shows "(p \<in> set (entries (active_note l)) \<longrightarrow>
      (\<exists>lh. note_delete p (l, h) = Inr lh \<and> process_loop playing mute lh = Inl DanglingNote)) \<and>
    (next_note_to_play l \<noteq> None \<longrightarrow>
      (\<exists>lh. clear_loop (l, h) = Inr lh \<and> process_loop playing mute lh = Inl DanglingNote))"
proof (intro conjI impI)
  have ok: "note_chain h (loop_notes l) ps" "heap_ok h" "length (active_note l) = MAX_ACTIVE_NOTES"
    and nxt: "next_note_to_play l \<in> {None} \<union> Some ` set ps"
    using assms(1) by (auto simp: loop_ok_def split: list.split)
  {
    assume act: "p \<in> set (entries (active_note l))"
    obtain l' h' where del: "note_delete p (l, h) = Inr (l', h')" "note_chain h' (loop_notes l') (remove1 p ps)" "heap_ok h'"
      "active_note l' = active_note l" "note_mem h' p = None" "next_note_to_play l' \<in> {None} \<union> Some ` set (remove1 p ps)"
      using note_delete_ok [OF ok(1,2) assms(2)] nxt by blast
    obtain xs qs where qs: "remove1 p ps = xs @ qs" "next_note_to_play l' = first qs"
    proof (cases "next_note_to_play l'")
      case None
      then show ?thesis using that [of "remove1 p ps" "[]"] by simp
    next
      case (Some q)
      then obtain xs ys where "remove1 p ps = xs @ q # ys" using del(6) by (auto dest: split_list)
      then show ?thesis using that [of xs "q # ys"] Some by simp
    qed
    obtain pr lst where "sseg (note_pv h') (note_nx h') pr (next_note_to_play l') qs None lst"
      using chain_tail(1) [of h' "loop_notes l'" xs qs] del(2) qs by metis
    moreover have "length qs < Suc (note_top h')" using chain_length [OF del(2,3)] qs(1) by simp
    ultimately obtain D a where on: "process_note_on (Suc (note_top h')) playing mute (l', h') = Inr (map (on_call h') D,
        l' \<lparr> active_note := a, next_note_to_play := first (dropWhile (\<lambda>q. starts h' q = loop_position l') qs) \<rparr>,
        set_ticks (\<lambda>q. lasts h' q + 1) (set D) h')"
      "length a = length (active_note l')" "mset (entries a) = mset (entries (active_note l') @ D)"
      using process_note_on_ok [of h' pr l' qs lst "Suc (note_top h')" playing mute] chain_tail(2,3) [of h' "loop_notes l'" xs qs] del(2) qs(1)
      by (metis mset_append)
    have "p \<in> set (entries a)" using mset_eq_setD [OF on(3)] act del(4) by auto
    then obtain k where "k < MAX_ACTIVE_NOTES" "a ! k = Some p" using on(2) del(4) ok(3) by (auto simp: entries_slot)
    then have "process_loop playing mute (l', h') = Inl DanglingNote"
      using on(1) del(5) process_note_off_dangles [of k "[0..<MAX_ACTIVE_NOTES]"] by (simp add: process_loop_def)
    then show "\<exists>lh. note_delete p (l, h) = Inr lh \<and> process_loop playing mute lh = Inl DanglingNote" using del(1) by blast
  next
    assume "next_note_to_play l \<noteq> None"
    then obtain q where q: "next_note_to_play l = Some q" "q \<in> set ps" using nxt by auto
    obtain h' where "clear_loop (l, h) = Inr (l \<lparr> loop_notes := None \<rparr>, h')" "note_mem h' = (\<lambda>q. if q \<in> set ps then None else note_mem h q)"
      using clear_loop_ok [OF ok(1,2)] by blast
    moreover from this have "process_loop playing mute (l \<lparr> loop_notes := None \<rparr>, h') = Inl DanglingNote"
      using q by (simp add: process_loop_def note_at_def)
    ultimately show "\<exists>lh. clear_loop (l, h) = Inr lh \<and> process_loop playing mute lh = Inl DanglingNote" by blast
  }
qed

theorem deleted_notes_are_played_witness:
  "\<exists>lh. clear_loop (one_note_loop, one_note_heap) = Inr lh \<and> process_loop True False lh = Inl DanglingNote"
  using deleted_notes_are_played [OF one_note_ok(1), of 0 True False] by (simp add: one_note_loop_def)

end
