(* ===== verification/Controller_Envelope.thy ===== *)
theory Controller_Envelope
  imports Std_Map Midi_Builder
begin

text \<open>
  Controller envelopes (engine_code/controller_envelope.cc): a map from pad times to 14-bit values
  and two iterators that follow playback. An iterator is the key it points to, or \<open>None\<close> for
  the end; \<open>playback_t\<close> is the member \<open>t\<close>, which \<open>process_envelope\<close> never updates because its
  parameter has the same name.

  \<open>env_value\<close> is the curve the control points describe; the lemmas compare it with what
  \<open>process_envelope\<close> sends.
\<close>

section \<open>State and operations\<close>

datatype env_error = DivisionByZero | InvalidRange

record envelope =
  playback_t :: int
  next_c :: "int option"
  previous_c :: "int option"
  control_point :: "(int, int) smap"
  enabled :: bool
  controller_coarse :: int
  controller_fine :: int


definition new_envelope :: "int \<Rightarrow> envelope" where
  "new_envelope t0 = \<lparr> playback_t = t0, next_c = None, previous_c = None, control_point = [],
     enabled = True, controller_coarse = -1, controller_fine = -1 \<rparr>"

definition first_key :: "('k, 'v) smap \<Rightarrow> 'k option" where
  "first_key m = (case m of [] \<Rightarrow> None | p # _ \<Rightarrow> Some (fst p))"

text \<open>\<open>it--\<close>: the key before, where \<open>None\<close> is the end.\<close>

definition prev_key :: "'k :: linorder option \<Rightarrow> ('k, 'v) smap \<Rightarrow> 'k option" where
  "prev_key k m =
     (let below = (case k of None \<Rightarrow> m | Some x \<Rightarrow> takeWhile (\<lambda>p. fst p < x) m)
      in if below = [] then None else Some (fst (last below)))"

definition next_key :: "'k :: linorder \<Rightarrow> ('k, 'v) smap \<Rightarrow> 'k option" where
  "next_key k m = first_key (upper_bound k m)"

definition refresh_playback_data :: "envelope \<Rightarrow> envelope" where
  "refresh_playback_data e =
     (if control_point e = [] then e
      else let n = first_key (lower_bound (playback_t e) (control_point e)) in
        e \<lparr> next_c := n,
            previous_c := (if n = None \<or> n = first_key (control_point e) then n
                           else prev_key n (control_point e)) \<rparr>)"

definition interpolate :: "int \<Rightarrow> int \<Rightarrow> int \<Rightarrow> int \<Rightarrow> int \<Rightarrow> (env_error, int) result" where
  "interpolate px py nx ny t =
     (if nx = px then Inl DivisionByZero else Inr (py + c_div ((ny - py) * (t - px)) (nx - px)))"

definition seek :: "int \<Rightarrow> envelope \<Rightarrow> envelope" where
  "seek t e =
     (let n = first_key (lower_bound t (control_point e)) in
      e \<lparr> next_c := n,
          previous_c := (if n = None \<or> n = first_key (control_point e) then n
                         else prev_key n (control_point e)) \<rparr>)"

definition controller_calls :: "int \<Rightarrow> envelope \<Rightarrow> midi_call list" where
  "controller_calls y e =
     (if 0 \<le> controller_coarse e \<and> controller_coarse e < 128 then
        Ctrl (controller_coarse e) (drop_bit 7 y AND 0x7f) 0 #
          (if controller_fine e \<noteq> -1 then [Ctrl (controller_fine e) (y AND 0x7f) 0] else [])
      else if sc_special_first \<le> controller_coarse e then
        (if controller_coarse e = sc_pitch_bend then [PitchBend (0x7f AND y) (0x7f AND drop_bit 7 y) 0] else [])
      else [])"

definition process_envelope :: "int \<Rightarrow> envelope \<Rightarrow> (env_error, midi_call list \<times> envelope) result" where
  "process_envelope t e0 =
     (if \<not> enabled e0 \<or> control_point e0 = [] then Inr ([], e0)
      else let e = (if next_c e0 = None then seek t e0 else e0) in
        case next_c e of
          None \<Rightarrow> Inr ([], e)
        | Some n \<Rightarrow>
            let ny = the (map_find n (control_point e)) in
            if t < n \<and> next_c e = first_key (control_point e) then Inr ([], e)
            else if n = t then
              Inr (controller_calls ny e, e \<lparr> next_c := next_key n (control_point e) \<rparr>)
            else let p = the (previous_c e) in
              rbind (interpolate p (the (map_find p (control_point e))) n ny t)
                (\<lambda>y. Inr (controller_calls y e, e)))"

definition env_set_to :: "envelope \<Rightarrow> envelope \<Rightarrow> envelope" where
  "env_set_to original e =
     refresh_playback_data (e \<lparr> control_point := control_point original, enabled := enabled original \<rparr>)"

definition set_control_point :: "int \<Rightarrow> int \<Rightarrow> int \<Rightarrow> envelope \<Rightarrow> envelope" where
  "set_control_point line tick y e =
     refresh_playback_data (e \<lparr> control_point := map_set (PAD_TIME line tick) y (control_point e) \<rparr>)"

text \<open>\<open>erase(k1, k2)\<close> where \<open>k1 = lower_bound(first_x)\<close> is not the end; a range whose end lies before
  its start is undefined.\<close>

definition erase_points :: "int \<Rightarrow> int \<Rightarrow> (int, int) smap \<Rightarrow> (env_error, (int, int) smap) result" where
  "erase_points first_x second_x m =
     (let k1 = lower_bound first_x m; k2 = upper_bound second_x m in
      if k1 = [] then Inr m
      else if length k1 < length k2 then Inl InvalidRange
      else Inr (take (length m - length k1) m @ k2))"

definition set_control_point_line ::
  "int \<Rightarrow> int \<Rightarrow> int \<Rightarrow> int \<Rightarrow> int \<Rightarrow> int \<Rightarrow> envelope \<Rightarrow> (env_error, envelope) result" where
  "set_control_point_line first_line first_tick first_y second_line second_tick second_y e =
     (let first_x = PAD_TIME first_line first_tick; second_x = PAD_TIME second_line second_tick in
      rbind (erase_points first_x second_x (control_point e)) (\<lambda>m.
        Inr (refresh_playback_data
          (e \<lparr> control_point := map_set second_x second_y (map_set first_x first_y m) \<rparr>))))"

definition delete_control_point_range ::
  "int \<Rightarrow> int \<Rightarrow> int \<Rightarrow> int \<Rightarrow> envelope \<Rightarrow> (env_error, envelope) result" where
  "delete_control_point_range first_line first_tick second_line second_tick e =
     (let first_x = PAD_TIME first_line first_tick; second_x = PAD_TIME second_line second_tick in
      rbind (erase_points first_x second_x (control_point e)) (\<lambda>m.
        Inr (refresh_playback_data (e \<lparr> control_point := m \<rparr>))))"

definition delete_control_point :: "int \<Rightarrow> int \<Rightarrow> envelope \<Rightarrow> envelope" where
  "delete_control_point line tick e =
     refresh_playback_data (e \<lparr> control_point := map_erase (PAD_TIME line tick) (control_point e) \<rparr>)"

text \<open>The XML element as its attributes and the numbers of its points, \<open>-1\<close> for a missing one.\<close>

record envelope_xml =
  xml_id :: string
  xml_enabled :: string
  xml_coarse :: int
  xml_fine :: int
  xml_points :: "(int \<times> int) list"

definition write_to_xml :: "string \<Rightarrow> envelope \<Rightarrow> envelope_xml" where
  "write_to_xml i e = \<lparr> xml_id = i, xml_enabled = (if enabled e then ''true'' else ''false''),
     xml_coarse = controller_coarse e, xml_fine = controller_fine e, xml_points = control_point e \<rparr>"

definition read_from_xml :: "envelope_xml \<Rightarrow> envelope \<Rightarrow> string \<times> envelope" where
  "read_from_xml x e =
     (xml_id x,
      refresh_playback_data
        (e \<lparr> controller_coarse := xml_coarse x, controller_fine := xml_fine x,
            control_point := fold (\<lambda>(t, y) m. if t = -1 \<or> y = -1 then m else map_set t y m)
              (xml_points x) (control_point e),
            enabled := (xml_enabled x = ''true'') \<rparr>))"

section \<open>The points\<close>

definition env_ok :: "envelope \<Rightarrow> bool" where
  "env_ok e \<longleftrightarrow> map_ok (control_point e)"

lemma refresh_points [simp]: "control_point (refresh_playback_data e) = control_point e"
  by (simp add: refresh_playback_data_def Let_def)

lemma erase_points_ok:
  assumes "map_ok m" "a \<le> b"
  shows "erase_points a b m = Inr (filter (\<lambda>p. fst p < a \<or> b < fst p) m)"
proof -
  let ?Q = "\<lambda>p :: int \<times> int. fst p < a \<or> b < fst p"
  let ?lo = "filter (\<lambda>p. fst p < a) m" and ?k1 = "filter (\<lambda>p. a \<le> fst p) m" and ?k2 = "filter (\<lambda>p. b < fst p) m"
  have m: "?lo @ ?k1 = m" using assms(1) by (rule map_split)
  have k2: "filter ?Q ?k1 = ?k2" using assms(2) by (auto simp: intro: filter_cong)
  have "filter ?Q (?lo @ ?k1) = ?lo @ ?k2" using k2 by (auto intro: filter_cong)
  then have r: "filter ?Q m = ?lo @ ?k2" by (simp only: m)
  have len: "length ?k2 \<le> length ?k1" unfolding k2 [symmetric] by (rule length_filter_le)
  have tk: "take (length m - length ?k1) m = ?lo"
    using m by (metis append_eq_conv_conj diff_add_inverse2 length_append)
  have k1e: "?k2 = []" if "?k1 = []" using that len by simp
  have e: "erase_points a b m = (if ?k1 = [] then Inr m else if length ?k1 < length ?k2 then Inl InvalidRange
      else Inr (take (length m - length ?k1) m @ ?k2))"
    unfolding erase_points_def Let_def lower_bound_filter [OF assms(1)] upper_bound_filter [OF assms(1)] ..
  show ?thesis
  proof (cases "?k1 = []")
    case True
    then have "?lo = m" using m by simp
    then show ?thesis unfolding e if_P [OF True] r k1e [OF True] by simp
  next
    case False
    with len show ?thesis unfolding e if_not_P [OF False] tk r by simp
  qed
qed

lemma line_points:
  assumes "map_ok m" "a \<le> b"
  shows "map_find k (map_set b v (map_set a u (filter (\<lambda>p. fst p < a \<or> b < fst p) m))) =
    (if k = b then Some v else if k = a then Some u else if a \<le> k \<and> k \<le> b then None else map_find k m)"
  using assms by (auto simp: map_find_filter [where P = "\<lambda>x. x < a \<or> b < x"])

section \<open>The curve\<close>

definition env_value :: "(int, int) smap \<Rightarrow> int \<Rightarrow> int option" where
  "env_value cp t =
     (case map_find t cp of
        Some y \<Rightarrow> Some y
      | None \<Rightarrow>
          (case (prev_key (Some t) cp, next_key t cp) of
             (Some p, Some n) \<Rightarrow>
               (case (map_find p cp, map_find n cp) of
                  (Some py, Some ny) \<Rightarrow> Some (py + c_div ((ny - py) * (t - p)) (n - p))
                | _ \<Rightarrow> None)
           | _ \<Rightarrow> None))"

lemma takeWhile_filter: "map_ok m \<Longrightarrow> takeWhile (\<lambda>p. fst p < k) m = filter (\<lambda>p. fst p < k) m"
proof (induction m)
  case (Cons p m)
  then have "\<not> fst p < k \<Longrightarrow> filter (\<lambda>p. fst p < k) m = []" by (auto simp: filter_empty_conv)
  with Cons show ?case by auto
qed simp

lemma prev_key_props:
  assumes "map_ok m" "prev_key (Some t) m = Some p"
  shows "p < t" "\<exists>v. map_find p m = Some v"
proof -
  let ?b = "filter (\<lambda>p. fst p < t) m"
  have "?b \<noteq> []" "p = fst (last ?b)"
    using assms by (auto simp: prev_key_def takeWhile_filter Let_def split: if_splits)
  then have "last ?b \<in> set m" "fst (last ?b) < t" using last_in_set [of ?b] by auto
  with \<open>p = fst (last ?b)\<close> show "p < t" "\<exists>v. map_find p m = Some v"
    using map_find_iff [OF assms(1)] by (metis, metis prod.collapse)
qed

lemma first_key_props:
  assumes "map_ok m" "first_key (filter (\<lambda>p. P (fst p)) m) = Some n"
  shows "P n" "\<exists>v. map_find n m = Some v" "\<And>k v. (k, v) \<in> set m \<Longrightarrow> P k \<Longrightarrow> n \<le> k"
proof -
  obtain q qs where q: "filter (\<lambda>p. P (fst p)) m = q # qs" "n = fst q"
    using assms(2) by (auto simp: first_key_def split: list.splits)
  have "q \<in> set (filter (\<lambda>p. P (fst p)) m)" unfolding q(1) by simp
  then have "q \<in> set m" "P (fst q)" by simp_all
  then show "P n" "\<exists>v. map_find n m = Some v"
    using q(2) map_find_iff [OF assms(1)] by (simp, metis prod.collapse)
  have "map_ok (q # qs)" using q(1) assms(1) by (metis map_ok_filter)
  then show "n \<le> k" if "(k, v) \<in> set m" "P k" for k v
  proof -
    have "(k, v) \<in> set (q # qs)" using that q(1) [symmetric] by simp
    with \<open>map_ok (q # qs)\<close> q(2) show ?thesis by auto
  qed
qed

text \<open>The point at or after a time: where it is not the time itself, it is also the next point, and the
  points before it are those before the time.\<close>

lemma lower_bound_later:
  assumes "map_ok m" "first_key (lower_bound t m) = Some n" "n \<noteq> t"
  shows "t < n" "map_find t m = None" "next_key t m = Some n" "prev_key (Some n) m = prev_key (Some t) m"
proof -
  have f: "first_key (filter (\<lambda>p. t \<le> fst p) m) = Some n"
    using assms by (simp add: lower_bound_filter)
  note n = first_key_props [OF assms(1) f]
  show "t < n" using n(1) assms(3) by simp
  have gap: "\<not> t \<le> k \<or> n \<le> k" if "(k, v) \<in> set m" for k v using n(3) [OF that] by auto
  show none: "map_find t m = None"
  proof (rule ccontr)
    assume "map_find t m \<noteq> None"
    then obtain v where "(t, v) \<in> set m" using map_find_iff [OF assms(1)] by auto
    with gap [of t v] \<open>t < n\<close> show False by simp
  qed
  have "filter (\<lambda>p. t < fst p) m = filter (\<lambda>p. t \<le> fst p) m"
  proof (rule filter_cong [OF refl])
    fix p assume "p \<in> set m"
    then have "fst p \<noteq> t" using none map_find_iff [OF assms(1), of t "snd p"] by (metis option.distinct(1) prod.collapse)
    then show "(t < fst p) = (t \<le> fst p)" by auto
  qed
  with f show "next_key t m = Some n" using assms(1) by (simp add: next_key_def upper_bound_filter)
  have "filter (\<lambda>p. fst p < n) m = filter (\<lambda>p. fst p < t) m"
  proof (rule filter_cong [OF refl])
    fix p assume "p \<in> set m"
    with gap [of "fst p" "snd p"] \<open>t < n\<close> show "(fst p < n) = (fst p < t)" by auto
  qed
  then show "prev_key (Some n) m = prev_key (Some t) m"
    by (simp add: prev_key_def takeWhile_filter assms(1))
qed

lemma filter_le_snoc:
  fixes k :: int
  assumes "map_ok m" "map_find k m = Some v"
  shows "filter (\<lambda>p. fst p \<le> k) m = filter (\<lambda>p. fst p < k) m @ [(k, v)]"
  using assms
proof (induction m)
  case (Cons p m)
  show ?case
  proof (cases "fst p = k")
    case True
    then have "filter (\<lambda>p. fst p \<le> k) m = []" "filter (\<lambda>p. fst p < k) m = []"
      using Cons.prems by (force simp: filter_empty_conv)+
    with True Cons.prems show ?thesis by (cases p) auto
  next
    case False
    with Cons show ?thesis by (cases p) (auto split: if_splits)
  qed
qed simp

lemma process_at_end:
  assumes "map_ok (control_point e)" "enabled e" "next_c e = None"
  shows "\<exists>e'. process_envelope t e =
    Inr ((case env_value (control_point e) t of None \<Rightarrow> [] | Some y \<Rightarrow> controller_calls y e), e')"
proof (cases "control_point e = []")
  case True
  then show ?thesis by (simp add: process_envelope_def env_value_def prev_key_def next_key_def upper_bound_def first_key_def)
next
  case False
  let ?m = "control_point e"
  let ?n = "first_key (lower_bound t ?m)"
  have calls: "controller_calls y (e \<lparr> next_c := a, previous_c := b \<rparr>) = controller_calls y e" for y a b
    by (simp add: controller_calls_def)
  show ?thesis
  proof (cases ?n)
    case None
    then have "filter (\<lambda>p. t \<le> fst p) ?m = []"
      using assms(1) by (auto simp: first_key_def lower_bound_filter split: list.splits)
    then have all: "\<forall>p \<in> set ?m. fst p < t" by (auto simp: filter_empty_conv)
    then have "filter (\<lambda>p. t < fst p) ?m = []" by (auto simp: filter_empty_conv dest: less_asym)
    then have "next_key t ?m = None" using assms(1) by (simp add: next_key_def upper_bound_filter first_key_def)
    then have "env_value ?m t = None"
      using all by (simp add: env_value_def map_find_above split: option.split)
    with None False assms show ?thesis by (simp add: process_envelope_def seek_def Let_def)
  next
    case (Some n)
    obtain ny where ny: "map_find n ?m = Some ny"
      using first_key_props(2) [OF assms(1), of "\<lambda>k. t \<le> k" n] Some assms(1) by (auto simp: lower_bound_filter)
    show ?thesis
    proof (cases "n = t")
      case True
      with Some ny False assms calls show ?thesis
        by (simp add: process_envelope_def seek_def Let_def env_value_def)
    next
      case neq: False
      note l = lower_bound_later [OF assms(1) Some neq]
      show ?thesis
      proof (cases "Some n = first_key ?m")
        case True
        then have "\<forall>p \<in> set ?m. n \<le> fst p"
          using assms(1) by (cases ?m) (auto simp: first_key_def)
        then have "prev_key (Some t) ?m = None"
          using l(1) by (cases ?m) (auto simp: prev_key_def)
        with True [symmetric] l Some False assms show ?thesis
          by (simp add: process_envelope_def seek_def Let_def env_value_def)
      next
        case nf: False
        obtain h m' where hm: "?m = h # m'" using False by (cases ?m) auto
        have "(n, ny) \<in> set ?m" using ny map_find_iff [OF assms(1)] by simp
        then have "fst h < n" using hm nf assms(1) by (auto simp: first_key_def)
        then obtain p where p: "prev_key (Some n) ?m = Some p" using hm by (auto simp: prev_key_def)
        have pt: "prev_key (Some t) ?m = Some p" using p l(4) by simp
        obtain py where py: "map_find p ?m = Some py" using prev_key_props(2) [OF assms(1) p] by blast
        have "p < t" using prev_key_props(1) [OF assms(1) pt] .
        then show ?thesis
          using Some False assms calls l(1-3) nf p pt py ny neq
          by (simp add: process_envelope_def seek_def Let_def env_value_def interpolate_def)
      qed
    qed
  qed
qed

section \<open>Properties\<close>

text \<open>When the playback iterator is at the end, as after the last point of a loop, processing any
  time sends exactly the value of the curve at that time: the point there, or the truncated
  linear interpolation between its neighbours, and nothing outside the points.\<close>

theorem envelope_seek_correct:
  assumes "map_ok (control_point e)" "enabled e" "next_c e = None"
  shows "\<exists>e'. process_envelope t e =
    Inr ((case env_value (control_point e) t of None \<Rightarrow> [] | Some y \<Rightarrow> controller_calls y e), e')"
  using assms by (rule process_at_end)

definition three_points :: envelope where
  "three_points = \<lparr> playback_t = 0, next_c = None, previous_c = None,
     control_point = [(0, 0), (10, 100), (20, 0)], enabled = True, controller_coarse = 7, controller_fine = 39 \<rparr>"

theorem envelope_seek_witness:
  "\<exists>e'. process_envelope 15 three_points = Inr ([Ctrl 7 0 0, Ctrl 39 50 0], e')"
proof -
  have v: "env_value (control_point three_points) 15 = Some 50"
    by (simp add: three_points_def env_value_def prev_key_def next_key_def upper_bound_def first_key_def c_div_def)
  from envelope_seek_correct [of three_points 15] show ?thesis
    by (simp add: v) (simp add: three_points_def controller_calls_def)
qed

text \<open>When playback passes a point exactly, the next times are interpolated from the point before
  it: the value sent lies on the line from \<open>p0\<close> to \<open>p2\<close> and ignores the point \<open>p1\<close> in between,
  where the curve has the line from \<open>p1\<close> to \<open>p2\<close>.\<close>

theorem envelope_skips_passed_point:
  assumes "map_ok (control_point e)" "enabled e" "next_c e = Some p1" "previous_c e = Some p0" "p0 < p1"
    "map_find p0 (control_point e) = Some y0" "map_find p1 (control_point e) = Some y1"
    "next_key p1 (control_point e) = Some p2" "map_find p2 (control_point e) = Some y2"
    "p1 < t" "t < p2"
  shows "\<exists>e'. process_envelope p1 e = Inr (controller_calls y1 e, e') \<and>
    process_envelope t e' = Inr (controller_calls (y0 + c_div ((y2 - y0) * (t - p0)) (p2 - p0)) e, e') \<and>
    env_value (control_point e) t = Some (y1 + c_div ((y2 - y1) * (t - p1)) (p2 - p1))"
proof -
  let ?m = "control_point e" and ?e = "e \<lparr> next_c := Some p2 \<rparr>"
  have ne: "?m \<noteq> []" using assms(6) by auto
  have calls: "controller_calls y ?e = controller_calls y e" for y by (simp add: controller_calls_def)
  have first: "first_key ?m \<noteq> Some p2"
  proof
    assume "first_key ?m = Some p2"
    then have "\<forall>p \<in> set ?m. p2 \<le> fst p" using assms(1) by (cases ?m) (auto simp: first_key_def)
    with assms(1,5,6,10,11) map_find_iff [OF assms(1), of p0 y0] show False by force
  qed
  have "process_envelope p1 e = Inr (controller_calls y1 e, ?e)"
    using assms ne by (simp add: process_envelope_def Let_def)
  moreover have "process_envelope t ?e = Inr (controller_calls (y0 + c_div ((y2 - y0) * (t - p0)) (p2 - p0)) e, ?e)"
    using assms ne first calls by (auto simp: process_envelope_def Let_def interpolate_def)
  moreover have "env_value ?m t = Some (y1 + c_div ((y2 - y1) * (t - p1)) (p2 - p1))"
  proof -
    have f: "first_key (filter (\<lambda>p. p1 < fst p) ?m) = Some p2"
      using assms(1,8) by (simp add: next_key_def upper_bound_filter)
    have gap: "k \<le> p1 \<or> p2 \<le> k" if "(k, v) \<in> set ?m" for k v
      using first_key_props(3) [OF assms(1) f that] by (cases "p1 < k") auto
    have "filter (\<lambda>p. t \<le> fst p) ?m = filter (\<lambda>p. p1 < fst p) ?m"
      by (rule filter_cong [OF refl]) (use gap assms(10,11) in \<open>fastforce\<close>)
    then have lb: "first_key (lower_bound t ?m) = Some p2"
      using f assms(1) by (simp add: lower_bound_filter)
    have "p2 \<noteq> t" using assms(11) by simp
    note l = lower_bound_later [OF assms(1) lb this]
    have "filter (\<lambda>p. fst p < t) ?m = filter (\<lambda>p. fst p \<le> p1) ?m"
      by (rule filter_cong [OF refl]) (use gap assms(10,11) in \<open>fastforce\<close>)
    moreover have "filter (\<lambda>p. fst p \<le> p1) ?m = filter (\<lambda>p. fst p < p1) ?m @ [(p1, y1)]"
      by (rule filter_le_snoc [OF assms(1,7)])
    ultimately have "prev_key (Some t) ?m = Some p1"
      by (simp add: prev_key_def takeWhile_filter assms(1))
    with l assms show ?thesis by (simp add: env_value_def)
  qed
  ultimately show ?thesis by blast
qed

theorem envelope_skips_witness:
  "let e = three_points \<lparr> next_c := Some 10, previous_c := Some 0 \<rparr> in
   \<exists>e'. process_envelope 10 e = Inr ([Ctrl 7 0 0, Ctrl 39 100 0], e') \<and>
     process_envelope 15 e' = Inr ([Ctrl 7 0 0, Ctrl 39 0 0], e') \<and> env_value (control_point e) 15 = Some 50"
  using envelope_skips_passed_point [of "three_points \<lparr> next_c := Some 10, previous_c := Some 0 \<rparr>" 10 0 0 100 20 0 15]
  by (simp add: three_points_def next_key_def upper_bound_def first_key_def c_div_def controller_calls_def)

text \<open>C36: drawing a line replaces every point from its first to its second end by the two ends and
  leaves all other points alone.\<close>

theorem envelope_line_correct:
  assumes "map_ok (control_point e)" "PAD_TIME l1 t1 \<le> PAD_TIME l2 t2"
  shows "\<exists>e'. set_control_point_line l1 t1 y1 l2 t2 y2 e = Inr e' \<and> map_ok (control_point e') \<and>
    (\<forall>k. map_find k (control_point e') =
      (if k = PAD_TIME l2 t2 then Some y2 else if k = PAD_TIME l1 t1 then Some y1
       else if PAD_TIME l1 t1 \<le> k \<and> k \<le> PAD_TIME l2 t2 then None else map_find k (control_point e)))"
  using assms line_points [OF assms]
  by (simp add: set_control_point_line_def Let_def erase_points_ok)

theorem envelope_line_witness:
  "\<exists>e'. set_control_point_line 0 5 1 1 0 2 three_points = Inr e' \<and>
     map_find 10 (control_point e') = None \<and> map_find 16 (control_point e') = Some 2 \<and> map_find 20 (control_point e') = Some 0"
proof -
  have pt: "PAD_TIME 0 5 = 5" "PAD_TIME 1 0 = 16" by (simp_all add: pad_time_arith)
  have "map_find 20 (control_point three_points) = Some 0" "map_ok (control_point three_points)"
    by (simp_all add: three_points_def)
  with envelope_line_correct [of three_points 0 5 1 0 1 2] show ?thesis unfolding pt by auto
qed

end
