(* ===== verification/Transport.thy ===== *)
theory Transport
  imports VK_Prelude
begin

text \<open>
  The transport of class Machine (machine.cc, machine.hh): tempo, shuffle, the loop, play and
  stop, and the clock that counts samples into ticks, ticks into lines and lines into the sequence
  position, once per buffer and for every signal dimension.

  The counters are \<open>int\<close>s far from their limits for every tempo the setters accept. The while loop of
  \<open>calculate_next_tick_at_and_sequence_position\<close> need not end, so it is a partial function, and not
  returning is \<open>None\<close>. The two tables the signals keep per dimension, \<open>def_samples\<close> and
  \<open>def_frequency\<close>, are arguments. What \<open>trigger_periodic_functions\<close> hands to the callbacks is kept as the list of positions.
\<close>

section \<open>State\<close>

definition SHUFFLE_FACTOR_DIVISOR :: int where "SHUFFLE_FACTOR_DIVISOR = 100"

text \<open>The dimensions \<open>_0D\<close>, \<open>_1D\<close>, \<open>_2D\<close>, \<open>_MIDI\<close> and their number \<open>_MAX_D\<close>.\<close>

definition MIDI_D :: nat where "MIDI_D = 3"
definition MAX_D :: nat where "MAX_D = 4"

record transport =
  shuffle_factor :: int
  tr_loop_start :: int
  tr_loop_stop :: int
  do_loop :: bool
  current_tick :: int
  next_sequence_position :: int
  resume_sequence_position :: int
  next_tick_at :: "int list"
  samples_per_tick :: "int list"
  samples_per_tick_shuffle :: "int list"
  tr_bpm :: int
  tr_lpb :: int
  is_playing :: bool
  is_recording :: bool
  periodic_calls :: "int list"

definition initial_transport :: transport where
  "initial_transport = \<lparr> shuffle_factor = 0, tr_loop_start = 0, tr_loop_stop = 64, do_loop = True, current_tick = 0,
     next_sequence_position = 0, resume_sequence_position = 0, next_tick_at = [0, 0, 0, 0],
     samples_per_tick = [0, 0, 0, 0], samples_per_tick_shuffle = [0, 0, 0, 0], tr_bpm = 120, tr_lpb = 4,
     is_playing = False, is_recording = False, periodic_calls = [] \<rparr>"

record signal_defaults =
  def_samples :: "int list"
  def_frequency :: "int list"

section \<open>Setters\<close>

datatype transport_error = ParameterOutOfSpec

definition set_shuffle_factor :: "int \<Rightarrow> transport \<Rightarrow> transport" where
  "set_shuffle_factor nf t = t \<lparr> shuffle_factor := nf \<rparr>"

definition set_loop_state :: "bool \<Rightarrow> transport \<Rightarrow> transport" where
  "set_loop_state b t = t \<lparr> do_loop := b \<rparr>"

definition set_loop_start :: "int \<Rightarrow> transport \<Rightarrow> (transport_error, transport) result" where
  "set_loop_start line t = (if line < 0 then Inl ParameterOutOfSpec else Inr (t \<lparr> tr_loop_start := line \<rparr>))"

definition set_loop_length :: "int \<Rightarrow> transport \<Rightarrow> (transport_error, transport) result" where
  "set_loop_length len t =
     (if len < 4 then Inl ParameterOutOfSpec else Inr (t \<lparr> tr_loop_stop := tr_loop_start t + len \<rparr>))"

definition set_bpm :: "int \<Rightarrow> transport \<Rightarrow> (transport_error, transport) result" where
  "set_bpm bpm t = (if bpm < 20 \<or> bpm > 200 then Inl ParameterOutOfSpec else Inr (t \<lparr> tr_bpm := bpm \<rparr>))"

definition set_lpb :: "int \<Rightarrow> transport \<Rightarrow> (transport_error, transport) result" where
  "set_lpb lpb t = (if lpb < 2 \<or> lpb > 24 then Inl ParameterOutOfSpec else Inr (t \<lparr> tr_lpb := lpb \<rparr>))"

definition get_loop_length :: "transport \<Rightarrow> int" where
  "get_loop_length t = tr_loop_stop t - tr_loop_start t"

definition set_record_state :: "bool \<Rightarrow> transport \<Rightarrow> transport" where
  "set_record_state b t = t \<lparr> is_recording := b \<rparr>"

section \<open>Playback control\<close>

definition reset_global_playback_parameters :: "int \<Rightarrow> transport \<Rightarrow> transport" where
  "reset_global_playback_parameters playback_position t =
     t \<lparr> next_sequence_position := playback_position, current_tick := 0, next_tick_at := replicate MAX_D 0 \<rparr>"

definition jump_to :: "int \<Rightarrow> transport \<Rightarrow> transport" where
  "jump_to pos t =
     (let position = (if do_loop t then (if pos < tr_loop_start t then tr_loop_start t
                        else if pos > tr_loop_stop t then tr_loop_start t else pos) else pos)
      in t \<lparr> current_tick := 0, next_sequence_position := position \<rparr>)"

definition rewind :: "transport \<Rightarrow> transport" where
  "rewind t =
     (let t1 = reset_global_playback_parameters (if do_loop t then tr_loop_start t else 0) t
      in t1 \<lparr> resume_sequence_position := next_sequence_position t1 \<rparr>)"

definition play :: "transport \<Rightarrow> transport" where
  "play t = reset_global_playback_parameters (resume_sequence_position t) (t \<lparr> is_playing := True \<rparr>)"

definition stop :: "transport \<Rightarrow> transport" where
  "stop t = t \<lparr> resume_sequence_position := next_sequence_position t, is_playing := False \<rparr>"

section \<open>The clock\<close>

definition tick_samples :: "transport \<Rightarrow> int \<Rightarrow> int" where
  "tick_samples t frequency = c_div (frequency * 60) (tr_bpm t * tr_lpb t * MACHINE_TICKS_PER_LINE)"

definition shuffle_samples :: "transport \<Rightarrow> int \<Rightarrow> int" where
  "shuffle_samples t spt = c_div (shuffle_factor t * 3 * drop_bit 3 spt) SHUFFLE_FACTOR_DIVISOR"

definition calculate_samples_per_tick :: "signal_defaults \<Rightarrow> transport \<Rightarrow> transport" where
  "calculate_samples_per_tick defs t =
     fold (\<lambda>d t1.
       let spt = tick_samples t1 (def_frequency defs ! d) in
       t1 \<lparr> samples_per_tick := (samples_per_tick t1)[d := spt],
            samples_per_tick_shuffle := (samples_per_tick_shuffle t1)[d := shuffle_samples t1 spt] \<rparr>)
     [0..<MAX_D] t"

definition trigger_periodic_functions :: "transport \<Rightarrow> transport" where
  "trigger_periodic_functions t = t \<lparr> periodic_calls := periodic_calls t @ [next_sequence_position t] \<rparr>"

definition is_even_line :: "transport \<Rightarrow> bool" where
  "is_even_line t \<longleftrightarrow> next_sequence_position t mod 2 = 0"

definition midi_tick :: "transport \<Rightarrow> bool \<Rightarrow> transport \<times> bool" where
  "midi_tick t even_line =
     (let t1 = (if is_playing t \<and> current_tick t = 0 then trigger_periodic_functions t else t);
          t2 = t1 \<lparr> current_tick := (current_tick t1 + 1) mod MACHINE_TICKS_PER_LINE \<rparr>
      in if current_tick t2 = 0
         then let p = next_sequence_position t2 + 1;
                  t3 = t2 \<lparr> next_sequence_position := (if do_loop t2 \<and> p \<ge> tr_loop_stop t2 then tr_loop_start t2 else p) \<rparr>
              in (t3, is_even_line t3)
         else (t2, even_line))"

definition tick_step :: "bool \<Rightarrow> int \<Rightarrow> int \<Rightarrow> int \<times> transport \<times> bool \<Rightarrow> int \<times> transport \<times> bool" where
  "tick_step midi spt sptf st =
     (case st of (nta, t, even_line) \<Rightarrow>
        let (t', e') = (if midi then midi_tick t even_line else (t, even_line))
        in (nta + (if e' then spt - sptf else spt + sptf), t', e'))"

partial_function (option) tick_loop ::
  "bool \<Rightarrow> int \<Rightarrow> int \<Rightarrow> int \<Rightarrow> int \<times> transport \<times> bool \<Rightarrow> (int \<times> transport \<times> bool) option" where
  "tick_loop midi spt sptf samples st =
     (if fst st < samples then tick_loop midi spt sptf samples (tick_step midi spt sptf st) else Some st)"

definition advance_dimension :: "signal_defaults \<Rightarrow> nat \<Rightarrow> transport \<Rightarrow> transport option" where
  "advance_dimension defs d t =
     (let samples = def_samples defs ! d in
      Option.bind
        (tick_loop (d = MIDI_D) (samples_per_tick t ! d) (samples_per_tick_shuffle t ! d) samples
          (next_tick_at t ! d, t, is_even_line t))
        (\<lambda>(nta, t', _). Some (t' \<lparr> next_tick_at := (next_tick_at t')[d := nta - samples] \<rparr>)))"

definition calculate_next_tick_at_and_sequence_position :: "signal_defaults \<Rightarrow> transport \<Rightarrow> transport option" where
  "calculate_next_tick_at_and_sequence_position defs t =
     fold (\<lambda>d acc. Option.bind acc (advance_dimension defs d)) [0..<MAX_D] (Some t)"

text \<open>The part of \<open>internal_fill_sink\<close> that moves the clock, once per buffer.\<close>

definition clock_buffer :: "signal_defaults \<Rightarrow> transport \<Rightarrow> transport option" where
  "clock_buffer defs t = calculate_next_tick_at_and_sequence_position defs (calculate_samples_per_tick defs t)"

section \<open>The loop of one dimension\<close>

text \<open>With steps that move on, the loop ends, at or after the end of the buffer and less than one
  step behind it.\<close>

lemma tick_step_fst: "fst (tick_step midi spt sptf st) = fst st + spt - sptf \<or> fst (tick_step midi spt sptf st) = fst st + spt + sptf"
  by (auto simp: tick_step_def Let_def split: prod.split)

lemma tick_loop_ends:
  assumes "\<bar>sptf\<bar> < spt"
  shows "\<exists>st'. tick_loop midi spt sptf samples st = Some st' \<and> samples \<le> fst st' \<and> fst st \<le> fst st' \<and>
    fst st' < max (fst st + 1) (samples + spt + \<bar>sptf\<bar>)"
proof (induction "nat (samples - fst st)" arbitrary: st rule: less_induct)
  case less
  show ?case
  proof (cases "fst st < samples")
    case False
    then show ?thesis by (subst tick_loop.simps) auto
  next
    case True
    let ?s = "tick_step midi spt sptf st"
    have b: "fst st < fst ?s" "fst ?s \<le> fst st + spt + \<bar>sptf\<bar>"
      using tick_step_fst [of midi spt sptf st] assms by auto
    then have "nat (samples - fst ?s) < nat (samples - fst st)" using True by auto
    from less [OF this] b True assms show ?thesis
      by (subst tick_loop.simps) (auto simp: max_def split: if_splits)
  qed
qed

lemmas tick_loop_induct = tick_loop.raw_induct [rotated 1, consumes 1, case_names step]

lemma tick_loop_inv:
  assumes "tick_loop midi spt sptf samples st = Some st'" "I st" "\<And>st. I st \<Longrightarrow> I (tick_step midi spt sptf st)"
  shows "I st'"
  using assms
proof (induction rule: tick_loop_induct)
  case (step f mi sp sf sa s r)
  then show ?case by (auto split: if_splits)
qed

lemma tick_loop_state_inv:
  assumes "tick_loop midi spt sptf samples (nta, t, e) = Some (n, t', e')" "J t e"
    "\<And>t e t' e'. J t e \<Longrightarrow> midi_tick t e = (t', e') \<Longrightarrow> J t' e'"
  shows "J t' e'"
  using tick_loop_inv [OF assms(1), of "\<lambda>(n, t, e). J t e"] assms(2,3)
  by (auto simp: tick_step_def Let_def split: prod.splits if_splits)

text \<open>With steps that do not move on it never ends.\<close>

lemma tick_loop_stuck:
  assumes "fst st < samples" "spt \<le> - \<bar>sptf\<bar>"
  shows "tick_loop midi spt sptf samples st = None"
proof (rule ccontr)
  assume "tick_loop midi spt sptf samples st \<noteq> None"
  then obtain r where "tick_loop midi spt sptf samples st = Some r" by auto
  then have "\<not> (fst st < samples \<and> spt \<le> - \<bar>sptf\<bar>)"
  proof (induction rule: tick_loop_induct)
    case (step f mi sp sf sa s r)
    show ?case
    proof
      assume a: "fst s < sa \<and> sp \<le> - \<bar>sf\<bar>"
      then have "fst (tick_step mi sp sf s) < sa" using tick_step_fst [of mi sp sf s] by auto
      with step a show False by auto
    qed
  qed
  with assms show False by simp
qed

text \<open>A buffer in two parts: the loop over the first part, then over the second, is the loop over
  both.\<close>

lemma tick_step_shift:
  "tick_step midi spt sptf (nta - a, te) = (let (n, te') = tick_step midi spt sptf (nta, te) in (n - a, te'))"
  by (simp add: tick_step_def Let_def split: prod.split)

lemma tick_loop_shift:
  assumes "\<bar>sptf\<bar> < spt"
  shows "tick_loop midi spt sptf b (nta - a, te) = map_option (\<lambda>(n, te'). (n - a, te')) (tick_loop midi spt sptf (a + b) (nta, te))"
proof (induction "nat (a + b - nta)" arbitrary: nta te rule: less_induct)
  case less
  show ?case
  proof (cases "nta < a + b")
    case False
    then show ?thesis by (subst (1 2) tick_loop.simps) simp
  next
    case True
    obtain n te' where n: "tick_step midi spt sptf (nta, te) = (n, te')" by (metis surj_pair)
    then have "nta < n" using tick_step_fst [of midi spt sptf "(nta, te)"] assms by auto
    then have "nat (a + b - n) < nat (a + b - nta)" using True by auto
    from less [OF this, of te'] True n show ?thesis
      by (subst (1 2) tick_loop.simps) (simp add: tick_step_shift Let_def)
  qed
qed

lemma tick_loop_split:
  assumes "\<bar>sptf\<bar> < spt" "0 \<le> b"
  shows "tick_loop midi spt sptf (a + b) st = Option.bind (tick_loop midi spt sptf a st) (tick_loop midi spt sptf (a + b))"
proof (induction "nat (a - fst st)" arbitrary: st rule: less_induct)
  case less
  show ?case
  proof (cases "fst st < a")
    case False
    then have "tick_loop midi spt sptf a st = Some st" by (subst tick_loop.simps) simp
    then show ?thesis by simp
  next
    case True
    then have "nat (a - fst (tick_step midi spt sptf st)) < nat (a - fst st)"
      using tick_step_fst [of midi spt sptf st] assms(1) by auto
    from less [OF this] True assms(2) show ?thesis by (subst (1 2) tick_loop.simps) simp
  qed
qed

text \<open>In the MIDI dimension the parity of the line always matches the position.\<close>

lemma midi_tick_even: "midi_tick t (is_even_line t) = (t', e) \<Longrightarrow> e = is_even_line t'"
  by (auto simp: midi_tick_def Let_def is_even_line_def trigger_periodic_functions_def split: if_splits)

lemma tick_loop_even:
  assumes "tick_loop midi spt sptf samples (nta, t, is_even_line t) = Some (n, t', e)"
  shows "e = is_even_line t'"
  by (rule tick_loop_state_inv [OF assms, of "\<lambda>t e. e = is_even_line t"]) (auto dest: midi_tick_even)

lemma midi_tick_fst:
  "fst (midi_tick t e) = t \<lparr>
     periodic_calls := (if is_playing t \<and> current_tick t = 0 then periodic_calls t @ [next_sequence_position t] else periodic_calls t),
     current_tick := (current_tick t + 1) mod MACHINE_TICKS_PER_LINE,
     next_sequence_position :=
       (if (current_tick t + 1) mod MACHINE_TICKS_PER_LINE \<noteq> 0 then next_sequence_position t
        else if do_loop t \<and> next_sequence_position t + 1 \<ge> tr_loop_stop t then tr_loop_start t
        else next_sequence_position t + 1) \<rparr>"
  by (cases "is_playing t"; cases "current_tick t = 0"; cases "(current_tick t + 1) mod MACHINE_TICKS_PER_LINE = 0")
    (simp_all add: midi_tick_def Let_def trigger_periodic_functions_def)

lemma midi_tick_frame:
  "samples_per_tick (fst (midi_tick t e)) = samples_per_tick t"
  "samples_per_tick_shuffle (fst (midi_tick t e)) = samples_per_tick_shuffle t"
  "next_tick_at (fst (midi_tick t e)) = next_tick_at t"
  "shuffle_factor (fst (midi_tick t e)) = shuffle_factor t" "tr_bpm (fst (midi_tick t e)) = tr_bpm t"
  "tr_lpb (fst (midi_tick t e)) = tr_lpb t" "tr_loop_start (fst (midi_tick t e)) = tr_loop_start t"
  "tr_loop_stop (fst (midi_tick t e)) = tr_loop_stop t" "do_loop (fst (midi_tick t e)) = do_loop t"
  by (simp_all add: midi_tick_fst)

text \<open>What the loop leaves alone.\<close>

definition same_settings :: "transport \<Rightarrow> transport \<Rightarrow> bool" where
  "same_settings t t' \<longleftrightarrow> samples_per_tick t' = samples_per_tick t \<and> samples_per_tick_shuffle t' = samples_per_tick_shuffle t \<and>
     shuffle_factor t' = shuffle_factor t \<and> tr_bpm t' = tr_bpm t \<and> tr_lpb t' = tr_lpb t \<and>
     tr_loop_start t' = tr_loop_start t \<and> tr_loop_stop t' = tr_loop_stop t \<and> do_loop t' = do_loop t"

lemma midi_tick_same: "midi_tick t e = (t', e') \<Longrightarrow> same_settings t t' \<and> next_tick_at t' = next_tick_at t"
  using midi_tick_frame [of t e] by (simp add: same_settings_def)

lemma tick_loop_frame:
  assumes "tick_loop midi spt sptf samples (nta, t, e) = Some (n, t', e')"
  shows "same_settings t t' \<and> next_tick_at t' = next_tick_at t"
proof (rule tick_loop_state_inv [OF assms, of "\<lambda>t' e. same_settings t t' \<and> next_tick_at t' = next_tick_at t"])
  fix t1 e1 t2 e2
  assume "same_settings t t1 \<and> next_tick_at t1 = next_tick_at t" "midi_tick t1 e1 = (t2, e2)"
  then show "same_settings t t2 \<and> next_tick_at t2 = next_tick_at t"
    using midi_tick_same [of t1 e1 t2 e2] by (simp add: same_settings_def)
qed (simp add: same_settings_def)

lemma midi_tick_next_tick_at:
  "midi_tick (t \<lparr> next_tick_at := v \<rparr>) e = (let (t', e') = midi_tick t e in (t' \<lparr> next_tick_at := v \<rparr>, e'))"
  by (cases "is_playing t"; cases "current_tick t = 0"; cases "(current_tick t + 1) mod MACHINE_TICKS_PER_LINE = 0")
    (simp_all add: midi_tick_def Let_def trigger_periodic_functions_def is_even_line_def)

lemma tick_step_next_tick_at:
  "tick_step midi spt sptf (nta, t \<lparr> next_tick_at := v \<rparr>, e) =
     (let (n, t', e') = tick_step midi spt sptf (nta, t, e) in (n, t' \<lparr> next_tick_at := v \<rparr>, e'))"
  by (cases midi) (simp_all add: tick_step_def midi_tick_next_tick_at Let_def split: prod.split)

lemma tick_loop_next_tick_at:
  assumes "\<bar>sptf\<bar> < spt"
  shows "tick_loop midi spt sptf samples (nta, t \<lparr> next_tick_at := v \<rparr>, e) =
    map_option (\<lambda>(n, t', e'). (n, t' \<lparr> next_tick_at := v \<rparr>, e')) (tick_loop midi spt sptf samples (nta, t, e))"
proof (induction "nat (samples - nta)" arbitrary: nta t e rule: less_induct)
  case less
  show ?case
  proof (cases "nta < samples")
    case False
    then show ?thesis by (subst (1 2) tick_loop.simps) simp
  next
    case True
    obtain n t' e' where n: "tick_step midi spt sptf (nta, t, e) = (n, t', e')" by (metis surj_pair)
    then have "nta < n" using tick_step_fst [of midi spt sptf "(nta, t, e)"] assms by auto
    then have "nat (samples - n) < nat (samples - nta)" using True by auto
    from less [OF this, of t' e'] True n show ?thesis
      by (subst (1 2) tick_loop.simps) (simp add: tick_step_next_tick_at Let_def)
  qed
qed

section \<open>Tempo\<close>

definition tempo_ok :: "transport \<Rightarrow> bool" where
  "tempo_ok t \<longleftrightarrow> 20 \<le> tr_bpm t \<and> tr_bpm t \<le> 200 \<and> 2 \<le> tr_lpb t \<and> tr_lpb t \<le> 24 \<and>
     0 \<le> shuffle_factor t \<and> shuffle_factor t \<le> SHUFFLE_FACTOR_DIVISOR"

lemma tick_samples_pos:
  assumes "tempo_ok t" "1280 \<le> f"
  shows "0 < tick_samples t f"
proof -
  have "tr_bpm t * tr_lpb t \<le> 200 * 24"
    using assms(1) by (intro mult_mono) (auto simp: tempo_ok_def)
  moreover have "0 < tr_bpm t * tr_lpb t"
    using assms(1) by (intro mult_pos_pos) (auto simp: tempo_ok_def)
  ultimately have "tr_bpm t * tr_lpb t \<le> 4800" "0 < tr_bpm t * tr_lpb t" by auto
  then show ?thesis
    using assms(2) by (simp add: tick_samples_def MACHINE_TICKS_PER_LINE_def c_div_nonneg pos_imp_zdiv_pos_iff)
qed

lemma shuffle_samples_less:
  assumes "tempo_ok t" "0 < spt"
  shows "0 \<le> shuffle_samples t spt \<and> shuffle_samples t spt < spt"
proof -
  let ?e = "spt div 8"
  have e: "0 \<le> ?e" "8 * ?e \<le> spt" using assms(2) by auto
  have "shuffle_factor t * 3 * ?e \<le> 100 * 3 * ?e" "0 \<le> shuffle_factor t * 3 * ?e"
    using assms(1) e by (auto simp: tempo_ok_def SHUFFLE_FACTOR_DIVISOR_def intro!: mult_right_mono)
  then have "shuffle_factor t * 3 * ?e div 100 \<le> 3 * ?e" "0 \<le> shuffle_factor t * 3 * ?e div 100" by auto
  moreover have "shuffle_samples t spt = shuffle_factor t * 3 * ?e div 100"
    using \<open>0 \<le> shuffle_factor t * 3 * ?e\<close>
    by (simp add: shuffle_samples_def SHUFFLE_FACTOR_DIVISOR_def c_div_nonneg drop_bit_eq_div)
  ultimately show ?thesis using e assms(2) by auto
qed

definition tables_ok :: "transport \<Rightarrow> bool" where
  "tables_ok t \<longleftrightarrow> length (next_tick_at t) = MAX_D \<and> length (samples_per_tick t) = MAX_D \<and>
     length (samples_per_tick_shuffle t) = MAX_D"

lemma calculate_samples_per_tick_tables:
  assumes "tables_ok t"
  shows "samples_per_tick (calculate_samples_per_tick defs t) = map (\<lambda>d. tick_samples t (def_frequency defs ! d)) [0..<MAX_D]"
    "samples_per_tick_shuffle (calculate_samples_per_tick defs t) =
       map (\<lambda>d. shuffle_samples t (tick_samples t (def_frequency defs ! d))) [0..<MAX_D]"
  using assms
  by (auto simp: calculate_samples_per_tick_def tables_ok_def MAX_D_def Let_def tick_samples_def shuffle_samples_def
      upt_rec eval_nat_numeral length_Suc_conv)

section \<open>One buffer\<close>

definition clock_ok :: "transport \<Rightarrow> bool" where
  "clock_ok t \<longleftrightarrow> tables_ok t \<and> tempo_ok t \<and> (\<forall>d < MAX_D. 0 \<le> next_tick_at t ! d)"

text \<open>Dimensions in use have a sensible sample rate.\<close>

definition defaults_ok :: "signal_defaults \<Rightarrow> bool" where
  "defaults_ok defs \<longleftrightarrow> (\<forall>d < MAX_D. def_samples defs ! d \<le> 0 \<or> 1280 \<le> def_frequency defs ! d)"

lemma advance_dimension_returns:
  assumes "clock_ok t" "d < MAX_D" "def_samples defs ! d \<le> 0 \<or> \<bar>samples_per_tick_shuffle t ! d\<bar> < samples_per_tick t ! d"
  shows "\<exists>t'. advance_dimension defs d t = Some t' \<and> clock_ok t' \<and> same_settings t t'"
proof -
  let ?sa = "def_samples defs ! d" and ?st = "(next_tick_at t ! d, t, is_even_line t)"
  have nta: "0 \<le> next_tick_at t ! d" using assms(1,2) by (simp add: clock_ok_def)
  have "\<exists>n t' e. tick_loop (d = MIDI_D) (samples_per_tick t ! d) (samples_per_tick_shuffle t ! d) ?sa ?st = Some (n, t', e) \<and> ?sa \<le> n"
  proof (cases "next_tick_at t ! d < ?sa")
    case False
    then show ?thesis by (subst tick_loop.simps) auto
  next
    case True
    with nta assms(3) tick_loop_ends [of "samples_per_tick_shuffle t ! d" "samples_per_tick t ! d" "d = MIDI_D" ?sa ?st]
    show ?thesis by (metis fst_conv not_less order.trans prod.collapse)
  qed
  then obtain n t' e where r: "tick_loop (d = MIDI_D) (samples_per_tick t ! d) (samples_per_tick_shuffle t ! d) ?sa ?st = Some (n, t', e)" "?sa \<le> n"
    by blast
  then have f: "same_settings t t'" "next_tick_at t' = next_tick_at t" using tick_loop_frame by blast+
  let ?t = "t' \<lparr> next_tick_at := (next_tick_at t')[d := n - ?sa] \<rparr>"
  have "advance_dimension defs d t = Some ?t" using r by (simp add: advance_dimension_def Let_def)
  moreover have "same_settings t ?t" using f by (simp add: same_settings_def)
  moreover have "clock_ok ?t"
    using assms(1,2) f r(2) by (auto simp: clock_ok_def tables_ok_def tempo_ok_def same_settings_def nth_list_update)
  ultimately show ?thesis by blast
qed

lemma advance_dimensions_return:
  assumes "clock_ok t" "\<forall>d \<in> set ds. d < MAX_D"
    "\<forall>d \<in> set ds. def_samples defs ! d \<le> 0 \<or> \<bar>samples_per_tick_shuffle t ! d\<bar> < samples_per_tick t ! d"
  shows "\<exists>t'. fold (\<lambda>d acc. Option.bind acc (advance_dimension defs d)) ds (Some t) = Some t' \<and> clock_ok t' \<and> same_settings t t'"
  using assms
proof (induction ds arbitrary: t)
  case (Cons d ds)
  then obtain t1 where t1: "advance_dimension defs d t = Some t1" "clock_ok t1" "same_settings t t1"
    using advance_dimension_returns [of t d defs] by auto
  with Cons.IH [of t1] Cons.prems show ?case by (auto simp: same_settings_def)
qed (simp add: same_settings_def)

lemma calculate_samples_per_tick_frame:
  "next_tick_at (calculate_samples_per_tick defs t) = next_tick_at t"
  "shuffle_factor (calculate_samples_per_tick defs t) = shuffle_factor t"
  "tr_bpm (calculate_samples_per_tick defs t) = tr_bpm t" "tr_lpb (calculate_samples_per_tick defs t) = tr_lpb t"
  "tables_ok t \<Longrightarrow> tables_ok (calculate_samples_per_tick defs t)"
  "do_loop (calculate_samples_per_tick defs t) = do_loop t"
  "tr_loop_start (calculate_samples_per_tick defs t) = tr_loop_start t"
  "tr_loop_stop (calculate_samples_per_tick defs t) = tr_loop_stop t"
  "next_sequence_position (calculate_samples_per_tick defs t) = next_sequence_position t"
  "current_tick (calculate_samples_per_tick defs t) = current_tick t"
  "periodic_calls (calculate_samples_per_tick defs t) = periodic_calls t"
  by (simp_all add: calculate_samples_per_tick_def MAX_D_def Let_def tables_ok_def upt_rec)

lemma clock_ok_calculate: "clock_ok t \<Longrightarrow> clock_ok (calculate_samples_per_tick defs t)"
  by (simp add: clock_ok_def calculate_samples_per_tick_frame tempo_ok_def)

lemma clock_buffer_returns:
  assumes "clock_ok t" "defaults_ok defs"
  shows "\<exists>t'. clock_buffer defs t = Some t' \<and> clock_ok t'"
proof -
  let ?t = "calculate_samples_per_tick defs t"
  have tab: "tables_ok t" "tempo_ok t" using assms(1) by (auto simp: clock_ok_def)
  have "def_samples defs ! d \<le> 0 \<or> \<bar>samples_per_tick_shuffle ?t ! d\<bar> < samples_per_tick ?t ! d" if "d < MAX_D" for d
    using assms(2) that tick_samples_pos [OF tab(2)] shuffle_samples_less [OF tab(2), of "tick_samples t (def_frequency defs ! d)"]
    by (auto simp: calculate_samples_per_tick_tables [OF tab(1)] defaults_ok_def)
  then show ?thesis
    using advance_dimensions_return [OF clock_ok_calculate [OF assms(1), of defs], of "[0..<MAX_D]" defs]
    by (fastforce simp: clock_buffer_def calculate_next_tick_at_and_sequence_position_def)
qed

text \<open>A dimension whose tick has no samples holds the clock for ever.\<close>

lemma advance_dimension_others:
  assumes "advance_dimension defs d' t = Some t'" "d \<noteq> d'"
  shows "next_tick_at t' ! d = next_tick_at t ! d" "same_settings t t'"
  using assms tick_loop_frame
  by (fastforce simp: advance_dimension_def Let_def same_settings_def bind_eq_Some_conv)+

lemma advance_dimensions_stuck:
  assumes "d \<in> set ds" "distinct ds" "next_tick_at t ! d < def_samples defs ! d"
    "samples_per_tick t ! d \<le> - \<bar>samples_per_tick_shuffle t ! d\<bar>"
  shows "fold (\<lambda>d acc. Option.bind acc (advance_dimension defs d)) ds (Some t) = None"
proof -
  have none: "fold (\<lambda>d acc. Option.bind acc (advance_dimension defs d)) ds None = None" for ds
    by (induction ds) auto
  show ?thesis
    using assms
  proof (induction ds arbitrary: t)
    case (Cons d' ds)
    show ?case
    proof (cases "d' = d")
      case True
      then have "advance_dimension defs d' t = None"
        using tick_loop_stuck [of "(next_tick_at t ! d, t, is_even_line t)"] Cons.prems(3,4)
        by (simp add: advance_dimension_def Let_def)
      then show ?thesis by (simp add: none)
    next
      case False
      show ?thesis
      proof (cases "advance_dimension defs d' t")
        case (Some t1)
        with advance_dimension_others [OF Some, of d] False Cons.prems Cons.IH [of t1] show ?thesis
          by (auto simp: same_settings_def)
      qed (simp add: none)
    qed
  qed simp
qed

section \<open>Position\<close>

definition in_loop :: "transport \<Rightarrow> bool" where
  "in_loop t \<longleftrightarrow> tr_loop_start t \<le> next_sequence_position t \<and> next_sequence_position t < tr_loop_stop t"

lemma midi_tick_in_loop:
  assumes "do_loop t" "in_loop t" "midi_tick t e = (t', e')"
  shows "in_loop t'"
    "\<exists>ps. periodic_calls t' = periodic_calls t @ ps \<and> (\<forall>p \<in> set ps. tr_loop_start t \<le> p \<and> p < tr_loop_stop t)"
proof -
  have t': "t' = fst (midi_tick t e)" using assms(3) by simp
  show "in_loop t'" using assms(1,2) unfolding t' midi_tick_fst in_loop_def by auto
  show "\<exists>ps. periodic_calls t' = periodic_calls t @ ps \<and> (\<forall>p \<in> set ps. tr_loop_start t \<le> p \<and> p < tr_loop_stop t)"
    using assms(2) unfolding t' midi_tick_fst in_loop_def by auto
qed

text \<open>What the clock of a looping transport keeps.\<close>

definition looping_from :: "transport \<Rightarrow> transport \<Rightarrow> bool" where
  "looping_from t t' \<longleftrightarrow> same_settings t t' \<and> in_loop t' \<and>
     (\<exists>ps. periodic_calls t' = periodic_calls t @ ps \<and> (\<forall>p \<in> set ps. tr_loop_start t \<le> p \<and> p < tr_loop_stop t))"

lemma looping_from_trans: "looping_from t t1 \<Longrightarrow> looping_from t1 t2 \<Longrightarrow> looping_from t t2"
  by (auto simp: looping_from_def same_settings_def)

lemma tick_loop_looping:
  assumes "tick_loop midi spt sptf samples (nta, t, e) = Some (n, t', e')" "do_loop t" "in_loop t"
  shows "looping_from t t'"
proof (rule tick_loop_state_inv [OF assms(1), of "\<lambda>t' e. looping_from t t'"])
  show "looping_from t t" using assms(3) by (simp add: looping_from_def same_settings_def)
next
  fix t1 e1 t2 e2 assume a: "looping_from t t1" "midi_tick t1 e1 = (t2, e2)"
  then have "do_loop t1" "in_loop t1" using assms(2) by (auto simp: looping_from_def same_settings_def)
  from midi_tick_in_loop [OF this a(2)] midi_tick_same [OF a(2)] have "looping_from t1 t2"
    by (simp add: looping_from_def)
  with a(1) show "looping_from t t2" by (rule looping_from_trans)
qed

lemma advance_dimension_looping:
  assumes "advance_dimension defs d t = Some t'" "do_loop t" "in_loop t"
  shows "looping_from t t'"
proof -
  obtain n t1 e where r: "tick_loop (d = MIDI_D) (samples_per_tick t ! d) (samples_per_tick_shuffle t ! d) (def_samples defs ! d)
      (next_tick_at t ! d, t, is_even_line t) = Some (n, t1, e)"
    "t' = t1 \<lparr> next_tick_at := (next_tick_at t1)[d := n - def_samples defs ! d] \<rparr>"
    using assms(1) by (auto simp: advance_dimension_def Let_def bind_eq_Some_conv)
  with tick_loop_looping [OF r(1) assms(2,3)] show ?thesis
    by (simp add: looping_from_def same_settings_def in_loop_def)
qed

lemma advance_dimensions_looping:
  assumes "fold (\<lambda>d acc. Option.bind acc (advance_dimension defs d)) ds (Some t) = Some t'" "do_loop t" "in_loop t"
  shows "looping_from t t'"
proof -
  have none: "fold (\<lambda>d acc. Option.bind acc (advance_dimension defs d)) ds None = None" for ds
    by (induction ds) auto
  show ?thesis
    using assms
  proof (induction ds arbitrary: t)
    case Nil
    then show ?case by (simp add: looping_from_def same_settings_def)
  next
    case (Cons d ds)
    then obtain t1 where t1: "advance_dimension defs d t = Some t1"
      using none by (cases "advance_dimension defs d t") auto
    then have l: "looping_from t t1" using Cons.prems advance_dimension_looping by blast
    then have "do_loop t1" "in_loop t1" using Cons.prems by (auto simp: looping_from_def same_settings_def)
    with Cons.IH [of t1] Cons.prems t1 l show ?case by (auto intro: looping_from_trans)
  qed
qed

section \<open>Everything that moves the transport\<close>

inductive transport_reach :: "signal_defaults \<Rightarrow> transport \<Rightarrow> bool" for defs where
  initial: "transport_reach defs initial_transport"
| shuffle: "transport_reach defs t \<Longrightarrow> 0 \<le> nf \<Longrightarrow> nf < SHUFFLE_FACTOR_DIVISOR \<Longrightarrow> transport_reach defs (set_shuffle_factor nf t)"
| loop_state: "transport_reach defs t \<Longrightarrow> transport_reach defs (set_loop_state b t)"
| loop_start: "transport_reach defs t \<Longrightarrow> set_loop_start l t = Inr t' \<Longrightarrow> transport_reach defs t'"
| loop_length: "transport_reach defs t \<Longrightarrow> set_loop_length l t = Inr t' \<Longrightarrow> transport_reach defs t'"
| bpm: "transport_reach defs t \<Longrightarrow> set_bpm v t = Inr t' \<Longrightarrow> transport_reach defs t'"
| lpb: "transport_reach defs t \<Longrightarrow> set_lpb v t = Inr t' \<Longrightarrow> transport_reach defs t'"
| recording: "transport_reach defs t \<Longrightarrow> transport_reach defs (set_record_state b t)"
| jump: "transport_reach defs t \<Longrightarrow> transport_reach defs (jump_to p t)"
| rewinding: "transport_reach defs t \<Longrightarrow> transport_reach defs (rewind t)"
| playing: "transport_reach defs t \<Longrightarrow> transport_reach defs (play t)"
| stopping: "transport_reach defs t \<Longrightarrow> transport_reach defs (stop t)"
| a_buffer: "transport_reach defs t \<Longrightarrow> clock_buffer defs t = Some t' \<Longrightarrow> transport_reach defs t'"

lemma clock_ok_setters:
  assumes "clock_ok t"
  shows "0 \<le> nf \<Longrightarrow> nf < SHUFFLE_FACTOR_DIVISOR \<Longrightarrow> clock_ok (set_shuffle_factor nf t)"
    "clock_ok (set_loop_state b t)" "set_loop_start l t = Inr t' \<Longrightarrow> clock_ok t'" "set_loop_length l t = Inr t' \<Longrightarrow> clock_ok t'"
    "set_bpm v t = Inr t' \<Longrightarrow> clock_ok t'" "set_lpb v t = Inr t' \<Longrightarrow> clock_ok t'" "clock_ok (set_record_state b t)"
    "clock_ok (jump_to p t)" "clock_ok (rewind t)" "clock_ok (play t)" "clock_ok (stop t)"
  using assms
  by (auto simp: clock_ok_def tempo_ok_def tables_ok_def set_shuffle_factor_def set_loop_state_def set_loop_start_def
      set_loop_length_def set_bpm_def set_lpb_def set_record_state_def jump_to_def rewind_def play_def stop_def
      reset_global_playback_parameters_def Let_def split: if_splits)

lemma clock_ok_reach: "transport_reach defs t \<Longrightarrow> defaults_ok defs \<Longrightarrow> clock_ok t"
proof (induction rule: transport_reach.induct)
  case initial
  then show ?case
    by (auto simp: clock_ok_def initial_transport_def tempo_ok_def tables_ok_def MAX_D_def SHUFFLE_FACTOR_DIVISOR_def
        less_Suc_eq numeral_eq_Suc)
next
  case (a_buffer t t')
  then show ?case using clock_buffer_returns [of t defs] by auto
qed (auto intro: clock_ok_setters)

section \<open>Properties\<close>

text \<open>C10: whatever the setters accepted, with a shuffle factor in its documented range and however the
  transport was played, stopped and moved, the clock of the next buffer comes to an end, for any
  buffer size, when every dimension in use has a rate of at least 1280 samples a second.\<close>

theorem clock_terminates:
  assumes "transport_reach defs t" "defaults_ok defs"
  shows "\<exists>t'. clock_buffer defs t = Some t' \<and> transport_reach defs t' \<and> (\<forall>d < MAX_D. 0 \<le> next_tick_at t' ! d)"
  using clock_buffer_returns [OF clock_ok_reach [OF assms] assms(2)] assms(1)
  by (auto simp: clock_ok_def intro: transport_reach.a_buffer)

definition audio_defaults :: signal_defaults where
  "audio_defaults = \<lparr> def_samples = [1024, 0, 0, 1024], def_frequency = [44100, 0, 0, 44100] \<rparr>"

theorem clock_terminates_witness:
  "\<exists>t'. clock_buffer audio_defaults (play (set_shuffle_factor 50 initial_transport)) = Some t' \<and> transport_reach audio_defaults t'"
proof -
  have "transport_reach audio_defaults (play (set_shuffle_factor 50 initial_transport))"
    by (intro transport_reach.playing transport_reach.shuffle transport_reach.initial) (simp_all add: SHUFFLE_FACTOR_DIVISOR_def)
  moreover have "defaults_ok audio_defaults"
    by (auto simp: defaults_ok_def audio_defaults_def MAX_D_def less_Suc_eq numeral_eq_Suc)
  ultimately show ?thesis using clock_terminates by blast
qed

text \<open>The clock never ends when a dimension that is in use gets less than one sample per tick, as the
  defaults of the 2D dimension (12 samples at 24 per second) give at every tempo.\<close>

theorem clock_hangs:
  assumes "tables_ok t" "tempo_ok t" "d < MAX_D" "next_tick_at t ! d < def_samples defs ! d"
    "0 \<le> def_frequency defs ! d" "def_frequency defs ! d * 60 < tr_bpm t * tr_lpb t * MACHINE_TICKS_PER_LINE"
  shows "clock_buffer defs t = None"
proof -
  let ?t = "calculate_samples_per_tick defs t"
  have "0 < tr_bpm t * tr_lpb t" using assms(2) by (intro mult_pos_pos) (auto simp: tempo_ok_def)
  then have "tick_samples t (def_frequency defs ! d) = 0"
    using assms(5,6) by (simp add: tick_samples_def c_div_nonneg MACHINE_TICKS_PER_LINE_def)
  then have "samples_per_tick ?t ! d = 0" "samples_per_tick_shuffle ?t ! d = 0"
    using assms(3) by (simp_all add: calculate_samples_per_tick_tables [OF assms(1)] shuffle_samples_def c_div_def)
  with advance_dimensions_stuck [of d "[0..<MAX_D]" ?t defs] assms(3,4) show ?thesis
    by (simp add: clock_buffer_def calculate_next_tick_at_and_sequence_position_def calculate_samples_per_tick_frame)
qed

theorem clock_hangs_witness:
  "clock_buffer \<lparr> def_samples = [1024, 0, 12, 1024], def_frequency = [44100, 0, 24, 44100] \<rparr> initial_transport = None"
  by (rule clock_hangs [of _ 2])
    (simp_all add: tables_ok_def tempo_ok_def initial_transport_def MAX_D_def SHUFFLE_FACTOR_DIVISOR_def MACHINE_TICKS_PER_LINE_def)

text \<open>C22: the musical clock does not depend on the size of the buffers: two buffers of \<open>a\<close> and \<open>b\<close> samples move
  tick, line, position, periodic calls and the offset of the next tick exactly as one buffer of \<open>a + b\<close> samples.\<close>

theorem clock_buffer_size_independent:
  assumes "tables_ok t" "\<bar>samples_per_tick_shuffle t ! MIDI_D\<bar> < samples_per_tick t ! MIDI_D" "0 \<le> b"
    "def_samples defs_a ! MIDI_D = a" "def_samples defs_b ! MIDI_D = b" "def_samples defs_ab ! MIDI_D = a + b"
  shows "Option.bind (advance_dimension defs_a MIDI_D t) (advance_dimension defs_b MIDI_D) = advance_dimension defs_ab MIDI_D t"
proof -
  let ?spt = "samples_per_tick t ! MIDI_D" and ?sf = "samples_per_tick_shuffle t ! MIDI_D"
  let ?st = "(next_tick_at t ! MIDI_D, t, is_even_line t)"
  have l: "MIDI_D < length (next_tick_at t)" using assms(1) by (simp add: tables_ok_def MIDI_D_def MAX_D_def)
  obtain n t1 e where r: "tick_loop True ?spt ?sf a ?st = Some (n, t1, e)"
    using tick_loop_ends [OF assms(2), of True a ?st] by auto
  then have f: "same_settings t t1" "next_tick_at t1 = next_tick_at t" "e = is_even_line t1"
    using tick_loop_frame tick_loop_even by blast+
  let ?t1 = "t1 \<lparr> next_tick_at := (next_tick_at t1)[MIDI_D := n - a] \<rparr>"
  have one: "advance_dimension defs_a MIDI_D t = Some ?t1"
    using r assms(4) by (simp add: advance_dimension_def Let_def)
  obtain n2 t2 e2 where r2: "tick_loop True ?spt ?sf (a + b) (n, t1, e) = Some (n2, t2, e2)"
    using tick_loop_ends [OF assms(2), of True "a + b" "(n, t1, e)"] by auto
  then have nt: "next_tick_at t2 = next_tick_at t" using tick_loop_frame [OF r2] f(2) by simp
  have "tick_loop True ?spt ?sf b (n - a, ?t1, e) =
      Some (n2 - a, t2 \<lparr> next_tick_at := (next_tick_at t1)[MIDI_D := n - a] \<rparr>, e2)"
    using r2 by (simp add: tick_loop_shift [OF assms(2)] tick_loop_next_tick_at [OF assms(2)])
  then have two: "advance_dimension defs_b MIDI_D ?t1 = Some (t2 \<lparr> next_tick_at := (next_tick_at t)[MIDI_D := n2 - a - b] \<rparr>)"
    using f assms(5) l by (simp add: advance_dimension_def Let_def same_settings_def is_even_line_def)
  have "tick_loop True ?spt ?sf (a + b) ?st = Some (n2, t2, e2)"
    using tick_loop_split [OF assms(2,3), of True a ?st] r r2 by simp
  then have "advance_dimension defs_ab MIDI_D t = Some (t2 \<lparr> next_tick_at := (next_tick_at t)[MIDI_D := n2 - (a + b)] \<rparr>)"
    using assms(6) nt by (simp add: advance_dimension_def Let_def)
  then show ?thesis using one two by (simp add: algebra_simps)
qed

theorem clock_buffer_size_independent_witness:
  "Option.bind (advance_dimension (audio_defaults \<lparr> def_samples := [0, 0, 0, 512] \<rparr>) MIDI_D (calculate_samples_per_tick audio_defaults initial_transport))
     (advance_dimension (audio_defaults \<lparr> def_samples := [0, 0, 0, 512] \<rparr>) MIDI_D) =
   advance_dimension audio_defaults MIDI_D (calculate_samples_per_tick audio_defaults initial_transport)"
proof (rule clock_buffer_size_independent [where a = 512 and b = 512])
  have t: "tables_ok initial_transport" by (simp add: tables_ok_def initial_transport_def MAX_D_def)
  then show "tables_ok (calculate_samples_per_tick audio_defaults initial_transport)" by (rule calculate_samples_per_tick_frame(5))
  show "\<bar>samples_per_tick_shuffle (calculate_samples_per_tick audio_defaults initial_transport) ! MIDI_D\<bar>
      < samples_per_tick (calculate_samples_per_tick audio_defaults initial_transport) ! MIDI_D"
    unfolding calculate_samples_per_tick_tables [OF t] by code_simp
qed (simp_all add: audio_defaults_def MIDI_D_def)

text \<open>C20: while the transport loops, a position inside the loop stays inside it through every buffer, and
  so does every position handed to the periodic callbacks.\<close>

theorem loop_position_kept:
  assumes "clock_buffer defs t = Some t'" "do_loop t" "in_loop t"
  shows "in_loop t' \<and> do_loop t' \<and>
    (\<exists>ps. periodic_calls t' = periodic_calls t @ ps \<and> (\<forall>p \<in> set ps. tr_loop_start t \<le> p \<and> p < tr_loop_stop t))"
proof -
  let ?t = "calculate_samples_per_tick defs t"
  have "do_loop ?t" "in_loop ?t" using assms(2,3) by (simp_all add: calculate_samples_per_tick_frame in_loop_def)
  from advance_dimensions_looping [OF assms(1) [unfolded clock_buffer_def calculate_next_tick_at_and_sequence_position_def] this]
  show ?thesis using assms(2) by (simp add: looping_from_def same_settings_def calculate_samples_per_tick_frame)
qed

theorem loop_position_kept_witness:
  "\<exists>t'. clock_buffer audio_defaults initial_transport = Some t' \<and> in_loop t'"
proof -
  have "clock_ok initial_transport" "defaults_ok audio_defaults"
    using clock_ok_reach [OF transport_reach.initial, of audio_defaults]
    by (auto simp: defaults_ok_def audio_defaults_def MAX_D_def less_Suc_eq numeral_eq_Suc)
  then obtain t' where "clock_buffer audio_defaults initial_transport = Some t'" using clock_buffer_returns by blast
  moreover from loop_position_kept [OF this] have "in_loop t'" by (simp add: initial_transport_def in_loop_def)
  ultimately show ?thesis by blast
qed

end
