(* ===== verification/Sequencer.thy ===== *)
theory Sequencer
  imports Loop_Playback Controller_Envelope Transport
begin

text \<open>
  The machine sequencer (machine_sequencer.cc, \<open>MachineSequencer\<close>): a store of loops, a sequence that says
  which loop starts at which line, a pad and controller envelopes, and the generation of MIDI events for a
  buffer. Sequencers and loops are objects behind pointers: after \<open>delete_loop\<close> two entries of a store can
  be the same loop. The length of the sequences is shared by all sequencers.
\<close>

section \<open>State\<close>

definition NOTE_NOT_SET :: int where "NOTE_NOT_SET = -1"
definition MACHINE_SEQUENCER_INITIAL_SEQUENCE_LENGTH :: nat where "MACHINE_SEQUENCER_INITIAL_SEQUENCE_LENGTH = 16"

datatype sequencer_error =
  BadParameter | NoFreeLoopsAvailable | NoSuchLoop | OutsideStore | NullLoop | NoSibling | SignedOverflow
| AlreadyMapped | IllegalController | NoSuchController | AlreadySequenced
| LoopFault loop_error | PadFault pad_error | EnvelopeFault env_error

record sequencer =
  current_loop :: "nat option"
  sq_mute :: bool
  sibling_name :: string
  loop_store :: "nat option list"
  last_free_loop_store_position :: int
  loop_sequence :: "int list"
  sq_pad :: pad
  controller_envelope :: "(string, envelope) smap"

record studio =
  loop_heap :: note_heap
  loops :: "nat \<Rightarrow> note_loop"
  loops_top :: nat
  sequencers :: "nat \<Rightarrow> sequencer"
  sequencers_top :: nat
  machine_from_xml_cache :: "nat list"
  machine2sequencer :: "(nat, nat) smap"
  sequence_length :: int

definition upd_sequencer :: "nat \<Rightarrow> (sequencer \<Rightarrow> sequencer) \<Rightarrow> studio \<Rightarrow> studio" where
  "upd_sequencer this f st = st \<lparr> sequencers := (sequencers st)(this := f (sequencers st this)) \<rparr>"

definition upd_loop :: "nat \<Rightarrow> note_loop \<Rightarrow> note_heap \<Rightarrow> studio \<Rightarrow> studio" where
  "upd_loop i l h st = st \<lparr> loops := (loops st)(i := l), loop_heap := h \<rparr>"

section \<open>The loop store\<close>

definition create_loop :: "studio \<Rightarrow> nat \<times> studio" where
  "create_loop st = (loops_top st, st \<lparr> loops := (loops st)(loops_top st := new_loop), loops_top := Suc (loops_top st) \<rparr>)"

definition double_loop_store :: "sequencer \<Rightarrow> sequencer" where
  "double_loop_store s = s \<lparr> loop_store := loop_store s @ replicate (length (loop_store s)) None \<rparr>"

definition store_loop :: "nat \<Rightarrow> nat \<Rightarrow> sequencer \<Rightarrow> sequencer" where
  "store_loop k l s = s \<lparr> loop_store := (loop_store s)[k := Some l], last_free_loop_store_position := int k + 1 \<rparr>"

definition internal_add_new_loop :: "nat \<Rightarrow> studio \<Rightarrow> (sequencer_error, int \<times> studio) result" where
  "internal_add_new_loop this st =
     (if last_free_loop_store_position (sequencers st this) = 100 then Inl NoFreeLoopsAvailable
      else case create_loop st of (l, st1) \<Rightarrow>
        (case first_slot None (loop_store (sequencers st1 this)) of
          Some k \<Rightarrow> Inr (int k, upd_sequencer this (store_loop k l) st1)
        | None \<Rightarrow> let k = length (loop_store (sequencers st1 this)) in
            Inr (int k, upd_sequencer this (store_loop k l \<circ> double_loop_store) st1)))"

definition get_loop :: "int \<Rightarrow> sequencer \<Rightarrow> (sequencer_error, nat) result" where
  "get_loop loop_id s =
     (if \<not> (0 \<le> loop_id \<and> loop_id < int (length (loop_store s))) then Inl NoSuchLoop
      else case loop_store s ! nat loop_id of None \<Rightarrow> Inl NoSuchLoop | Some l \<Rightarrow> Inr l)"

definition get_nr_of_loops :: "sequencer \<Rightarrow> int" where
  "get_nr_of_loops s = last_free_loop_store_position s"

text \<open>The entries behind the deleted one move down; the last slot keeps its loop. A negative index writes
  in front of the store.\<close>

definition delete_loop :: "int \<Rightarrow> sequencer \<Rightarrow> (sequencer_error, sequencer) result" where
  "delete_loop i s =
     (if i < 0 then Inl OutsideStore
      else Inr (s \<lparr> loop_sequence := map (\<lambda>e. let e1 = (if e = i then NOTE_NOT_SET else e) in if e1 > i then e1 - 1 else e1) (loop_sequence s),
          loop_store := map (\<lambda>k. if nat i \<le> k \<and> k + 1 < length (loop_store s) then loop_store s ! (k + 1) else loop_store s ! k)
            [0..<length (loop_store s)],
          last_free_loop_store_position := last_free_loop_store_position s - 1 \<rparr>))"

section \<open>The sequence\<close>

definition internal_get_loop_id_at :: "int \<Rightarrow> sequencer \<Rightarrow> int" where
  "internal_get_loop_id_at position s =
     (if \<not> (0 \<le> position \<and> position < int (length (loop_sequence s))) then NOTE_NOT_SET else loop_sequence s ! nat position)"

definition internal_get_loop_ids_at :: "int list \<Rightarrow> sequencer \<Rightarrow> int list" where
  "internal_get_loop_ids_at position_vector s = map (\<lambda>p. internal_get_loop_id_at p s) position_vector"

definition refresh_length :: "int \<Rightarrow> sequencer \<Rightarrow> sequencer" where
  "refresh_length len s =
     (if int (length (loop_sequence s)) \<ge> len then s
      else s \<lparr> loop_sequence := loop_sequence s @ replicate (nat len - length (loop_sequence s)) NOTE_NOT_SET \<rparr>)"

definition set_sequence_length :: "int \<Rightarrow> studio \<Rightarrow> studio" where
  "set_sequence_length newv st =
     fold (\<lambda>(m, i). upd_sequencer i (refresh_length newv)) (machine2sequencer st) (st \<lparr> sequence_length := newv \<rparr>)"

definition prep_empty_loop_sequence :: "int \<Rightarrow> sequencer \<Rightarrow> sequencer" where
  "prep_empty_loop_sequence len s = s \<lparr> loop_sequence := replicate (nat len) NOTE_NOT_SET \<rparr>"

text \<open>The length grows before the loop is looked at, and stays so when it is refused.\<close>

definition internal_set_loop_id_at :: "nat \<Rightarrow> int \<Rightarrow> int \<Rightarrow> studio \<Rightarrow> sequencer_error option \<times> studio" where
  "internal_set_loop_id_at this position loop_id st =
     (if position < 0 then (Some BadParameter, st)
      else let grow = \<not> position < int (length (loop_sequence (sequencers st this))) in
        if grow \<and> 2 ^ 31 \<le> position + 16 then (Some SignedOverflow, st)
        else let st1 = (if grow then let st0 = set_sequence_length (position + 16) st in
                          upd_sequencer this (refresh_length (sequence_length st0)) st0
                        else st);
                 s = sequencers st1 this in
          if loop_id \<noteq> NOTE_NOT_SET \<and> (loop_id < 0 \<or> loop_id \<ge> int (length (loop_store s)) \<or> loop_store s ! nat loop_id = None)
          then (Some BadParameter, st1)
          else (None, upd_sequencer this (\<lambda>s. s \<lparr> loop_sequence := (loop_sequence s)[nat position := loop_id] \<rparr>) st1))"

section \<open>Generating events\<close>

text \<open>
  \<open>process_tick\<close> is the body of the loop of \<open>fill_buffers\<close>: the pad, the loop that starts at a line, the
  current loop and the envelopes, in this order. \<open>mem\<close> and \<open>scalo\<close> are the arguments of the pad.
\<close>

fun process_controller_envelopes :: "int \<Rightarrow> (string, envelope) smap \<Rightarrow> (sequencer_error, midi_call list \<times> (string, envelope) smap) result" where
  "process_controller_envelopes tick [] = Inr ([], [])"
| "process_controller_envelopes tick ((n, e) # es) =
     (case process_envelope tick e of
        Inl err \<Rightarrow> Inl (EnvelopeFault err)
      | Inr (cs, e1) \<Rightarrow> rbind (process_controller_envelopes tick es) (\<lambda>(ds, es1). Inr (cs @ ds, (n, e1) # es1)))"

definition select_loop :: "nat \<Rightarrow> int \<Rightarrow> int \<Rightarrow> studio \<Rightarrow> (sequencer_error, studio) result" where
  "select_loop this sequence_position tick st =
     (let s = sequencers st this; loop_id = internal_get_loop_id_at sequence_position s in
      if tick = 0 \<and> loop_id \<noteq> NOTE_NOT_SET then
        (if \<not> (0 \<le> loop_id \<and> loop_id < int (length (loop_store s))) then Inl OutsideStore
         else case loop_store s ! nat loop_id of
           None \<Rightarrow> Inl NullLoop
         | Some l \<Rightarrow> Inr (upd_loop l (start_to_play (loops st l)) (loop_heap st)
             (upd_sequencer this (\<lambda>s. s \<lparr> current_loop := Some l \<rparr>) st)))
      else Inr st)"

definition play_current :: "nat \<Rightarrow> bool \<Rightarrow> bool \<Rightarrow> studio \<Rightarrow> (sequencer_error, midi_call list \<times> studio) result" where
  "play_current this playing no_sound st =
     (case current_loop (sequencers st this) of
        None \<Rightarrow> Inr ([], st)
      | Some l \<Rightarrow>
          (case process_loop playing no_sound (loops st l, loop_heap st) of
             Inl e \<Rightarrow> Inl (LoopFault e)
           | Inr (cs, l1, h1) \<Rightarrow> Inr (cs, upd_loop l l1 h1 st)))"

definition process_tick ::
  "pad_motion \<Rightarrow> loop_settings \<Rightarrow> scales_object option \<Rightarrow> nat \<Rightarrow> bool \<Rightarrow> bool \<Rightarrow> int \<Rightarrow> int \<Rightarrow> studio \<Rightarrow>
    (sequencer_error, midi_call list \<times> studio) result" where
  "process_tick mem env scalo this playing no_sound sequence_position tick st =
     (case process_pad mem env scalo no_sound (PAD_TIME sequence_position tick) (sq_pad (sequencers st this)) of
        Inl e \<Rightarrow> Inl (PadFault e)
      | Inr (cs, p) \<Rightarrow>
          rbind (select_loop this sequence_position tick (upd_sequencer this (\<lambda>s. s \<lparr> sq_pad := p \<rparr>) st)) (\<lambda>st1.
          rbind (play_current this playing no_sound st1) (\<lambda>(ds, st2).
          rbind (process_controller_envelopes (PAD_TIME sequence_position tick) (controller_envelope (sequencers st2 this))) (\<lambda>(es, envs).
            Inr (cs @ ds @ es, upd_sequencer this (\<lambda>s. s \<lparr> controller_envelope := envs \<rparr>) st2)))))"

text \<open>The local variables the loop moves, with the values they start from (the getters of \<open>Machine\<close>).\<close>

definition next_line :: "transport \<Rightarrow> int \<Rightarrow> int \<Rightarrow> int \<times> int" where
  "next_line t sequence_position tick =
     (let tick1 = (tick + 1) mod MACHINE_TICKS_PER_LINE;
          p = (if tick1 = 0 then sequence_position + 1 else sequence_position)
      in (if tick1 = 0 \<and> do_loop t \<and> p \<ge> get_loop_length t + tr_loop_start t then tr_loop_start t else p, tick1))"

definition skip_after :: "transport \<Rightarrow> int \<Rightarrow> int" where
  "skip_after t sequence_position =
     (if sequence_position mod 2 = 0 then samples_per_tick t ! MIDI_D - samples_per_tick_shuffle t ! MIDI_D
      else samples_per_tick t ! MIDI_D + samples_per_tick_shuffle t ! MIDI_D)"

type_synonym fill_state = "int \<times> int \<times> studio \<times> builder_state"

definition fill_step ::
  "pad_motion \<Rightarrow> scales_object option \<Rightarrow> nat \<Rightarrow> transport \<Rightarrow> bool \<Rightarrow> midi_builder \<Rightarrow> fill_state \<Rightarrow> (sequencer_error, fill_state) result" where
  "fill_step mem scalo this t no_sound b x =
     (case x of (pos, tick, st, (s, _)) \<Rightarrow>
        rbind (process_tick mem \<lparr> loop_state = do_loop t, loop_start = tr_loop_start t, loop_length = get_loop_length t \<rparr> scalo this
            (is_playing t) no_sound pos tick st) (\<lambda>(cs, st1).
          case next_line t pos tick of (pos1, tick1) \<Rightarrow> Inr (pos1, tick1, st1, fold queue_call cs (s, b))))"

lemma case_sum_mono [partial_function_mono]:
  assumes "\<And>e. mono_option (\<lambda>f. A f e)" "\<And>a. mono_option (\<lambda>f. B f a)"
  shows "mono_option (\<lambda>f. case r of Inl e \<Rightarrow> A f e | Inr a \<Rightarrow> B f a)"
  using assms by (cases r) simp_all

text \<open>The loop, given its body and the skip that follows a line.\<close>

partial_function (option) fill_loop ::
  "(midi_builder \<Rightarrow> fill_state \<Rightarrow> (sequencer_error, fill_state) result) \<Rightarrow> (int \<Rightarrow> int) \<Rightarrow> int \<Rightarrow> fill_state \<Rightarrow>
    (sequencer_error, fill_state) result option" where
  "fill_loop body skip_for skip_length state =
     (case state of (pos, tick, st, (s, b)) \<Rightarrow>
        if fst (skip skip_length b) then
          (case body (snd (skip skip_length b)) state of
             Inl e \<Rightarrow> Some (Inl e)
           | Inr y \<Rightarrow> fill_loop body skip_for (skip_for (fst y)) y)
        else Some (Inr (pos, tick, st, (s, snd (skip skip_length b)))))"

definition fill_buffers ::
  "pad_motion \<Rightarrow> scales_object option \<Rightarrow> nat \<Rightarrow> transport \<Rightarrow> nat \<Rightarrow> studio \<Rightarrow> builder_state \<Rightarrow>
    (sequencer_error, fill_state) result option" where
  "fill_buffers mem scalo this t output_limit st sb =
     Option.bind (fill_loop (fill_step mem scalo this t (if is_playing t then sq_mute (sequencers st this) else True)) (skip_after t) (next_tick_at t ! MIDI_D)
         (next_sequence_position t, current_tick t, st, use_buffer output_limit sb)) (\<lambda>r.
       case r of
         Inl e \<Rightarrow> Some (Inl e)
       | Inr (pos, tick, st1, sb1) \<Rightarrow> Option.bind (finish_current_buffer sb1) (\<lambda>sb2. Some (Inr (pos, tick, st1, sb2))))"

definition reset_sequencer :: "sequencer \<Rightarrow> (sequencer_error, sequencer) result" where
  "reset_sequencer s =
     (case reset_pad (sq_pad s) of Inl e \<Rightarrow> Inl (PadFault e) | Inr p \<Rightarrow> Inr (s \<lparr> current_loop := None, sq_pad := p \<rparr>))"

section \<open>Moving the pad into a loop\<close>

definition export_entry :: "export_note \<Rightarrow> note_entry" where
  "export_entry n = new_note_entry \<lparr> nt_channel := word_of_int (en_channel n), nt_program := word_of_int (en_program n),
     nt_velocity := word_of_int (en_velocity n), nt_note := word_of_int (en_note n), nt_on_at := en_on_at n, nt_length := en_length n \<rparr>"

fun insert_exported :: "export_note list \<Rightarrow> note_loop \<times> note_heap \<Rightarrow> (loop_error, note_loop \<times> note_heap) result" where
  "insert_exported [] lh = Inr lh"
| "insert_exported (n # ns) (l, h) =
     (case alloc_note (export_entry n) h of (p, h1) \<Rightarrow> rbind (internal_insert_note p (l, h1)) (insert_exported ns))"

text \<open>\<open>fuel\<close> bounds the ticks of the export as in Pad_Session.\<close>

definition export_notes ::
  "nat \<Rightarrow> scales_object option \<Rightarrow> transport \<Rightarrow> pad \<Rightarrow> note_loop \<times> note_heap \<Rightarrow> (sequencer_error, pad \<times> note_loop \<times> note_heap) result option" where
  "export_notes fuel scalo t p lh =
     (let start_tick = (if do_loop t then tr_loop_start t * MACHINE_TICKS_PER_LINE else 0);
          stop_tick = (if do_loop t then (tr_loop_start t + get_loop_length t) * MACHINE_TICKS_PER_LINE else -1)
      in case export_to_loop fuel scalo start_tick stop_tick (new_export_builder start_tick) p of
           None \<Rightarrow> None
         | Some (Inl e) \<Rightarrow> Some (Inl (PadFault e))
         | Some (Inr (pmxb, p1)) \<Rightarrow>
             Some (case insert_exported (exported pmxb) lh of Inl e \<Rightarrow> Inl (LoopFault e) | Inr lh1 \<Rightarrow> Inr (p1, lh1)))"

definition export_pad_to_loop ::
  "nat \<Rightarrow> scales_object option \<Rightarrow> transport \<Rightarrow> nat \<Rightarrow> int \<Rightarrow> studio \<Rightarrow> (sequencer_error, studio) result option" where
  "export_pad_to_loop fuel scalo t this loop_id st =
     (case (if loop_id = NOTE_NOT_SET then internal_add_new_loop this st else Inr (loop_id, st)) of
        Inl e \<Rightarrow> Some (Inl e)
      | Inr (i, st1) \<Rightarrow>
          (case get_loop i (sequencers st1 this) of
             Inl e \<Rightarrow> Some (Inl e)
           | Inr l \<Rightarrow>
               (case clear_loop (loops st1 l, loop_heap st1) of
                  Inl e \<Rightarrow> Some (Inl (LoopFault e))
                | Inr lh \<Rightarrow>
                    (case export_notes fuel scalo t (sq_pad (sequencers st1 this)) lh of
                       None \<Rightarrow> None
                     | Some (Inl e) \<Rightarrow> Some (Inl e)
                     | Some (Inr (p, l1, h1)) \<Rightarrow>
                         Some (Inr (upd_sequencer this (\<lambda>s. s \<lparr> sq_pad := p \<rparr>) (upd_loop l l1 h1 st1)))))))"

section \<open>Controllers of the sibling\<close>

text \<open>
  The MIDI side of \<open>Machine::Controller\<close>. The sequencer finds its sibling by name; \<open>ctrls\<close> below are the
  names of the controllers of the machine it finds, each with its controller, in the machine's order.
\<close>

record machine_controller =
  has_midi_ctrl :: bool
  coarse_controller :: int
  fine_controller :: int

definition sc_special_last :: int where "sc_special_last = 1024"

definition set_midi_controller :: "int \<Rightarrow> int \<Rightarrow> machine_controller \<Rightarrow> (sequencer_error, machine_controller) result" where
  "set_midi_controller coarse fine c =
     (if has_midi_ctrl c then Inl AlreadyMapped
      else let coarse_ok = (0 \<le> coarse \<and> coarse < 128) \<or> (sc_special_first \<le> coarse \<and> coarse \<le> sc_special_last) in
        if \<not> coarse_ok \<or> (fine \<noteq> -1 \<and> (fine < -1 \<or> fine > 127)) \<or> coarse = fine then Inl IllegalController
        else Inr (c \<lparr> has_midi_ctrl := True, coarse_controller := coarse, fine_controller := fine \<rparr>))"

text \<open>The arguments are the values the two references have before the call.\<close>

definition has_midi_controller :: "int \<Rightarrow> int \<Rightarrow> machine_controller \<Rightarrow> (sequencer_error, bool \<times> int \<times> int) result" where
  "has_midi_controller coarse fine c =
     (if \<not> has_midi_ctrl c then Inr (False, coarse, fine)
      else if (coarse_controller c < 0 \<or> coarse_controller c > 127) \<and> (coarse_controller c < sc_special_first \<or> coarse_controller c > sc_special_last)
      then Inl IllegalController
      else Inr (True, coarse_controller c, if 0 \<le> fine_controller c \<and> fine_controller c < 128 then fine_controller c else fine))"

type_synonym controller_list = "(string \<times> machine_controller) list"

definition get_midi_controllers :: "controller_list \<Rightarrow> string \<Rightarrow> (sequencer_error, int \<times> int) result" where
  "get_midi_controllers ctrls n =
     (case map_of ctrls n of
        None \<Rightarrow> Inl NoSuchController
      | Some c \<Rightarrow> rbind (has_midi_controller (-1) (-1) c) (\<lambda>(_, coarse, fine). Inr (coarse, fine)))"

fun internal_available_midi_controllers :: "controller_list \<Rightarrow> (sequencer_error, (string, unit) smap) result" where
  "internal_available_midi_controllers [] = Inr []"
| "internal_available_midi_controllers ((n, c) # cs) =
     rbind (has_midi_controller (-1) (-1) c) (\<lambda>(has, _).
     rbind (internal_available_midi_controllers cs) (\<lambda>m. Inr (if has then map_set n () m else m)))"

text \<open>\<open>t0\<close> is the playback position a new envelope finds in its memory.\<close>

fun create_envelopes :: "controller_list \<Rightarrow> int \<Rightarrow> (string \<times> unit) list \<Rightarrow> (string, envelope) smap \<Rightarrow> (sequencer_error, (string, envelope) smap) result" where
  "create_envelopes ctrls t0 [] m = Inr m"
| "create_envelopes ctrls t0 ((n, _) # ns) m =
     (case map_find n m of
        Some _ \<Rightarrow> create_envelopes ctrls t0 ns m
      | None \<Rightarrow> rbind (get_midi_controllers ctrls n) (\<lambda>(coarse, fine).
          create_envelopes ctrls t0 ns (map_set n (new_envelope t0 \<lparr> controller_coarse := coarse, controller_fine := fine \<rparr>) m)))"

definition create_controller_envelopes :: "controller_list \<Rightarrow> int \<Rightarrow> sequencer \<Rightarrow> (sequencer_error, sequencer) result" where
  "create_controller_envelopes ctrls t0 s =
     rbind (internal_available_midi_controllers ctrls) (\<lambda>names.
     rbind (create_envelopes ctrls t0 names (controller_envelope s)) (\<lambda>m. Inr (s \<lparr> controller_envelope := m \<rparr>)))"

definition get_controller_envelope :: "string \<Rightarrow> sequencer \<Rightarrow> (sequencer_error, envelope) result" where
  "get_controller_envelope n s = (case map_find n (controller_envelope s) of None \<Rightarrow> Inl NoSuchController | Some e \<Rightarrow> Inr e)"

text \<open>The envelope to update is found by its address, which is here its key.\<close>

definition update_controller_envelope :: "string \<Rightarrow> envelope \<Rightarrow> sequencer \<Rightarrow> sequencer" where
  "update_controller_envelope original new_entry s =
     s \<lparr> controller_envelope := map (\<lambda>(n, e). (n, if n = original then env_set_to new_entry e else e)) (controller_envelope s) \<rparr>"

definition assign_pad_to_midi_controller :: "controller_list \<Rightarrow> bool \<Rightarrow> string \<Rightarrow> sequencer \<Rightarrow> sequencer option" where
  "assign_pad_to_midi_controller ctrls y_axis n s =
     (case (case get_midi_controllers ctrls n of Inl _ \<Rightarrow> (-1, -1) | Inr cf \<Rightarrow> cf) of (coarse, fine) \<Rightarrow>
        let axis = (if y_axis then 0 else 1); p = sq_pad s in
        Option.bind (set_coarse_controller axis coarse (config p)) (\<lambda>c1. Option.bind (set_fine_controller axis fine c1) (\<lambda>c2.
          Some (s \<lparr> sq_pad := p \<lparr> config := c2 \<rparr> \<rparr>))))"

definition arpeggio_pattern_id_list :: "string list" where
  "arpeggio_pattern_id_list = map (\<lambda>k. ''built-in #'' @ show_nat k) [0..<MAX_BUILTIN_ARP_PATTERNS]"

definition set_pad_arpeggio_pattern :: "string \<Rightarrow> sequencer \<Rightarrow> sequencer" where
  "set_pad_arpeggio_pattern identity s =
     (let i = fold (\<lambda>k r. if arpeggio_pattern_id_list ! k = identity then int k else r) [0..<length arpeggio_pattern_id_list] (-1);
          p = sq_pad s; c = (if i = -1 then set_arpeggio_direction arp_off (config p) else config p)
      in s \<lparr> sq_pad := p \<lparr> config := set_arpeggio_pattern i c \<rparr> \<rparr>)"

definition set_pad_arpeggio_direction :: "arp_direction \<Rightarrow> sequencer \<Rightarrow> sequencer" where
  "set_pad_arpeggio_direction d s = s \<lparr> sq_pad := (sq_pad s) \<lparr> config := set_arpeggio_direction d (config (sq_pad s)) \<rparr> \<rparr>"

definition set_pad_chord_mode :: "chord_mode \<Rightarrow> sequencer \<Rightarrow> sequencer" where
  "set_pad_chord_mode c s = s \<lparr> sq_pad := (sq_pad s) \<lparr> config := set_chord_mode c (config (sq_pad s)) \<rparr> \<rparr>"

section \<open>Creating and destroying\<close>

definition blank_sequencer :: "string \<Rightarrow> nat \<Rightarrow> pad \<Rightarrow> sequencer" where
  "blank_sequencer sibling n p =
     \<lparr> current_loop = None, sq_mute = False, sibling_name = sibling, loop_store = replicate n None,
        last_free_loop_store_position = 0, loop_sequence = [], sq_pad = p, controller_envelope = [] \<rparr>"

definition put_sequencer :: "sequencer \<Rightarrow> studio \<Rightarrow> nat \<times> studio" where
  "put_sequencer s st =
     (sequencers_top st, st \<lparr> sequencers := (sequencers st)(sequencers_top st := s), sequencers_top := Suc (sequencers_top st) \<rparr>)"

text \<open>\<open>cfg\<close> is the memory the configuration of the pad is built in.\<close>

definition new_sequencer :: "pad_configuration \<Rightarrow> int \<Rightarrow> controller_list \<Rightarrow> string \<Rightarrow> studio \<Rightarrow> (sequencer_error, nat \<times> studio) result" where
  "new_sequencer cfg t0 ctrls name_root st =
     rbind (create_controller_envelopes ctrls t0 (blank_sequencer name_root 0 (new_pad cfg))) (\<lambda>s.
       case put_sequencer (prep_empty_loop_sequence (sequence_length st)
              (s \<lparr> loop_store := replicate MACHINE_SEQUENCER_INITIAL_SEQUENCE_LENGTH None \<rparr>)) st of
         (this, st1) \<Rightarrow> rbind (internal_add_new_loop this st1) (\<lambda>(_, st2). Inr (this, st2)))"

text \<open>The connection of the two machines is that of the network of machines.\<close>

definition create_sequencer_for_machine ::
  "pad_configuration \<Rightarrow> int \<Rightarrow> controller_list \<Rightarrow> nat \<Rightarrow> string \<Rightarrow> bool \<Rightarrow> studio \<Rightarrow> (sequencer_error, studio) result" where
  "create_sequencer_for_machine cfg t0 ctrls sibling sname midi_input_found st =
     (if \<not> midi_input_found then Inr st
      else if map_find sibling (machine2sequencer st) \<noteq> None then Inl AlreadySequenced
      else rbind (new_sequencer cfg t0 ctrls sname st) (\<lambda>(this, st1).
        Inr (st1 \<lparr> machine2sequencer := map_set sibling this (machine2sequencer st1) \<rparr>)))"

definition get_sequencer_for_machine :: "nat \<Rightarrow> studio \<Rightarrow> nat option" where
  "get_sequencer_for_machine m st = fold (\<lambda>(k, i) r. if k = m then Some i else r) (machine2sequencer st) None"

fun unmap_first :: "nat \<Rightarrow> (nat, nat) smap \<Rightarrow> (nat, nat) smap" where
  "unmap_first this [] = []"
| "unmap_first this ((m, i) # ms) = (if i = this then ms else (m, i) # unmap_first this ms)"

definition delete_sequencer :: "nat \<Rightarrow> studio \<Rightarrow> studio" where
  "delete_sequencer this st = st \<lparr> machine2sequencer := unmap_first this (machine2sequencer st) \<rparr>"

definition set_mute :: "bool \<Rightarrow> sequencer \<Rightarrow> sequencer" where
  "set_mute m s = s \<lparr> sq_mute := m \<rparr>"

section \<open>Saving and loading\<close>

text \<open>The element of a sequencer by the tags of its children: they are looked up by tag, in order.\<close>

record sequencer_xml =
  sx_siblingmachine :: string
  sx_loop :: "kxml list"
  sx_sequence :: kxml
  sx_pad :: kxml
  sx_envelope :: "envelope_xml list"

fun get_loops_xml :: "nat \<Rightarrow> nat option list \<Rightarrow> studio \<Rightarrow> (sequencer_error, kxml list) result" where
  "get_loops_xml k [] st = Inr []"
| "get_loops_xml k (None # ls) st = get_loops_xml (Suc k) ls st"
| "get_loops_xml k (Some l # ls) st =
     (case get_loop_xml (int k) (loops st l, loop_heap st) of
        Inl e \<Rightarrow> Inl (LoopFault e)
      | Inr x \<Rightarrow> rbind (get_loops_xml (Suc k) ls st) (\<lambda>xs. Inr (x # xs)))"

definition get_loop_sequence_xml :: "sequencer \<Rightarrow> kxml" where
  "get_loop_sequence_xml s =
     KXML [] (map (\<lambda>k. (''entry'', KXML [(''pos'', int k), (''id'', internal_get_loop_id_at (int k) s)] []))
       (filter (\<lambda>k. internal_get_loop_id_at (int k) s \<noteq> NOTE_NOT_SET) [0..<length (loop_sequence s)]))"

definition get_descriptive_xml :: "sequencer \<Rightarrow> studio \<Rightarrow> (sequencer_error, sequencer_xml) result" where
  "get_descriptive_xml s st =
     (if sibling_name s = [] then Inl NoSibling
      else rbind (get_loops_xml 0 (loop_store s) st) (\<lambda>ls.
        case get_pad_xml (sq_pad s) of
          Inl e \<Rightarrow> Inl (PadFault e)
        | Inr px \<Rightarrow> Inr \<lparr> sx_siblingmachine = sibling_name s, sx_loop = ls, sx_sequence = get_loop_sequence_xml s, sx_pad = px,
            sx_envelope = map (\<lambda>(n, e). write_to_xml n e) (controller_envelope s) \<rparr>))"

definition max_loop_id :: "kxml list \<Rightarrow> int" where
  "max_loop_id xs = fold (\<lambda>x m. if KXML_GET_NUMBER x ''id'' (-1) > m then KXML_GET_NUMBER x ''id'' (-1) else m) xs (-1)"

text \<open>An index outside the store is written to all the same.\<close>

definition load_loop_into :: "nat \<Rightarrow> kxml \<Rightarrow> studio \<Rightarrow> (sequencer_error, studio) result" where
  "load_loop_into this x st =
     (let loop_id = KXML_GET_NUMBER x ''id'' (-1); s = sequencers st this in
      if loop_id = -1 then Inr st
      else case load_loop x (loop_heap st) of
        Inl e \<Rightarrow> Inl (LoopFault e)
      | Inr (l, h) \<Rightarrow>
          if \<not> (0 \<le> loop_id \<and> loop_id < int (length (loop_store s))) then Inl OutsideStore
          else case create_loop st of (i, st1) \<Rightarrow>
            Inr (upd_sequencer this (\<lambda>s. s \<lparr> loop_store := (loop_store s)[nat loop_id := Some i],
                last_free_loop_store_position := max (last_free_loop_store_position s) loop_id \<rparr>) (upd_loop i l h st1)))"

fun load_loops :: "nat \<Rightarrow> kxml list \<Rightarrow> studio \<Rightarrow> (sequencer_error, studio) result" where
  "load_loops this [] st = Inr st"
| "load_loops this (x # xs) st = rbind (load_loop_into this x st) (load_loops this xs)"

fun load_entries :: "nat \<Rightarrow> kxml list \<Rightarrow> studio \<Rightarrow> (sequencer_error, studio) result" where
  "load_entries this [] st = Inr st"
| "load_entries this (x # xs) st =
     (let pos = KXML_GET_NUMBER x ''pos'' (-1); i = KXML_GET_NUMBER x ''id'' (-1) in
      if pos \<noteq> -1 \<and> i \<noteq> -1 then
        (case internal_set_loop_id_at this pos i st of (Some e, _) \<Rightarrow> Inl e | (None, st1) \<Rightarrow> load_entries this xs st1)
      else load_entries this xs st)"

definition load_envelopes :: "int \<Rightarrow> envelope_xml list \<Rightarrow> (string, envelope) smap \<Rightarrow> (string, envelope) smap" where
  "load_envelopes t0 xs m = fold (\<lambda>x m. case read_from_xml x (new_envelope t0) of (i, nc) \<Rightarrow> map_set i nc (map_erase i m)) xs m"

definition loop_store_size_for :: "kxml list \<Rightarrow> nat" where
  "loop_store_size_for xs =
     (if int MACHINE_SEQUENCER_INITIAL_SEQUENCE_LENGTH > max_loop_id xs then MACHINE_SEQUENCER_INITIAL_SEQUENCE_LENGTH
      else nat (max_loop_id xs))"

definition load_sequencer ::
  "int \<Rightarrow> pad_motion \<Rightarrow> pad_configuration \<Rightarrow> int \<Rightarrow> sequencer_xml \<Rightarrow> studio \<Rightarrow> (sequencer_error, nat \<times> studio) result" where
  "load_sequencer level mem cfg t0 x st =
     (case put_sequencer (blank_sequencer (sx_siblingmachine x) (loop_store_size_for (sx_loop x))
             (load_pad_from_xml level mem (sx_pad x) (new_pad cfg))) st of
        (this, st0) \<Rightarrow>
          rbind (load_loops this (sx_loop x) st0) (\<lambda>st1.
          rbind (load_entries this (xml_elements (sx_sequence x) ''entry'')
              (upd_sequencer this (\<lambda>s. prep_empty_loop_sequence (sequence_length st1)
                (s \<lparr> last_free_loop_store_position := last_free_loop_store_position s + 1 \<rparr>)) st1)) (\<lambda>st2.
            Inr (this, upd_sequencer this (\<lambda>s. s \<lparr> controller_envelope := load_envelopes t0 (sx_envelope x) (controller_envelope s) \<rparr>) st2))))"

definition presetup_from_xml ::
  "int \<Rightarrow> pad_motion \<Rightarrow> pad_configuration \<Rightarrow> int \<Rightarrow> sequencer_xml \<Rightarrow> studio \<Rightarrow> (sequencer_error, studio) result" where
  "presetup_from_xml level mem cfg t0 x st =
     rbind (load_sequencer level mem cfg t0 x st) (\<lambda>(this, st1).
       Inr (st1 \<lparr> machine_from_xml_cache := machine_from_xml_cache st1 @ [this] \<rparr>))"

text \<open>\<open>get_by_name\<close> gives the machine of a name and its controllers.\<close>

fun finalize_sequencers :: "(string \<Rightarrow> (nat \<times> controller_list) option) \<Rightarrow> int \<Rightarrow> nat list \<Rightarrow> studio \<Rightarrow> (sequencer_error, studio) result" where
  "finalize_sequencers get_by_name t0 [] st = Inr st"
| "finalize_sequencers get_by_name t0 (this # ms) st =
     (case get_by_name (sibling_name (sequencers st this)) of
        None \<Rightarrow> Inl NoSibling
      | Some (sibling, ctrls) \<Rightarrow>
          rbind (create_controller_envelopes ctrls t0 (sequencers st this)) (\<lambda>s.
            finalize_sequencers get_by_name t0 ms
              (upd_sequencer this (\<lambda>_. s) (st \<lparr> machine2sequencer := map_set sibling this (machine2sequencer st) \<rparr>))))"

definition finalize_xml_initialization :: "(string \<Rightarrow> (nat \<times> controller_list) option) \<Rightarrow> int \<Rightarrow> studio \<Rightarrow> (sequencer_error, studio) result" where
  "finalize_xml_initialization get_by_name t0 st =
     rbind (finalize_sequencers get_by_name t0 (machine_from_xml_cache st) st) (\<lambda>st1.
       Inr (set_sequence_length (sequence_length st1) (st1 \<lparr> machine_from_xml_cache := [] \<rparr>)))"

end
