(* ===== verification/Id_Allocator.thy ===== *)
theory Id_Allocator
  imports VK_Prelude
begin

text \<open>
  The two allocators of common.hh.

  \<open>IDAllocator\<close> hands out 32-bit identifiers: the smallest freed one, or the next unused
  number. Its set of available identifiers is a strictly increasing list, as iteration over
  \<open>std::set\<close> sees it. \<open>id_provider\<close> is the contract its clients rely on.

  \<open>ObjectAllocator\<close> keeps its objects in a \<open>std::vector\<close> and hands out pointers into it. A
  pointer is modelled by the buffer it points into and an index; \<open>push_back\<close> moves the
  objects to a new buffer when the capacity is used up, which the model counts.
\<close>

section \<open>IDAllocator\<close>

datatype id_error = IDFreedTwice

record id_allocator =
  available_ids :: "32 word list"
  total_amount :: "32 word"

definition new_id_allocator :: "32 word \<Rightarrow> id_allocator" where
  "new_id_allocator initial_size =
     \<lparr> available_ids = map word_of_nat [0 ..< unat initial_size], total_amount = initial_size \<rparr>"

definition get_id :: "id_allocator \<Rightarrow> 32 word \<times> id_allocator" where
  "get_id a =
     (case available_ids a of
        i # is \<Rightarrow> (i, a \<lparr> available_ids := is \<rparr>)
      | [] \<Rightarrow> (total_amount a, a \<lparr> total_amount := total_amount a + 1 \<rparr>))"

definition free_id :: "32 word \<Rightarrow> id_allocator \<Rightarrow> (id_error, id_allocator) result" where
  "free_id i a =
     (if i \<in> set (available_ids a) then Inl IDFreedTwice
      else Inr (a \<lparr> available_ids := insort i (available_ids a) \<rparr>))"

text \<open>The allocator is consistent with the set of identifiers in use.\<close>

definition id_inv :: "id_allocator \<Rightarrow> 32 word set \<Rightarrow> bool" where
  "id_inv a live \<longleftrightarrow>
     sorted (available_ids a) \<and> distinct (available_ids a) \<and>
     set (available_ids a) \<inter> live = {} \<and>
     set (available_ids a) \<union> live = {i. i < total_amount a}"

definition id_room :: "id_allocator \<Rightarrow> bool" where
  "id_room a \<longleftrightarrow> available_ids a \<noteq> [] \<or> total_amount a \<noteq> - 1"

section \<open>The contract of an identifier provider\<close>

locale id_provider =
  fixes get :: "'s \<Rightarrow> 'i \<times> 's"
    and free :: "'i \<Rightarrow> 's \<Rightarrow> ('e, 's) result"
    and inv :: "'s \<Rightarrow> 'i set \<Rightarrow> bool"
    and room :: "'s \<Rightarrow> bool"
  assumes get_fresh: "inv s live \<Longrightarrow> fst (get s) \<notin> live"
    and get_inv: "inv s live \<Longrightarrow> room s \<Longrightarrow> inv (snd (get s)) (insert (fst (get s)) live)"
    and free_live: "inv s live \<Longrightarrow> i \<in> live \<Longrightarrow> \<exists>s'. free i s = Inr s' \<and> inv s' (live - {i})"
begin

fun get_many :: "nat \<Rightarrow> 's \<Rightarrow> 'i list \<times> 's" where
  "get_many 0 s = ([], s)"
| "get_many (Suc n) s = (case get s of (i, s') \<Rightarrow> case get_many n s' of (is, s'') \<Rightarrow> (i # is, s''))"

fun rooms :: "nat \<Rightarrow> 's \<Rightarrow> bool" where
  "rooms 0 s = True"
| "rooms (Suc n) s = (room s \<and> rooms n (snd (get s)))"

lemma get_many_fresh:
  assumes "inv s live" "rooms n s" "get_many n s = (is, s')"
  shows "distinct is \<and> set is \<inter> live = {} \<and> inv s' (set is \<union> live)"
  using assms
proof (induction n arbitrary: s live "is")
  case (Suc n)
  obtain i s1 where g: "get s = (i, s1)" by fastforce
  obtain js where m: "get_many n s1 = (js, s')" "is = i # js"
    using Suc.prems g by (auto split: prod.splits)
  have "inv s1 (insert i live)" "i \<notin> live"
    using get_inv [of s live] get_fresh [of s live] Suc.prems g by auto
  with Suc.IH [of s1 "insert i live" js] m g Suc.prems show ?case
    by auto
qed simp

fun free_all :: "'i list \<Rightarrow> 's \<Rightarrow> ('e, 's) result" where
  "free_all [] s = Inr s"
| "free_all (i # is) s = rbind (free i s) (free_all is)"

lemma free_all_live:
  "inv s live \<Longrightarrow> distinct is \<Longrightarrow> set is \<subseteq> live \<Longrightarrow>
     \<exists>s'. free_all is s = Inr s' \<and> inv s' (live - set is)"
proof (induction "is" arbitrary: s live)
  case (Cons i "is")
  then obtain s1 where s1: "free i s = Inr s1" "inv s1 (live - {i})"
    using free_live [of s live i] by auto
  then show ?case
    using Cons.IH [of s1 "live - {i}"] Cons.prems
    by (auto simp: Diff_insert2 [symmetric] subset_eq)
qed simp

end

section \<open>IDAllocator is an identifier provider\<close>

lemma new_id_allocator_inv: "id_inv (new_id_allocator n) {}"
proof -
  let ?ids = "map word_of_nat [0 ..< unat n] :: 32 word list"
  have u: "k < unat n \<Longrightarrow> unat (word_of_nat k :: 32 word) = k" for k
    using unsigned_less [of n, where ?'a = nat] by (simp add: unsigned_of_nat take_bit_nat_eq_self)
  have "sorted ?ids" "distinct ?ids"
    using u by (auto simp: sorted_iff_nth_mono word_le_nat_alt distinct_map intro!: inj_onI) (metis u)
  moreover have "set ?ids = {i. i < n}"
  proof (rule set_eqI)
    fix x :: "32 word"
    have "x = word_of_nat (unat x)" by simp
    then show "x \<in> set ?ids \<longleftrightarrow> x \<in> {i. i < n}"
      using u by (auto simp: word_less_nat_alt intro: rev_image_eqI [of "unat x"])
  qed
  ultimately show ?thesis
    by (simp add: id_inv_def new_id_allocator_def)
qed

lemma total_amount_succ:
  assumes "(t :: 32 word) \<noteq> - 1"
  shows "{i. i < t + 1} = insert t {i. i < t}"
proof -
  have "t < t + 1" using assms inc_less_eq_self_iff_eq [of t] by (simp add: not_le [symmetric])
  then show ?thesis
    using less_inc_imp_less_eq [of _ t] by (auto simp: le_less)
qed

interpretation ids: id_provider get_id free_id id_inv id_room
proof
  fix a :: id_allocator and live
  assume inv: "id_inv a live"
  show "fst (get_id a) \<notin> live"
  proof (cases "available_ids a")
    case Nil
    with inv have "live = {i. i < total_amount a}" by (simp add: id_inv_def)
    with Nil show ?thesis by (simp add: get_id_def)
  next
    case (Cons i "is")
    with inv show ?thesis by (auto simp: get_id_def id_inv_def)
  qed
  assume "id_room a"
  with inv show "id_inv (snd (get_id a)) (insert (fst (get_id a)) live)"
    by (cases "available_ids a")
      (auto simp: get_id_def id_inv_def id_room_def total_amount_succ)
next
  fix a :: id_allocator and live i
  assume "id_inv a live" "i \<in> live"
  then show "\<exists>s'. free_id i a = Inr s' \<and> id_inv s' (live - {i})"
    by (auto simp: free_id_def id_inv_def set_insort_key distinct_insort sorted_insort)
qed

lemma free_id_twice:
  assumes "free_id i a = Inr a'"
  shows "free_id i a' = Inl IDFreedTwice"
  using assms by (auto simp: free_id_def set_insort_key split: if_splits)

section \<open>ObjectAllocator\<close>

text \<open>The capacity of the vector doubles when it is used up, as in libstdc++ and libc++.\<close>

record 'a object_allocator =
  allocated_objects :: "'a list"
  vector_buffer :: nat
  vector_capacity :: nat
  free_objects :: "(nat \<times> nat) list"

definition new_object_allocator :: "'a object_allocator" where
  "new_object_allocator =
     \<lparr> allocated_objects = [], vector_buffer = 0, vector_capacity = 0, free_objects = [] \<rparr>"

definition vector_push_back :: "'a \<Rightarrow> 'a object_allocator \<Rightarrow> 'a object_allocator" where
  "vector_push_back new_obj a =
     (if length (allocated_objects a) < vector_capacity a
      then a \<lparr> allocated_objects := allocated_objects a @ [new_obj] \<rparr>
      else a \<lparr> allocated_objects := allocated_objects a @ [new_obj],
               vector_buffer := vector_buffer a + 1,
               vector_capacity := max 1 (2 * vector_capacity a) \<rparr>)"

definition allocate :: "'a \<Rightarrow> 'a object_allocator \<Rightarrow> (nat \<times> nat) \<times> 'a object_allocator" where
  "allocate new_obj a =
     (case free_objects a of
        obj # stack \<Rightarrow> (obj, a \<lparr> free_objects := stack \<rparr>)
      | [] \<Rightarrow> (let last_index = length (allocated_objects a); a' = vector_push_back new_obj a
              in ((vector_buffer a', last_index), a')))"

definition recycle :: "nat \<times> nat \<Rightarrow> 'a object_allocator \<Rightarrow> 'a object_allocator" where
  "recycle obj a = a \<lparr> free_objects := obj # free_objects a \<rparr>"

text \<open>A pointer may be dereferenced when it points into the current buffer.\<close>

definition valid_object :: "'a object_allocator \<Rightarrow> nat \<times> nat \<Rightarrow> bool" where
  "valid_object a p \<longleftrightarrow> fst p = vector_buffer a \<and> snd p < length (allocated_objects a)"

lemma allocate_recycle: "allocate n (recycle p a) = (p, a)"
  by (simp add: allocate_def recycle_def)

lemma allocate_fresh:
  assumes "free_objects a = []" "allocate n a = (p, a')"
  shows "valid_object a' p" "\<not> valid_object a p" "allocated_objects a' ! snd p = n"
  using assms by (auto simp: allocate_def vector_push_back_def valid_object_def Let_def)

lemma allocate_in_capacity:
  assumes "length (allocated_objects a) < vector_capacity a" "valid_object a q"
  shows "valid_object (snd (allocate n a)) q"
  using assms
  by (auto simp: allocate_def vector_push_back_def valid_object_def Let_def split: list.split)

text \<open>When the capacity is used up, the next fresh allocation leaves every pointer handed out
  so far dangling.\<close>

lemma allocate_dangling:
  assumes "vector_capacity a \<le> length (allocated_objects a)" "free_objects a = []" "valid_object a q"
  shows "\<not> valid_object (snd (allocate n a)) q"
  using assms by (auto simp: allocate_def vector_push_back_def valid_object_def Let_def)

section \<open>Properties\<close>

text \<open>C24: as long as the 32-bit counter does not wrap, any number of identifiers taken from an
  allocator are pairwise distinct and distinct from those in use, and all of them can be freed
  again without \<open>IDFreedTwice\<close>, in any order.\<close>

theorem ids_fresh_and_freeable:
  assumes "id_inv a live" "ids.rooms n a" "ids.get_many n a = (is, a')" "mset js = mset is"
  shows "distinct is \<and> set is \<inter> live = {} \<and>
    (\<exists>a''. ids.free_all js a' = Inr a'' \<and> id_inv a'' live)"
proof -
  have g: "distinct is" "set is \<inter> live = {}" "id_inv a' (set is \<union> live)"
    using ids.get_many_fresh [OF assms(1-3)] by auto
  have j: "distinct js" "set js = set is"
    using assms(4) g(1) by (metis mset_eq_imp_distinct_iff, metis mset_eq_setD)
  from ids.free_all_live [OF g(3) j(1)] j obtain a'' where
    "ids.free_all js a' = Inr a''" "id_inv a'' ((set is \<union> live) - set is)"
    by auto
  moreover have "(set is \<union> live) - set is = live" using g(2) by auto
  ultimately show ?thesis using g by auto
qed

theorem ids_fresh_and_freeable_witness:
  "id_inv (new_id_allocator 2) {} \<and> fst (ids.get_many 3 (new_id_allocator 2)) = [0, 1, 2] \<and>
   (\<exists>a''. ids.free_all [2, 0, 1] (snd (ids.get_many 3 (new_id_allocator 2))) = Inr a'' \<and> id_inv a'' {})"
proof -
  have g: "ids.get_many 3 (new_id_allocator 2) = ([0, 1, 2], \<lparr> available_ids = [], total_amount = 3 \<rparr>)"
    by (simp add: numeral_3_eq_3 get_id_def new_id_allocator_def upt_rec)
  have r: "ids.rooms 3 (new_id_allocator 2)"
    by (simp add: numeral_3_eq_3 get_id_def new_id_allocator_def upt_rec id_room_def)
  from ids_fresh_and_freeable [OF new_id_allocator_inv r g, of "[2, 0, 1]"] g show ?thesis
    by (simp add: new_id_allocator_inv)
qed

text \<open>A pointer handed out by \<open>ObjectAllocator\<close> survives further allocations exactly while the
  vector has capacity left or recycled objects are at hand; the first allocation after that
  moves the objects and leaves every earlier pointer dangling.\<close>

theorem object_pointer_lifetime:
  assumes "valid_object a q"
  shows "valid_object (snd (allocate n a)) q \<longleftrightarrow>
    free_objects a \<noteq> [] \<or> length (allocated_objects a) < vector_capacity a"
proof (cases "free_objects a")
  case (Cons p ps)
  with assms show ?thesis by (simp add: allocate_def valid_object_def)
next
  case Nil
  with assms allocate_in_capacity [of a q n] allocate_dangling [of a q n] show ?thesis
    by (cases "length (allocated_objects a) < vector_capacity a") auto
qed

definition two_notes :: "nat object_allocator" where
  "two_notes = snd (allocate 8 (snd (allocate 7 new_object_allocator)))"

theorem object_pointer_lifetime_witness:
  "valid_object (snd (allocate 7 (new_object_allocator :: nat object_allocator))) (1, 0) \<and>
   \<not> valid_object two_notes (1, 0)"
proof -
  let ?a = "snd (allocate 7 (new_object_allocator :: nat object_allocator))"
  have v: "valid_object ?a (1, 0)" "free_objects ?a = []" "length (allocated_objects ?a) = vector_capacity ?a"
    by (simp_all add: allocate_def new_object_allocator_def vector_push_back_def valid_object_def Let_def)
  with object_pointer_lifetime [OF v(1), of 8] show ?thesis by (simp add: two_notes_def)
qed

end
