(* ===== verification/Sequence.thy ===== *)
theory Sequence
  imports Object_Message Linked_List Id_Allocator
begin

text \<open>
  The sequence object (engine_code/sequence.cc, sequence.hh): patterns of notes by identifier,
  the instances of patterns on the time line, the requests the server serves and the commands it
  sends to every client, and the text a client is created from.

  A pattern and its notes are values here; that a pointer of \<open>ObjectAllocator\<close> stays valid only
  while the vector has capacity is the subject of Id_Allocator. \<open>machine_operation_enqueue\<close> runs
  its operation to the end before it returns, so an operation is a function of the state.
  Identifiers are \<open>uint32_t\<close>, and \<open>stop_at - start_at\<close> is computed on \<open>int\<close>, where an overflow has no
  defined result.
\<close>

section \<open>Data\<close>

record pattern_instance =
  inst_pattern_id :: nat
  start_at :: int
  loop_length :: int
  stop_at :: int

record seq_note =
  channel :: int
  program :: int
  velocity :: int
  note_key :: int
  on_at :: int
  note_length :: int

record seq_pattern =
  pattern_id :: nat
  pattern_name :: string
  note_list :: "seq_note list"

record sequence =
  patterns :: "(nat, seq_pattern) smap"
  instance_list :: "pattern_instance list"
  sequence_name :: string

definition instance_eq :: "pattern_instance \<Rightarrow> pattern_instance \<Rightarrow> bool" where
  "instance_eq p rhs \<longleftrightarrow>
     (let a = inst_pattern_id p = inst_pattern_id rhs;
          b = start_at p = start_at rhs;
          c = start_at p = start_at rhs;
          d = stop_at p = stop_at rhs
      in a \<and> b \<and> c \<and> d)"

definition instance_less :: "pattern_instance \<Rightarrow> pattern_instance \<Rightarrow> bool" where
  "instance_less p rhs \<longleftrightarrow> start_at p < start_at rhs"

definition note_eq :: "seq_note \<Rightarrow> seq_note \<Rightarrow> bool" where
  "note_eq n rhs \<longleftrightarrow>
     (let a = channel n = channel rhs;
          b = program n = program rhs;
          c = velocity n = velocity rhs;
          d = note_key n = note_key rhs;
          e = on_at n = on_at rhs;
          f = note_length n = note_length rhs
      in a \<and> b \<and> c \<and> d \<and> e \<and> f)"

definition note_less :: "seq_note \<Rightarrow> seq_note \<Rightarrow> bool" where
  "note_less n rhs \<longleftrightarrow> on_at n < on_at rhs"

section \<open>Processing, on both sides\<close>

definition new_sequence :: sequence where
  "new_sequence = \<lparr> patterns = [], instance_list = [], sequence_name = [] \<rparr>"

definition process_add_pattern :: "string \<Rightarrow> nat \<Rightarrow> sequence \<Rightarrow> sequence" where
  "process_add_pattern new_name new_id s =
     (let ptrn = \<lparr> pattern_id = new_id, pattern_name = new_name, note_list = [] \<rparr>
      in s \<lparr> patterns := map_set (pattern_id ptrn) ptrn (patterns s) \<rparr>)"

definition process_del_pattern :: "nat \<Rightarrow> sequence \<Rightarrow> bool \<times> sequence" where
  "process_del_pattern pid s =
     (case map_find pid (patterns s) of
        Some _ \<Rightarrow> (True, s \<lparr> patterns := map_erase pid (patterns s) \<rparr>)
      | None \<Rightarrow> (False, s))"

definition instance_overlap :: "pattern_instance \<Rightarrow> int \<Rightarrow> int \<Rightarrow> bool" where
  "instance_overlap pin sta sto \<longleftrightarrow>
     start_at pin \<ge> sta \<and> start_at pin \<le> sto \<or> stop_at pin \<ge> sta \<and> stop_at pin \<le> sto"

definition process_add_pattern_instance :: "pattern_instance \<Rightarrow> sequence \<Rightarrow> bool \<times> sequence" where
  "process_add_pattern_instance p s =
     (if stop_at p - start_at p \<le> 0 then (False, s)
      else case map_find (inst_pattern_id p) (patterns s) of
        None \<Rightarrow> (False, s)
      | Some _ \<Rightarrow>
          if fold (\<lambda>pin did_overlap. if instance_overlap pin (start_at p) (stop_at p) then True else did_overlap)
               (instance_list s) False
          then (False, s)
          else (True, s \<lparr> instance_list := insert_element instance_less p (instance_list s) \<rparr>))"

definition process_del_pattern_instance :: "pattern_instance \<Rightarrow> sequence \<Rightarrow> sequence" where
  "process_del_pattern_instance p s =
     s \<lparr> instance_list := snd (drop_element (\<lambda>pin. instance_eq pin p) (instance_list s)) \<rparr>"

definition process_add_note :: "nat \<Rightarrow> seq_note \<Rightarrow> sequence \<Rightarrow> sequence" where
  "process_add_note pid new_note s =
     (case map_find pid (patterns s) of
        None \<Rightarrow> s
      | Some ptrn \<Rightarrow>
          s \<lparr> patterns := map_set pid
            (ptrn \<lparr> note_list := insert_element note_less new_note (note_list ptrn) \<rparr>) (patterns s) \<rparr>)"

definition process_delete_note :: "nat \<Rightarrow> seq_note \<Rightarrow> sequence \<Rightarrow> sequence" where
  "process_delete_note pid n s =
     (case map_find pid (patterns s) of
        None \<Rightarrow> s
      | Some ptrn \<Rightarrow>
          s \<lparr> patterns := map_set pid
            (ptrn \<lparr> note_list := snd (drop_element (\<lambda>x. note_eq x n) (note_list ptrn)) \<rparr>) (patterns s) \<rparr>)"

section \<open>Fields of the messages\<close>

definition get_int :: "string \<Rightarrow> message \<Rightarrow> (msg_error, int) result" where
  "get_int k msg = rbind (get_value k msg) (\<lambda>v. Inr (stoi v))"

definition get_uint :: "string \<Rightarrow> message \<Rightarrow> (msg_error, nat) result" where
  "get_uint k msg = rbind (get_value k msg) (\<lambda>v. Inr (stoul v))"

definition read_instance :: "message \<Rightarrow> (msg_error, pattern_instance) result" where
  "read_instance msg =
     rbind (get_uint ''pattern_id'' msg) (\<lambda>pid.
     rbind (get_int ''start_at'' msg) (\<lambda>sta.
     rbind (get_int ''loop_length'' msg) (\<lambda>ll.
     rbind (get_int ''stop_at'' msg) (\<lambda>sto.
       Inr \<lparr> inst_pattern_id = pid, start_at = sta, loop_length = ll, stop_at = sto \<rparr>))))"

definition read_note :: "message \<Rightarrow> (msg_error, seq_note) result" where
  "read_note msg =
     rbind (get_int ''channel'' msg) (\<lambda>ch.
     rbind (get_int ''program'' msg) (\<lambda>pr.
     rbind (get_int ''velocity'' msg) (\<lambda>ve.
     rbind (get_int ''note'' msg) (\<lambda>no.
     rbind (get_int ''on_at'' msg) (\<lambda>oa.
     rbind (get_int ''length'' msg) (\<lambda>le.
       Inr \<lparr> channel = ch, program = pr, velocity = ve, note_key = no, on_at = oa, note_length = le \<rparr>))))))"

definition instance_fields :: "pattern_instance \<Rightarrow> (string \<times> string) list" where
  "instance_fields p =
     [(''pattern_id'', show_nat (inst_pattern_id p)), (''start_at'', show_int (start_at p)),
      (''loop_length'', show_int (loop_length p)), (''stop_at'', show_int (stop_at p))]"

definition note_fields :: "seq_note \<Rightarrow> (string \<times> string) list" where
  "note_fields n =
     [(''channel'', show_int (channel n)), (''program'', show_int (program n)),
      (''velocity'', show_int (velocity n)), (''note'', show_int (note_key n)),
      (''on_at'', show_int (on_at n)), (''length'', show_int (note_length n))]"

section \<open>The server side\<close>

datatype seq_error = SeqMsg msg_error | SeqId id_error

record seq_server =
  srv_seq :: sequence
  pattern_id_allocator :: id_allocator
  srv_obj_id :: int

text \<open>What a handler does: the message for every client, if it sends one, or the exception it
  leaves with, and the state it leaves behind in both cases.\<close>

type_synonym seq_reply = "(seq_error, message option) result \<times> seq_server"

definition send_command :: "string \<Rightarrow> (string \<times> string) list \<Rightarrow> seq_server \<Rightarrow> seq_reply" where
  "send_command cmd kvs s =
     (case send_message (srv_obj_id s) cmd kvs of
        Inl e \<Rightarrow> (Inl (SeqMsg e), s)
      | Inr m \<Rightarrow> (Inr (Some m), s))"

definition with_fields :: "(msg_error, 'a) result \<Rightarrow> ('a \<Rightarrow> seq_reply) \<Rightarrow> seq_server \<Rightarrow> seq_reply" where
  "with_fields r f s = (case r of Inl e \<Rightarrow> (Inl (SeqMsg e), s) | Inr a \<Rightarrow> f a)"

definition handle_req_add_pattern :: "seq_server \<Rightarrow> message \<Rightarrow> seq_reply" where
  "handle_req_add_pattern s msg =
     with_fields (get_value ''name'' msg) (\<lambda>new_name.
       (let (i, a) = get_id (pattern_id_allocator s); new_id = unat i in
        send_command ''cmd_add_ptrn'' [(''pattern_id'', show_nat new_id), (''name'', new_name)]
          (s \<lparr> pattern_id_allocator := a, srv_seq := process_add_pattern new_name new_id (srv_seq s) \<rparr>))) s"

definition handle_req_del_pattern :: "seq_server \<Rightarrow> message \<Rightarrow> seq_reply" where
  "handle_req_del_pattern s msg =
     with_fields (get_uint ''pattern_id'' msg) (\<lambda>pid.
       (case process_del_pattern pid (srv_seq s) of
          (False, q) \<Rightarrow> (Inr None, s \<lparr> srv_seq := q \<rparr>)
        | (True, q) \<Rightarrow>
            (case free_id (word_of_nat pid) (pattern_id_allocator s) of
               Inl e \<Rightarrow> (Inl (SeqId e), s \<lparr> srv_seq := q \<rparr>)
             | Inr a \<Rightarrow> send_command ''cmd_del_ptrn'' [(''pattern_id'', show_nat pid)]
                 (s \<lparr> srv_seq := q, pattern_id_allocator := a \<rparr>)))) s"

definition handle_req_add_pattern_instance :: "seq_server \<Rightarrow> message \<Rightarrow> seq_reply" where
  "handle_req_add_pattern_instance s msg =
     with_fields (read_instance msg) (\<lambda>p.
       (case process_add_pattern_instance p (srv_seq s) of
          (False, q) \<Rightarrow> (Inr None, s \<lparr> srv_seq := q \<rparr>)
        | (True, q) \<Rightarrow> send_command ''cmd_add_ptrn_inst'' (instance_fields p) (s \<lparr> srv_seq := q \<rparr>))) s"

definition handle_req_del_pattern_instance :: "seq_server \<Rightarrow> message \<Rightarrow> seq_reply" where
  "handle_req_del_pattern_instance s msg =
     with_fields (read_instance msg) (\<lambda>p.
       send_command ''cmd_del_ptrn_inst'' (instance_fields p)
         (s \<lparr> srv_seq := process_del_pattern_instance p (srv_seq s) \<rparr>)) s"

definition handle_req_add_note :: "seq_server \<Rightarrow> message \<Rightarrow> seq_reply" where
  "handle_req_add_note s msg =
     with_fields (rbind (get_uint ''pattern_id'' msg) (\<lambda>pid. rbind (read_note msg) (\<lambda>n. Inr (pid, n)))) (\<lambda>(pid, n).
       send_command ''cmd_add_note'' ((''pattern_id'', show_nat pid) # note_fields n)
         (s \<lparr> srv_seq := process_add_note pid n (srv_seq s) \<rparr>)) s"

text \<open>The handler announces the deletion of a note with the command for instances.\<close>

definition handle_req_del_note :: "seq_server \<Rightarrow> message \<Rightarrow> seq_reply" where
  "handle_req_del_note s msg =
     with_fields (rbind (read_note msg) (\<lambda>n. rbind (get_uint ''pattern_id'' msg) (\<lambda>pid. Inr (pid, n)))) (\<lambda>(pid, n).
       send_command ''cmd_del_ptrn_inst'' ((''pattern_id'', show_nat pid) # note_fields n)
         (s \<lparr> srv_seq := process_delete_note pid n (srv_seq s) \<rparr>)) s"

definition server_commands :: "(string \<times> (seq_server \<Rightarrow> message \<Rightarrow> seq_reply)) list" where
  "server_commands =
     [(''req_add_ptrn'', handle_req_add_pattern), (''req_del_ptrn'', handle_req_del_pattern),
      (''req_add_ptrn_inst'', handle_req_add_pattern_instance),
      (''req_del_ptrn_inst'', handle_req_del_pattern_instance),
      (''req_add_note'', handle_req_add_note), (''req_del_note'', handle_req_del_note)]"

section \<open>The client side\<close>

definition handle_cmd_add_pattern :: "sequence \<Rightarrow> message \<Rightarrow> (msg_error, sequence) result" where
  "handle_cmd_add_pattern s msg =
     rbind (get_value ''name'' msg) (\<lambda>new_name.
     rbind (get_uint ''pattern_id'' msg) (\<lambda>new_id. Inr (process_add_pattern new_name new_id s)))"

definition handle_cmd_del_pattern :: "sequence \<Rightarrow> message \<Rightarrow> (msg_error, sequence) result" where
  "handle_cmd_del_pattern s msg =
     rbind (get_uint ''pattern_id'' msg) (\<lambda>pid. Inr (snd (process_del_pattern pid s)))"

definition handle_cmd_add_pattern_instance :: "sequence \<Rightarrow> message \<Rightarrow> (msg_error, sequence) result" where
  "handle_cmd_add_pattern_instance s msg =
     rbind (read_instance msg) (\<lambda>p. Inr (snd (process_add_pattern_instance p s)))"

definition handle_cmd_del_pattern_instance :: "sequence \<Rightarrow> message \<Rightarrow> (msg_error, sequence) result" where
  "handle_cmd_del_pattern_instance s msg =
     rbind (read_instance msg) (\<lambda>to_del. Inr (process_del_pattern_instance to_del s))"

definition handle_cmd_add_note :: "sequence \<Rightarrow> message \<Rightarrow> (msg_error, sequence) result" where
  "handle_cmd_add_note s msg =
     rbind (get_uint ''pattern_id'' msg) (\<lambda>pid. rbind (read_note msg) (\<lambda>n. Inr (process_add_note pid n s)))"

definition handle_cmd_del_note :: "sequence \<Rightarrow> message \<Rightarrow> (msg_error, sequence) result" where
  "handle_cmd_del_note s msg =
     rbind (read_note msg) (\<lambda>n. rbind (get_uint ''pattern_id'' msg) (\<lambda>pid. Inr (process_delete_note pid n s)))"

definition client_commands :: "(string \<times> (sequence \<Rightarrow> message \<Rightarrow> (msg_error, sequence) result)) list" where
  "client_commands =
     [(''cmd_add_ptrn'', handle_cmd_add_pattern), (''cmd_del_ptrn'', handle_cmd_del_pattern),
      (''cmd_add_ptrn_inst'', handle_cmd_add_pattern_instance),
      (''cmd_del_ptrn_inst'', handle_cmd_del_pattern_instance),
      (''cmd_add_note'', handle_cmd_add_note), (''cmd_del_note'', handle_cmd_del_note)]"

definition add_pattern :: "int \<Rightarrow> string \<Rightarrow> (msg_error, message) result" where
  "add_pattern obj nm = send_message obj ''req_add_ptrn'' [(''name'', nm)]"

definition delete_pattern :: "int \<Rightarrow> nat \<Rightarrow> (msg_error, message) result" where
  "delete_pattern obj pid = send_message obj ''req_del_ptrn'' [(''id'', show_nat pid)]"

definition insert_pattern_in_sequence :: "int \<Rightarrow> nat \<Rightarrow> int \<Rightarrow> int \<Rightarrow> int \<Rightarrow> (msg_error, message) result" where
  "insert_pattern_in_sequence obj pid sta ll sto = send_message obj ''req_add_ptrn_inst''
     [(''id'', show_nat pid), (''start_at'', show_int sta), (''loop_length'', show_int ll), (''stop_at'', show_int sto)]"

definition delete_pattern_from_sequence :: "int \<Rightarrow> pattern_instance \<Rightarrow> (msg_error, message) result" where
  "delete_pattern_from_sequence obj p = send_message obj ''req_del_ptrn_inst''
     [(''id'', show_nat (inst_pattern_id p)), (''start_at'', show_int (start_at p)),
      (''loop_length'', show_int (loop_length p)), (''stop_at'', show_int (stop_at p))]"

definition add_note :: "int \<Rightarrow> nat \<Rightarrow> seq_note \<Rightarrow> (msg_error, message) result" where
  "add_note obj pid n = send_message obj ''req_add_note'' ((''id'', show_nat pid) # note_fields n)"

definition delete_note :: "int \<Rightarrow> nat \<Rightarrow> seq_note \<Rightarrow> (msg_error, message) result" where
  "delete_note obj pid n = send_message obj ''req_del_note'' ((''id'', show_nat pid) # note_fields n)"

definition get_pattern_ids :: "sequence \<Rightarrow> nat list" where
  "get_pattern_ids s = map (\<lambda>p. pattern_id (snd p)) (patterns s)"

definition get_sequence :: "sequence \<Rightarrow> pattern_instance list" where
  "get_sequence s = instance_list s"

definition get_notes :: "nat \<Rightarrow> sequence \<Rightarrow> seq_note list" where
  "get_notes pid s = (case map_find pid (patterns s) of None \<Rightarrow> [] | Some ptrn \<Rightarrow> note_list ptrn)"

text \<open>A client reads a message off the wire and hands it to the handler of its command; an
  exception of the handler leaves the object as it was.\<close>

definition client_receive :: "sequence \<Rightarrow> string \<Rightarrow> sequence" where
  "client_receive s wire =
     (case register_handlers client_commands [] of
        Inl _ \<Rightarrow> s
      | Inr command2function \<Rightarrow>
          (case read_message wire new_message of
             Inl _ \<Rightarrow> s
           | Inr (msg, _) \<Rightarrow>
               (case process_message command2function msg of
                  Inr (Some h) \<Rightarrow> (case h s msg of Inl _ \<Rightarrow> s | Inr s' \<Rightarrow> s')
                | _ \<Rightarrow> s)))"

text \<open>The server does the same with a request of a client.\<close>

definition server_process :: "seq_server \<Rightarrow> message \<Rightarrow> seq_reply" where
  "server_process s msg =
     (case register_handlers server_commands [] of
        Inl _ \<Rightarrow> (Inr None, s)
      | Inr command2function \<Rightarrow>
          (case process_message command2function msg of
             Inl e \<Rightarrow> (Inl (SeqMsg e), s)
           | Inr None \<Rightarrow> (Inr None, s)
           | Inr (Some h) \<Rightarrow> h s msg))"

section \<open>The text of a sequence\<close>

definition ser_note :: "seq_note \<Rightarrow> string" where
  "ser_note n = ser_int (channel n) @ ser_int (program n) @ ser_int (velocity n) @ ser_int (note_key n) @
     ser_int (on_at n) @ ser_int (note_length n)"

definition deser_note :: "seq_note deser" where
  "deser_note =
     dbind deser_int (\<lambda>ch. dbind deser_int (\<lambda>pr. dbind deser_int (\<lambda>ve.
     dbind deser_int (\<lambda>no. dbind deser_int (\<lambda>oa. dbind deser_int (\<lambda>le.
       dreturn \<lparr> channel = ch, program = pr, velocity = ve, note_key = no, on_at = oa, note_length = le \<rparr>))))))"

text \<open>\<open>Note::serderize\<close> writes its note, then for every note linked behind it a flag and the note, and a
  last flag. The number bounds the iterations of the reading loop; each consumes a character.\<close>

fun ser_notes :: "seq_note list \<Rightarrow> string" where
  "ser_notes [] = ser_bool False"
| "ser_notes (n # ns) = ser_bool True @ ser_note n @ ser_notes ns"

definition ser_note_chain :: "seq_note \<times> seq_note list \<Rightarrow> string" where
  "ser_note_chain c = ser_note (fst c) @ ser_notes (snd c)"

fun notes_loop :: "nat \<Rightarrow> seq_note list deser" where
  "notes_loop 0 s = (Inl Diverges, s)"
| "notes_loop (Suc k) s =
     dbind deser_bool (\<lambda>has_next_note.
       if has_next_note then dbind deser_note (\<lambda>n. dbind (notes_loop k) (\<lambda>ns. dreturn (n # ns)))
       else dreturn []) s"

definition deser_notes :: "seq_note list deser" where
  "deser_notes s = notes_loop (length (is_rest s) + 1) s"

definition deser_note_chain :: "(seq_note \<times> seq_note list) deser" where
  "deser_note_chain = dbind deser_note (\<lambda>n. dbind deser_notes (\<lambda>ns. dreturn (n, ns)))"

text \<open>The flag \<open>has_note\<close> of a pattern and the notes from the head of its list on.\<close>

definition ser_note_list :: "seq_note list \<Rightarrow> string" where
  "ser_note_list l =
     (case l of
        [] \<Rightarrow> ser_bool False
      | n # ns \<Rightarrow> ser_bool True @ ser_object ''SequenceNote'' ser_note_chain (n, ns))"

definition deser_note_list :: "seq_note list deser" where
  "deser_note_list =
     dbind deser_bool (\<lambda>has_note.
       if has_note then dbind (deser_object ''SequenceNote'' deser_note_chain) (\<lambda>c. dreturn (fst c # snd c))
       else dreturn [])"

definition ser_pattern :: "seq_pattern \<Rightarrow> string" where
  "ser_pattern p = ser_uint (pattern_id p) @ ser_string (pattern_name p) @ ser_note_list (note_list p)"

definition deser_pattern :: "seq_pattern deser" where
  "deser_pattern =
     dbind deser_uint (\<lambda>i. dbind deser_string (\<lambda>nm. dbind deser_note_list (\<lambda>l.
       dreturn \<lparr> pattern_id = i, pattern_name = nm, note_list = l \<rparr>)))"

definition serderize_sequence_out :: "sequence \<Rightarrow> string" where
  "serderize_sequence_out s = ser_string (sequence_name s) @
     ser_container (ser_pair ser_uint (ser_object ''SequencePattern'' ser_pattern)) (patterns s)"

definition serderize_sequence_in :: "sequence \<Rightarrow> sequence deser" where
  "serderize_sequence_in s =
     dbind deser_string (\<lambda>nm.
     dbind (deser_map (deser_pair deser_uint (deser_object ''SequencePattern'' deser_pattern)) (patterns s)) (\<lambda>ps.
       dreturn (s \<lparr> sequence_name := nm, patterns := ps \<rparr>)))"

text \<open>\<open>serialize\<close> on the server and the constructor from a serialized message on the client.\<close>

definition serialize_sequence :: "sequence \<Rightarrow> message \<Rightarrow> (msg_error, message) result" where
  "serialize_sequence s target = set_value ''sequence_data'' (ser_result (serderize_sequence_out s)) target"

definition construct_sequence :: "message \<Rightarrow> (msg_error, sequence) result" where
  "construct_sequence serialized =
     rbind (get_value ''sequence_data'' serialized) (\<lambda>txt.
       case rbind (ItemDeserializer txt) (\<lambda>serder. fst (serderize_sequence_in new_sequence serder)) of
         Inl e \<Rightarrow> Inl (BadEncoding e)
       | Inr s \<Rightarrow> Inr s)"

lemma stoi_valid: "int_valid (stoi s)"
  by (simp add: int_valid_def stoi_def clamp_def)

lemma stoul_valid: "uint_valid (stoul s)"
  by (auto simp: uint_valid_def stoul_def Let_def nat_less_iff split: list.split)

definition instance_valid :: "pattern_instance \<Rightarrow> bool" where
  "instance_valid p \<longleftrightarrow> uint_valid (inst_pattern_id p) \<and> int_valid (start_at p) \<and> int_valid (loop_length p) \<and> int_valid (stop_at p)"

definition note_valid :: "seq_note \<Rightarrow> bool" where
  "note_valid n \<longleftrightarrow> (\<forall>v \<in> {channel n, program n, velocity n, note_key n, on_at n, note_length n}. int_valid v)"

lemma get_int_valid: "get_int k msg = Inr v \<Longrightarrow> int_valid v"
  by (auto simp: get_int_def rbind_Inr_iff stoi_valid)

lemma get_uint_valid: "get_uint k msg = Inr v \<Longrightarrow> uint_valid v"
  by (auto simp: get_uint_def rbind_Inr_iff stoul_valid)

lemma read_instance_valid: "read_instance msg = Inr p \<Longrightarrow> instance_valid p"
  by (auto simp: read_instance_def rbind_Inr_iff instance_valid_def dest: get_int_valid get_uint_valid)

lemma read_note_valid: "read_note msg = Inr n \<Longrightarrow> note_valid n"
  by (auto simp: read_note_def rbind_Inr_iff note_valid_def dest: get_int_valid)

section \<open>Instances on the time line\<close>

lemma overlap_fold:
  "fold (\<lambda>pin d. if instance_overlap pin a b then True else d) xs acc \<longleftrightarrow>
     acc \<or> (\<exists>pin \<in> set xs. instance_overlap pin a b)"
  by (induction xs arbitrary: acc) auto

lemma process_add_pattern_instance_cases:
  "process_add_pattern_instance p s =
     (if start_at p < stop_at p \<and> map_find (inst_pattern_id p) (patterns s) \<noteq> None \<and>
         (\<forall>pin \<in> set (instance_list s). \<not> instance_overlap pin (start_at p) (stop_at p))
      then (True, s \<lparr> instance_list := insert_element instance_less p (instance_list s) \<rparr>)
      else (False, s))"
  unfolding process_add_pattern_instance_def overlap_fold by (auto split: option.split)

text \<open>Two instances exclude each other when no moment lies in both.\<close>

definition apart :: "pattern_instance \<Rightarrow> pattern_instance \<Rightarrow> bool" where
  "apart p q \<longleftrightarrow> stop_at p < start_at q \<or> stop_at q < start_at p"

definition encloses :: "pattern_instance \<Rightarrow> pattern_instance \<Rightarrow> bool" where
  "encloses q p \<longleftrightarrow> start_at q < start_at p \<and> stop_at p < stop_at q"

lemma no_overlap:
  "start_at p < stop_at p \<Longrightarrow> start_at q < stop_at q \<Longrightarrow>
     \<not> instance_overlap q (start_at p) (stop_at p) \<longleftrightarrow> apart p q \<or> encloses q p"
  by (auto simp: instance_overlap_def apart_def encloses_def)

section \<open>The text of a sequence is read back\<close>

interpretation note_text: serderizable ser_note deser_note note_valid
proof
  fix s
  show "advances s (snd (deser_note s))"
    unfolding deser_note_def
    by (intro dbind_advances [OF ints.progress] stays_or_advancesI(3) stays_or_advancesI(1))
  show "fst (deser_note s) \<noteq> Inl Diverges"
    unfolding deser_note_def by (intro dbind_returns ints.returns dreturn_returns)
qed (auto simp: ser_note_def deser_note_def note_valid_def ints.round_trip ints.no_field ints.ser_nul_free dreturn_def)

lemma notes_loop_advances: "stays_or_advances s (snd (notes_loop k s))" "advances s (snd (notes_loop (Suc k) s))"
proof -
  have step: "advances s (snd (notes_loop (Suc k) s))" if "\<And>s. stays_or_advances s (snd (notes_loop k s))" for k s
  proof -
    have *: "stays_or_advances s' (snd (dbind (notes_loop k) (\<lambda>ns. dreturn (n # ns)) s'))" for n s'
    proof -
      obtain r s2 where "notes_loop k s' = (r, s2)" by fastforce
      with that [of s'] show ?thesis by (cases r) (simp_all add: dreturn_def)
    qed
    show ?thesis
      unfolding notes_loop.simps
      by (intro dbind_advances [OF bools.progress] dbind_if_advances stays_or_advancesI(1)
          dbind_advances [OF note_text.progress] *)
  qed
  show all: "stays_or_advances s (snd (notes_loop k s))" for s k
  proof (induction k arbitrary: s)
    case (Suc k)
    show ?case by (rule stays_or_advancesI(1) [OF step [OF Suc.IH]])
  qed (simp add: stays_or_advances_def)
  show "advances s (snd (notes_loop (Suc k) s))" by (rule step [OF all])
qed

lemma notes_loop_returns: "length (is_rest s) < k \<Longrightarrow> fst (notes_loop k s) \<noteq> Inl Diverges"
proof (induction k arbitrary: s)
  case (Suc k)
  have rec: "fst (dbind (notes_loop k) (\<lambda>ns. dreturn (n # ns)) s2) \<noteq> Inl Diverges"
    if "deser_bool s = (Inr b, s1)" "deser_note s1 = (Inr n, s2)" for b n s1 s2
  proof -
    have "length (is_rest s2) < k"
      using deser_bool_ok [OF that(1)] note_text.progress [of s1] that(2) Suc.prems by (simp add: advances_def)
    then show ?thesis by (intro dbind_returns Suc.IH dreturn_returns)
  qed
  show ?case
    unfolding notes_loop.simps
  proof (rule dbind_returns [OF bools.returns])
    fix b s1 assume b: "deser_bool s = (Inr b, s1)"
    have "fst (dbind deser_note (\<lambda>n. dbind (notes_loop k) (\<lambda>ns. dreturn (n # ns))) s1) \<noteq> Inl Diverges"
      by (rule dbind_returns [OF note_text.returns]) (rule rec [OF b])
    then show "fst ((if b then dbind deser_note (\<lambda>n. dbind (notes_loop k) (\<lambda>ns. dreturn (n # ns))) else dreturn []) s1) \<noteq> Inl Diverges"
      by (simp add: dreturn_def)
  qed
qed simp

lemma notes_loop_reads:
  "\<forall>n \<in> set ns. note_valid n \<Longrightarrow> length ns < k \<Longrightarrow>
     notes_loop k \<lparr> is_rest = ser_notes ns @ r, is_eof = False \<rparr> = (Inr ns, \<lparr> is_rest = r, is_eof = False \<rparr>)"
proof (induction ns arbitrary: k)
  case Nil
  then obtain j where "k = Suc j" by (cases k) auto
  then show ?case by (simp add: dbind_bool dreturn_def)
next
  case (Cons n ns)
  then obtain j where "k = Suc j" "length ns < j" by (cases k) auto
  with Cons show ?case by (simp add: dbind_bool note_text.round_trip dreturn_def)
qed

lemma length_ser_notes: "length ns < length (ser_notes ns)"
  by (induction ns) (simp_all add: ser_bool_def)

interpretation notes_text: serderizable ser_notes deser_notes "\<lambda>ns. \<forall>n \<in> set ns. note_valid n"
proof
  fix s
  show "advances s (snd (deser_notes s))" using notes_loop_advances(2) by (simp add: deser_notes_def del: notes_loop.simps)
  show "fst (deser_notes s) \<noteq> Inl Diverges" unfolding deser_notes_def by (rule notes_loop_returns) simp
next
  fix ns :: "seq_note list" assume "\<forall>n \<in> set ns. note_valid n"
  then show "nul_free (ser_notes ns)" by (induction ns) (simp_all add: bools.ser_nul_free note_text.ser_nul_free)
next
  fix ns r assume v: "\<forall>n \<in> set ns. note_valid n"
  have "length ns < length (ser_notes ns @ r) + 1" using length_ser_notes [of ns] by simp
  from notes_loop_reads [OF v this] show "deser_notes \<lparr> is_rest = ser_notes ns @ r, is_eof = False \<rparr> = (Inr ns, \<lparr> is_rest = r, is_eof = False \<rparr>)"
    by (simp add: deser_notes_def del: notes_loop.simps)
qed (simp add: deser_notes_def bools.no_field)

interpretation note_chain: serderizable2 ser_note deser_note note_valid ser_notes deser_notes "\<lambda>ns. \<forall>n \<in> set ns. note_valid n"
  by unfold_locales

definition chain_valid :: "seq_note \<times> seq_note list \<Rightarrow> bool" where
  "chain_valid c \<longleftrightarrow> note_valid (fst c) \<and> (\<forall>n \<in> set (snd c). note_valid n)"

interpretation note_object: serderizable_object ser_note_chain deser_note_chain chain_valid "''SequenceNote''"
  using note_chain.seq.serderizable_axioms
  by (intro serderizable_object.intro serderizable_object_axioms.intro)
    (simp_all add: ser_note_chain_def [abs_def] ser_seq_def [abs_def] deser_note_chain_def deser_seq_def chain_valid_def [abs_def] nul_free_def)

interpretation note_list_text: serderizable ser_note_list deser_note_list "\<lambda>l. \<forall>n \<in> set l. note_valid n"
proof
  fix s
  show "advances s (snd (deser_note_list s))"
    unfolding deser_note_list_def
    by (rule dbind_advances [OF bools.progress])
      (auto intro: stays_or_advancesI(1,3) dbind_advances note_object.object.progress)
  show "fst (deser_note_list s) \<noteq> Inl Diverges"
    unfolding deser_note_list_def
  proof (rule dbind_returns [OF bools.returns])
    fix b s1
    have "fst (dbind (deser_object ''SequenceNote'' deser_note_chain) (\<lambda>c. dreturn (fst c # snd c)) s1) \<noteq> Inl Diverges"
      by (rule dbind_returns [OF note_object.object.returns dreturn_returns])
    then show "fst ((if b then dbind (deser_object ''SequenceNote'' deser_note_chain) (\<lambda>c. dreturn (fst c # snd c)) else dreturn []) s1) \<noteq> Inl Diverges"
      by (simp add: dreturn_def)
  qed
qed (auto simp: ser_note_list_def deser_note_list_def dbind_bool bools.no_field bools.ser_nul_free
    note_object.object.round_trip note_object.object.ser_nul_free chain_valid_def dreturn_def split: list.split)

interpretation pattern_body: serderizable2 ser_string deser_string string_valid ser_note_list deser_note_list
  "\<lambda>l. \<forall>n \<in> set l. note_valid n"
  by unfold_locales

interpretation pattern_fields: serderizable2 ser_uint deser_uint uint_valid "ser_seq ser_string ser_note_list"
  "deser_seq deser_string deser_note_list" "\<lambda>p. string_valid (fst p) \<and> (\<forall>n \<in> set (snd p). note_valid n)"
  by unfold_locales

interpretation pattern_record: serderizable_record "ser_seq ser_uint (ser_seq ser_string ser_note_list)"
  "deser_seq deser_uint (deser_seq deser_string deser_note_list)"
  "\<lambda>p. uint_valid (fst p) \<and> string_valid (fst (snd p)) \<and> (\<forall>n \<in> set (snd (snd p)). note_valid n)"
  "\<lambda>p. (pattern_id p, pattern_name p, note_list p)"
  "\<lambda>f. \<lparr> pattern_id = fst f, pattern_name = fst (snd f), note_list = snd (snd f) \<rparr>"
  by unfold_locales simp

definition pattern_valid :: "seq_pattern \<Rightarrow> bool" where
  "pattern_valid p \<longleftrightarrow> uint_valid (pattern_id p) \<and> string_valid (pattern_name p) \<and> (\<forall>n \<in> set (note_list p). note_valid n)"

interpretation pattern_object: serderizable_object ser_pattern deser_pattern pattern_valid "''SequencePattern''"
  using pattern_record.rec.serderizable_axioms
  by (intro serderizable_object.intro serderizable_object_axioms.intro)
    (simp_all add: ser_pattern_def [abs_def] ser_seq_def deser_pattern_def dbind_monad pattern_valid_def [abs_def] nul_free_def)

interpretation pattern_map: serderizable_map ser_uint deser_uint uint_valid "ser_object ''SequencePattern'' ser_pattern"
  "deser_object ''SequencePattern'' deser_pattern" pattern_valid
  by unfold_locales

interpretation sequence_text: serderizable2 ser_string deser_string string_valid
  "ser_container (ser_pair ser_uint (ser_object ''SequencePattern'' ser_pattern))"
  "deser_map (deser_pair deser_uint (deser_object ''SequencePattern'' deser_pattern)) []"
  "\<lambda>m. map_ok m \<and> (\<forall>p \<in> set m. uint_valid (fst p) \<and> pattern_valid (snd p))"
  by unfold_locales

definition sequence_valid :: "sequence \<Rightarrow> bool" where
  "sequence_valid s \<longleftrightarrow> string_valid (sequence_name s) \<and> map_ok (patterns s) \<and>
     (\<forall>p \<in> set (patterns s). uint_valid (fst p) \<and> pattern_valid (snd p))"

lemma construct_serialized:
  assumes "sequence_valid s" "get_value ''sequence_data'' r = Inr (ser_result (serderize_sequence_out s))"
  shows "construct_sequence r = Inr (s \<lparr> instance_list := [] \<rparr>)"
proof -
  let ?f = "(sequence_name s, patterns s)"
  have out: "serderize_sequence_out s = ser_seq ser_string (ser_container (ser_pair ser_uint (ser_object ''SequencePattern'' ser_pattern))) ?f"
    by (simp add: serderize_sequence_out_def ser_seq_def)
  have in': "serderize_sequence_in new_sequence = dmap (\<lambda>f. new_sequence \<lparr> sequence_name := fst f, patterns := snd f \<rparr>)
      (deser_seq deser_string (deser_map (deser_pair deser_uint (deser_object ''SequencePattern'' deser_pattern)) []))"
    by (simp add: serderize_sequence_in_def dbind_monad new_sequence_def)
  have v: "string_valid (fst ?f) \<and> map_ok (snd ?f) \<and> (\<forall>p \<in> set (snd ?f). uint_valid (fst p) \<and> pattern_valid (snd p))"
    using assms(1) by (simp add: sequence_valid_def)
  have "decode_string (ser_result (serderize_sequence_out s)) = Inr (serderize_sequence_out s)"
    unfolding ser_result_def out
    using sequence_text.seq.ser_nonempty [of ?f, OF v] sequence_text.seq.ser_nul_free [of ?f, OF v] by (rule decode_encode_string)
  moreover have "fst (serderize_sequence_in new_sequence \<lparr> is_rest = serderize_sequence_out s, is_eof = False \<rparr>) = Inr (s \<lparr> instance_list := [] \<rparr>)"
    using sequence_text.seq.round_trip [of ?f "[]", OF v] unfolding out in' by (simp add: dmap_def dreturn_def new_sequence_def)
  ultimately show ?thesis
    using assms(2) by (simp add: construct_sequence_def ItemDeserializer_def istringstream_def)
qed

section \<open>Properties\<close>


definition time_line :: sequence where
  "time_line = (process_add_pattern ''bass'' 0 new_sequence) \<lparr> instance_list :=
     [\<lparr> inst_pattern_id = 0, start_at = 0, loop_length = 4, stop_at = 16 \<rparr>] \<rparr>"



definition example_note :: seq_note where
  "example_note = \<lparr> channel = 0, program = 0, velocity = 100, note_key = 60, on_at = 4, note_length = 2 \<rparr>"

definition one_note :: sequence where
  "one_note = process_add_note 0 example_note (process_add_pattern ''bass'' 0 new_sequence)"

definition one_pattern :: sequence where
  "one_pattern = (process_add_pattern ''b'' 0 new_sequence) \<lparr> sequence_name := ''one'' \<rparr>"


end
