(* ===== verification/Replication.thy ===== *)
theory Replication
  imports Sequence
begin

text \<open>
  A server object and its clients: the contract \<open>replicated_object\<close>, that the sequence keeps it for
  every request but one, and what becomes of that one and of the requests its clients send.
\<close>

section \<open>Replication\<close>

text \<open>
  The contract between a server object and its clients: what a request does to the server is what
  the message the server sends makes a client do, and a request without a message changes nothing a
  client shows. \<open>served\<close> are the requests the contract covers in a state, \<open>small\<close> the messages whose
  size fits the header.
\<close>

locale replicated_object =
  fixes serve :: "'s \<Rightarrow> 'r \<Rightarrow> ('e, 'm option) result \<times> 's"
    and receive :: "'c \<Rightarrow> 'm \<Rightarrow> 'c"
    and view :: "'s \<Rightarrow> 'c"
    and inv :: "'s \<Rightarrow> bool"
    and served :: "'s \<Rightarrow> 'r \<Rightarrow> bool"
    and small :: "'m \<Rightarrow> bool"
  assumes serve_inv: "inv s \<Longrightarrow> served s r \<Longrightarrow> serve s r = (x, s') \<Longrightarrow> inv s'"
    and mirrors: "inv s \<Longrightarrow> served s r \<Longrightarrow> serve s r = (Inr (Some m), s') \<Longrightarrow> small m \<Longrightarrow>
      receive (view s) m = view s'"
    and silent: "inv s \<Longrightarrow> served s r \<Longrightarrow> serve s r = (Inr None, s') \<Longrightarrow> view s' = view s"
    and refused: "inv s \<Longrightarrow> served s r \<Longrightarrow> serve s r = (Inl e, s') \<Longrightarrow> view s' = view s"
begin

fun serve_all :: "'s \<Rightarrow> 'r list \<Rightarrow> 'm list \<times> 's" where
  "serve_all s [] = ([], s)"
| "serve_all s (r # rs) =
     (case serve s r of (x, s') \<Rightarrow>
        case serve_all s' rs of (ms, s'') \<Rightarrow>
          ((case x of Inr (Some m) \<Rightarrow> [m] | _ \<Rightarrow> []) @ ms, s''))"

fun served_all :: "'s \<Rightarrow> 'r list \<Rightarrow> bool" where
  "served_all s [] = True"
| "served_all s (r # rs) = (served s r \<and> served_all (snd (serve s r)) rs)"

text \<open>A client that starts from what the server shows and receives every message, in order, ends
  with what the server shows then.\<close>

lemma replicated:
  assumes "inv s" "served_all s rs" "serve_all s rs = (ms, s')" "\<forall>m \<in> set ms. small m"
  shows "fold (\<lambda>m c. receive c m) ms (view s) = view s' \<and> inv s'"
  using assms
proof (induction rs arbitrary: s ms)
  case (Cons r rs)
  obtain x s1 where x: "serve s r = (x, s1)" by fastforce
  obtain ms1 where ms1: "serve_all s1 rs = (ms1, s')" "ms = (case x of Inr (Some m) \<Rightarrow> [m] | _ \<Rightarrow> []) @ ms1"
    using Cons.prems(3) x by (auto split: prod.splits)
  have s1: "inv s1" "served s r" "served_all s1 rs"
    using Cons.prems(1,2) x serve_inv [of s r x s1] by auto
  have rest: "fold (\<lambda>m c. receive c m) ms1 (view s1) = view s' \<and> inv s'"
    using Cons.IH [OF s1(1,3) ms1(1)] Cons.prems(4) ms1(2) by simp
  consider (error) e where "x = Inl e" | (none) "x = Inr None" | (some) m where "x = Inr (Some m)"
    by (metis obj_sumE option.exhaust)
  then show ?case
    using rest ms1(2) Cons.prems(1,4) s1(2) x mirrors silent refused by cases auto
qed auto

end

section \<open>The sequence is a replicated object\<close>

lemma word32_inj:
  assumes "(word_of_nat j :: 32 word) = word_of_nat k" "j < 2 ^ 32" "k < 2 ^ 32"
  shows "j = k"
  using arg_cong [OF assms(1), of unat] assms(2,3) by (simp add: unsigned_of_nat take_bit_nat_eq_self)

text \<open>The fields a sender writes are what the receiver reads.\<close>

lemma get_int_sent: "get_value k r = Inr (show_int v) \<Longrightarrow> int_valid v \<Longrightarrow> get_int k r = Inr v"
  by (simp add: get_int_def int_valid_def stoi_show_int)

lemma get_uint_sent: "get_value k r = Inr (show_nat v) \<Longrightarrow> uint_valid v \<Longrightarrow> get_uint k r = Inr v"
  by (simp add: get_uint_def uint_valid_def stoul_show_nat)

lemma read_instance_sent:
  "\<forall>f \<in> set (instance_fields p). get_value (fst f) r = Inr (snd f) \<Longrightarrow> instance_valid p \<Longrightarrow> read_instance r = Inr p"
  by (simp add: read_instance_def instance_fields_def instance_valid_def get_int_sent get_uint_sent)

lemma read_note_sent:
  "\<forall>f \<in> set (note_fields n). get_value (fst f) r = Inr (snd f) \<Longrightarrow> note_valid n \<Longrightarrow> read_note r = Inr n"
  by (simp add: read_note_def note_fields_def note_valid_def get_int_sent)

interpretation server_table: command_table server_commands
  by unfold_locales (auto simp: server_commands_def plain_def has_delim_def nul_free_def)

interpretation client_table: command_table client_commands
  by unfold_locales (auto simp: client_commands_def plain_def has_delim_def nul_free_def)

lemma client_receive_sent:
  assumes "send_message i c kvs = Inr m" "data2send m < 2 ^ 32" "(c, h) \<in> set client_commands"
    "\<forall>p \<in> set kvs. plain (fst p) \<and> plain (snd p)"
    "distinct (map fst kvs)" "''id'' \<notin> fst ` set kvs" "''commandid'' \<notin> fst ` set kvs"
  shows "\<exists>r. client_receive s (get_data (encode_message m)) = (case h s r of Inl _ \<Rightarrow> s | Inr s' \<Rightarrow> s') \<and>
    (\<forall>p \<in> set kvs. get_value (fst p) r = Inr (snd p)) \<and>
    (\<forall>k. k \<notin> {''id'', ''commandid''} \<union> fst ` set kvs \<longrightarrow> get_value k r = Inl (NoSuchKey k))"
proof -
  obtain tab where tab: "register_handlers client_commands [] = Inr tab" using client_table.registers by blast
  from client_table.received [OF assms this] tab show ?thesis by (auto simp: client_receive_def)
qed

definition seq_inv :: "seq_server \<Rightarrow> bool" where
  "seq_inv s \<longleftrightarrow> map_ok (patterns (srv_seq s)) \<and>
     (\<forall>(k, p) \<in> set (patterns (srv_seq s)). pattern_id p = k) \<and>
     (\<exists>live. id_inv (pattern_id_allocator s) live \<and>
       (\<forall>k \<in> map_keys (patterns (srv_seq s)). k < 2 ^ 32 \<and> word_of_nat k \<in> live))"

definition seq_served :: "seq_server \<Rightarrow> message \<Rightarrow> bool" where
  "seq_served s msg \<longleftrightarrow> id_room (pattern_id_allocator s) \<and> get_value ''commandid'' msg \<noteq> Inr ''req_del_note'' \<and>
     (case get_value ''name'' msg of Inr nm \<Rightarrow> plain nm | _ \<Rightarrow> True)"

text \<open>What the contract asks of one reply.\<close>

definition mirrored :: "sequence \<Rightarrow> seq_reply \<Rightarrow> bool" where
  "mirrored c reply \<longleftrightarrow>
     (case fst reply of
        Inr (Some m) \<Rightarrow> data2send m < 2 ^ 32 \<longrightarrow> client_receive c (get_data (encode_message m)) = srv_seq (snd reply)
      | _ \<Rightarrow> srv_seq (snd reply) = c)"

lemma sendable:
  "\<not> has_delim c \<Longrightarrow> \<forall>p \<in> set kvs. \<not> has_delim (fst p) \<and> \<not> has_delim (snd p) \<Longrightarrow> \<exists>m. send_message i c kvs = Inr m"
  using set_values_total [of "(''id'', show_int i) # (''commandid'', c) # kvs" new_message] show_int_plain [of i]
  by (simp add: send_message_def send_object_message_def plain_def) (simp add: has_delim_def)

lemma send_command_mirrored:
  assumes "(cmd, h) \<in> set client_commands" "\<forall>p \<in> set kvs. plain (fst p) \<and> plain (snd p)"
    "distinct (map fst kvs)" "''id'' \<notin> fst ` set kvs" "''commandid'' \<notin> fst ` set kvs"
    "\<And>r. \<forall>p \<in> set kvs. get_value (fst p) r = Inr (snd p) \<Longrightarrow> h c r = Inr (srv_seq s)"
  shows "mirrored c (send_command cmd kvs s)" "snd (send_command cmd kvs s) = s"
proof -
  have "plain cmd" using assms(1) client_table.commands_plain by force
  then obtain m where m: "send_message (srv_obj_id s) cmd kvs = Inr m"
    using sendable [of cmd kvs] assms(2) by (auto simp: plain_def)
  have "client_receive c (get_data (encode_message m)) = srv_seq s" if small: "data2send m < 2 ^ 32"
    using client_receive_sent [OF m small assms(1-5), of c] assms(6) by fastforce
  with m show "mirrored c (send_command cmd kvs s)" by (simp add: send_command_def mirrored_def)
  show "snd (send_command cmd kvs s) = s" using m by (simp add: send_command_def)
qed

lemma instance_fields_sendable:
  "\<forall>f \<in> set (instance_fields p). plain (fst f) \<and> plain (snd f)" "distinct (map fst (instance_fields p))"
  "''id'' \<notin> fst ` set (instance_fields p)" "''commandid'' \<notin> fst ` set (instance_fields p)"
  by (simp_all add: instance_fields_def show_nat_plain show_int_plain plain_def [of "_ # _"] has_delim_def nul_free_def)

lemma note_fields_sendable:
  "\<forall>f \<in> set ((''pattern_id'', show_nat pid) # note_fields n). plain (fst f) \<and> plain (snd f)"
  "distinct (map fst ((''pattern_id'', show_nat pid) # note_fields n))"
  "''id'' \<notin> fst ` set ((''pattern_id'', show_nat pid) # note_fields n)"
  "''commandid'' \<notin> fst ` set ((''pattern_id'', show_nat pid) # note_fields n)"
  by (simp_all add: note_fields_def show_nat_plain show_int_plain plain_def [of "_ # _"] has_delim_def nul_free_def)

text \<open>Changes of the notes and of the instances keep the invariant.\<close>

lemma seq_inv_patterns:
  assumes "seq_inv s" "map_ok (patterns q)" "map_keys (patterns q) \<subseteq> map_keys (patterns (srv_seq s))"
    "\<forall>(k, p) \<in> set (patterns q). pattern_id p = k"
  shows "seq_inv (s \<lparr> srv_seq := q \<rparr>)"
  using assms by (fastforce simp: seq_inv_def)

lemma map_keys_map_set: "map_ok m \<Longrightarrow> map_keys (map_set k v m) = insert k (map_keys m)"
  by (auto simp: map_keys_def map_set_set)

lemma map_keys_map_erase: "map_keys (map_erase k m) = map_keys m - {k}"
  by (auto simp: map_keys_def map_erase_def)

lemma seq_inv_notes:
  assumes "seq_inv s" "map_find pid (patterns (srv_seq s)) = Some ptrn" "pattern_id ptrn' = pattern_id ptrn"
  shows "seq_inv (s \<lparr> srv_seq := (srv_seq s) \<lparr> patterns := map_set pid ptrn' (patterns (srv_seq s)) \<rparr> \<rparr>)"
proof -
  have ok: "map_ok (patterns (srv_seq s))" using assms(1) by (simp add: seq_inv_def)
  then have mem: "(pid, ptrn) \<in> set (patterns (srv_seq s))" using assms(2) by (simp add: map_find_iff)
  then have key: "pid \<in> map_keys (patterns (srv_seq s))" by (force simp: map_keys_def)
  show ?thesis
  proof (rule seq_inv_patterns [OF assms(1)])
    show "map_keys (patterns ((srv_seq s) \<lparr> patterns := map_set pid ptrn' (patterns (srv_seq s)) \<rparr>))
        \<subseteq> map_keys (patterns (srv_seq s))"
      using key by (simp add: map_keys_map_set [OF ok] insert_absorb)
    show "\<forall>(k, p) \<in> set (patterns ((srv_seq s) \<lparr> patterns := map_set pid ptrn' (patterns (srv_seq s)) \<rparr>)). pattern_id p = k"
      using assms(1,3) mem ok by (auto simp: map_set_set seq_inv_def)
  qed (use ok in simp)
qed

section \<open>Each request\<close>

text \<open>What a covered request leaves behind.\<close>

definition reply_ok :: "seq_server \<Rightarrow> seq_reply \<Rightarrow> bool" where
  "reply_ok s reply \<longleftrightarrow> seq_inv (snd reply) \<and> mirrored (srv_seq s) reply"

lemma reply_ok_same [simp]: "seq_inv s \<Longrightarrow> reply_ok s (Inl e, s)" "seq_inv s \<Longrightarrow> reply_ok s (Inr None, s)"
  by (simp_all add: reply_ok_def mirrored_def)

lemma with_fields_ok: "seq_inv s \<Longrightarrow> (\<And>a. r = Inr a \<Longrightarrow> reply_ok s (f a)) \<Longrightarrow> reply_ok s (with_fields r f s)"
  by (cases r) (auto simp: with_fields_def)

lemma send_command_ok:
  assumes "seq_inv s'" "(cmd, h) \<in> set client_commands" "\<forall>p \<in> set kvs. plain (fst p) \<and> plain (snd p)"
    "distinct (map fst kvs)" "''id'' \<notin> fst ` set kvs" "''commandid'' \<notin> fst ` set kvs"
    "\<And>r. \<forall>p \<in> set kvs. get_value (fst p) r = Inr (snd p) \<Longrightarrow> h (srv_seq s) r = Inr (srv_seq s')"
  shows "reply_ok s (send_command cmd kvs s')"
  using send_command_mirrored [OF assms(2-7)] assms(1) by (simp add: reply_ok_def)

lemma handle_req_add_pattern_ok:
  assumes "seq_inv s" "id_room (pattern_id_allocator s)" "\<And>nm. get_value ''name'' msg = Inr nm \<Longrightarrow> plain nm"
  shows "reply_ok s (handle_req_add_pattern s msg)"
  unfolding handle_req_add_pattern_def
proof (rule with_fields_ok [OF assms(1)])
  fix nm assume nm: "get_value ''name'' msg = Inr nm"
  obtain i a where g: "get_id (pattern_id_allocator s) = (i, a)" by fastforce
  obtain live where live: "id_inv (pattern_id_allocator s) live"
    "\<forall>k \<in> map_keys (patterns (srv_seq s)). k < 2 ^ 32 \<and> word_of_nat k \<in> live"
    and ok: "map_ok (patterns (srv_seq s))" "\<forall>(k, p) \<in> set (patterns (srv_seq s)). pattern_id p = k"
    using assms(1) unfolding seq_inv_def by blast
  have i: "id_inv a (insert i live)" using ids.get_inv [OF live(1) assms(2)] g by simp
  have u: "unat i < 2 ^ 32" using unsigned_less [of i, where ?'a = nat] by simp
  let ?s = "s \<lparr> pattern_id_allocator := a, srv_seq := process_add_pattern nm (unat i) (srv_seq s) \<rparr>"
  have "map_keys (patterns (srv_seq ?s)) = insert (unat i) (map_keys (patterns (srv_seq s)))"
    using ok(1) by (simp add: process_add_pattern_def Let_def map_keys_map_set)
  moreover have "\<forall>k \<in> insert (unat i) (map_keys (patterns (srv_seq s))). k < 2 ^ 32 \<and> word_of_nat k \<in> insert i live"
    using live(2) u by auto
  moreover have "\<forall>(k, p) \<in> set (patterns (srv_seq ?s)). pattern_id p = k"
    using ok by (auto simp: process_add_pattern_def Let_def map_set_set)
  moreover have "map_ok (patterns (srv_seq ?s))" using ok(1) by (simp add: process_add_pattern_def Let_def)
  ultimately have inv: "seq_inv ?s" using i unfolding seq_inv_def by auto
  have "reply_ok s (send_command ''cmd_add_ptrn'' [(''pattern_id'', show_nat (unat i)), (''name'', nm)] ?s)"
  proof (rule send_command_ok [OF inv, where h = handle_cmd_add_pattern])
    fix r assume "\<forall>p \<in> set [(''pattern_id'', show_nat (unat i)), (''name'', nm)]. get_value (fst p) r = Inr (snd p)"
    then show "handle_cmd_add_pattern (srv_seq s) r = Inr (srv_seq ?s)"
      using u by (simp add: handle_cmd_add_pattern_def get_uint_sent uint_valid_def)
  qed (use assms(3) [OF nm] show_nat_plain in \<open>auto simp: client_commands_def plain_def has_delim_def nul_free_def\<close>)
  with g show "reply_ok s (let (i, a) = get_id (pattern_id_allocator s); new_id = unat i in
      send_command ''cmd_add_ptrn'' [(''pattern_id'', show_nat new_id), (''name'', nm)]
        (s \<lparr> pattern_id_allocator := a, srv_seq := process_add_pattern nm new_id (srv_seq s) \<rparr>))"
    by (simp add: Let_def)
qed

lemma handle_req_del_pattern_ok:
  assumes "seq_inv s"
  shows "reply_ok s (handle_req_del_pattern s msg)"
  unfolding handle_req_del_pattern_def
proof (rule with_fields_ok [OF assms])
  fix pid assume "get_uint ''pattern_id'' msg = Inr pid"
  then have u: "uint_valid pid" by (rule get_uint_valid)
  obtain live where live: "id_inv (pattern_id_allocator s) live"
    "\<forall>k \<in> map_keys (patterns (srv_seq s)). k < 2 ^ 32 \<and> word_of_nat k \<in> live"
    and ok: "map_ok (patterns (srv_seq s))" "\<forall>(k, p) \<in> set (patterns (srv_seq s)). pattern_id p = k"
    using assms unfolding seq_inv_def by blast
  let ?q = "(srv_seq s) \<lparr> patterns := map_erase pid (patterns (srv_seq s)) \<rparr>"
  show "reply_ok s (case process_del_pattern pid (srv_seq s) of
          (False, q) \<Rightarrow> (Inr None, s \<lparr> srv_seq := q \<rparr>)
        | (True, q) \<Rightarrow>
            (case free_id (word_of_nat pid) (pattern_id_allocator s) of
               Inl e \<Rightarrow> (Inl (SeqId e), s \<lparr> srv_seq := q \<rparr>)
             | Inr a \<Rightarrow> send_command ''cmd_del_ptrn'' [(''pattern_id'', show_nat pid)]
                 (s \<lparr> srv_seq := q, pattern_id_allocator := a \<rparr>)))"
  proof (cases "map_find pid (patterns (srv_seq s))")
    case None
    then show ?thesis using assms by (simp add: process_del_pattern_def)
  next
    case (Some ptrn)
    then have key: "pid \<in> map_keys (patterns (srv_seq s))" using map_find_None_iff [OF ok(1), of pid] by auto
    then obtain a where a: "free_id (word_of_nat pid) (pattern_id_allocator s) = Inr a" "id_inv a (live - {word_of_nat pid})"
      using ids.free_live [OF live(1)] live(2) by blast
    let ?s = "s \<lparr> srv_seq := ?q, pattern_id_allocator := a \<rparr>"
    have "word_of_nat k \<noteq> (word_of_nat pid :: 32 word)" if "k < 2 ^ 32" "k \<noteq> pid" for k
      using word32_inj [of k pid] that u by (auto simp: uint_valid_def)
    then have "\<forall>k \<in> map_keys (patterns (srv_seq ?s)). k < 2 ^ 32 \<and> word_of_nat k \<in> live - {word_of_nat pid}"
      using live(2) by (auto simp: map_keys_map_erase)
    then have inv: "seq_inv ?s"
      unfolding seq_inv_def using ok a(2) by (auto simp: map_erase_def [of pid "patterns _"] intro: exI [of _ "live - {word_of_nat pid}"])
    have "reply_ok s (send_command ''cmd_del_ptrn'' [(''pattern_id'', show_nat pid)] ?s)"
    proof (rule send_command_ok [OF inv, where h = handle_cmd_del_pattern])
      fix r assume "\<forall>p \<in> set [(''pattern_id'', show_nat pid)]. get_value (fst p) r = Inr (snd p)"
      then show "handle_cmd_del_pattern (srv_seq s) r = Inr (srv_seq ?s)"
        using u Some by (simp add: handle_cmd_del_pattern_def get_uint_sent process_del_pattern_def)
    qed (use show_nat_plain in \<open>auto simp: client_commands_def plain_def has_delim_def nul_free_def\<close>)
    then show ?thesis using Some a(1) by (simp add: process_del_pattern_def)
  qed
qed

lemma handle_req_add_pattern_instance_ok:
  assumes "seq_inv s"
  shows "reply_ok s (handle_req_add_pattern_instance s msg)"
  unfolding handle_req_add_pattern_instance_def
proof (rule with_fields_ok [OF assms])
  fix p assume "read_instance msg = Inr p"
  then have v: "instance_valid p" by (rule read_instance_valid)
  obtain b q where bq: "process_add_pattern_instance p (srv_seq s) = (b, q)" by fastforce
  then have q: "patterns q = patterns (srv_seq s)" "\<not> b \<Longrightarrow> q = srv_seq s"
    by (auto simp: process_add_pattern_instance_def split: if_splits option.splits)
  have inv: "seq_inv (s \<lparr> srv_seq := q \<rparr>)"
    using assms q(1) by (simp add: seq_inv_def)
  have "reply_ok s (send_command ''cmd_add_ptrn_inst'' (instance_fields p) (s \<lparr> srv_seq := q \<rparr>))"
    using bq v
    by (intro send_command_ok [OF inv, where h = handle_cmd_add_pattern_instance] instance_fields_sendable)
      (auto simp: client_commands_def handle_cmd_add_pattern_instance_def read_instance_sent)
  then show "reply_ok s (case process_add_pattern_instance p (srv_seq s) of
          (False, q) \<Rightarrow> (Inr None, s \<lparr> srv_seq := q \<rparr>)
        | (True, q) \<Rightarrow> send_command ''cmd_add_ptrn_inst'' (instance_fields p) (s \<lparr> srv_seq := q \<rparr>))"
    using bq q assms by (cases b) auto
qed

lemma handle_req_del_pattern_instance_ok:
  assumes "seq_inv s"
  shows "reply_ok s (handle_req_del_pattern_instance s msg)"
  unfolding handle_req_del_pattern_instance_def
proof (rule with_fields_ok [OF assms])
  fix p assume "read_instance msg = Inr p"
  then have v: "instance_valid p" by (rule read_instance_valid)
  have inv: "seq_inv (s \<lparr> srv_seq := process_del_pattern_instance p (srv_seq s) \<rparr>)"
    using assms by (simp add: seq_inv_def process_del_pattern_instance_def)
  show "reply_ok s (send_command ''cmd_del_ptrn_inst'' (instance_fields p)
      (s \<lparr> srv_seq := process_del_pattern_instance p (srv_seq s) \<rparr>))"
    using v
    by (intro send_command_ok [OF inv, where h = handle_cmd_del_pattern_instance] instance_fields_sendable)
      (auto simp: client_commands_def handle_cmd_del_pattern_instance_def read_instance_sent)
qed

lemma handle_req_add_note_ok:
  assumes "seq_inv s"
  shows "reply_ok s (handle_req_add_note s msg)"
  unfolding handle_req_add_note_def
proof (rule with_fields_ok [OF assms], clarify)
  fix pid n assume "rbind (get_uint ''pattern_id'' msg) (\<lambda>pid. rbind (read_note msg) (\<lambda>n. Inr (pid, n))) = Inr (pid, n)"
  then have v: "uint_valid pid" "note_valid n"
    by (auto simp: rbind_Inr_iff dest: get_uint_valid read_note_valid)
  have inv: "seq_inv (s \<lparr> srv_seq := process_add_note pid n (srv_seq s) \<rparr>)"
    using assms seq_inv_notes [OF assms] by (auto simp: process_add_note_def split: option.split)
  show "reply_ok s (send_command ''cmd_add_note'' ((''pattern_id'', show_nat pid) # note_fields n)
      (s \<lparr> srv_seq := process_add_note pid n (srv_seq s) \<rparr>))"
    using v
    by (intro send_command_ok [OF inv, where h = handle_cmd_add_note] note_fields_sendable)
      (auto simp: client_commands_def handle_cmd_add_note_def read_note_sent get_uint_sent)
qed

lemma handle_req_del_note_inv:
  assumes "seq_inv s"
  shows "seq_inv (snd (handle_req_del_note s msg))"
proof -
  have n: "seq_inv (s \<lparr> srv_seq := process_delete_note pid n (srv_seq s) \<rparr>)" for pid n
    using assms seq_inv_notes [OF assms] by (auto simp: process_delete_note_def split: option.split)
  have "snd (send_command c kvs s') = s'" for c kvs s'
    by (simp add: send_command_def split: sum.split)
  with n assms show ?thesis by (auto simp: handle_req_del_note_def with_fields_def split: sum.split)
qed

lemma server_process_ok:
  assumes "seq_inv s" "seq_served s msg"
  shows "reply_ok s (server_process s msg)"
proof -
  obtain tab where tab: "register_handlers server_commands [] = Inr tab" "\<And>c. map_find c tab = map_of server_commands c"
    using server_table.registers by blast
  show ?thesis
  proof (cases "get_value ''commandid'' msg")
    case (Inl e)
    then show ?thesis using assms(1) tab(1) by (simp add: server_process_def process_message_def)
  next
    case (Inr c)
    then have c: "c \<noteq> ''req_del_note''" using assms(2) by (auto simp: seq_served_def)
    have "reply_ok s (h s msg)" if h: "map_of server_commands c = Some h" for h
    proof -
      consider "h = handle_req_add_pattern" | "h = handle_req_del_pattern" | "h = handle_req_add_pattern_instance"
        | "h = handle_req_del_pattern_instance" | "h = handle_req_add_note"
        using map_of_SomeD [OF h] c unfolding server_commands_def by fastforce
      then show ?thesis
      proof cases
        case 1
        then show ?thesis
          using assms(2) by (auto simp: seq_served_def intro!: handle_req_add_pattern_ok [OF assms(1)])
      qed (simp_all add: assms(1) handle_req_del_pattern_ok handle_req_add_pattern_instance_ok
          handle_req_del_pattern_instance_ok handle_req_add_note_ok)
    qed
    then show ?thesis
      using Inr tab assms(1)
      by (cases "map_of server_commands c") (auto simp: server_process_def process_message_def)
  qed
qed

interpretation sequence_object: replicated_object server_process
  "\<lambda>c m. client_receive c (get_data (encode_message m))" srv_seq seq_inv seq_served "\<lambda>m. data2send m < 2 ^ 32"
proof
  fix s r x s'
  assume "seq_inv s" "seq_served s r" "server_process s r = (x, s')"
  then show "seq_inv s'" using server_process_ok [of s r] by (simp add: reply_ok_def)
qed (use server_process_ok in \<open>fastforce simp: reply_ok_def mirrored_def\<close>)+

section \<open>Properties\<close>


definition example_server :: seq_server where
  "example_server = \<lparr> srv_seq = new_sequence, pattern_id_allocator = new_id_allocator 1, srv_obj_id = 3 \<rparr>"

definition request :: "(string \<times> string) list \<Rightarrow> message" where
  "request kvs = new_message \<lparr> key2val := fold (\<lambda>(k, v). map_set k v) kvs [] \<rparr>"

definition pattern_request :: "string \<Rightarrow> message" where
  "pattern_request nm = request [(''commandid'', ''req_add_ptrn''), (''name'', nm)]"

lemma example_server_inv: "seq_inv example_server"
  using new_id_allocator_inv by (auto simp: seq_inv_def example_server_def new_sequence_def map_keys_def)


text \<open>The deletion of a note is not replicated: the server removes the note, and the message it sends
  makes no client change anything.\<close>

theorem note_deletion_not_replicated:
  assumes "get_uint ''pattern_id'' msg = Inr pid" "read_note msg = Inr n"
  shows "\<exists>m. handle_req_del_note s msg = (Inr (Some m), s \<lparr> srv_seq := process_delete_note pid n (srv_seq s) \<rparr>) \<and>
    (data2send m < 2 ^ 32 \<longrightarrow> client_receive c (get_data (encode_message m)) = c)"
proof -
  let ?s = "s \<lparr> srv_seq := process_delete_note pid n (srv_seq s) \<rparr>"
  let ?kvs = "(''pattern_id'', show_nat pid) # note_fields n"
  have "\<forall>p \<in> set ?kvs. \<not> has_delim (fst p) \<and> \<not> has_delim (snd p)"
    using note_fields_sendable(1) [of pid n] by (auto simp: plain_def)
  then obtain m where m: "send_message (srv_obj_id s) ''cmd_del_ptrn_inst'' ?kvs = Inr m"
    using sendable [of "''cmd_del_ptrn_inst''" ?kvs] by (auto simp: has_delim_def)
  have "client_receive c (get_data (encode_message m)) = c" if small: "data2send m < 2 ^ 32"
  proof -
    have h: "(''cmd_del_ptrn_inst'', handle_cmd_del_pattern_instance) \<in> set client_commands"
      by (simp add: client_commands_def)
    obtain r where r: "client_receive c (get_data (encode_message m)) =
        (case handle_cmd_del_pattern_instance c r of Inl _ \<Rightarrow> c | Inr s' \<Rightarrow> s')"
      "get_value ''pattern_id'' r = Inr (show_nat pid)" "get_value ''start_at'' r = Inl (NoSuchKey ''start_at'')"
    proof -
      obtain r where "client_receive c (get_data (encode_message m)) =
          (case handle_cmd_del_pattern_instance c r of Inl _ \<Rightarrow> c | Inr s' \<Rightarrow> s')"
        and f: "\<forall>p \<in> set ?kvs. get_value (fst p) r = Inr (snd p)"
        and g: "\<forall>k. k \<notin> {''id'', ''commandid''} \<union> fst ` set ?kvs \<longrightarrow> get_value k r = Inl (NoSuchKey k)"
        using client_receive_sent [OF m small h note_fields_sendable, of c] by blast
      moreover have "''start_at'' \<notin> {''id'', ''commandid''} \<union> fst ` set ?kvs" by (simp add: note_fields_def)
      ultimately show thesis using that [of r] by simp
    qed
    then show ?thesis
      by (simp add: handle_cmd_del_pattern_instance_def read_instance_def get_uint_def get_int_def)
  qed
  then show ?thesis
    using m assms by (auto simp: handle_req_del_note_def with_fields_def send_command_def)
qed

definition example_note_request :: message where
  "example_note_request = request ((''commandid'', ''req_del_note'') # (''pattern_id'', ''0'') # note_fields example_note)"

lemma example_note_read:
  "get_uint ''pattern_id'' example_note_request = Inr 0" "read_note example_note_request = Inr example_note"
proof -
  have "get_value ''pattern_id'' example_note_request = Inr (show_nat 0)" by code_simp
  then show "get_uint ''pattern_id'' example_note_request = Inr 0" by (rule get_uint_sent) (simp add: uint_valid_def)
  have "\<forall>f \<in> set (note_fields example_note). get_value (fst f) example_note_request = Inr (snd f)" by code_simp
  then show "read_note example_note_request = Inr example_note"
    by (rule read_note_sent) (simp add: note_valid_def int_valid_def example_note_def)
qed

theorem note_deletion_not_replicated_witness:
  "\<exists>m s'. handle_req_del_note (example_server \<lparr> srv_seq := one_note \<rparr>) example_note_request = (Inr (Some m), s') \<and>
     get_notes 0 (srv_seq s') = [] \<and>
     get_notes 0 (client_receive one_note (get_data (encode_message m))) = [example_note]"
proof -
  let ?s = "example_server \<lparr> srv_seq := one_note \<rparr>"
  have g: "get_notes 0 (process_delete_note 0 example_note one_note) = []" "get_notes 0 one_note = [example_note]"
    by code_simp+
  obtain m where m: "handle_req_del_note ?s example_note_request = (Inr (Some m), ?s \<lparr> srv_seq := process_delete_note 0 example_note one_note \<rparr>)"
    "data2send m < 2 ^ 32 \<longrightarrow> client_receive one_note (get_data (encode_message m)) = one_note"
    using note_deletion_not_replicated [OF example_note_read, of ?s one_note] by auto
  have "map_sum id data2send (send_message 3 ''cmd_del_ptrn_inst'' ((''pattern_id'', show_nat 0) # note_fields example_note)) = Inr 104"
    by code_simp
  moreover have "send_message 3 ''cmd_del_ptrn_inst'' ((''pattern_id'', show_nat 0) # note_fields example_note) = Inr m"
    using m(1) example_note_read
    by (auto simp: handle_req_del_note_def with_fields_def send_command_def example_server_def split: sum.splits)
  ultimately have "data2send m = 104" by simp
  with m g show ?thesis by auto
qed

text \<open>Of the requests a client can make about an existing pattern, none arrives: each sets the
  field \<open>id\<close> of the message a second time, so the message announces more bytes than it has and the
  server keeps waiting for them.\<close>

theorem pattern_requests_lost:
  "list_all (\<lambda>req. \<exists>m. req = Inr m \<and>
     (data2send m < 2 ^ 32 \<longrightarrow> read_message (get_data (encode_message m)) new_message = Inl Incomplete))
   [delete_pattern obj pid, insert_pattern_in_sequence obj pid (start_at p) (loop_length p) (stop_at p),
    delete_pattern_from_sequence obj p, add_note obj pid n, delete_note obj pid n]"
proof -
  have d: "\<not> has_delim (show_nat k)" "\<not> has_delim (show_int i)" for k i
    using show_nat_plain show_int_plain by (auto simp: plain_def)
  have k: "\<not> has_delim ''start_at''" "\<not> has_delim ''loop_length''" "\<not> has_delim ''stop_at''" "\<not> has_delim ''channel''"
    "\<not> has_delim ''program''" "\<not> has_delim ''velocity''" "\<not> has_delim ''note''" "\<not> has_delim ''on_at''" "\<not> has_delim ''length''"
    by (simp_all add: has_delim_def)
  have c: "plain ''req_del_ptrn''" "plain ''req_add_ptrn_inst''" "plain ''req_del_ptrn_inst''" "plain ''req_add_note''" "plain ''req_del_note''"
    by (simp_all add: plain_def has_delim_def nul_free_def)
  show ?thesis
    unfolding list.pred_inject delete_pattern_def insert_pattern_in_sequence_def
      delete_pattern_from_sequence_def add_note_def delete_note_def note_fields_def
    by (intro conjI TrueI second_id_lost c show_nat_plain) (simp_all add: d k)
qed

theorem pattern_requests_lost_witness:
  "\<exists>m. delete_pattern 3 0 = Inr m \<and> read_message (get_data (encode_message m)) new_message = Inl Incomplete"
proof -
  obtain m where m: "delete_pattern 3 0 = Inr m"
    "data2send m < 2 ^ 32 \<longrightarrow> read_message (get_data (encode_message m)) new_message = Inl Incomplete"
    using pattern_requests_lost [of 3 0] by auto
  have "data2send (projr (delete_pattern 3 0)) = 33" by code_simp
  with m show ?thesis by auto
qed

end
