(* ===== verification/Global_Control.thy ===== *)
theory Global_Control
  imports Replication Registry_Session Transport
begin

text \<open>
  The global control object (remote_interface.cc, \<open>GlobalControlObject\<close>): the tempo, the lines per beat and
  whether the song plays or is recorded, as clients see and change them. The server side works on the
  transport of Transport; what it sends are effects of the registry. The listeners that a client
  informs are not modelled.
\<close>

section \<open>The server side\<close>

record gco_server =
  gs_id :: int
  gs_transport :: transport
  gs_arp_patterns :: "string list"
  gs_record_fname :: string

definition bool_text :: "bool \<Rightarrow> string" where
  "bool_text b = (if b then ''true'' else ''false'')"

text \<open>\<open>serialize\<close>.\<close>

definition gco_fields :: "gco_server \<Rightarrow> msg_fields" where
  "gco_fields s = [(''bpm'', show_int (tr_bpm (gs_transport s))), (''lpb'', show_int (tr_lpb (gs_transport s))),
     (''is_playing'', bool_text (is_playing (gs_transport s))), (''is_recording'', bool_text (is_recording (gs_transport s)))]"

text \<open>Names, each followed by a delimiter; a colon in \<open>serialize_arp_patterns\<close>.\<close>

definition delimited :: "char \<Rightarrow> string list \<Rightarrow> string" where
  "delimited d xs = concat (map (\<lambda>x. x @ [d]) xs)"

type_synonym gco_result = "registry_error option \<times> handler_effect list \<times> gco_server"

definition with_field :: "string \<Rightarrow> message \<Rightarrow> gco_server \<Rightarrow> (string \<Rightarrow> gco_result) \<Rightarrow> gco_result" where
  "with_field key msg s f = (case get_value key msg of Inl e \<Rightarrow> (Some (BadMessage e), [], s) | Inr v \<Rightarrow> f v)"

definition gco_process_server :: "message \<Rightarrow> gco_server \<Rightarrow> gco_result" where
  "gco_process_server msg s = with_field ''command'' msg s (\<lambda>command.
     let t = gs_transport s in
     if command = ''get_arp_patterns'' then (None, [Answer [(''arp_patterns'', delimited CHR '':'' (gs_arp_patterns s))]], s)
     else if command = ''is_it_playing'' then (None, [Answer [(''playing'', bool_text (is_playing t))]], s)
     else if command = ''play'' then (None, [Broadcast [(''command'', ''play'')]], s \<lparr> gs_transport := play t \<rparr>)
     else if command = ''stop'' then (None, [Broadcast [(''command'', ''stop'')]], s \<lparr> gs_transport := stop t \<rparr>)
     else if command = ''rewind'' then (None, [], s \<lparr> gs_transport := rewind t \<rparr>)
     else if command = ''set_rec_state'' then with_field ''state'' msg s (\<lambda>st.
       let isrec = (st = ''true'') in
       (None, [Broadcast [(''command'', if isrec then ''dorecord'' else ''dontrecord'')]], s \<lparr> gs_transport := set_record_state isrec t \<rparr>))
     else if command = ''is_it_recording'' then (None, [Answer [(''recording'', bool_text (is_recording t))]], s)
     else if command = ''get_rec_fname'' then (None, [Answer [(''fname'', gs_record_fname s)]], s)
     else if command = ''set_bpm'' then with_field ''bpm'' msg s (\<lambda>v.
       case set_bpm (stoi v) t of
         Inl e \<Rightarrow> (Some HandlerThrew, [], s)
       | Inr t \<Rightarrow> (None, [Broadcast [(''command'', ''bpmset''), (''bpm'', show_int (tr_bpm t))], Answer [(''bpmsync'', show_int (tr_bpm t))]],
                   s \<lparr> gs_transport := t \<rparr>))
     else if command = ''set_lpb'' then with_field ''lpb'' msg s (\<lambda>v.
       case set_lpb (stoi v) t of
         Inl e \<Rightarrow> (Some HandlerThrew, [], s)
       | Inr t \<Rightarrow> (None, [Broadcast [(''command'', ''lpbset''), (''lpb'', show_int (tr_lpb t))], Answer [(''lpbsync'', show_int (tr_lpb t))]],
                   s \<lparr> gs_transport := t \<rparr>))
     else (None, [], s))"

definition gco_periodic :: "int \<Rightarrow> msg_fields" where
  "gco_periodic row = [(''command'', ''nrplaying''), (''nrow'', show_int row)]"

section \<open>The client side\<close>

record gco_client =
  gc_bpm :: int
  gc_lpb :: int
  gc_playing :: bool
  gc_recording :: bool

definition gco_create :: "message \<Rightarrow> (msg_error, gco_client) result" where
  "gco_create serialized =
     rbind (get_value ''bpm'' serialized) (\<lambda>b. rbind (get_value ''lpb'' serialized) (\<lambda>l.
     rbind (get_value ''is_playing'' serialized) (\<lambda>p. rbind (get_value ''is_recording'' serialized) (\<lambda>r.
     Inr \<lparr> gc_bpm = stoi b, gc_lpb = stoi l, gc_playing = (p = ''true''), gc_recording = (r = ''true'') \<rparr>))))"

definition gco_process_client :: "message \<Rightarrow> gco_client \<Rightarrow> (msg_error, gco_client) result" where
  "gco_process_client msg c = rbind (get_value ''command'' msg) (\<lambda>command.
     if command = ''nrplaying'' then rbind (get_value ''nrow'' msg) (\<lambda>row. Inr c)
     else if command = ''play'' then Inr (c \<lparr> gc_playing := True \<rparr>)
     else if command = ''stop'' then Inr (c \<lparr> gc_playing := False \<rparr>)
     else if command = ''dorecord'' then Inr (c \<lparr> gc_recording := True \<rparr>)
     else if command = ''dontrecord'' then Inr (c \<lparr> gc_recording := False \<rparr>)
     else if command = ''bpmset'' then rbind (get_value ''bpm'' msg) (\<lambda>v. Inr (c \<lparr> gc_bpm := stoi v \<rparr>))
     else if command = ''lpbset'' then rbind (get_value ''lpb'' msg) (\<lambda>v. Inr (c \<lparr> gc_lpb := stoi v \<rparr>))
     else Inr c)"

text \<open>\<open>parse_serialized_arp_patterns\<close>: names up to their colons, until the text ends or a name is empty.\<close>

function parse_delimited :: "char \<Rightarrow> string \<Rightarrow> istream \<Rightarrow> string list" where
  "parse_delimited d name s =
     (if is_eof s \<or> name = [] then [] else name # (case getline d s of (n, s') \<Rightarrow> parse_delimited d n s'))"
  by pat_completeness auto
termination
proof (relation "measure (\<lambda>(d, name, s). if is_eof s then 0 else Suc (length (is_rest s)))")
  fix d :: char and name n :: string and s s' :: istream
  assume a: "\<not> (is_eof s \<or> name = [])" and b: "(n, s') = getline d s"
  have g: "getline d s = (n, s')" using b by simp
  from getline_progress [OF g] a show "((d, n, s'), d, name, s) \<in> measure (\<lambda>(d, name, s). if is_eof s then 0 else Suc (length (is_rest s)))"
    by auto
qed simp

declare parse_delimited.simps [simp del]

definition parse_names :: "char \<Rightarrow> string \<Rightarrow> string list" where
  "parse_names d text = (case getline d (istringstream text) of (n, s) \<Rightarrow> parse_delimited d n s)"

definition parse_serialized_arp_patterns :: "string \<Rightarrow> string list" where
  "parse_serialized_arp_patterns = parse_names CHR '':''"

lemma parse_names_delimited:
  assumes "\<forall>x \<in> set xs. x \<noteq> [] \<and> d \<notin> set x"
  shows "parse_names d (delimited d xs) = xs"
  using assms
proof (induction xs)
  case Nil
  show ?case by (simp add: parse_names_def delimited_def istringstream_def getline_end parse_delimited.simps)
next
  case (Cons x xs)
  obtain n s where g: "getline d (istringstream (delimited d xs)) = (n, s)" by fastforce
  have "getline d (istringstream (delimited d (x # xs))) = (x, istringstream (delimited d xs))"
    using Cons.prems by (simp add: delimited_def istringstream_def getline_field)
  moreover have "parse_delimited d x (istringstream (delimited d xs)) = x # parse_delimited d n s"
    using Cons.prems g by (subst parse_delimited.simps) (simp add: istringstream_def)
  ultimately show ?case using Cons g by (simp add: parse_names_def)
qed

section \<open>Clients in step\<close>

text \<open>The fields of a message as they arrive at the object of a client.\<close>

definition receive_fields :: "int \<Rightarrow> (message \<Rightarrow> 'c \<Rightarrow> (msg_error, 'c) result) \<Rightarrow> 'c \<Rightarrow> msg_fields \<Rightarrow> 'c" where
  "receive_fields i process c kvs = (case message_bytes ((''id'', show_int i) # kvs) of
     Inl e \<Rightarrow> c
   | Inr b \<Rightarrow> (case read_message b new_message of
       Inl e \<Rightarrow> c
     | Inr (msg, rest) \<Rightarrow> (case process msg c of Inl e \<Rightarrow> c | Inr c' \<Rightarrow> c')))"

lemma receive_fields_sent:
  assumes "wire_ok ((''id'', show_int i) # kvs)"
  shows "\<exists>msg. receive_fields i process c kvs = (case process msg c of Inl e \<Rightarrow> c | Inr c' \<Rightarrow> c') \<and>
    (\<forall>k. k \<noteq> ''id'' \<longrightarrow> get_value k msg = (case map_of kvs k of Some v \<Rightarrow> Inr v | None \<Rightarrow> Inl (NoSuchKey k)))"
proof -
  have sb: "sbuf new_message = []" by (simp add: new_message_def)
  from wire_ok_read(2) [OF assms sb, of "[]"] obtain r where
    r: "read_message (wire_bytes ((''id'', show_int i) # kvs)) new_message = Inr (r, [])"
    "\<forall>k. get_value k r = (case map_of ((''id'', show_int i) # kvs) k of Some v \<Rightarrow> Inr v | None \<Rightarrow> Inl (NoSuchKey k))" by auto
  then show ?thesis
    using wire_ok_read(1) [OF assms sb] by (intro exI [of _ r]) (auto simp: receive_fields_def)
qed

definition gco_view :: "gco_server \<Rightarrow> gco_client" where
  "gco_view s = \<lparr> gc_bpm = tr_bpm (gs_transport s), gc_lpb = tr_lpb (gs_transport s),
     gc_playing = is_playing (gs_transport s), gc_recording = is_recording (gs_transport s) \<rparr>"

definition gco_inv :: "gco_server \<Rightarrow> bool" where
  "gco_inv s \<longleftrightarrow> 0 \<le> gs_id s \<and> gs_id s < 2 ^ 31 \<and> 20 \<le> tr_bpm (gs_transport s) \<and> tr_bpm (gs_transport s) \<le> 200 \<and>
     2 \<le> tr_lpb (gs_transport s) \<and> tr_lpb (gs_transport s) \<le> 24"

text \<open>The message that goes to all clients, if there is one.\<close>

fun broadcast_of :: "handler_effect list \<Rightarrow> msg_fields option" where
  "broadcast_of [] = None"
| "broadcast_of (Broadcast kvs # es) = Some kvs"
| "broadcast_of (_ # es) = broadcast_of es"

definition gco_serve :: "gco_server \<Rightarrow> message \<Rightarrow> (registry_error, (int \<times> msg_fields) option) result \<times> gco_server" where
  "gco_serve s msg = (case gco_process_server msg s of
     (Some e, es, s') \<Rightarrow> (Inl e, s')
   | (None, es, s') \<Rightarrow> (Inr (map_option (Pair (gs_id s)) (broadcast_of es)), s'))"

definition gco_receive :: "gco_client \<Rightarrow> int \<times> msg_fields \<Rightarrow> gco_client" where
  "gco_receive c m = receive_fields (fst m) gco_process_client c (snd m)"

lemma wire_ok_command:
  assumes "0 \<le> i" "i < 2 ^ 31" "plain c" "length c \<le> 20"
  shows "wire_ok [(''id'', show_int i), (''command'', c)]"
  using assms show_int_plain [of i] show_int_length [of i]
  by (intro wire_ok_short) (auto simp: plain_def has_delim_def nul_free_def)

lemma wire_ok_setting:
  assumes "0 \<le> i" "i < 2 ^ 31" "plain c" "length c \<le> 20" "k \<in> {''bpm'', ''lpb''}" "0 \<le> v" "v \<le> 200"
  shows "wire_ok [(''id'', show_int i), (''command'', c), (k, show_int v)]"
  using assms show_int_plain [of i] show_int_length [of i] show_int_plain [of v] show_int_length [of v]
  by (intro wire_ok_short) (auto simp: plain_def has_delim_def nul_free_def)

text \<open>What a request can do, command by command.\<close>

lemma gco_process_server_cases:
  assumes "\<And>e. P (Some e, [], s)" "\<And>kvs. P (None, [Answer kvs], s)" "P (None, [], s)"
    "P (None, [Broadcast [(''command'', ''play'')]], s \<lparr> gs_transport := play (gs_transport s) \<rparr>)"
    "P (None, [Broadcast [(''command'', ''stop'')]], s \<lparr> gs_transport := stop (gs_transport s) \<rparr>)"
    "P (None, [], s \<lparr> gs_transport := rewind (gs_transport s) \<rparr>)"
    "\<And>b. P (None, [Broadcast [(''command'', if b then ''dorecord'' else ''dontrecord'')]], s \<lparr> gs_transport := set_record_state b (gs_transport s) \<rparr>)"
    "\<And>v t. set_bpm v (gs_transport s) = Inr t \<Longrightarrow>
       P (None, [Broadcast [(''command'', ''bpmset''), (''bpm'', show_int (tr_bpm t))], Answer [(''bpmsync'', show_int (tr_bpm t))]], s \<lparr> gs_transport := t \<rparr>)"
    "\<And>v t. set_lpb v (gs_transport s) = Inr t \<Longrightarrow>
       P (None, [Broadcast [(''command'', ''lpbset''), (''lpb'', show_int (tr_lpb t))], Answer [(''lpbsync'', show_int (tr_lpb t))]], s \<lparr> gs_transport := t \<rparr>)"
  shows "P (gco_process_server msg s)"
proof -
  have g: "P (with_field k msg s f)" if "\<And>v. P (f v)" for k f
    using that assms(1) by (simp add: with_field_def split: sum.split)
  have i: "P a \<Longrightarrow> P b \<Longrightarrow> P (if c then a else b)" for a b c by simp
  have b: "P (case set_bpm (stoi v) (gs_transport s) of
         Inl e \<Rightarrow> (Some HandlerThrew, [], s)
       | Inr t \<Rightarrow> (None, [Broadcast [(''command'', ''bpmset''), (''bpm'', show_int (tr_bpm t))], Answer [(''bpmsync'', show_int (tr_bpm t))]],
                   s \<lparr> gs_transport := t \<rparr>))" for v
    using assms(1,8) by (simp split: sum.split)
  have l: "P (case set_lpb (stoi v) (gs_transport s) of
         Inl e \<Rightarrow> (Some HandlerThrew, [], s)
       | Inr t \<Rightarrow> (None, [Broadcast [(''command'', ''lpbset''), (''lpb'', show_int (tr_lpb t))], Answer [(''lpbsync'', show_int (tr_lpb t))]],
                   s \<lparr> gs_transport := t \<rparr>))" for v
    using assms(1,9) by (simp split: sum.split)
  show ?thesis
    unfolding gco_process_server_def Let_def by (intro g i b l assms(2-7))
qed

text \<open>A message in which a client finds a command and at most one number.\<close>

lemma gco_receive_command:
  assumes "0 \<le> i" "i < 2 ^ 31" "c \<in> {''play'', ''stop'', ''dorecord'', ''dontrecord''}"
  shows "gco_receive cl (i, [(''command'', c)]) =
    (if c = ''play'' then cl \<lparr> gc_playing := True \<rparr> else if c = ''stop'' then cl \<lparr> gc_playing := False \<rparr>
     else if c = ''dorecord'' then cl \<lparr> gc_recording := True \<rparr> else cl \<lparr> gc_recording := False \<rparr>)"
proof -
  have "plain c" "length c \<le> 20" using assms(3) by (auto simp: plain_def has_delim_def nul_free_def)
  from receive_fields_sent [OF wire_ok_command [OF assms(1,2) this], of gco_process_client cl] obtain msg where
    m: "receive_fields i gco_process_client cl [(''command'', c)] = (case gco_process_client msg cl of Inl e \<Rightarrow> cl | Inr c' \<Rightarrow> c')"
    "get_value ''command'' msg = Inr c" by fastforce
  from assms(3) m show ?thesis by (auto simp: gco_receive_def gco_process_client_def)
qed

lemma gco_receive_setting:
  assumes "0 \<le> i" "i < 2 ^ 31" "0 \<le> v" "v \<le> 200"
  shows "gco_receive cl (i, [(''command'', ''bpmset''), (''bpm'', show_int v)]) = cl \<lparr> gc_bpm := v \<rparr>"
    "gco_receive cl (i, [(''command'', ''lpbset''), (''lpb'', show_int v)]) = cl \<lparr> gc_lpb := v \<rparr>"
proof -
  have p: "plain ''bpmset''" "plain ''lpbset''" by (simp_all add: plain_def has_delim_def nul_free_def)
  have v: "stoi (show_int v) = v" using assms(3,4) by (intro stoi_number) auto
  have w: "wire_ok [(''id'', show_int i), (''command'', ''bpmset''), (''bpm'', show_int v)]"
    "wire_ok [(''id'', show_int i), (''command'', ''lpbset''), (''lpb'', show_int v)]"
    using wire_ok_setting [OF assms(1,2) p(1) _ _ assms(3,4)] wire_ok_setting [OF assms(1,2) p(2) _ _ assms(3,4)] by auto
  from receive_fields_sent [OF w(1), of gco_process_client cl] obtain msg where
    m: "receive_fields i gco_process_client cl [(''command'', ''bpmset''), (''bpm'', show_int v)] =
      (case gco_process_client msg cl of Inl e \<Rightarrow> cl | Inr c' \<Rightarrow> c')"
    "get_value ''command'' msg = Inr ''bpmset''" "get_value ''bpm'' msg = Inr (show_int v)" by fastforce
  with v show "gco_receive cl (i, [(''command'', ''bpmset''), (''bpm'', show_int v)]) = cl \<lparr> gc_bpm := v \<rparr>"
    by (simp add: gco_receive_def gco_process_client_def)
  from receive_fields_sent [OF w(2), of gco_process_client cl] obtain msg where
    m: "receive_fields i gco_process_client cl [(''command'', ''lpbset''), (''lpb'', show_int v)] =
      (case gco_process_client msg cl of Inl e \<Rightarrow> cl | Inr c' \<Rightarrow> c')"
    "get_value ''command'' msg = Inr ''lpbset''" "get_value ''lpb'' msg = Inr (show_int v)" by fastforce
  with v show "gco_receive cl (i, [(''command'', ''lpbset''), (''lpb'', show_int v)]) = cl \<lparr> gc_lpb := v \<rparr>"
    by (simp add: gco_receive_def gco_process_client_def)
qed

definition gco_mirrored :: "gco_server \<Rightarrow> gco_result \<Rightarrow> bool" where
  "gco_mirrored s r \<longleftrightarrow> (case r of (e, es, s') \<Rightarrow> gco_inv s' \<and> gs_id s' = gs_id s \<and>
     (case (e, broadcast_of es) of
        (None, Some kvs) \<Rightarrow> gco_receive (gco_view s) (gs_id s, kvs) = gco_view s'
      | _ \<Rightarrow> gco_view s' = gco_view s))"

lemma gco_mirrors:
  assumes "gco_inv s"
  shows "gco_mirrored s (gco_process_server msg s)"
proof (rule gco_process_server_cases)
  have id: "0 \<le> gs_id s" "gs_id s < 2 ^ 31" using assms by (simp_all add: gco_inv_def)
  note rc = gco_receive_command [OF id]
  show "gco_mirrored s (None, [Broadcast [(''command'', ''play'')]], s \<lparr> gs_transport := play (gs_transport s) \<rparr>)"
    "gco_mirrored s (None, [Broadcast [(''command'', ''stop'')]], s \<lparr> gs_transport := stop (gs_transport s) \<rparr>)"
    "gco_mirrored s (None, [], s \<lparr> gs_transport := rewind (gs_transport s) \<rparr>)"
    using assms by (simp_all add: gco_mirrored_def rc gco_view_def gco_inv_def play_def stop_def rewind_def reset_global_playback_parameters_def Let_def)
  show "gco_mirrored s (None, [Broadcast [(''command'', if b then ''dorecord'' else ''dontrecord'')]],
    s \<lparr> gs_transport := set_record_state b (gs_transport s) \<rparr>)" for b
    using assms by (cases b) (simp_all add: gco_mirrored_def rc gco_view_def gco_inv_def set_record_state_def)
  show "gco_mirrored s (None, [Broadcast [(''command'', ''bpmset''), (''bpm'', show_int (tr_bpm t))], Answer [(''bpmsync'', show_int (tr_bpm t))]],
    s \<lparr> gs_transport := t \<rparr>)" if "set_bpm v (gs_transport s) = Inr t" for v t
    using that assms gco_receive_setting(1) [OF id, of "tr_bpm t"]
    by (auto simp: gco_mirrored_def set_bpm_def gco_view_def gco_inv_def split: if_splits)
  show "gco_mirrored s (None, [Broadcast [(''command'', ''lpbset''), (''lpb'', show_int (tr_lpb t))], Answer [(''lpbsync'', show_int (tr_lpb t))]],
    s \<lparr> gs_transport := t \<rparr>)" if "set_lpb v (gs_transport s) = Inr t" for v t
    using that assms gco_receive_setting(2) [OF id, of "tr_lpb t"]
    by (auto simp: gco_mirrored_def set_lpb_def gco_view_def gco_inv_def split: if_splits)
qed (use assms in \<open>simp_all add: gco_mirrored_def\<close>)

interpretation gco: replicated_object gco_serve gco_receive gco_view gco_inv "\<lambda>s r. True" "\<lambda>m. True"
proof
  fix s r x s' and e :: registry_error and m
  assume i: "gco_inv s"
  note mir = gco_mirrors [OF i, of r]
  show "gco_serve s r = (x, s') \<Longrightarrow> gco_inv s'"
    using mir by (auto simp: gco_serve_def gco_mirrored_def split: prod.splits option.splits)
  show "gco_serve s r = (Inr (Some m), s') \<Longrightarrow> gco_receive (gco_view s) m = gco_view s'"
    using mir by (auto simp: gco_serve_def gco_mirrored_def split: prod.splits option.splits)
  show "gco_serve s r = (Inr None, s') \<Longrightarrow> gco_view s' = gco_view s"
    using mir by (auto simp: gco_serve_def gco_mirrored_def split: prod.splits option.splits)
  show "gco_serve s r = (Inl e, s') \<Longrightarrow> gco_view s' = gco_view s"
    using mir by (auto simp: gco_serve_def gco_mirrored_def split: prod.splits option.splits)
qed

section \<open>Properties\<close>

lemma gco_created:
  assumes "gco_inv s"
  shows "\<exists>msg. read_message (wire_bytes (create_message \<lparr> obj_id = gs_id s, obj_type = ''GloCtrlObj'', obj_fields = gco_fields s \<rparr>)) new_message =
      Inr (msg, []) \<and> gco_create msg = Inr (gco_view s)"
proof -
  let ?kvs = "create_message \<lparr> obj_id = gs_id s, obj_type = ''GloCtrlObj'', obj_fields = gco_fields s \<rparr>"
  let ?t = "gs_transport s"
  have v: "stoi (show_int (tr_bpm ?t)) = tr_bpm ?t" "stoi (show_int (tr_lpb ?t)) = tr_lpb ?t"
    using assms by (auto simp: gco_inv_def intro!: stoi_number)
  have l: "length (show_int i) \<le> 100" if "\<bar>i\<bar> < 10 ^ 10" for i using show_int_length [OF that] by simp
  have "wire_ok ?kvs"
    using assms show_int_plain l
    by (intro wire_ok_short) (auto simp: create_message_def add_create_object_header_def gco_fields_def gco_inv_def bool_text_def plain_def
        has_delim_def nul_free_def msg_numbers)
  from wire_ok_read(2) [OF this, of new_message "[]"] obtain msg where
    m: "read_message (wire_bytes ?kvs) new_message = Inr (msg, [])"
    "\<forall>k. get_value k msg = (case map_of ?kvs k of Some v \<Rightarrow> Inr v | None \<Rightarrow> Inl (NoSuchKey k))" by (auto simp: new_message_def)
  have "gco_create msg = Inr (gco_view s)"
    by (simp add: gco_create_def m(2) create_message_def add_create_object_header_def gco_fields_def gco_view_def v bool_text_def)
  with m(1) show ?thesis by blast
qed

text \<open>C5: the global control object of a client shows what the server has: the bytes that announce the object create it with the
  tempo, the lines per beat and the playing and recording state of the transport, and after any requests, of any content, the
  messages the server sent lead it to the state the transport has then; the tempo stays in its range throughout.\<close>

theorem global_control_replicated:
  assumes "gco_inv s" "gco.serve_all s reqs = (ms, s')"
  shows "(\<exists>msg. read_message (wire_bytes (create_message \<lparr> obj_id = gs_id s, obj_type = ''GloCtrlObj'', obj_fields = gco_fields s \<rparr>)) new_message =
      Inr (msg, []) \<and> gco_create msg = Inr (gco_view s)) \<and>
    fold (\<lambda>m c. gco_receive c m) ms (gco_view s) = gco_view s' \<and> gco_inv s'"
proof -
  have served: "gco.served_all s rs" for s rs by (induction rs arbitrary: s) simp_all
  from gco.replicated [OF assms(1) served assms(2)] gco_created [OF assms(1)] show ?thesis by simp
qed

definition demo_gco :: gco_server where
  "demo_gco = \<lparr> gs_id = 1, gs_transport = initial_transport, gs_arp_patterns = [''up'', ''down''], gs_record_fname = ''song.wav'' \<rparr>"

definition demo_requests :: "message list" where
  "demo_requests = map request [[(''command'', ''play'')], [(''command'', ''set_bpm''), (''bpm'', ''90''), (''repid'', ''0'')],
     [(''command'', ''set_bpm''), (''bpm'', ''900''), (''repid'', ''1'')], [(''command'', ''rewind'')]]"

theorem global_control_replicated_witness:
  "fold (\<lambda>m c. gco_receive c m) [(1, [(''command'', ''play'')]), (1, [(''command'', ''bpmset''), (''bpm'', ''90'')])] (gco_view demo_gco) =
     \<lparr> gc_bpm = 90, gc_lpb = 4, gc_playing = True, gc_recording = False \<rparr>"
proof -
  have inv: "gco_inv demo_gco" by (simp add: gco_inv_def demo_gco_def initial_transport_def)
  have ms: "fst (gco.serve_all demo_gco demo_requests) = [(1, [(''command'', ''play'')]), (1, [(''command'', ''bpmset''), (''bpm'', ''90'')])]"
    "gco_view (snd (gco.serve_all demo_gco demo_requests)) = \<lparr> gc_bpm = 90, gc_lpb = 4, gc_playing = True, gc_recording = False \<rparr>"
    unfolding demo_requests_def by (simp_all add: gco.serve_all.simps) code_simp+
  obtain m s' where r: "gco.serve_all demo_gco demo_requests = (m, s')" by fastforce
  from global_control_replicated [OF inv r] ms r show ?thesis by simp
qed

text \<open>A tempo out of range ends the client's session: nothing changes, and the server forgets the client (Stale_Requests).\<close>

lemma tempo_out_of_range:
  assumes "get_value ''command'' msg = Inr ''set_bpm''" "get_value ''bpm'' msg = Inr v" "stoi v < 20 \<or> 200 < stoi v"
    "get_value ''id'' msg = Inr i" "map_find (stoi i) (all_objects sv) = Some ob" "stoi i \<noteq> MSG_DELETE_OBJECT"
  shows "gco_process_server msg s = (Some HandlerThrew, [], s)" "agent_read_body [] (Some HandlerThrew) a msg sv = drop_client a sv"
  using assms
  by (simp_all add: gco_process_server_def with_field_def set_bpm_def agent_read_body_def agent_message_received_def
      route_incomming_message_def and_then_def)

end
