(* ===== verification/Remote_Calls.thy ===== *)
theory Remote_Calls
  imports Sequencer Global_Control Id_Allocator
begin

text \<open>
  Calls on a machine from a client (remote_interface.cc, \<open>RIMachine\<close> and \<open>RIController\<close>): the message each
  call of the client becomes, what the server reads from it, and what it then does to the sequencer
  behind the object. \<open>std::stol\<close> reads 32 bits, as \<open>std::stoi\<close> does. A position is a double of a type of its
  own, with \<open>to_string\<close> and \<open>atof\<close> as arguments; the finger positions of the pad are taken after their
  conversion to integers.
\<close>

section \<open>Calls\<close>

datatype pad_axis = pad_x_axis | pad_y_axis | pad_z_axis

text \<open>The two fields that set a controller are read late, so they are kept as what reading them gives.\<close>

datatype 'd ri_call =
  PadEvt int pad_event_t int int int
| MidiData "8 word list"
| SetCtrVal "(msg_error, int) result" "(msg_error, string) result"
| DeleteMe
| SetPos 'd 'd
| RAttach int string string
| RDetach int string string
| GetNrLoops
| SetLoopIdAt int int
| ExportToLoop int
| SetOct int
| SetScl int
| SetRec bool
| SetQnt bool
| SetCtrl pad_axis string
| SetChord chord_mode
| SetArp string
| SetArpDirection arp_direction
| PadClear
| GetCtrlNames string
| GetCtrl string
| NoCall

fun int_of_event :: "pad_event_t \<Rightarrow> int" where
  "int_of_event ms_pad_press = 0"
| "int_of_event ms_pad_slide = 1"
| "int_of_event ms_pad_release = 2"
| "int_of_event ms_pad_no_event = 3"

fun int_of_axis :: "pad_axis \<Rightarrow> int" where
  "int_of_axis pad_x_axis = 0"
| "int_of_axis pad_y_axis = 1"
| "int_of_axis pad_z_axis = 2"

text \<open>The fields a call of the client sets, \<open>nm\<close> being the name of the machine.\<close>

fun ri_call_fields :: "('d \<Rightarrow> string) \<Rightarrow> string \<Rightarrow> 'd ri_call \<Rightarrow> msg_fields" where
  "ri_call_fields to_string nm (PadEvt f e xp yp zp) =
     [(''command'', ''padevt''), (''ignored'', nm), (''evt'', show_int (int_of_event e)), (''fgr'', show_int f),
      (''xp'', show_int xp), (''yp'', show_int yp), (''zp'', show_int zp)]"
| "ri_call_fields to_string nm (MidiData bs) =
     [(''command'', ''midi''), (''ignored'', nm), (''data'', encode_byte_array bs)]"
| "ri_call_fields to_string nm (SetCtrVal (Inr i) (Inr val)) =
     [(''command'', ''setctrval''), (''ctrl_id'', show_int i), (''value'', val)]"
| "ri_call_fields to_string nm DeleteMe = [(''command'', ''deleteme''), (''ignored'', nm)]"
| "ri_call_fields to_string nm (SetPos xp yp) =
     [(''command'', ''setpos''), (''ignored'', nm), (''xpos'', to_string xp), (''ypos'', to_string yp)]"
| "ri_call_fields to_string nm (RAttach i src dst) =
     [(''command'', ''r_attach''), (''s_objid'', show_int i), (''source'', src), (''destination'', dst)]"
| "ri_call_fields to_string nm (RDetach i src dst) =
     [(''command'', ''r_detach''), (''s_objid'', show_int i), (''source'', src), (''destination'', dst)]"
| "ri_call_fields to_string nm GetNrLoops = [(''command'', ''getnrloops''), (''ignored'', nm)]"
| "ri_call_fields to_string nm (SetLoopIdAt p l) =
     [(''command'', ''setloopidat''), (''ignored'', nm), (''position'', show_int p), (''loopid'', show_int l)]"
| "ri_call_fields to_string nm (ExportToLoop l) =
     [(''ignored'', nm), (''command'', ''export2loop''), (''loopid'', show_int l)]"
| "ri_call_fields to_string nm (SetOct i) = [(''ignored'', nm), (''command'', ''setoct''), (''octave'', show_int i)]"
| "ri_call_fields to_string nm (SetScl i) = [(''ignored'', nm), (''command'', ''setscl''), (''scale'', show_int i)]"
| "ri_call_fields to_string nm (SetRec b) = [(''ignored'', nm), (''command'', ''setrec''), (''record'', bool_text b)]"
| "ri_call_fields to_string nm (SetQnt b) = [(''ignored'', nm), (''command'', ''setqnt''), (''doquantize'', bool_text b)]"
| "ri_call_fields to_string nm (SetCtrl a n) =
     [(''ignored'', nm), (''command'', ''setctrl''), (''axis'', show_int (int_of_axis a)), (''midictrl'', n)]"
| "ri_call_fields to_string nm (SetChord c) =
     [(''ignored'', nm), (''command'', ''setchord''), (''chordmode'', show_int (int_of_chord c))]"
| "ri_call_fields to_string nm (SetArp n) =
     [(''ignored'', nm), (''command'', ''setarp''), (''arppattern'', n)]"
| "ri_call_fields to_string nm (SetArpDirection d) =
     [(''ignored'', nm), (''command'', ''setarpdirection''), (''direction'', show_int (int_of_direction d))]"
| "ri_call_fields to_string nm PadClear = [(''ignored'', nm), (''command'', ''padclear'')]"
| "ri_call_fields to_string nm (GetCtrlNames n) = [(''command'', ''get_ctrl_names''), (''grname'', n)]"
| "ri_call_fields to_string nm (GetCtrl n) = [(''command'', ''get_ctrl''), (''ctrlname'', n)]"
| "ri_call_fields to_string nm _ = []"

section \<open>What the server reads\<close>

definition get_int_value :: "string \<Rightarrow> message \<Rightarrow> (msg_error, int) result" where
  "get_int_value k msg = rbind (get_value k msg) (\<lambda>v. Inr (stoi v))"

definition get_bool_value :: "string \<Rightarrow> message \<Rightarrow> (msg_error, bool) result" where
  "get_bool_value k msg = rbind (get_value k msg) (\<lambda>v. Inr (v = ''true''))"

text \<open>The switches have no default: other numbers keep what the variable was set to before.\<close>

definition event_of_int :: "int \<Rightarrow> pad_event_t" where
  "event_of_int i = (if i = 0 then ms_pad_press else if i = 1 then ms_pad_slide else if i = 2 then ms_pad_release else ms_pad_no_event)"

definition axis_of_int :: "int \<Rightarrow> pad_axis" where
  "axis_of_int i = (if i = 1 then pad_y_axis else if i = 2 then pad_z_axis else pad_x_axis)"

definition chord_of_number :: "int \<Rightarrow> chord_mode" where
  "chord_of_number i = (if i = 1 then chord_triad else if i = 2 then chord_quad else chord_off)"

definition direction_of_number :: "int \<Rightarrow> arp_direction" where
  "direction_of_number i = (if i = 1 then arp_forward else if i = 2 then arp_reverse else if i = 3 then arp_pingpong else arp_off)"

text \<open>The fields of a command are read in the order of the code.\<close>

definition ri_command :: "(string \<Rightarrow> 'd) \<Rightarrow> string \<Rightarrow> message \<Rightarrow> (msg_error, 'd ri_call) result" where
  "ri_command atof command msg =
     (if command = ''padevt'' then
        rbind (get_int_value ''evt'' msg) (\<lambda>e. rbind (get_int_value ''fgr'' msg) (\<lambda>f. rbind (get_int_value ''xp'' msg) (\<lambda>x.
        rbind (get_int_value ''yp'' msg) (\<lambda>y. rbind (get_int_value ''zp'' msg) (\<lambda>z. Inr (PadEvt f (event_of_int e) x y z))))))
      else if command = ''midi'' then rbind (get_value ''data'' msg) (\<lambda>d. Inr (MidiData (decode_byte_array d)))
      else if command = ''setctrval'' then
        Inr (SetCtrVal (get_int_value ''ctrl_id'' msg) (get_value ''value'' msg))
      else if command = ''deleteme'' then Inr DeleteMe
      else if command = ''setpos'' then
        rbind (get_value ''xpos'' msg) (\<lambda>x. rbind (get_value ''ypos'' msg) (\<lambda>y. Inr (SetPos (atof x) (atof y))))
      else if command = ''r_attach'' then
        rbind (get_int_value ''s_objid'' msg) (\<lambda>i. rbind (get_value ''source'' msg) (\<lambda>s. rbind (get_value ''destination'' msg) (\<lambda>d.
          Inr (RAttach i s d))))
      else if command = ''r_detach'' then
        rbind (get_int_value ''s_objid'' msg) (\<lambda>i. rbind (get_value ''source'' msg) (\<lambda>s. rbind (get_value ''destination'' msg) (\<lambda>d.
          Inr (RDetach i s d))))
      else if command = ''getnrloops'' then Inr GetNrLoops
      else if command = ''setloopidat'' then
        rbind (get_int_value ''position'' msg) (\<lambda>p. rbind (get_int_value ''loopid'' msg) (\<lambda>l. Inr (SetLoopIdAt p l)))
      else if command = ''export2loop'' then rbind (get_int_value ''loopid'' msg) (\<lambda>l. Inr (ExportToLoop l))
      else if command = ''setoct'' then rbind (get_int_value ''octave'' msg) (\<lambda>i. Inr (SetOct i))
      else if command = ''setscl'' then rbind (get_int_value ''scale'' msg) (\<lambda>i. Inr (SetScl i))
      else if command = ''setrec'' then rbind (get_bool_value ''record'' msg) (\<lambda>b. Inr (SetRec b))
      else if command = ''setqnt'' then rbind (get_bool_value ''doquantize'' msg) (\<lambda>b. Inr (SetQnt b))
      else if command = ''setctrl'' then
        rbind (get_int_value ''axis'' msg) (\<lambda>a. rbind (get_value ''midictrl'' msg) (\<lambda>c. Inr (SetCtrl (axis_of_int a) c)))
      else if command = ''setchord'' then rbind (get_int_value ''chordmode'' msg) (\<lambda>i. Inr (SetChord (chord_of_number i)))
      else if command = ''setarp'' then rbind (get_value ''arppattern'' msg) (\<lambda>p. Inr (SetArp p))
      else if command = ''setarpdirection'' then rbind (get_int_value ''direction'' msg) (\<lambda>i. Inr (SetArpDirection (direction_of_number i)))
      else if command = ''padclear'' then Inr PadClear
      else if command = ''get_ctrl_names'' then rbind (get_value ''grname'' msg) (\<lambda>g. Inr (GetCtrlNames g))
      else if command = ''get_ctrl'' then rbind (get_value ''ctrlname'' msg) (\<lambda>c. Inr (GetCtrl c))
      else Inr NoCall)"

text \<open>The commands that are refused before anything is read when the machine is not a sequencer.\<close>

definition sequencer_commands :: "string list" where
  "sequencer_commands = [''getnrloops'', ''setloopidat'', ''export2loop'', ''setoct'', ''setscl'', ''setrec'', ''setqnt'', ''setctrl'',
     ''setchord'', ''setarp'', ''setarpdirection'', ''padclear'']"

definition ri_decode :: "(string \<Rightarrow> 'd) \<Rightarrow> bool \<Rightarrow> message \<Rightarrow> (registry_error, 'd ri_call) result" where
  "ri_decode atof mseq msg = (case get_value ''command'' msg of
     Inl e \<Rightarrow> Inl (BadMessage e)
   | Inr command \<Rightarrow>
       if command \<in> set sequencer_commands \<and> \<not> mseq then Inl (FailureResponse ''Not a MachineSequencer object.'')
       else (case ri_command atof command msg of Inl e \<Rightarrow> Inl (BadMessage e) | Inr c \<Rightarrow> Inr c))"


section \<open>What the server does\<close>

text \<open>
  The commands that work on the sequencer \<open>this\<close> of the studio and its pad. \<open>fuel\<close>, \<open>scalo\<close> and \<open>t\<close> are for
  the export (Sequencer), \<open>ctrls\<close> the controllers of the sibling. An exception is \<open>Inl\<close>; the other commands
  leave the studio alone.
\<close>

definition upd_pad :: "nat \<Rightarrow> (pad \<Rightarrow> pad) \<Rightarrow> studio \<Rightarrow> studio" where
  "upd_pad this f = upd_sequencer this (\<lambda>s. s \<lparr> sq_pad := f (sq_pad s) \<rparr>)"

definition try_pad :: "nat \<Rightarrow> (pad \<Rightarrow> (pad_error, pad) result) \<Rightarrow> studio \<Rightarrow> (sequencer_error, studio) result" where
  "try_pad this f st = (case f (sq_pad (sequencers st this)) of Inl e \<Rightarrow> Inl (PadFault e) | Inr p \<Rightarrow> Inr (upd_pad this (\<lambda>_. p) st))"

fun ri_perform ::
  "nat \<Rightarrow> scales_object option \<Rightarrow> transport \<Rightarrow> controller_list \<Rightarrow> nat \<Rightarrow> 'd ri_call \<Rightarrow> studio \<Rightarrow> (sequencer_error, studio) result option" where
  "ri_perform fuel scalo t ctrls this (PadEvt f e x y z) st = Some (Inr (upd_pad this (enqueue_event f e x y z) st))"
| "ri_perform fuel scalo t ctrls this (SetLoopIdAt p l) st =
     (case internal_set_loop_id_at this p l st of (Some e, _) \<Rightarrow> Some (Inl e) | (None, st1) \<Rightarrow> Some (Inr st1))"
| "ri_perform fuel scalo t ctrls this (ExportToLoop l) st = export_pad_to_loop fuel scalo t this l st"
| "ri_perform fuel scalo t ctrls this (SetOct i) st = Some (Inr (upd_pad this (\<lambda>p. p \<lparr> config := set_octave i (config p) \<rparr>) st))"
| "ri_perform fuel scalo t ctrls this (SetScl i) st = Some (Inr (upd_pad this (\<lambda>p. p \<lparr> config := set_scale i (config p) \<rparr>) st))"
| "ri_perform fuel scalo t ctrls this (SetRec b) st = Some (try_pad this (internal_set_record b) st)"
| "ri_perform fuel scalo t ctrls this (SetQnt b) st = Some (Inr (upd_pad this (set_quantize b) st))"
| "ri_perform fuel scalo t ctrls this (SetCtrl a n) st =
     (case assign_pad_to_midi_controller ctrls (a = pad_y_axis) n (sequencers st this) of
        None \<Rightarrow> Some (Inl BadParameter)
      | Some s \<Rightarrow> Some (Inr (upd_sequencer this (\<lambda>_. s) st)))"
| "ri_perform fuel scalo t ctrls this (SetChord c) st = Some (Inr (upd_sequencer this (set_pad_chord_mode c) st))"
| "ri_perform fuel scalo t ctrls this (SetArp n) st = Some (Inr (upd_sequencer this (set_pad_arpeggio_pattern n) st))"
| "ri_perform fuel scalo t ctrls this (SetArpDirection d) st = Some (Inr (upd_sequencer this (set_pad_arpeggio_direction d) st))"
| "ri_perform fuel scalo t ctrls this PadClear st = Some (try_pad this internal_clear_pad st)"
| "ri_perform fuel scalo t ctrls this _ st = Some (Inr st)"

text \<open>The replies: the number of loops, and the names of controllers that \<open>names\<close> finds for a group.\<close>

fun ri_answer :: "string list \<Rightarrow> (string \<Rightarrow> string list) \<Rightarrow> nat \<Rightarrow> 'd ri_call \<Rightarrow> studio \<Rightarrow> handler_effect list" where
  "ri_answer all_names names this GetNrLoops st = [Answer [(''nrloops'', show_int (get_nr_of_loops (sequencers st this)))]]"
| "ri_answer all_names names this (GetCtrlNames g) st =
     [Answer [(''ctrlnames'', ser_result (ser_container ser_string (if g = [] then all_names else names g)))]]"
| "ri_answer all_names names this _ st = []"

section \<open>Empty values\<close>

text \<open>An empty value is written as another text, which is what is read at the other end.\<close>

definition sent :: "string \<Rightarrow> string" where
  "sent s = (if s = [] then ''<empty>'' else s)"

definition sendable_text :: "string \<Rightarrow> bool" where
  "sendable_text s \<longleftrightarrow> nul_free s \<and> \<not> has_delim s"

definition fields_ok :: "msg_fields \<Rightarrow> bool" where
  "fields_ok kvs \<longleftrightarrow> (\<forall>p \<in> set kvs. plain (fst p) \<and> sendable_text (snd p)) \<and> distinct (map fst kvs) \<and>
     length (body_text (map encode_pair kvs)) < 2 ^ 32"

lemma sent_Cons [simp]: "sent (x # xs) = x # xs"
  by (simp add: sent_def)

lemma sent_plain: "sendable_text s \<Longrightarrow> plain (sent s)"
  by (auto simp: sendable_text_def plain_def sent_def nul_free_def has_delim_def)

lemma encode_sent [simp]: "encode_string (sent s) = encode_string s"
  by (simp add: sent_def encode_string_def strncpy_buffer_def)

lemma set_values_sent: "set_values (map (apsnd sent) kvs) m = set_values kvs m"
proof (induction kvs arbitrary: m)
  case (Cons p kvs)
  have "has_delim (sent v) = has_delim v" for v by (simp add: sent_def has_delim_def)
  then have "set_value k (sent v) m = set_value k v m" for k v m by (simp add: set_value_def)
  moreover have "set_values (map (apsnd sent) kvs) = set_values kvs" using Cons.IH by blast
  ultimately show ?case by (cases p) simp
qed simp

lemma wire_bytes_sent: "wire_bytes (map (apsnd sent) kvs) = wire_bytes kvs"
  by (simp add: wire_bytes_def message_bytes_def set_values_sent)

lemma fields_ok_short:
  assumes "\<forall>p \<in> set kvs. plain (fst p) \<and> sendable_text (snd p) \<and> length (fst p) \<le> 100 \<and> length (snd p) \<le> 100"
    "distinct (map fst kvs)" "length kvs \<le> 100"
  shows "fields_ok kvs"
proof -
  have e: "map encode_pair (map (apsnd sent) kvs) = map encode_pair kvs" by simp
  have "length (sent v) \<le> 100" if "length v \<le> 100" for v using that by (simp add: sent_def)
  then have "wire_ok (map (apsnd sent) kvs)"
    using assms sent_plain by (intro wire_ok_short) (auto simp: comp_def)
  then have "length (body_text (map encode_pair (map (apsnd sent) kvs))) < 2 ^ 32" unfolding wire_ok_def by blast
  then show ?thesis unfolding e using assms by (auto simp: fields_ok_def)
qed

text \<open>What arrives: every key with the value that was sent.\<close>

lemma fields_read:
  assumes "fields_ok kvs"
  shows "\<exists>msg. read_message (wire_bytes kvs) new_message = Inr (msg, []) \<and>
    (\<forall>k. get_value k msg = (case map_of kvs k of Some v \<Rightarrow> Inr (sent v) | None \<Rightarrow> Inl (NoSuchKey k)))"
proof -
  have e: "map encode_pair (map (apsnd sent) kvs) = map encode_pair kvs" by simp
  have "length (body_text (map encode_pair (map (apsnd sent) kvs))) < 2 ^ 32" unfolding e using assms by (simp add: fields_ok_def)
  moreover have "map fst (map (apsnd sent) kvs) = map fst kvs" by simp
  ultimately have "wire_ok (map (apsnd sent) kvs)"
    using assms sent_plain by (auto simp: wire_ok_def fields_ok_def)
  from wire_ok_read(2) [OF this, of new_message "[]"] obtain msg where
    m: "read_message (wire_bytes kvs) new_message = Inr (msg, [])"
    "\<forall>k. get_value k msg = (case map_of (map (apsnd sent) kvs) k of Some v \<Rightarrow> Inr v | None \<Rightarrow> Inl (NoSuchKey k))"
    by (auto simp: new_message_def wire_bytes_sent)
  have "map_of (map (apsnd sent) kvs) k = map_option sent (map_of kvs k)" for k
    by (induction kvs) (auto simp: apsnd_def)
  with m show ?thesis by (auto split: option.split)
qed


text \<open>A list of names arrives, an empty one too.\<close>

definition name_free :: "char \<Rightarrow> string \<Rightarrow> bool" where
  "name_free d n \<longleftrightarrow> n \<noteq> [] \<and> d \<notin> set n"

lemma names_arrive:
  assumes "\<forall>n \<in> set xs. name_free CHR '':'' n"
  shows "parse_names CHR '':'' (sent (delimited CHR '':'' xs)) = xs"
proof (cases "xs = []")
  case True
  then show ?thesis
    by (simp add: sent_def delimited_def parse_names_def istringstream_def getline_def parse_delimited.simps)
next
  case False
  then have "delimited CHR '':'' xs \<noteq> []" by (auto simp: delimited_def neq_Nil_conv)
  then show ?thesis using assms parse_names_delimited [of xs "CHR '':''"] by (simp add: sent_def name_free_def)
qed

section \<open>What arrives\<close>

definition int32 :: "int \<Rightarrow> bool" where
  "int32 i \<longleftrightarrow> - (2 ^ 31) \<le> i \<and> i < 2 ^ 31"

text \<open>A call as the server reads it: positions as printed and read again, empty names as they are sent.\<close>

fun arrived :: "('d \<Rightarrow> string) \<Rightarrow> (string \<Rightarrow> 'd) \<Rightarrow> 'd ri_call \<Rightarrow> 'd ri_call" where
  "arrived to_string atof (SetPos x y) = SetPos (atof (sent (to_string x))) (atof (sent (to_string y)))"
| "arrived to_string atof (MidiData bytes) = MidiData (if bytes = [] then decode_byte_array ''<empty>'' else bytes)"
| "arrived to_string atof (SetCtrVal (Inr i) (Inr v)) = SetCtrVal (Inr i) (Inr (sent v))"
| "arrived to_string atof (RAttach i s d) = RAttach i (sent s) (sent d)"
| "arrived to_string atof (RDetach i s d) = RDetach i (sent s) (sent d)"
| "arrived to_string atof (SetCtrl a n) = SetCtrl a (sent n)"
| "arrived to_string atof (SetArp n) = SetArp (sent n)"
| "arrived to_string atof (GetCtrlNames n) = GetCtrlNames (sent n)"
| "arrived to_string atof (GetCtrl n) = GetCtrl (sent n)"
| "arrived to_string atof c = c"

fun call_ints :: "'d ri_call \<Rightarrow> int list" where
  "call_ints (PadEvt f e x y z) = [f, x, y, z]"
| "call_ints (SetCtrVal (Inr i) v) = [i]"
| "call_ints (RAttach i s d) = [i]"
| "call_ints (RDetach i s d) = [i]"
| "call_ints (SetLoopIdAt p l) = [p, l]"
| "call_ints (ExportToLoop l) = [l]"
| "call_ints (SetOct i) = [i]"
| "call_ints (SetScl i) = [i]"
| "call_ints _ = []"

fun client_call :: "'d ri_call \<Rightarrow> bool" where
  "client_call NoCall = False"
| "client_call (SetCtrVal (Inl e) v) = False"
| "client_call (SetCtrVal (Inr i) (Inl e)) = False"
| "client_call _ = True"

lemma number_arrives: "int32 i \<Longrightarrow> stoi (sent (show_int i)) = i"
  using show_int_plain [of i] by (simp add: sent_def plain_def stoi_number int32_def)

lemma switches_total [simp]:
  "event_of_int (int_of_event e) = e" "axis_of_int (int_of_axis a) = a" "chord_of_number (int_of_chord c) = c"
  "direction_of_number (int_of_direction d) = d" "int32 (int_of_event e)" "int32 (int_of_axis a)" "int32 (int_of_chord c)"
  "int32 (int_of_direction d)"
  by (cases e; cases a; cases c; cases d; simp add: event_of_int_def axis_of_int_def chord_of_number_def direction_of_number_def int32_def)+

lemma bool_arrives: "(sent (bool_text b) = ''true'') = b"
  by (simp add: bool_text_def sent_def)

fun needs_sequencer :: "'d ri_call \<Rightarrow> bool" where
  "needs_sequencer (PadEvt f e x y z) = False"
| "needs_sequencer (MidiData bs) = False"
| "needs_sequencer (SetCtrVal i v) = False"
| "needs_sequencer DeleteMe = False"
| "needs_sequencer (SetPos x y) = False"
| "needs_sequencer (RAttach i s d) = False"
| "needs_sequencer (RDetach i s d) = False"
| "needs_sequencer (GetCtrlNames n) = False"
| "needs_sequencer (GetCtrl n) = False"
| "needs_sequencer _ = True"

lemma bytes_arrive: "decode_byte_array (sent (encode_byte_array bs)) = (if bs = [] then decode_byte_array ''<empty>'' else bs)"
proof -
  have "encode_byte_array bs = [] \<longleftrightarrow> bs = []" by (cases bs) (simp_all add: encode_byte_array_def encode_byte_def)
  then show ?thesis by (simp add: sent_def decode_encode_byte_array)
qed

lemma call_decoded:
  assumes g: "\<forall>p \<in> set (ri_call_fields to_string nm c). get_value (fst p) msg = Inr (sent (snd p))"
    and c: "client_call c" "\<forall>n \<in> set (call_ints c). int32 n"
  shows "ri_decode atof mseq msg =
    (if needs_sequencer c \<and> \<not> mseq then Inl (FailureResponse ''Not a MachineSequencer object.'') else Inr (arrived to_string atof c))"
  using c g
  by (cases c rule: client_call.cases)
    (simp_all add: ri_decode_def ri_command_def sequencer_commands_def get_int_value_def get_bool_value_def number_arrives bool_arrives bytes_arrive)

section \<open>Handles of controllers\<close>

text \<open>
  \<open>ServerSideControllerContainer\<close>: the controllers a client asked for, under numbers of an allocator of its
  own. A controller is an address; \<open>alive\<close> tells whether a client is still there.
\<close>

record controller_container =
  cc_ids :: id_allocator
  id2ctrl :: "(int, nat) smap"

type_synonym containers = "(int, controller_container) smap"

definition new_container :: controller_container where
  "new_container = \<lparr> cc_ids = new_id_allocator 32, id2ctrl = [] \<rparr>"

definition cleanup_stray_controllers :: "(int \<Rightarrow> bool) \<Rightarrow> containers \<Rightarrow> containers" where
  "cleanup_stray_controllers alive cs = filter (\<lambda>p. alive (fst p)) cs"

text \<open>\<open>ctrl\<close> is what the machine gives for the name, None when it throws. The result is the number the client
  is told.\<close>

definition process_get_ctrl_message :: "(int \<Rightarrow> bool) \<Rightarrow> int \<Rightarrow> nat option \<Rightarrow> containers \<Rightarrow> int option \<times> containers" where
  "process_get_ctrl_message alive src ctrl cs =
     (let sscc = (case map_find src cs of None \<Rightarrow> new_container | Some c \<Rightarrow> c) in
      case get_id (cc_ids sscc) of (new_id, ids) \<Rightarrow>
        (case ctrl of
           None \<Rightarrow> (None, map_set src (sscc \<lparr> cc_ids := ids \<rparr>) cs)
         | Some p \<Rightarrow> (Some (sint new_id), cleanup_stray_controllers alive
             (map_set src (sscc \<lparr> cc_ids := ids, id2ctrl := map_set (sint new_id) p (id2ctrl sscc) \<rparr>) cs))))"

datatype ctrl_type = c_int | c_float | c_bool | c_string | c_enum | c_sigid | c_double

text \<open>Floating point values are kept as the text they are read from.\<close>

datatype ctrl_value = IntValue int | FloatText string | BoolValue bool | StringValue string

fun read_ctrl_value :: "ctrl_type \<Rightarrow> string \<Rightarrow> ctrl_value" where
  "read_ctrl_value c_float v = FloatText v"
| "read_ctrl_value c_double v = FloatText v"
| "read_ctrl_value c_bool v = BoolValue (v = ''true'')"
| "read_ctrl_value c_string v = StringValue v"
| "read_ctrl_value _ v = IntValue (stoi v)"

text \<open>The controller that is set and its value, if there is one.\<close>

definition process_setctrl_val_message ::
  "(nat \<Rightarrow> ctrl_type) \<Rightarrow> int \<Rightarrow> (msg_error, int) result \<Rightarrow> (msg_error, string) result \<Rightarrow> containers \<Rightarrow> (msg_error, (nat \<times> ctrl_value) option) result" where
  "process_setctrl_val_message type_of src ctrl_id v cs = (case map_find src cs of
     None \<Rightarrow> Inr None
   | Some sscc \<Rightarrow> rbind ctrl_id (\<lambda>i. case map_find i (id2ctrl sscc) of
       None \<Rightarrow> Inr None
     | Some p \<Rightarrow> rbind v (\<lambda>v. Inr (Some (p, read_ctrl_value (type_of p) v)))))"

definition handle :: "int \<Rightarrow> int \<Rightarrow> containers \<Rightarrow> nat option" where
  "handle src i cs = (case map_find src cs of None \<Rightarrow> None | Some c \<Rightarrow> map_find i (id2ctrl c))"

definition container_ok :: "controller_container \<Rightarrow> bool" where
  "container_ok c \<longleftrightarrow> map_ok (id2ctrl c) \<and> (\<exists>live. id_inv (cc_ids c) live \<and> map_keys (id2ctrl c) \<subseteq> sint ` live)"

definition containers_ok :: "containers \<Rightarrow> bool" where
  "containers_ok cs \<longleftrightarrow> map_ok cs \<and> (\<forall>p \<in> set cs. container_ok (snd p))"

definition container_room :: "int \<Rightarrow> containers \<Rightarrow> bool" where
  "container_room src cs \<longleftrightarrow> (case map_find src cs of None \<Rightarrow> True | Some c \<Rightarrow> id_room (cc_ids c))"

lemma new_container_ok: "container_ok new_container" "id_room (cc_ids new_container)"
  using new_id_allocator_inv [of 32] by (auto simp: container_ok_def new_container_def map_keys_def id_room_def new_id_allocator_def)

lemma container_get:
  assumes "container_ok c" "id_room (cc_ids c)" "get_id (cc_ids c) = (i, ids)"
  shows "map_find (sint i) (id2ctrl c) = None" "container_ok (c \<lparr> cc_ids := ids \<rparr>)"
    "container_ok (c \<lparr> cc_ids := ids, id2ctrl := map_set (sint i) p (id2ctrl c) \<rparr>)"
proof -
  obtain live where l: "id_inv (cc_ids c) live" "map_keys (id2ctrl c) \<subseteq> sint ` live" and m: "map_ok (id2ctrl c)"
    using assms(1) by (auto simp: container_ok_def)
  have i: "i \<notin> live" "id_inv ids (insert i live)" using ids.get_fresh [OF l(1)] ids.get_inv [OF l(1) assms(2)] assms(3) by simp_all
  then have "sint i \<notin> sint ` live" by (metis imageE word_eq_iff_signed)
  with l(2) m show "map_find (sint i) (id2ctrl c) = None" by (auto simp: map_find_None_iff)
  show "container_ok (c \<lparr> cc_ids := ids \<rparr>)" using i l m by (auto simp: container_ok_def)
  show "container_ok (c \<lparr> cc_ids := ids, id2ctrl := map_set (sint i) p (id2ctrl c) \<rparr>)"
    using i l m by (auto simp: container_ok_def map_keys_map_set intro!: exI [of _ "insert i live"])
qed

lemma containers_find: "containers_ok cs \<Longrightarrow> map_find src cs = Some c \<Longrightarrow> container_ok c"
  by (auto simp: containers_ok_def map_find_iff)

lemma containers_set: "containers_ok cs \<Longrightarrow> container_ok c \<Longrightarrow> containers_ok (map_set src c cs)"
  by (auto simp: containers_ok_def map_set_set)

lemma containers_cleanup:
  "containers_ok cs \<Longrightarrow> containers_ok (cleanup_stray_controllers alive cs)"
  "containers_ok cs \<Longrightarrow> handle a i (cleanup_stray_controllers alive cs) = (if alive a then handle a i cs else None)"
  by (auto simp: containers_ok_def cleanup_stray_controllers_def handle_def map_find_filter)

section \<open>Properties\<close>

text \<open>C13: a call on a machine arrives as it was made: the bytes of its message are read at the server as the call with its numbers,
  switches and names, positions as their text gives them and an empty name as the text that stands for it; on a machine
  that is no sequencer the calls that need one are refused with an answer, and no others.\<close>

theorem remote_calls_arrive:
  fixes to_string :: "'d \<Rightarrow> string"
  assumes "client_call c" "\<forall>n \<in> set (call_ints c). int32 n"
    "fields_ok ((''id'', show_int i) # ri_call_fields to_string nm c @ rep)"
  shows "\<exists>msg. read_message (wire_bytes ((''id'', show_int i) # ri_call_fields to_string nm c @ rep)) new_message = Inr (msg, []) \<and>
    get_value ''id'' msg = Inr (show_int i) \<and>
    (\<forall>mseq. ri_decode atof mseq msg =
      (if needs_sequencer c \<and> \<not> mseq then Inl (FailureResponse ''Not a MachineSequencer object.'') else Inr (arrived to_string atof c)))"
proof -
  let ?kvs = "(''id'', show_int i) # ri_call_fields to_string nm c @ rep"
  from fields_read [OF assms(3)] obtain msg where
    m: "read_message (wire_bytes ?kvs) new_message = Inr (msg, [])"
    "\<forall>k. get_value k msg = (case map_of ?kvs k of Some v \<Rightarrow> Inr (sent v) | None \<Rightarrow> Inl (NoSuchKey k))" by blast
  have "distinct (map fst ?kvs)" using assms(3) by (simp only: fields_ok_def)
  then have "map_of ?kvs (fst p) = Some (snd p)" if "p \<in> set ?kvs" for p using that by (auto simp del: map_of.simps intro!: map_of_is_SomeI)
  then have "\<forall>p \<in> set (ri_call_fields to_string nm c). get_value (fst p) msg = Inr (sent (snd p))" using m(2) by fastforce
  from call_decoded [OF this assms(1,2)] m show ?thesis using show_int_plain [of i] by (auto simp: sent_def plain_def)
qed

text \<open>C14: the handle of a controller keeps its meaning: asking for a controller gives the client a number that stood for none,
  under which a value set later reaches that very controller, read as its type says; no handle of a client that is still
  there is changed, and a client that is gone has none.\<close>

theorem controller_handles_kept:
  assumes "containers_ok cs" "container_room src cs" "alive src" "process_get_ctrl_message alive src (Some p) cs = (r, cs')"
  shows "\<exists>i. r = Some i \<and> handle src i cs = None \<and> containers_ok cs' \<and>
    process_setctrl_val_message type_of src (Inr i) (Inr v) cs' = Inr (Some (p, read_ctrl_value (type_of p) v)) \<and>
    (\<forall>a j. (a, j) \<noteq> (src, i) \<longrightarrow> handle a j cs' = (if alive a then handle a j cs else None))"
proof -
  define c where "c = (case map_find src cs of None \<Rightarrow> new_container | Some c \<Rightarrow> c)"
  obtain i ids where g: "get_id (cc_ids c) = (i, ids)" by fastforce
  have c: "container_ok c" "id_room (cc_ids c)"
    using assms(1,2) containers_find new_container_ok by (auto simp: c_def container_room_def split: option.splits)
  define c' where "c' = c \<lparr> cc_ids := ids, id2ctrl := map_set (sint i) p (id2ctrl c) \<rparr>"
  have r: "r = Some (sint i)" "cs' = cleanup_stray_controllers alive (map_set src c' cs)"
    using assms(4) g by (simp_all add: process_get_ctrl_message_def c_def [symmetric] c'_def Let_def)
  have set_ok: "containers_ok (map_set src c' cs)" using assms(1) container_get(3) [OF c g] by (simp add: c'_def containers_set)
  have m: "map_ok cs" "map_ok (id2ctrl c)" using assms(1) c(1) by (auto simp: containers_ok_def container_ok_def)
  have h: "handle a j (map_set src c' cs) = (if (a, j) = (src, sint i) then Some p else handle a j cs)" for a j
    using m by (auto simp: handle_def c'_def c_def new_container_def split: option.splits)
  have "handle src (sint i) cs = None"
    using container_get(1) [OF c g] by (auto simp: handle_def c_def split: option.splits)
  moreover have "handle src (sint i) cs' = Some p" using containers_cleanup(2) [OF set_ok] h assms(3) r by simp
  then have "process_setctrl_val_message type_of src (Inr (sint i)) (Inr v) cs' = Inr (Some (p, read_ctrl_value (type_of p) v))"
    by (auto simp: handle_def process_setctrl_val_message_def split: option.splits)
  ultimately show ?thesis using containers_cleanup [OF set_ok] h r by auto
qed


section \<open>Witnesses\<close>

theorem remote_calls_arrive_witness:
  "\<exists>msg. read_message (wire_bytes ((''id'', show_int 7) # ri_call_fields id ''synth'' (SetCtrl pad_y_axis []) @ [])) new_message = Inr (msg, []) \<and>
     ri_decode id True msg = Inr (SetCtrl pad_y_axis ''<empty>'') \<and>
     ri_decode id False msg = Inl (FailureResponse ''Not a MachineSequencer object.'')"
proof -
  let ?c = "SetCtrl pad_y_axis [] :: string ri_call"
  have "fields_ok ((''id'', show_int 7) # ri_call_fields id ''synth'' ?c @ [])"
    by (rule fields_ok_short, simp_all add: plain_def sendable_text_def has_delim_def nul_free_def show_int_def show_nat.simps, code_simp)
  from remote_calls_arrive [of ?c 7 id "''synth''" "[]" id, OF _ _ this] show ?thesis by (auto simp: sent_def)
qed

text \<open>Two clients and three controllers; the second client is gone when the first asks again.\<close>

definition demo_containers :: containers where
  "demo_containers = snd (process_get_ctrl_message (\<lambda>a. True) 2 (Some 500) (snd (process_get_ctrl_message (\<lambda>a. True) 1 (Some 400) [])))"

theorem controller_handles_kept_witness:
  "process_setctrl_val_message (\<lambda>p. c_int) 1 (Inr 1) (Inr ''64'')
     (snd (process_get_ctrl_message (\<lambda>a. a = 1) 1 (Some 600) demo_containers)) = Inr (Some (600, IntValue 64)) \<and>
   handle 1 0 (snd (process_get_ctrl_message (\<lambda>a. a = 1) 1 (Some 600) demo_containers)) = Some 400 \<and>
   handle 2 0 (snd (process_get_ctrl_message (\<lambda>a. a = 1) 1 (Some 600) demo_containers)) = None"
proof -
  have e: "containers_ok []" "container_room 1 []" by (simp_all add: containers_ok_def container_room_def)
  obtain r1 cs1 where 1: "process_get_ctrl_message (\<lambda>a. True) 1 (Some 400) [] = (r1, cs1)" by fastforce
  have ok1: "containers_ok cs1" using controller_handles_kept [OF e _ 1] by auto
  have "container_room 2 cs1"
  proof -
    have "container_room 2 (snd (process_get_ctrl_message (\<lambda>a. True) 1 (Some 400) []))" by code_simp
    then show ?thesis using 1 by simp
  qed
  obtain r2 where 2: "process_get_ctrl_message (\<lambda>a. True) 2 (Some 500) cs1 = (r2, demo_containers)"
    using 1 by (cases "process_get_ctrl_message (\<lambda>a. True) 2 (Some 500) cs1") (simp add: demo_containers_def)
  have ok2: "containers_ok demo_containers" using controller_handles_kept [OF ok1 \<open>container_room 2 cs1\<close> _ 2] by auto
  have room: "container_room 1 demo_containers" by code_simp
  obtain cs3 where 3: "process_get_ctrl_message (\<lambda>a. a = 1) 1 (Some 600) demo_containers = (Some 1, cs3)"
  proof -
    have "fst (process_get_ctrl_message (\<lambda>a. a = 1) 1 (Some 600) demo_containers) = Some 1" by code_simp
    then show ?thesis using that by (cases "process_get_ctrl_message (\<lambda>a. a = 1) 1 (Some 600) demo_containers") auto
  qed
  have old: "handle 1 0 demo_containers = Some 400" by code_simp
  have "stoi ''64'' = 64" by code_simp
  with controller_handles_kept [OF ok2 room _ 3, of "\<lambda>p. c_int" "''64''"] old 3 show ?thesis by auto
qed

end
