(* ===== verification/Remote_Machine.thy ===== *)
theory Remote_Machine
  imports Remote_Calls
begin

text \<open>
  The machine object that clients see (remote_interface.cc, \<open>RIMachine\<close>): its name, its type, its position
  and its connections on the server, the text they are announced in, and the object of a client. A
  connection is the number of the source object with the names of output and input; the multimap that
  holds them is a list in the order of the numbers, later ones behind. The listeners of a client are not
  modelled.
\<close>

section \<open>Connections\<close>

type_synonym connections = "(int \<times> string \<times> string) list"

definition multimap_insert :: "'k :: linorder \<Rightarrow> 'v \<Rightarrow> ('k \<times> 'v) list \<Rightarrow> ('k \<times> 'v) list" where
  "multimap_insert k v m = takeWhile (\<lambda>p. fst p \<le> k) m @ (k, v) # dropWhile (\<lambda>p. fst p \<le> k) m"

text \<open>Every connection with these names among those of the source goes.\<close>

definition erase_connection :: "int \<Rightarrow> string \<Rightarrow> string \<Rightarrow> connections \<Rightarrow> connections" where
  "erase_connection i src dst m = filter (\<lambda>p. \<not> (fst p = i \<and> fst (snd p) = src \<and> snd (snd p) = dst)) m"

definition connections_text :: "connections \<Rightarrow> string" where
  "connections_text m = concat (map (\<lambda>p. show_int (fst p) @ ''@'' @ fst (snd p) @ ''{'' @ snd (snd p) @ ''}'') m)"

definition no_connections :: string where
  "no_connections = CHR ''@'' # ''{}''"

text \<open>A read at the end of the stream leaves the variable as it was.\<close>

definition read_field :: "char \<Rightarrow> string \<Rightarrow> istream \<Rightarrow> string \<times> istream" where
  "read_field d old s = (if is_eof s then (old, s) else getline d s)"

function parse_connections :: "string \<Rightarrow> string \<Rightarrow> string \<Rightarrow> istream \<Rightarrow> connections \<Rightarrow> connections" where
  "parse_connections srcid src_name dst_name s m =
     (if is_eof s \<or> srcid = [] then m
      else case read_field CHR ''{'' src_name s of (src, s1) \<Rightarrow> case read_field CHR ''}'' dst_name s1 of (dst, s2) \<Rightarrow>
        case read_field CHR ''@'' srcid s2 of (next_id, s3) \<Rightarrow>
          parse_connections next_id src dst s3 (if src \<noteq> [] \<and> dst \<noteq> [] then multimap_insert (stoi srcid) (src, dst) m else m))"
  by pat_completeness auto
termination
proof (relation "measure (\<lambda>(i, sn, dn, s, m). if is_eof s then 0 else Suc (length (is_rest s)))")
  fix srcid src_name dst_name src dst next_id :: string and s s1 s2 s3 :: istream and m m' :: connections
  let ?f = "\<lambda>s. if is_eof s then 0 else Suc (length (is_rest s))"
  have r: "?f t \<le> ?f s" if "read_field d old s = (v, t)" for d old s v t
    using that getline_progress [of d s v t] by (auto simp: read_field_def split: if_splits)
  assume a: "\<not> (is_eof s \<or> srcid = [])" "(src, s1) = read_field CHR ''{'' src_name s" "(dst, s2) = read_field CHR ''}'' dst_name s1"
    "(next_id, s3) = read_field CHR ''@'' srcid s2"
  have g: "getline CHR ''{'' s = (src, s1)" using a(1,2) by (simp add: read_field_def)
  have "?f s1 < ?f s" using getline_progress [OF g] a(1) by auto
  moreover have "?f s2 \<le> ?f s1" "?f s3 \<le> ?f s2" using r [OF a(3) [symmetric]] r [OF a(4) [symmetric]] by simp_all
  ultimately have "?f s3 < ?f s" by linarith
  then show "((next_id, src, dst, s3, m'), srcid, src_name, dst_name, s, m) \<in> measure (\<lambda>(i, sn, dn, s, m). ?f s)" for m m'
    by simp
qed simp

declare parse_connections.simps [simp del]

definition parse_serialized_connections_data :: "string \<Rightarrow> connections" where
  "parse_serialized_connections_data text = (case getline CHR ''@'' (istringstream text) of (srcid, s) \<Rightarrow> parse_connections srcid [] [] s [])"

section \<open>The object\<close>

text \<open>\<open>ri_is_sink\<close> and \<open>ri_controller_groups\<close> are on the server what the machine behind the object says. The type of a
  machine is ``MachineSequencer'' exactly for a sequencer.\<close>

record 'd ri_machine =
  ri_id :: int
  ri_name :: string
  ri_type :: string
  ri_sibling :: string
  ri_xpos :: 'd
  ri_ypos :: 'd
  ri_is_sink :: bool
  ri_midi_controllers :: "(string, unit) smap"
  ri_inputs :: "string list"
  ri_outputs :: "string list"
  ri_controller_groups :: "string list"
  ri_connections :: connections

definition ri_fields :: "('d \<Rightarrow> string) \<Rightarrow> 'd ri_machine \<Rightarrow> msg_fields" where
  "ri_fields to_string m =
     [(''name'', ri_name m), (''type'', ri_type m), (''xpos'', to_string (ri_xpos m)), (''ypos'', to_string (ri_ypos m)),
      (''is_sink'', bool_text (ri_is_sink m)),
      (''connections'', let t = connections_text (ri_connections m) in if t = [] then no_connections else t),
      (''mctrls'', let t = delimited CHR ''$'' (map fst (ri_midi_controllers m)) in if t = [] then ''$'' else t)] @
     (if ri_type m = ''MachineSequencer'' then [(''sibling'', ri_sibling m)] else []) @
     [(''inputs'', delimited CHR '':'' (ri_inputs m)), (''outputs'', delimited CHR '':'' (ri_outputs m)),
      (''ctrgroups'', ser_result (ser_container ser_string (ri_controller_groups m)))]"

definition parse_serialized_midi_ctrl_list :: "string \<Rightarrow> (string, unit) smap" where
  "parse_serialized_midi_ctrl_list text = fold (\<lambda>n. map_insert n ()) (parse_names CHR ''$'' text) []"

text \<open>Inputs and outputs may be missing; any other missing field is an exception.\<close>

definition parse_io :: "string \<Rightarrow> message \<Rightarrow> string list" where
  "parse_io k msg = (case get_value k msg of Inl e \<Rightarrow> [] | Inr t \<Rightarrow> parse_names CHR '':'' t)"

definition or_bad :: "(msg_error, 'a) result \<Rightarrow> (registry_error, 'a) result" where
  "or_bad r = (case r of Inl e \<Rightarrow> Inl (BadMessage e) | Inr a \<Rightarrow> Inr a)"

definition read_groups :: "string \<Rightarrow> (registry_error, string list) result" where
  "read_groups text = (case rbind (ItemDeserializer text) (\<lambda>s. fst (deser_container deser_string s)) of
     Inl e \<Rightarrow> Inl HandlerThrew
   | Inr gs \<Rightarrow> Inr gs)"

definition ri_create :: "(string \<Rightarrow> 'd) \<Rightarrow> message \<Rightarrow> (registry_error, 'd ri_machine) result" where
  "ri_create atof msg =
     rbind (or_bad (get_int_value ''new_objid'' msg)) (\<lambda>i.
     rbind (or_bad (get_value ''name'' msg)) (\<lambda>nm. rbind (or_bad (get_value ''type'' msg)) (\<lambda>ty.
     rbind (or_bad (get_value ''xpos'' msg)) (\<lambda>x. rbind (or_bad (get_value ''ypos'' msg)) (\<lambda>y.
     rbind (or_bad (get_bool_value ''is_sink'' msg)) (\<lambda>snk.
     rbind (if ty = ''MachineSequencer'' then or_bad (get_value ''sibling'' msg) else Inr []) (\<lambda>sib.
     rbind (or_bad (get_value ''connections'' msg)) (\<lambda>cs. rbind (or_bad (get_value ''mctrls'' msg)) (\<lambda>mc.
     rbind (or_bad (get_value ''ctrgroups'' msg)) (\<lambda>g. rbind (read_groups g) (\<lambda>gs.
       Inr \<lparr> ri_id = i, ri_name = nm, ri_type = ty, ri_sibling = sib, ri_xpos = atof x, ri_ypos = atof y, ri_is_sink = snk,
             ri_midi_controllers = parse_serialized_midi_ctrl_list mc, ri_inputs = parse_io ''inputs'' msg, ri_outputs = parse_io ''outputs'' msg,
             ri_controller_groups = gs, ri_connections = parse_serialized_connections_data cs \<rparr>)))))))))))"

section \<open>Changes\<close>

definition attach_input :: "int \<Rightarrow> string \<Rightarrow> string \<Rightarrow> 'd ri_machine \<Rightarrow> msg_fields \<times> 'd ri_machine" where
  "attach_input i src dst m =
     ([(''command'', ''attach''), (''s_objid'', show_int i), (''source'', src), (''destination'', dst)],
      m \<lparr> ri_connections := multimap_insert i (src, dst) (ri_connections m) \<rparr>)"

definition detach_input :: "int \<Rightarrow> string \<Rightarrow> string \<Rightarrow> 'd ri_machine \<Rightarrow> msg_fields \<times> 'd ri_machine" where
  "detach_input i src dst m =
     ([(''command'', ''detach''), (''s_objid'', show_int i), (''source'', src), (''destination'', dst)],
      m \<lparr> ri_connections := erase_connection i src dst (ri_connections m) \<rparr>)"

definition process_setpos :: "('d \<Rightarrow> string) \<Rightarrow> 'd \<Rightarrow> 'd \<Rightarrow> 'd ri_machine \<Rightarrow> msg_fields \<times> 'd ri_machine" where
  "process_setpos to_string x y m =
     ([(''command'', ''setpos''), (''ignored'', ri_name m), (''xpos'', to_string x), (''ypos'', to_string y)],
      m \<lparr> ri_xpos := x, ri_ypos := y \<rparr>)"

definition ri_process_client :: "(string \<Rightarrow> 'd) \<Rightarrow> message \<Rightarrow> 'd ri_machine \<Rightarrow> (msg_error, 'd ri_machine) result" where
  "ri_process_client atof msg m = rbind (get_value ''command'' msg) (\<lambda>command.
     if command = ''setpos'' then
       rbind (get_value ''xpos'' msg) (\<lambda>x. rbind (get_value ''ypos'' msg) (\<lambda>y. Inr (m \<lparr> ri_xpos := atof x, ri_ypos := atof y \<rparr>)))
     else if command = ''attach'' then
       rbind (get_int_value ''s_objid'' msg) (\<lambda>i. rbind (get_value ''source'' msg) (\<lambda>s. rbind (get_value ''destination'' msg) (\<lambda>d.
         Inr (m \<lparr> ri_connections := multimap_insert i (s, d) (ri_connections m) \<rparr>))))
     else if command = ''detach'' then
       rbind (get_int_value ''s_objid'' msg) (\<lambda>i. rbind (get_value ''source'' msg) (\<lambda>s. rbind (get_value ''destination'' msg) (\<lambda>d.
         Inr (m \<lparr> ri_connections := erase_connection i s d (ri_connections m) \<rparr>))))
     else Inr m)"

text \<open>What reaches the object on the server: the machine network reports a connection or its end, or a client
  sends a message, of which only a new position concerns the object itself.\<close>

datatype ri_request = Attached int string string | Detached int string string | Arrives message

fun ri_serve :: "('d \<Rightarrow> string) \<Rightarrow> (string \<Rightarrow> 'd) \<Rightarrow> 'd ri_machine \<Rightarrow> ri_request \<Rightarrow> (registry_error, msg_fields option) result \<times> 'd ri_machine" where
  "ri_serve to_string atof m (Attached i src dst) = (case attach_input i src dst m of (kvs, m') \<Rightarrow> (Inr (Some kvs), m'))"
| "ri_serve to_string atof m (Detached i src dst) = (case detach_input i src dst m of (kvs, m') \<Rightarrow> (Inr (Some kvs), m'))"
| "ri_serve to_string atof m (Arrives msg) = (case ri_decode atof (ri_type m = ''MachineSequencer'') msg of
     Inl e \<Rightarrow> (Inl e, m)
   | Inr (SetPos x y) \<Rightarrow> (case process_setpos to_string x y m of (kvs, m') \<Rightarrow> (Inr (Some kvs), m'))
   | Inr _ \<Rightarrow> (Inr None, m))"


section \<open>The announcement\<close>

text \<open>Names that survive the text of the connections.\<close>

definition connection_ok :: "int \<times> string \<times> string \<Rightarrow> bool" where
  "connection_ok p \<longleftrightarrow> int32 (fst p) \<and> plain (fst (snd p)) \<and> plain (snd (snd p)) \<and> CHR ''{'' \<notin> set (fst (snd p)) \<and> CHR ''}'' \<notin> set (snd (snd p))"

definition connections_ok :: "connections \<Rightarrow> bool" where
  "connections_ok m \<longleftrightarrow> sorted (map fst m) \<and> (\<forall>p \<in> set m. connection_ok p)"

lemma multimap_insert_last: "\<forall>p \<in> set m. fst p \<le> k \<Longrightarrow> multimap_insert k v m = m @ [(k, v)]"
  by (simp add: multimap_insert_def takeWhile_eq_all_conv [THEN iffD2] dropWhile_eq_Nil_conv [THEN iffD2])

lemma connections_ok_insert: "connections_ok m \<Longrightarrow> connection_ok (k, v) \<Longrightarrow> connections_ok (multimap_insert k v m)"
proof -
  assume m: "connections_ok m" and c: "connection_ok (k, v)"
  let ?t = "takeWhile (\<lambda>p. fst p \<le> k) m" and ?d = "dropWhile (\<lambda>p. fst p \<le> k) m"
  have s: "sorted (map fst ?t @ map fst ?d)" using m by (simp add: connections_ok_def flip: map_append)
  have "\<forall>x \<in> set (map fst ?t). x \<le> k" by (auto dest: set_takeWhileD)
  moreover have "\<forall>x \<in> set (map fst ?d). k \<le> x"
  proof (cases ?d)
    case Nil
    then show ?thesis unfolding Nil by simp
  next
    case (Cons p ps)
    then have "\<not> fst p \<le> k" using hd_dropWhile [of "\<lambda>p. fst p \<le> k" m] by auto
    with Cons s show ?thesis by (auto simp: sorted_append)
  qed
  ultimately have "sorted (map fst (multimap_insert k v m))" using s by (auto simp: multimap_insert_def sorted_append)
  with m c show ?thesis by (auto simp: connections_ok_def multimap_insert_def dest: set_takeWhileD set_dropWhileD)
qed

lemma connections_ok_erase: "connections_ok m \<Longrightarrow> connections_ok (erase_connection i src dst m)"
  by (auto simp: connections_ok_def erase_connection_def sorted_wrt_filter sorted_map intro: sorted_wrt_filter)

lemma show_int_digits: "CHR ''@'' \<notin> set (show_int i)" "CHR ''{'' \<notin> set (show_int i)"
  using show_nat_digits [of "CHR ''@''"] show_nat_digits [of "CHR ''{''"] by (auto simp: show_int_def is_digit_def)

lemma parse_connections_text:
  assumes "connections_ok (acc @ m)" "getline CHR ''@'' (istringstream (connections_text m)) = (srcid, s)"
  shows "parse_connections srcid sn dn s acc = acc @ m"
  using assms
proof (induction m arbitrary: acc srcid sn dn s)
  case Nil
  then have "srcid = []" by (simp add: connections_text_def istringstream_def getline_end)
  then show ?case by (simp add: parse_connections.simps)
next
  case (Cons p m)
  obtain i src dst where p: "p = (i, src, dst)" by (cases p) auto
  let ?rest = "connections_text m"
  obtain next_id s3 where g: "getline CHR ''@'' (istringstream ?rest) = (next_id, s3)" by fastforce
  have ok: "int32 i" "plain src" "plain dst" "CHR ''{'' \<notin> set src" "CHR ''}'' \<notin> set dst"
    using Cons.prems(1) p by (auto simp: connections_ok_def connection_ok_def)
  have t: "connections_text (p # m) = show_int i @ CHR ''@'' # src @ CHR ''{'' # dst @ CHR ''}'' # ?rest"
    by (simp add: connections_text_def p)
  have 1: "srcid = show_int i" "s = istringstream (src @ CHR ''{'' # dst @ CHR ''}'' # ?rest)"
    using Cons.prems(2) t show_int_digits [of i] by (auto simp: istringstream_def getline_field)
  have 2: "read_field CHR ''{'' sn s = (src, istringstream (dst @ CHR ''}'' # ?rest))"
    "read_field CHR ''}'' dn (istringstream (dst @ CHR ''}'' # ?rest)) = (dst, istringstream ?rest)"
    "read_field CHR ''@'' srcid (istringstream ?rest) = (next_id, s3)"
    using 1 ok g by (simp_all add: read_field_def istringstream_def getline_field)
  have le: "\<forall>q \<in> set acc. fst q \<le> i" using Cons.prems(1) p by (auto simp: connections_ok_def sorted_append)
  have st: "stoi (show_int i) = i" using ok(1) by (simp add: int32_def stoi_number)
  have "parse_connections srcid sn dn s acc = parse_connections next_id src dst s3 (acc @ [(i, src, dst)])"
    using 1 2 ok le st show_int_plain [of i]
    by (subst parse_connections.simps) (simp add: istringstream_def plain_def multimap_insert_last)
  also have "\<dots> = (acc @ [(i, src, dst)]) @ m" using Cons.prems(1) p by (intro Cons.IH g) simp
  finally show ?case using p by simp
qed

lemma connections_arrive:
  assumes "connections_ok m"
  shows "parse_serialized_connections_data (sent (let t = connections_text m in if t = [] then no_connections else t)) = m"
proof (cases "m = []")
  case True
  then show ?thesis
    by (simp add: no_connections_def parse_serialized_connections_data_def connections_text_def istringstream_def getline_def parse_connections.simps)
next
  case False
  then have "connections_text m \<noteq> []" by (cases m) (simp_all add: connections_text_def)
  moreover obtain srcid s where "getline CHR ''@'' (istringstream (connections_text m)) = (srcid, s)" by fastforce
  ultimately show ?thesis
    using parse_connections_text [of "[]" m srcid s "[]" "[]"] assms
    by (simp add: parse_serialized_connections_data_def sent_def)
qed

lemma midi_controllers_arrive:
  assumes "map_ok m" "\<forall>p \<in> set m. name_free CHR ''$'' (fst p)"
  shows "parse_serialized_midi_ctrl_list (sent (let t = delimited CHR ''$'' (map fst m) in if t = [] then ''$'' else t)) = m"
proof (cases "m = []")
  case True
  then show ?thesis
    by (simp add: parse_serialized_midi_ctrl_list_def parse_names_def delimited_def istringstream_def getline_def parse_delimited.simps)
next
  case False
  then have "delimited CHR ''$'' (map fst m) \<noteq> []" by (auto simp: delimited_def neq_Nil_conv)
  moreover have "parse_names CHR ''$'' (delimited CHR ''$'' (map fst m)) = map fst m"
    using assms(2) by (intro parse_names_delimited) (auto simp: name_free_def)
  moreover have "fold (\<lambda>n. map_insert n ()) (map fst m) [] = fold (\<lambda>(k, v). map_insert k v) m []"
    by (simp add: fold_map comp_def case_prod_unfold)
  ultimately show ?thesis
    using map_insert_rebuild [OF assms(1)] by (simp add: parse_serialized_midi_ctrl_list_def sent_def)
qed

interpretation string_list: serderizable_elements ser_string deser_string string_valid ..

lemma groups_arrive:
  assumes "\<forall>g \<in> set gs. string_valid g"
  shows "read_groups (sent (ser_result (ser_container ser_string gs))) = Inr gs"
proof -
  have n: "ser_container ser_string gs \<noteq> []" "nul_free (ser_container ser_string gs)"
    using string_list.container.ser_nonempty [OF assms] string_list.container.ser_nul_free [OF assms] by simp_all
  then have "plain (ser_result (ser_container ser_string gs))" by (rule ser_result_plain)
  then have "sent (ser_result (ser_container ser_string gs)) = ser_result (ser_container ser_string gs)" by (simp add: sent_def plain_def)
  then show ?thesis
    using n string_list.container.round_trip [OF assms, of "[]"]
    by (simp add: read_groups_def ItemDeserializer_def istringstream_def ser_result_def decode_encode_string)
qed


section \<open>Clients in step\<close>

definition ri_inv :: "('d \<Rightarrow> string) \<Rightarrow> 'd ri_machine \<Rightarrow> bool" where
  "ri_inv to_string m \<longleftrightarrow> (\<forall>x. plain (to_string x)) \<and> 0 \<le> ri_id m \<and> ri_id m < 2 ^ 31 \<and> plain (ri_name m) \<and> plain (ri_type m) \<and>
     plain (ri_sibling m) \<and> map_ok (ri_midi_controllers m) \<and> (\<forall>p \<in> set (ri_midi_controllers m). name_free CHR ''$'' (fst p)) \<and>
     (\<forall>n \<in> set (ri_inputs m) \<union> set (ri_outputs m). name_free CHR '':'' n) \<and> (\<forall>g \<in> set (ri_controller_groups m). string_valid g) \<and>
     connections_ok (ri_connections m)"

text \<open>What a client shows: positions as they are after printing and reading, a sibling only for a sequencer.\<close>

definition ri_view :: "('d \<Rightarrow> string) \<Rightarrow> (string \<Rightarrow> 'd) \<Rightarrow> 'd ri_machine \<Rightarrow> 'd ri_machine" where
  "ri_view to_string atof m = m \<lparr> ri_sibling := (if ri_type m = ''MachineSequencer'' then ri_sibling m else []),
     ri_xpos := atof (to_string (ri_xpos m)), ri_ypos := atof (to_string (ri_ypos m)) \<rparr>"

definition ri_receive :: "(string \<Rightarrow> 'd) \<Rightarrow> 'd ri_machine \<Rightarrow> msg_fields \<Rightarrow> 'd ri_machine" where
  "ri_receive atof c kvs = receive_fields (ri_id c) (ri_process_client atof) c kvs"

fun ri_served :: "'d ri_machine \<Rightarrow> ri_request \<Rightarrow> bool" where
  "ri_served m (Attached i src dst) \<longleftrightarrow> connection_ok (i, src, dst)"
| "ri_served m (Detached i src dst) \<longleftrightarrow> int32 i \<and> plain src \<and> plain dst"
| "ri_served m (Arrives msg) \<longleftrightarrow> True"

text \<open>A message that leaves room for the number of the object.\<close>

definition ri_small :: "msg_fields \<Rightarrow> bool" where
  "ri_small kvs \<longleftrightarrow> length (body_text (map encode_pair kvs)) < 2 ^ 31"

lemma small_with_id:
  assumes "ri_small kvs" "0 \<le> i" "i < 2 ^ 31" "\<forall>p \<in> set kvs. plain (fst p) \<and> plain (snd p)" "distinct (map fst kvs)" "''id'' \<notin> fst ` set kvs"
  shows "wire_ok ((''id'', show_int i) # kvs)"
proof -
  have "length (encode_string (show_int i)) \<le> 3 * 11 + 7" "length (encode_string ''id'') \<le> 3 * 2 + 7"
    using encode_string_length [of "show_int i"] encode_string_length [of "''id''"] show_int_plain [of i] show_int_length [of i] assms(2,3)
    by (auto simp: plain_def nul_free_def)
  then show ?thesis
    using assms show_int_plain [of i] by (auto simp: wire_ok_def ri_small_def plain_def nul_free_def has_delim_def)
qed

lemma ri_receive_sent:
  assumes "wire_ok ((''id'', show_int (ri_id c)) # kvs)"
  shows "\<exists>msg. ri_receive atof c kvs = (case ri_process_client atof msg c of Inl e \<Rightarrow> c | Inr c' \<Rightarrow> c') \<and>
    (\<forall>p \<in> set kvs. get_value (fst p) msg = Inr (snd p))"
proof -
  from receive_fields_sent [OF assms, of "ri_process_client atof" c] obtain msg where
    m: "ri_receive atof c kvs = (case ri_process_client atof msg c of Inl e \<Rightarrow> c | Inr c' \<Rightarrow> c')"
    "\<forall>k. k \<noteq> ''id'' \<longrightarrow> get_value k msg = (case map_of kvs k of Some v \<Rightarrow> Inr v | None \<Rightarrow> Inl (NoSuchKey k))"
    unfolding ri_receive_def by blast
  have d: "distinct (map fst kvs)" "''id'' \<notin> fst ` set kvs" using assms by (auto simp: wire_ok_def)
  have "get_value (fst p) msg = Inr (snd p)" if p: "p \<in> set kvs" for p
  proof -
    have "map_of kvs (fst p) = Some (snd p)" using d(1) p by (simp add: map_of_is_SomeI)
    moreover have "fst p \<noteq> ''id''" using d(2) p by force
    ultimately show ?thesis using m(2) by simp
  qed
  with m(1) show ?thesis by blast
qed

definition ri_mirrored :: "('d \<Rightarrow> string) \<Rightarrow> (string \<Rightarrow> 'd) \<Rightarrow> 'd ri_machine \<Rightarrow> msg_fields \<times> 'd ri_machine \<Rightarrow> bool" where
  "ri_mirrored to_string atof m r \<longleftrightarrow> ri_inv to_string (snd r) \<and>
     (ri_small (fst r) \<longrightarrow> ri_receive atof (ri_view to_string atof m) (fst r) = ri_view to_string atof (snd r))"

lemma ri_id_view [simp]: "ri_id (ri_view to_string atof m) = ri_id m"
  by (simp add: ri_view_def)

lemma attach_mirrored:
  assumes "ri_inv to_string m" "connection_ok (i, src, dst)"
  shows "ri_mirrored to_string atof m (attach_input i src dst m)"
proof -
  let ?kvs = "[(''command'', ''attach''), (''s_objid'', show_int i), (''source'', src), (''destination'', dst)]"
  have "ri_receive atof (ri_view to_string atof m) ?kvs = ri_view to_string atof (snd (attach_input i src dst m))" if small: "ri_small ?kvs"
  proof -
    have "wire_ok ((''id'', show_int (ri_id (ri_view to_string atof m))) # ?kvs)"
      using assms show_int_plain [of i]
      by (intro small_with_id [OF small]) (auto simp: ri_inv_def connection_ok_def plain_def has_delim_def nul_free_def)
    from ri_receive_sent [OF this, of atof] assms(2) show ?thesis
      by (auto simp: ri_process_client_def get_int_value_def connection_ok_def int32_def stoi_number attach_input_def ri_view_def)
  qed
  then show ?thesis using assms by (auto simp: ri_mirrored_def attach_input_def ri_inv_def connections_ok_insert)
qed

lemma detach_mirrored:
  assumes "ri_inv to_string m" "int32 i" "plain src" "plain dst"
  shows "ri_mirrored to_string atof m (detach_input i src dst m)"
proof -
  let ?kvs = "[(''command'', ''detach''), (''s_objid'', show_int i), (''source'', src), (''destination'', dst)]"
  have "ri_receive atof (ri_view to_string atof m) ?kvs = ri_view to_string atof (snd (detach_input i src dst m))" if small: "ri_small ?kvs"
  proof -
    have "wire_ok ((''id'', show_int (ri_id (ri_view to_string atof m))) # ?kvs)"
      using assms show_int_plain [of i]
      by (intro small_with_id [OF small]) (auto simp: ri_inv_def plain_def has_delim_def nul_free_def)
    from ri_receive_sent [OF this, of atof] assms(2) show ?thesis
      by (auto simp: ri_process_client_def get_int_value_def int32_def stoi_number detach_input_def ri_view_def)
  qed
  then show ?thesis using assms by (auto simp: ri_mirrored_def detach_input_def ri_inv_def connections_ok_erase)
qed

lemma setpos_mirrored:
  assumes "ri_inv to_string m"
  shows "ri_mirrored to_string atof m (process_setpos to_string x y m)"
proof -
  let ?kvs = "[(''command'', ''setpos''), (''ignored'', ri_name m), (''xpos'', to_string x), (''ypos'', to_string y)]"
  have "ri_receive atof (ri_view to_string atof m) ?kvs = ri_view to_string atof (snd (process_setpos to_string x y m))" if small: "ri_small ?kvs"
  proof -
    have "wire_ok ((''id'', show_int (ri_id (ri_view to_string atof m))) # ?kvs)"
      using assms by (intro small_with_id [OF small]) (auto simp: ri_inv_def plain_def has_delim_def nul_free_def)
    from ri_receive_sent [OF this, of atof] show ?thesis
      by (auto simp: ri_process_client_def process_setpos_def ri_view_def)
  qed
  then show ?thesis using assms by (auto simp: ri_mirrored_def process_setpos_def ri_inv_def)
qed

lemma ri_serve_cases:
  assumes "\<And>e. P (Inl e, m)" "P (Inr None, m)" "\<And>r'. ri_mirrored to_string atof m r' \<Longrightarrow> P (Inr (Some (fst r')), snd r')"
    "ri_inv to_string m" "ri_served m r"
  shows "P (ri_serve to_string atof m r)"
proof (cases r)
  case (Attached i src dst)
  then show ?thesis using assms(3) [OF attach_mirrored, of i src dst] assms(4,5) by (simp add: case_prod_unfold)
next
  case (Detached i src dst)
  then show ?thesis using assms(3) [OF detach_mirrored, of i src dst] assms(4,5) by (simp add: case_prod_unfold)
next
  case (Arrives msg)
  have "P (Inr (Some (fst (process_setpos to_string x y m))), snd (process_setpos to_string x y m))" for x y
    using assms(3) [OF setpos_mirrored [OF assms(4)]] .
  note sp = this [unfolded process_setpos_def, simplified]
  show ?thesis
  proof (cases "ri_decode atof (ri_type m = ''MachineSequencer'') msg")
    case (Inl e)
    then show ?thesis using Arrives assms(1) by simp
  next
    case (Inr c)
    then show ?thesis using Arrives assms(2) sp by (cases c) (simp_all add: process_setpos_def)
  qed
qed

interpretation rim: replicated_object "ri_serve to_string atof" "ri_receive atof" "ri_view to_string atof" "ri_inv to_string" ri_served ri_small
  for to_string :: "'d \<Rightarrow> string" and atof :: "string \<Rightarrow> 'd"
proof
  fix m :: "'d ri_machine" and r x m' and e :: registry_error and kvs
  assume i: "ri_inv to_string m" "ri_served m r"
  note c = ri_serve_cases [where to_string = to_string and atof = atof and m = m and r = r, OF _ _ _ i]
  have "ri_inv to_string (snd (ri_serve to_string atof m r))"
    by (rule c [where P = "\<lambda>z. ri_inv to_string (snd z)"]) (use i(1) in \<open>simp_all add: ri_mirrored_def\<close>)
  then show "ri_serve to_string atof m r = (x, m') \<Longrightarrow> ri_inv to_string m'" by simp
  have "case ri_serve to_string atof m r of (Inr (Some kvs), m') \<Rightarrow> ri_small kvs \<longrightarrow>
      ri_receive atof (ri_view to_string atof m) kvs = ri_view to_string atof m' | (_, m') \<Rightarrow> m' = m"
    by (rule c [where P = "\<lambda>z. case z of (Inr (Some kvs), m') \<Rightarrow> ri_small kvs \<longrightarrow>
      ri_receive atof (ri_view to_string atof m) kvs = ri_view to_string atof m' | (_, m') \<Rightarrow> m' = m"]) (simp_all add: ri_mirrored_def)
  note served = this
  show "ri_serve to_string atof m r = (Inr (Some kvs), m') \<Longrightarrow> ri_small kvs \<Longrightarrow>
      ri_receive atof (ri_view to_string atof m) kvs = ri_view to_string atof m'" using served by simp
  show "ri_serve to_string atof m r = (Inr None, m') \<Longrightarrow> ri_view to_string atof m' = ri_view to_string atof m" using served by simp
  show "ri_serve to_string atof m r = (Inl e, m') \<Longrightarrow> ri_view to_string atof m' = ri_view to_string atof m" using served by simp
qed


section \<open>Properties\<close>

abbreviation ri_object :: "('d \<Rightarrow> string) \<Rightarrow> 'd ri_machine \<Rightarrow> server_object" where
  "ri_object to_string m \<equiv> \<lparr> obj_id = ri_id m, obj_type = ''RIMachine'', obj_fields = ri_fields to_string m \<rparr>"

lemma ri_created:
  assumes "ri_inv to_string m" "fields_ok (create_message (ri_object to_string m))"
  shows "\<exists>msg. read_message (wire_bytes (create_message (ri_object to_string m))) new_message = Inr (msg, []) \<and>
    ri_create atof msg = Inr (ri_view to_string atof m)"
proof -
  let ?kvs = "create_message (ri_object to_string m)"
  from fields_read [OF assms(2)] obtain msg where
    r: "read_message (wire_bytes ?kvs) new_message = Inr (msg, [])"
    "\<forall>k. get_value k msg = (case map_of ?kvs k of Some v \<Rightarrow> Inr (sent v) | None \<Rightarrow> Inl (NoSuchKey k))" by blast
  have "distinct (map fst ?kvs)" using assms(2) by (simp only: fields_ok_def)
  then have "map_of ?kvs (fst p) = Some (snd p)" if "p \<in> set ?kvs" for p using that by (simp add: map_of_is_SomeI)
  then have g: "\<forall>p \<in> set ?kvs. get_value (fst p) msg = Inr (sent (snd p))" using r(2) by simp
  have p: "sent (ri_name m) = ri_name m" "sent (ri_type m) = ri_type m" "sent (ri_sibling m) = ri_sibling m" "sent (to_string x) = to_string x" for x
    using assms(1) by (auto simp: ri_inv_def plain_def sent_def)
  have n: "stoi (sent (show_int (ri_id m))) = ri_id m" using assms(1) by (intro number_arrives) (auto simp: int32_def ri_inv_def)
  have a: "parse_serialized_connections_data (sent (let t = connections_text (ri_connections m) in if t = [] then no_connections else t)) = ri_connections m"
    "parse_serialized_midi_ctrl_list (sent (let t = delimited CHR ''$'' (map fst (ri_midi_controllers m)) in if t = [] then ''$'' else t)) =
      ri_midi_controllers m"
    "parse_names CHR '':'' (sent (delimited CHR '':'' (ri_inputs m))) = ri_inputs m"
    "parse_names CHR '':'' (sent (delimited CHR '':'' (ri_outputs m))) = ri_outputs m"
    "read_groups (sent (ser_result (ser_container ser_string (ri_controller_groups m)))) = Inr (ri_controller_groups m)"
    using assms(1) by (intro connections_arrive midi_controllers_arrive names_arrive groups_arrive; auto simp: ri_inv_def)+
  have f: "get_value ''new_objid'' msg = Inr (sent (show_int (ri_id m)))" "get_value ''name'' msg = Inr (ri_name m)"
    "get_value ''type'' msg = Inr (ri_type m)" "get_value ''xpos'' msg = Inr (to_string (ri_xpos m))"
    "get_value ''ypos'' msg = Inr (to_string (ri_ypos m))" "get_value ''is_sink'' msg = Inr (sent (bool_text (ri_is_sink m)))"
    "get_value ''connections'' msg = Inr (sent (let t = connections_text (ri_connections m) in if t = [] then no_connections else t))"
    "get_value ''mctrls'' msg = Inr (sent (let t = delimited CHR ''$'' (map fst (ri_midi_controllers m)) in if t = [] then ''$'' else t))"
    "get_value ''inputs'' msg = Inr (sent (delimited CHR '':'' (ri_inputs m)))"
    "get_value ''outputs'' msg = Inr (sent (delimited CHR '':'' (ri_outputs m)))"
    "get_value ''ctrgroups'' msg = Inr (sent (ser_result (ser_container ser_string (ri_controller_groups m))))"
    "ri_type m = ''MachineSequencer'' \<Longrightarrow> get_value ''sibling'' msg = Inr (ri_sibling m)"
    using g p unfolding create_message_def add_create_object_header_def ri_fields_def by simp_all
  have "ri_create atof msg = Inr (ri_view to_string atof m)"
    unfolding ri_create_def get_int_value_def get_bool_value_def parse_io_def f(1-11)
    using f(12) by (simp add: or_bad_def a n bool_arrives ri_view_def)
  with r(1) show ?thesis by blast
qed

text \<open>C3: a client sees a machine as the server has it: the bytes that announce the machine create it with its name, type, ports,
  controllers, groups and connections, an empty list included, and through any connections made and undone and any messages
  of clients it stays in step with the server; positions are as printed and read again.\<close>

theorem machine_replicated:
  assumes "ri_inv to_string m" "fields_ok (create_message (ri_object to_string m))" "rim.served_all to_string atof m reqs"
    "rim.serve_all to_string atof m reqs = (ms, m')" "\<forall>kvs \<in> set ms. ri_small kvs"
  shows "(\<exists>msg. read_message (wire_bytes (create_message (ri_object to_string m))) new_message = Inr (msg, []) \<and>
      ri_create atof msg = Inr (ri_view to_string atof m)) \<and>
    fold (\<lambda>kvs c. ri_receive atof c kvs) ms (ri_view to_string atof m) = ri_view to_string atof m' \<and> ri_inv to_string m'"
  using rim.replicated [OF assms(1,3,4,5)] ri_created [OF assms(1,2)] by simp


text \<open>Positions in whole numbers, for a machine that is attached to, moved and detached from.\<close>

definition demo_machine :: "int ri_machine" where
  "demo_machine = \<lparr> ri_id = 12, ri_name = ''mixer'', ri_type = ''DynamicMachine'', ri_sibling = ''none'', ri_xpos = 3, ri_ypos = -4, ri_is_sink = True,
     ri_midi_controllers = [], ri_inputs = [''left'', ''right''], ri_outputs = [], ri_controller_groups = [''Mix''],
     ri_connections = [(4, ''out'', ''left'')] \<rparr>"

definition demo_ri_requests :: "ri_request list" where
  "demo_ri_requests = [Attached 3 ''out'' ''right'', Arrives (request [(''command'', ''setpos''), (''xpos'', ''5''), (''ypos'', ''6'')]),
     Detached 4 ''out'' ''left'', Arrives (request [(''command'', ''setoct''), (''octave'', ''3'')])]"

definition demo_ri_messages :: "msg_fields list" where
  "demo_ri_messages =
     [[(''command'', ''attach''), (''s_objid'', ''3''), (''source'', ''out''), (''destination'', ''right'')],
      [(''command'', ''setpos''), (''ignored'', ''mixer''), (''xpos'', ''5''), (''ypos'', ''6'')],
      [(''command'', ''detach''), (''s_objid'', ''4''), (''source'', ''out''), (''destination'', ''left'')]]"

lemma demo_machine_inv: "ri_inv show_int demo_machine"
proof -
  have "\<forall>x. plain (show_int x)" using show_int_plain by blast
  moreover have "connections_ok (ri_connections demo_machine)" by code_simp
  moreover have "\<forall>g \<in> set (ri_controller_groups demo_machine). string_valid g" by code_simp
  ultimately show ?thesis
    unfolding ri_inv_def by (simp_all add: demo_machine_def plain_def has_delim_def nul_free_def name_free_def)
qed

lemma demo_machine_announced: "fields_ok (create_message (ri_object show_int demo_machine))"
  by (rule fields_ok_short) code_simp+

theorem machine_replicated_witness:
  "fold (\<lambda>kvs c. ri_receive stoi c kvs) demo_ri_messages (ri_view show_int stoi demo_machine) =
     demo_machine \<lparr> ri_sibling := [], ri_xpos := 5, ri_ypos := 6, ri_connections := [(3, ''out'', ''right'')] \<rparr>"
proof -
  let ?moved = "demo_machine \<lparr> ri_xpos := 5, ri_ypos := 6, ri_connections := [(3, ''out'', ''right'')] \<rparr>"
  let ?setpos = "request [(''command'', ''setpos''), (''xpos'', ''5''), (''ypos'', ''6'')]"
  let ?setoct = "request [(''command'', ''setoct''), (''octave'', ''3'')]"
  have d: "ri_decode stoi False ?setpos = Inr (SetPos 5 6)"
    "ri_decode stoi False ?setoct = Inl (FailureResponse ''Not a MachineSequencer object.'')" by code_simp+
  have n: "show_int 3 = ''3''" "show_int 4 = ''4''" "show_int 5 = ''5''" "show_int 6 = ''6''" by code_simp+
  have ok: "connection_ok (3, ''out'', ''right'')" "int32 4" "plain ''out''" "plain ''left''" by code_simp+
  have "rim.serve_all show_int stoi demo_machine demo_ri_requests = (demo_ri_messages, ?moved)"
    by (simp add: demo_ri_requests_def demo_ri_messages_def d n demo_machine_def attach_input_def detach_input_def process_setpos_def
        multimap_insert_def erase_connection_def)
  moreover have "rim.served_all show_int stoi demo_machine demo_ri_requests"
    by (simp add: demo_ri_requests_def ok)
  moreover have "\<forall>kvs \<in> set demo_ri_messages. ri_small kvs"
  proof -
    have "\<forall>kvs \<in> set demo_ri_messages. length (body_text (map encode_pair kvs)) < 200" by code_simp
    then show ?thesis by (auto simp: ri_small_def)
  qed
  ultimately have "fold (\<lambda>kvs c. ri_receive stoi c kvs) demo_ri_messages (ri_view show_int stoi demo_machine) = ri_view show_int stoi ?moved"
    using machine_replicated [OF demo_machine_inv demo_machine_announced, where atof = stoi] by blast
  moreover have "stoi (show_int 5) = 5" "stoi (show_int 6) = 6" by code_simp+
  ultimately show ?thesis by (simp add: ri_view_def demo_machine_def)
qed

end
