(* ===== verification/Machine_Graph.thy ===== *)
theory Machine_Graph
  imports Std_Map
begin

text \<open>
  The network of machines (machine.cc, signal.cc): machines with named inputs and outputs, the
  signals of the outputs with the lists that hold the signals of one input together, the count of
  connections between two machines, and the chain in which the machines are rendered.

  Machines and signals are numbers, the addresses of the objects, so that a \<open>std::map\<close> over machine
  pointers is visited in the order of the numbers. \<open>previous\<close> and \<open>next\<close> of a signal are maps from the
  listening machine to a signal; a missing entry and an entry NULL read the same. The render chain,
  linked through \<open>next_render_chain\<close> and rebuilt from nothing each time, is a list. Notifying
  the listeners of the machine set is not modelled.
\<close>

section \<open>State\<close>

type_synonym mid = nat
type_synonym sid = nat

text \<open>The dimension \<open>_MIDI\<close>.\<close>

abbreviation MIDI :: nat where "MIDI \<equiv> 3"

record signal =
  signal_name :: string
  originator :: mid
  dimension :: nat
  channels :: int
  previous :: "mid \<Rightarrow> sid option"
  next_of :: "mid \<Rightarrow> sid option"
  attached_machines :: "(mid, int) smap"

record description =
  d_dimension :: nat
  d_channels :: int
  premix :: bool

record machine =
  m_name :: string
  dependant :: "(mid, int) smap"
  tightly_connected :: "mid set"
  input_descriptor :: "(string, description) smap"
  input :: "(string, sid) smap"
  outputs :: "(string, sid) smap"

record network =
  machines :: "mid \<Rightarrow> machine"
  signals :: "sid \<Rightarrow> signal"
  sink :: "mid option"
  top_render_chain :: "mid list"

datatype machine_error =
  SourceIsNull | NoSuchOutput | NoSuchInput | SignalTypeMismatch | WouldCreateLoop | MidiInputTaken
  | NothingAttached | NotInList | DependantCountError | AlreadyTight | MultipleSinks | SinkNotRegistered | NoReturn

definition upd_machine :: "mid \<Rightarrow> (machine \<Rightarrow> machine) \<Rightarrow> network \<Rightarrow> network" where
  "upd_machine i f net = net \<lparr> machines := (machines net)(i := f (machines net i)) \<rparr>"

definition upd_signal :: "sid \<Rightarrow> (signal \<Rightarrow> signal) \<Rightarrow> network \<Rightarrow> network" where
  "upd_signal i f net = net \<lparr> signals := (signals net)(i := f (signals net i)) \<rparr>"

section \<open>Signals\<close>

definition signal_attach :: "mid \<Rightarrow> signal \<Rightarrow> signal" where
  "signal_attach m s =
     s \<lparr> attached_machines :=
       (case map_find m (attached_machines s) of
          None \<Rightarrow> map_set m 1 (attached_machines s)
        | Some c \<Rightarrow> map_set m (c + 1) (attached_machines s)) \<rparr>"

definition signal_detach :: "mid \<Rightarrow> signal \<Rightarrow> signal" where
  "signal_detach m s =
     (case map_find m (attached_machines s) of
        None \<Rightarrow> s
      | Some c \<Rightarrow> s \<lparr> attached_machines :=
          (if c - 1 = 0 then map_erase m (attached_machines s) else map_set m (c - 1) (attached_machines s)) \<rparr>)"

definition get_attached_machines :: "signal \<Rightarrow> mid list" where
  "get_attached_machines s = map fst (attached_machines s)"

definition set_next :: "mid \<Rightarrow> sid option \<Rightarrow> signal \<Rightarrow> signal" where
  "set_next m v s = s \<lparr> next_of := (next_of s)(m := v) \<rparr>"

definition set_previous :: "mid \<Rightarrow> sid option \<Rightarrow> signal \<Rightarrow> signal" where
  "set_previous m v s = s \<lparr> previous := (previous s)(m := v) \<rparr>"

text \<open>\<open>this->link(m, ns)\<close>: behind this signal, before the one that followed it.\<close>

definition link :: "sid \<Rightarrow> mid \<Rightarrow> sid \<Rightarrow> network \<Rightarrow> (machine_error, network) result" where
  "link this m ns net =
     (if dimension (signals net this) = MIDI then Inl MidiInputTaken
      else let last_next = next_of (signals net this) m;
               net1 = upd_signal this (set_next m (Some ns)) net;
               net2 = upd_signal ns (set_previous m (Some this)) net1;
               net3 = upd_signal ns (set_next m last_next) net2
           in Inr (case last_next of None \<Rightarrow> net3 | Some l \<Rightarrow> upd_signal l (set_previous m (next_of (signals net3 this) m)) net3))"

definition unlink_here :: "mid \<Rightarrow> sid \<Rightarrow> network \<Rightarrow> network" where
  "unlink_here m s net =
     (let p = previous (signals net s) m;
          net1 = (case p of None \<Rightarrow> net | Some q \<Rightarrow> upd_signal q (set_next m (next_of (signals net s) m)) net);
          n = next_of (signals net1 s) m;
          net2 = (case n of None \<Rightarrow> net1 | Some q \<Rightarrow> upd_signal q (set_previous m (previous (signals net1 s) m)) net1)
      in upd_signal s (\<lambda>x. set_previous m None (set_next m None x)) net2)"

text \<open>The head after removal is read before the entries of the signal are erased.\<close>

definition head_after :: "mid \<Rightarrow> sid \<Rightarrow> sid \<Rightarrow> network \<Rightarrow> sid option" where
  "head_after m head s net =
     (if s \<noteq> head then Some head
      else let p = previous (signals net s) m;
               net1 = (case p of None \<Rightarrow> net | Some q \<Rightarrow> upd_signal q (set_next m (next_of (signals net s) m)) net)
           in next_of (signals net1 s) m)"

partial_function (option) unlink_walk :: "mid \<Rightarrow> sid \<Rightarrow> sid option \<Rightarrow> network \<Rightarrow> bool option" where
  "unlink_walk m ns s net =
     (case s of
        None \<Rightarrow> Some False
      | Some x \<Rightarrow> if x = ns then Some True else unlink_walk m ns (next_of (signals net x) m) net)"

text \<open>\<open>this->unlink(m, ns)\<close> gives the new head of the list that starts at this signal.\<close>

definition unlink :: "sid \<Rightarrow> mid \<Rightarrow> sid \<Rightarrow> network \<Rightarrow> (machine_error, sid option \<times> network) result" where
  "unlink this m ns net =
     (case unlink_walk m ns (Some this) net of
        None \<Rightarrow> Inl NoReturn
      | Some False \<Rightarrow> Inl NotInList
      | Some True \<Rightarrow> Inr (head_after m this ns net, unlink_here m ns net))"

text \<open>The signals of the list from a signal on, as \<open>get_next\<close> gives them.\<close>

partial_function (option) signal_list :: "mid \<Rightarrow> sid option \<Rightarrow> network \<Rightarrow> sid list option" where
  "signal_list m s net =
     (case s of
        None \<Rightarrow> Some []
      | Some x \<Rightarrow> Option.bind (signal_list m (next_of (signals net x) m) net) (\<lambda>xs. Some (x # xs)))"

section \<open>The graph\<close>

fun any_opt :: "('a \<Rightarrow> bool option) \<Rightarrow> 'a list \<Rightarrow> bool option" where
  "any_opt f [] = Some False"
| "any_opt f (x # xs) = Option.bind (f x) (\<lambda>b. if b then Some True else any_opt f xs)"

fun fold_opt :: "('a \<Rightarrow> 'b \<Rightarrow> 'b option) \<Rightarrow> 'a list \<Rightarrow> 'b \<Rightarrow> 'b option" where
  "fold_opt f [] acc = Some acc"
| "fold_opt f (x # xs) acc = Option.bind (f x acc) (fold_opt f xs)"

lemma any_opt_mono [partial_function_mono]:
  assumes "\<And>x. mono_option (\<lambda>f. B f x)"
  shows "mono_option (\<lambda>f. any_opt (B f) xs)"
proof (induction xs)
  case (Cons x xs)
  then show ?case by (auto intro!: bind_mono assms if_mono option.const_mono)
qed (simp add: option.const_mono)

lemma fold_opt_mono [partial_function_mono]:
  assumes "\<And>x acc. mono_option (\<lambda>f. B f x acc)"
  shows "mono_option (\<lambda>f. fold_opt (B f) xs acc)"
proof (induction xs arbitrary: acc)
  case (Cons x xs)
  then show ?case by (auto intro!: bind_mono assms)
qed (simp add: option.const_mono)

definition depends_on :: "network \<Rightarrow> mid \<Rightarrow> mid list" where
  "depends_on net i = map fst (dependant (machines net i))"

partial_function (option) find_machine_in_graph :: "network \<Rightarrow> mid \<Rightarrow> mid \<Rightarrow> bool option" where
  "find_machine_in_graph net m this =
     (if m = this then Some True
      else if map_find m (dependant (machines net this)) \<noteq> None then Some True
      else any_opt (\<lambda>i. find_machine_in_graph net m i) (depends_on net this))"

partial_function (option) push_to_render_chain :: "network \<Rightarrow> mid \<Rightarrow> mid list \<Rightarrow> mid list option" where
  "push_to_render_chain net this chain =
     (if this \<in> set chain then Some chain
      else fold_opt (\<lambda>i c. push_to_render_chain net i c) (depends_on net this) (this # chain))"

definition recalculate_render_chain :: "network \<Rightarrow> (machine_error, network) result" where
  "recalculate_render_chain net =
     (case sink net of
        None \<Rightarrow> Inr (net \<lparr> top_render_chain := [] \<rparr>)
      | Some s \<Rightarrow> (case push_to_render_chain net s [] of
                     None \<Rightarrow> Inl NoReturn
                   | Some chain \<Rightarrow> Inr (net \<lparr> top_render_chain := chain \<rparr>)))"

section \<open>Connections\<close>

definition incr_dependant :: "mid \<Rightarrow> (mid, int) smap \<Rightarrow> (mid, int) smap" where
  "incr_dependant m deps =
     (let c = (case map_find m deps of Some c \<Rightarrow> c | None \<Rightarrow> 0) in map_set m (c + 1) deps)"

definition decr_dep_count :: "mid \<Rightarrow> (mid, int) smap \<Rightarrow> (mid, int) smap" where
  "decr_dep_count m deps =
     (case map_find m deps of
        None \<Rightarrow> deps
      | Some c \<Rightarrow> if c - 1 = 0 then map_erase m deps else map_set m (c - 1) deps)"

definition can_connect :: "signal \<Rightarrow> description \<Rightarrow> bool" where
  "can_connect s des \<longleftrightarrow>
     \<not> (d_dimension des \<noteq> dimension s \<or> ((channels s \<noteq> 1 \<or> \<not> premix des) \<and> d_channels des \<noteq> channels s))"

definition internal_attach_input ::
  "mid \<Rightarrow> mid option \<Rightarrow> string \<Rightarrow> string \<Rightarrow> network \<Rightarrow> (machine_error, network) result" where
  "internal_attach_input this source output_name input_name net =
     (case source of None \<Rightarrow> Inl SourceIsNull | Some m \<Rightarrow>
      case map_find output_name (outputs (machines net m)) of None \<Rightarrow> Inl NoSuchOutput | Some s \<Rightarrow>
      case map_find input_name (input_descriptor (machines net this)) of None \<Rightarrow> Inl NoSuchInput | Some des \<Rightarrow>
      if \<not> can_connect (signals net s) des then Inl SignalTypeMismatch
      else case find_machine_in_graph net this m of
        None \<Rightarrow> Inl NoReturn
      | Some True \<Rightarrow> Inl WouldCreateLoop
      | Some False \<Rightarrow>
          rbind (case map_find input_name (input (machines net this)) of
                   None \<Rightarrow> Inr (upd_machine this (\<lambda>x. x \<lparr> input := map_set input_name s (input x) \<rparr>) net)
                 | Some k \<Rightarrow> link k this s net)
            (\<lambda>net1. recalculate_render_chain
               (upd_machine this (\<lambda>x. x \<lparr> dependant := incr_dependant m (dependant x) \<rparr>)
                 (upd_signal s (signal_attach this) net1))))"

text \<open>When the list of the input ends up empty the input loses its entry.\<close>

definition set_head :: "mid \<Rightarrow> string \<Rightarrow> sid option \<Rightarrow> network \<Rightarrow> network" where
  "set_head this input_name head =
     upd_machine this (\<lambda>x. x \<lparr> input :=
       (case head of Some h \<Rightarrow> map_set input_name h (input x) | None \<Rightarrow> map_erase input_name (input x)) \<rparr>)"

definition internal_detach_input ::
  "mid \<Rightarrow> mid option \<Rightarrow> string \<Rightarrow> string \<Rightarrow> network \<Rightarrow> (machine_error, network) result" where
  "internal_detach_input this source output_name input_name net =
     (case source of None \<Rightarrow> Inl SourceIsNull | Some m \<Rightarrow>
      case map_find output_name (outputs (machines net m)) of None \<Rightarrow> Inl NoSuchOutput | Some s \<Rightarrow>
      case map_find input_name (input_descriptor (machines net this)) of None \<Rightarrow> Inl NoSuchInput | Some _ \<Rightarrow>
      case map_find input_name (input (machines net this)) of None \<Rightarrow> Inl NothingAttached | Some k \<Rightarrow>
      rbind (unlink k this s (upd_signal s (signal_detach this) net)) (\<lambda>(head, net1).
        let net2 = set_head this input_name head net1 in
        case map_find m (dependant (machines net2 this)) of
          None \<Rightarrow> Inl DependantCountError
        | Some _ \<Rightarrow> recalculate_render_chain
            (upd_machine this (\<lambda>x. x \<lparr> dependant := decr_dep_count m (dependant x) \<rparr>) net2)))"

text \<open>The connections of a machine, input by input in order of their names.\<close>

definition internal_get_input_connections :: "mid \<Rightarrow> network \<Rightarrow> (string \<times> mid \<times> string) list option" where
  "internal_get_input_connections this net =
     fold_opt (\<lambda>(nm, head) acc.
       Option.bind (signal_list this (Some head) net)
         (\<lambda>xs. Some (acc @ map (\<lambda>x. (nm, originator (signals net x), signal_name (signals net x))) xs)))
     (input (machines net this)) []"

definition tightly_connect :: "mid \<Rightarrow> mid option \<Rightarrow> network \<Rightarrow> (machine_error, network) result" where
  "tightly_connect this other net =
     (case other of None \<Rightarrow> Inl SourceIsNull | Some m \<Rightarrow>
      if m \<in> tightly_connected (machines net this) then Inl AlreadyTight
      else if this \<in> tightly_connected (machines net m) then Inl AlreadyTight
      else Inr (upd_machine m (\<lambda>x. x \<lparr> tightly_connected := insert this (tightly_connected x) \<rparr>)
             (upd_machine this (\<lambda>x. x \<lparr> tightly_connected := insert m (tightly_connected x) \<rparr>) net)))"

definition internal_register_sink :: "mid \<Rightarrow> network \<Rightarrow> (machine_error, network) result" where
  "internal_register_sink s net = (if sink net \<noteq> None then Inl MultipleSinks else Inr (net \<lparr> sink := Some s \<rparr>))"

definition internal_unregister_sink :: "mid \<Rightarrow> network \<Rightarrow> (machine_error, network) result" where
  "internal_unregister_sink s net =
     (if sink net \<noteq> Some s then Inl SinkNotRegistered else Inr (net \<lparr> sink := None, top_render_chain := [] \<rparr>))"

section \<open>Reachability\<close>

definition dep_rel :: "network \<Rightarrow> (mid \<times> mid) set" where
  "dep_rel net = {(i, j). j \<in> set (depends_on net i)}"

definition graph_ok :: "network \<Rightarrow> bool" where
  "graph_ok net \<longleftrightarrow> wf ((dep_rel net)\<inverse>) \<and> (\<forall>i. map_ok (dependant (machines net i)))"

lemma any_opt_correct: "(\<And>x. x \<in> set xs \<Longrightarrow> f x = Some (P x)) \<Longrightarrow> any_opt f xs = Some (\<exists>x \<in> set xs. P x)"
  by (induction xs) auto

lemma find_machine_in_graph_correct:
  assumes "graph_ok net"
  shows "find_machine_in_graph net m i = Some ((i, m) \<in> (dep_rel net)\<^sup>*)"
proof -
  have "wf ((dep_rel net)\<inverse>)" using assms by (simp add: graph_ok_def)
  then show ?thesis
  proof (induction i rule: wf_induct_rule)
    case (less i)
    have ok: "map_ok (dependant (machines net i))" using assms by (simp add: graph_ok_def)
    have mem: "map_find m (dependant (machines net i)) \<noteq> None \<longleftrightarrow> (i, m) \<in> dep_rel net"
      using map_find_None_iff [OF ok, of m] by (auto simp: dep_rel_def depends_on_def map_keys_def)
    have "any_opt (\<lambda>j. find_machine_in_graph net m j) (depends_on net i) =
        Some (\<exists>j \<in> set (depends_on net i). (j, m) \<in> (dep_rel net)\<^sup>*)"
      using less.IH by (intro any_opt_correct) (auto simp: dep_rel_def)
    moreover have "(i, m) \<in> (dep_rel net)\<^sup>* \<longleftrightarrow> m = i \<or> (\<exists>j \<in> set (depends_on net i). (j, m) \<in> (dep_rel net)\<^sup>*)"
      by (auto simp: dep_rel_def elim: converse_rtranclE intro: converse_rtrancl_into_rtrancl)
    ultimately show ?case
      using mem by (subst find_machine_in_graph.simps) (auto intro: r_into_rtrancl)
  qed
qed

section \<open>The render chain\<close>

text \<open>A machine is only ever pushed on an empty chain or on top of a machine that depends on it. An
  invariant that such pushes keep holds of the result, which has grown by machines with all they
  depend on.\<close>

definition pushable :: "network \<Rightarrow> mid \<Rightarrow> mid \<Rightarrow> mid list \<Rightarrow> bool" where
  "pushable net root x c \<longleftrightarrow> (if c = [] then x = root else (\<exists>u \<in> set c. (u, x) \<in> dep_rel net))"

definition pushed_chain :: "network \<Rightarrow> mid set \<Rightarrow> (mid list \<Rightarrow> bool) \<Rightarrow> mid list \<Rightarrow> mid list \<Rightarrow> bool" where
  "pushed_chain net F I c pre \<longleftrightarrow> I (pre @ c) \<and> set pre \<subseteq> F \<and> (\<forall>x \<in> set pre. set (depends_on net x) \<subseteq> set (pre @ c))"

lemma pushed_append:
  assumes "pushed_chain net F I c pre" "pushed_chain net F I (pre @ c) pre'"
  shows "pushed_chain net F I c (pre' @ pre)"
  using assms by (fastforce simp: pushed_chain_def)

lemma push_all_result:
  assumes "\<And>i c. i \<in> set is \<Longrightarrow> set d \<subseteq> set c \<Longrightarrow> set c \<subseteq> F \<Longrightarrow> I c \<Longrightarrow>
      \<exists>pre. push i c = Some (pre @ c) \<and> pushed_chain net F I c pre \<and> i \<in> set (pre @ c)"
    "set d \<subseteq> set c" "set c \<subseteq> F" "I c"
  shows "\<exists>pre. fold_opt push is c = Some (pre @ c) \<and> pushed_chain net F I c pre \<and> set is \<subseteq> set (pre @ c)"
  using assms
proof (induction "is" arbitrary: c)
  case (Cons i "is")
  obtain p1 where p1: "push i c = Some (p1 @ c)" "pushed_chain net F I c p1" "i \<in> set (p1 @ c)"
    using Cons.prems(1) [of i c] Cons.prems(2-4) by auto
  have c1: "set d \<subseteq> set (p1 @ c)" "set (p1 @ c) \<subseteq> F" "I (p1 @ c)"
    using p1(2) Cons.prems(2,3) by (auto simp: pushed_chain_def)
  obtain p2 where p2: "fold_opt push is (p1 @ c) = Some (p2 @ p1 @ c)" "pushed_chain net F I (p1 @ c) p2" "set is \<subseteq> set (p2 @ p1 @ c)"
    using Cons.IH [OF Cons.prems(1) c1] by auto
  from pushed_append [OF p1(2) p2(2)] p1 p2 show ?case by (intro exI [of _ "p2 @ p1"]) auto
qed (auto simp: pushed_chain_def)

lemma push_result:
  assumes fin: "finite F" and closed: "\<And>i. i \<in> F \<Longrightarrow> set (depends_on net i) \<subseteq> F"
    and ext: "\<And>x c. I c \<Longrightarrow> x \<in> F \<Longrightarrow> x \<notin> set c \<Longrightarrow> pushable net root x c \<Longrightarrow> I (x # c)"
    and "i \<in> F" "set c \<subseteq> F" "I c" "pushable net root i c"
  shows "\<exists>pre. push_to_render_chain net i c = Some (pre @ c) \<and> pushed_chain net F I c pre \<and> i \<in> set (pre @ c) \<and>
    (i \<notin> set c \<longrightarrow> (\<exists>pre'. pre = pre' @ [i]))"
  using assms(4-7)
proof (induction "card (F - set c)" arbitrary: i c rule: less_induct)
  case less
  show ?case
  proof (cases "i \<in> set c")
    case True
    with less.prems(3) show ?thesis by (subst push_to_render_chain.simps) (auto simp: pushed_chain_def)
  next
    case False
    have card: "card (F - set d) < card (F - set c)" if "set (i # c) \<subseteq> set d" for d
      using that False less.prems(1) fin by (intro psubset_card_mono) auto
    have Ii: "I (i # c)" using ext less.prems False by blast
    have dep: "set (depends_on net i) \<subseteq> F" using closed less.prems(1) by blast
    have step: "\<exists>pre. push_to_render_chain net j d = Some (pre @ d) \<and> pushed_chain net F I d pre \<and> j \<in> set (pre @ d)"
      if "j \<in> set (depends_on net i)" "set (i # c) \<subseteq> set d" "set d \<subseteq> F" "I d" for j d
    proof -
      have "pushable net root j d" using that(1,2) by (auto simp: pushable_def dep_rel_def)
      with less.hyps [OF card [OF that(2)], of j] that dep show ?thesis by auto
    qed
    obtain pre where pre: "fold_opt (\<lambda>j d. push_to_render_chain net j d) (depends_on net i) (i # c) = Some (pre @ i # c)"
      "pushed_chain net F I (i # c) pre" "set (depends_on net i) \<subseteq> set (pre @ i # c)"
      using push_all_result [of "depends_on net i" "i # c" F I "\<lambda>j d. push_to_render_chain net j d" net "i # c"]
        step less.prems(1,2) Ii by auto
    then have "push_to_render_chain net i c = Some ((pre @ [i]) @ c)"
      using False by (subst push_to_render_chain.simps) simp
    moreover have "pushed_chain net F I c (pre @ [i])"
      using pre(2,3) less.prems(1) by (auto simp: pushed_chain_def)
    ultimately show ?thesis by (intro exI [of _ "pre @ [i]"]) auto
  qed
qed

text \<open>The order of rendering: a machine that another depends on runs before it.\<close>

definition runs_before :: "mid list \<Rightarrow> mid \<Rightarrow> mid \<Rightarrow> bool" where
  "runs_before chain j x \<longleftrightarrow> j \<in> set (takeWhile (\<lambda>y. y \<noteq> x) chain)"

definition in_order :: "network \<Rightarrow> mid list \<Rightarrow> bool" where
  "in_order net chain \<longleftrightarrow> (\<forall>x \<in> set chain. \<forall>j \<in> set (depends_on net x). j \<in> set chain \<longrightarrow> runs_before chain j x)"

text \<open>Every machine but the root has its user in the chain, when nobody has two users.\<close>

definition users_in :: "network \<Rightarrow> mid \<Rightarrow> mid list \<Rightarrow> bool" where
  "users_in net root chain \<longleftrightarrow> (\<forall>x \<in> set chain. x = root \<or> (\<exists>u \<in> set chain. (u, x) \<in> dep_rel net))"

definition one_user :: "network \<Rightarrow> bool" where
  "one_user net \<longleftrightarrow> (\<forall>x u v. (u, x) \<in> dep_rel net \<longrightarrow> (v, x) \<in> dep_rel net \<longrightarrow> u = v)"

definition reachable :: "network \<Rightarrow> mid \<Rightarrow> mid set" where
  "reachable net i = {j. (i, j) \<in> (dep_rel net)\<^sup>*}"

lemma reachable_closed: "j \<in> reachable net i \<Longrightarrow> set (depends_on net j) \<subseteq> reachable net i"
  by (auto simp: reachable_def dep_rel_def intro: rtrancl_into_rtrancl)

lemma in_order_push:
  assumes "in_order net c" "users_in net root c" "x \<notin> set c" "pushable net root x c" "one_user net"
    "(x, x) \<notin> dep_rel net" "(x, root) \<notin> dep_rel net"
  shows "in_order net (x # c)" "users_in net root (x # c)"
proof -
  have none: "j \<notin> set c" if j: "(x, j) \<in> dep_rel net" for j
  proof
    assume "j \<in> set c"
    moreover have "j \<noteq> root" using j assms(7) by auto
    ultimately obtain u where "u \<in> set c" "(u, j) \<in> dep_rel net" using assms(2) by (auto simp: users_in_def)
    moreover from this j assms(5) have "u = x" unfolding one_user_def by blast
    ultimately show False using assms(3) by simp
  qed
  have "runs_before (x # c) j y" if "y \<in> set (x # c)" "(y, j) \<in> dep_rel net" "j \<in> set (x # c)" for y j
  proof (cases "y = x")
    case True
    with that none assms(6) show ?thesis by auto
  next
    case False
    with that assms(1) show ?thesis by (auto simp: in_order_def runs_before_def dep_rel_def)
  qed
  then show "in_order net (x # c)" by (auto simp: in_order_def dep_rel_def)
  show "users_in net root (x # c)"
    using assms(2,4) unfolding users_in_def pushable_def by (cases "c = []") auto
qed

lemma finite_reachable:
  assumes "graph_ok net"
  shows "finite (reachable net i)"
proof -
  have "wf ((dep_rel net)\<inverse>)" using assms by (simp add: graph_ok_def)
  then show ?thesis
  proof (induction i rule: wf_induct_rule)
    case (less i)
    have "reachable net i = insert i (\<Union>j \<in> set (depends_on net i). reachable net j)"
      by (auto simp: reachable_def dep_rel_def elim: converse_rtranclE intro: converse_rtrancl_into_rtrancl)
    moreover have "finite (reachable net j)" if "j \<in> set (depends_on net i)" for j
      using less.IH that by (simp add: dep_rel_def)
    ultimately show ?case by simp
  qed
qed

lemma graph_ok_irrefl:
  assumes "graph_ok net" "j \<in> reachable net i"
  shows "(j, i) \<notin> dep_rel net" "(j, j) \<notin> dep_rel net"
proof -
  have "acyclic (dep_rel net)" using assms(1) wf_acyclic [of "(dep_rel net)\<inverse>"] by (simp add: graph_ok_def acyclic_converse)
  then show "(j, i) \<notin> dep_rel net" "(j, j) \<notin> dep_rel net"
    using assms(2) by (auto simp: acyclic_def reachable_def dest: rtrancl_into_trancl1)
qed

lemma push_root:
  assumes "graph_ok net"
  shows "\<exists>chain. push_to_render_chain net s [] = Some (chain @ [s]) \<and> distinct (chain @ [s]) \<and>
    set (chain @ [s]) = reachable net s \<and> (one_user net \<longrightarrow> in_order net (chain @ [s]))"
proof -
  let ?I = "\<lambda>c. distinct c \<and> (one_user net \<longrightarrow> in_order net c \<and> users_in net s c)"
  have root: "s \<in> reachable net s" by (simp add: reachable_def)
  have ext: "?I (x # c)" if "?I c" "x \<in> reachable net s" "x \<notin> set c" "pushable net s x c" for x c
    using that in_order_push [of net c s x] graph_ok_irrefl [OF assms that(2)] by auto
  have closed: "i \<in> reachable net s \<Longrightarrow> set (depends_on net i) \<subseteq> reachable net s" for i
    by (rule reachable_closed)
  have I0: "?I []" by (simp add: in_order_def users_in_def)
  obtain pre where pre: "push_to_render_chain net s [] = Some (pre @ [s])" "pushed_chain net (reachable net s) ?I [] (pre @ [s])"
    using push_result [where F = "reachable net s" and I = ?I and root = s and i = s and c = "[]" and net = net]
      finite_reachable [OF assms] closed ext root I0 by (fastforce simp: pushable_def)
  have "y \<in> set (pre @ [s])" if "(s, y) \<in> (dep_rel net)\<^sup>*" for y
    using that
  proof induction
    case (step y z)
    then have "z \<in> set (depends_on net y)" by (simp add: dep_rel_def)
    with step.IH pre(2) show ?case unfolding pushed_chain_def by auto
  qed simp
  then have "reachable net s \<subseteq> set (pre @ [s])" by (auto simp: reachable_def)
  with pre show ?thesis by (intro exI [of _ pre]) (auto simp: pushed_chain_def)
qed

lemma recalculate_returns: "graph_ok net \<Longrightarrow> \<exists>chain. recalculate_render_chain net = Inr (net \<lparr> top_render_chain := chain \<rparr>)"
proof (cases "sink net")
  case (Some s)
  assume "graph_ok net"
  from push_root [OF this, of s] Some show ?thesis by (auto simp: recalculate_render_chain_def)
qed (auto simp: recalculate_render_chain_def)

lemma dep_rel_chain [simp]: "dep_rel (net \<lparr> top_render_chain := c \<rparr>) = dep_rel net"
  by (simp add: dep_rel_def depends_on_def)

lemma graph_ok_chain [simp]: "graph_ok (net \<lparr> top_render_chain := c \<rparr>) = graph_ok net"
  by (simp add: graph_ok_def)

lemma link_machines: "link this m ns net = Inr net' \<Longrightarrow> machines net' = machines net \<and> sink net' = sink net"
  by (auto simp: link_def Let_def upd_signal_def split: if_splits option.splits)

section \<open>Attaching keeps the graph acyclic\<close>

lemma keys_map_set: "fst ` set (map_set k v m) = insert k (fst ` set m)"
  by (induction k v m rule: map_set.induct) auto

lemma dep_rel_incr:
  "dep_rel (upd_machine this (\<lambda>x. x \<lparr> dependant := incr_dependant m (dependant x) \<rparr>) net) = insert (this, m) (dep_rel net)"
proof -
  have "set (depends_on (upd_machine this (\<lambda>x. x \<lparr> dependant := incr_dependant m (dependant x) \<rparr>) net) i) =
      (if i = this then insert m (set (depends_on net i)) else set (depends_on net i))" for i
    by (simp add: depends_on_def upd_machine_def incr_dependant_def Let_def keys_map_set)
  then show ?thesis by (auto simp: dep_rel_def split: if_splits)
qed

lemma graph_ok_incr:
  assumes "graph_ok net" "(m, this) \<notin> (dep_rel net)\<^sup>*"
  shows "graph_ok (upd_machine this (\<lambda>x. x \<lparr> dependant := incr_dependant m (dependant x) \<rparr>) net)"
proof -
  have "(insert (this, m) (dep_rel net))\<inverse> = insert (m, this) ((dep_rel net)\<inverse>)" by auto
  moreover have "(this, m) \<notin> ((dep_rel net)\<inverse>)\<^sup>*" using assms(2) by (simp add: rtrancl_converse)
  ultimately have "wf ((insert (this, m) (dep_rel net))\<inverse>)" using assms(1) by (simp add: graph_ok_def)
  then show ?thesis
    using assms(1) unfolding graph_ok_def dep_rel_incr
    by (auto simp: upd_machine_def incr_dependant_def Let_def)
qed

text \<open>The part of the network the graph lives in.\<close>

lemma graph_only:
  assumes "\<And>i. dependant (machines net' i) = dependant (machines net i)"
  shows "dep_rel net' = dep_rel net" "graph_ok net' = graph_ok net"
  using assms by (simp_all add: graph_ok_def dep_rel_def depends_on_def)

text \<open>The network just before the render chain is rebuilt.\<close>

lemma attach_cases:
  assumes "graph_ok net" "map_find output_name (outputs (machines net m)) = Some s"
    "map_find input_name (input_descriptor (machines net this)) = Some des" "can_connect (signals net s) des"
  shows "internal_attach_input this (Some m) output_name input_name net =
    (if (m, this) \<in> (dep_rel net)\<^sup>* then Inl WouldCreateLoop
     else rbind (case map_find input_name (input (machines net this)) of
                   None \<Rightarrow> Inr (upd_machine this (\<lambda>x. x \<lparr> input := map_set input_name s (input x) \<rparr>) net)
                 | Some k \<Rightarrow> link k this s net)
            (\<lambda>net1. recalculate_render_chain
               (upd_machine this (\<lambda>x. x \<lparr> dependant := incr_dependant m (dependant x) \<rparr>)
                 (upd_signal s (signal_attach this) net1))))"
  using assms find_machine_in_graph_correct [OF assms(1), of this m] by (simp add: internal_attach_input_def)

lemma attach_graph:
  assumes "graph_ok net" "(m, this) \<notin> (dep_rel net)\<^sup>*" "\<And>i. dependant (machines net1 i) = dependant (machines net i)"
  shows "\<exists>chain net2. recalculate_render_chain
      (upd_machine this (\<lambda>x. x \<lparr> dependant := incr_dependant m (dependant x) \<rparr>) (upd_signal s (signal_attach this) net1)) =
        Inr (net2 \<lparr> top_render_chain := chain \<rparr>) \<and>
    net2 = upd_machine this (\<lambda>x. x \<lparr> dependant := incr_dependant m (dependant x) \<rparr>) (upd_signal s (signal_attach this) net1) \<and>
    graph_ok net2 \<and> dep_rel net2 = insert (this, m) (dep_rel net)"
proof -
  let ?n1 = "upd_signal s (signal_attach this) net1"
  let ?n2 = "upd_machine this (\<lambda>x. x \<lparr> dependant := incr_dependant m (dependant x) \<rparr>) ?n1"
  have "dep_rel ?n1 = dep_rel net" "graph_ok ?n1"
    using graph_only [of ?n1 net] assms(1,3) by (simp_all add: upd_signal_def)
  then have "graph_ok ?n2" "dep_rel ?n2 = insert (this, m) (dep_rel net)"
    using graph_ok_incr [of ?n1 m this] assms(2) dep_rel_incr [of this m ?n1] by simp_all
  with recalculate_returns [of ?n2] show ?thesis by blast
qed

section \<open>Properties\<close>

definition example_net :: network where
  "example_net = \<lparr>
     machines = (\<lambda>i. \<lparr> m_name = ''m'', dependant = [], tightly_connected = {},
       input_descriptor = [(''in'', \<lparr> d_dimension = 0, d_channels = 2, premix = True \<rparr>)], input = [], outputs = [(''out'', i)] \<rparr>),
     signals = (\<lambda>i. \<lparr> signal_name = ''out'', originator = i, dimension = 0, channels = 2,
       previous = (\<lambda>_. None), next_of = (\<lambda>_. None), attached_machines = [] \<rparr>),
     sink = Some 0, top_render_chain = [] \<rparr>"

lemma example_net_ok: "graph_ok example_net" "dep_rel example_net = {}"
proof -
  show e: "dep_rel example_net = {}" by (simp add: dep_rel_def depends_on_def example_net_def)
  then show "graph_ok example_net" by (simp add: graph_ok_def) (simp add: example_net_def)
qed

text \<open>C17: rebuilding the render chain returns; the chain holds the machines the sink depends on, directly or
  not, each exactly once and the sink last; and when no machine feeds two others, every machine is
  rendered after all the machines it depends on.\<close>

theorem render_chain_correct:
  assumes "graph_ok net" "sink net = Some s"
  shows "\<exists>chain. recalculate_render_chain net = Inr (net \<lparr> top_render_chain := chain @ [s] \<rparr>) \<and>
    distinct (chain @ [s]) \<and> set (chain @ [s]) = reachable net s \<and>
    (one_user net \<longrightarrow> (\<forall>x \<in> set (chain @ [s]). \<forall>j \<in> set (depends_on net x). runs_before (chain @ [s]) j x))"
proof -
  obtain chain where c: "push_to_render_chain net s [] = Some (chain @ [s])" "distinct (chain @ [s])"
    "set (chain @ [s]) = reachable net s" "one_user net \<longrightarrow> in_order net (chain @ [s])"
    using push_root [OF assms(1), of s] by blast
  moreover have "j \<in> set (chain @ [s])" if "x \<in> set (chain @ [s])" "j \<in> set (depends_on net x)" for x j
    using that reachable_closed [of x net s] c(3) by blast
  ultimately show ?thesis
    using assms(2) by (intro exI [of _ chain]) (auto simp: recalculate_render_chain_def in_order_def)
qed

theorem render_chain_correct_witness:
  "recalculate_render_chain example_net = Inr (example_net \<lparr> top_render_chain := [0] \<rparr>)"
proof -
  have "sink example_net = Some 0" by (simp add: example_net_def)
  from render_chain_correct [OF example_net_ok(1) this] obtain chain where
    c: "recalculate_render_chain example_net = Inr (example_net \<lparr> top_render_chain := chain @ [0] \<rparr>)"
    "distinct (chain @ [0])" "set (chain @ [0]) = reachable example_net 0" by blast
  moreover have "reachable example_net 0 = {0}" by (simp add: reachable_def example_net_ok(2))
  ultimately have "chain = []" by (cases chain) auto
  with c(1) show ?thesis by simp
qed

text \<open>When the sink depends on two machines of which the second also uses the first, that second machine
  is rendered before the first, whose output it reads.\<close>

theorem render_order_wrong_on_diamond:
  assumes "sink net = Some s" "depends_on net s = [b, a]" "depends_on net a = [b]" "depends_on net b = []"
    "distinct [s, a, b]"
  shows "recalculate_render_chain net = Inr (net \<lparr> top_render_chain := [a, b, s] \<rparr>) \<and> \<not> runs_before [a, b, s] b a"
proof -
  have "push_to_render_chain net b [s] = Some [b, s]"
    using assms by (subst push_to_render_chain.simps) simp
  moreover have "push_to_render_chain net b [a, b, s] = Some [a, b, s]"
    by (subst push_to_render_chain.simps) simp
  then have "push_to_render_chain net a [b, s] = Some [a, b, s]"
    using assms by (subst push_to_render_chain.simps) simp
  ultimately have "push_to_render_chain net s [] = Some [a, b, s]"
    using assms by (subst push_to_render_chain.simps) simp
  then show ?thesis using assms by (simp add: recalculate_render_chain_def runs_before_def)
qed

definition diamond :: network where
  "diamond = example_net \<lparr> machines := (\<lambda>i. (machines example_net i) \<lparr> dependant :=
     (if i = 0 then [(1, 1), (2, 1)] else if i = 2 then [(1, 1)] else []) \<rparr>) \<rparr>"

theorem render_order_wrong_on_diamond_witness:
  "recalculate_render_chain diamond = Inr (diamond \<lparr> top_render_chain := [2, 1, 0] \<rparr>) \<and> \<not> runs_before [2, 1, 0] 1 2"
  by (rule render_order_wrong_on_diamond) (simp_all add: diamond_def example_net_def depends_on_def)

end
