(* ===== verification/Machine_Links.thy ===== *)
theory Machine_Links
  imports Machine_Graph Doubly_Linked
begin

text \<open>
  Connections between machines (machine.cc, signal.cc): the doubly linked list that holds the signals of
  one input together refines a list of signals, \<open>link\<close> and \<open>unlink\<close> insert and remove, and attaching and
  detaching keep inputs, dependencies and their counts in step.
\<close>

section \<open>The list of signals of an input\<close>

abbreviation next_in :: "network \<Rightarrow> mid \<Rightarrow> sid \<Rightarrow> sid option" where
  "next_in net m \<equiv> \<lambda>x. next_of (signals net x) m"

abbreviation prev_in :: "network \<Rightarrow> mid \<Rightarrow> sid \<Rightarrow> sid option" where
  "prev_in net m \<equiv> \<lambda>x. previous (signals net x) m"

lemma signal_list_sseg: "sseg (prev_in net m) (next_in net m) p h xs None l \<Longrightarrow> signal_list m h net = Some xs"
  by (induction xs arbitrary: p h) (subst signal_list.simps; simp)+

lemma unlink_walk_sseg:
  "sseg (prev_in net m) (next_in net m) p h xs None l \<Longrightarrow> unlink_walk m ns h net = Some (ns \<in> set xs)"
  by (induction xs arbitrary: p h) (subst unlink_walk.simps; auto)+

section \<open>The inputs of a machine\<close>

text \<open>
  \<open>L\<close> gives the signals of every input of a machine: no signal is in two places, the links and the heads
  spell out the lists, and a signal that is in none of them has no links for the machine.
\<close>

definition inputs_ok :: "network \<Rightarrow> mid \<Rightarrow> (string \<Rightarrow> sid list) \<Rightarrow> bool" where
  "inputs_ok net i L \<longleftrightarrow> map_ok (input (machines net i)) \<and>
     (\<forall>nm. map_find nm (input (machines net i)) = (case L nm of [] \<Rightarrow> None | x # _ \<Rightarrow> Some x)) \<and>
     (\<forall>nm. distinct (L nm) \<and> (\<exists>l. sseg (prev_in net i) (next_in net i) None (case L nm of [] \<Rightarrow> None | x # _ \<Rightarrow> Some x) (L nm) None l)) \<and>
     (\<forall>nm nm'. nm \<noteq> nm' \<longrightarrow> set (L nm) \<inter> set (L nm') = {}) \<and>
     (\<forall>x. (\<forall>nm. x \<notin> set (L nm)) \<longrightarrow> prev_in net i x = None \<and> next_in net i x = None)"

lemma inputs_okD:
  assumes "inputs_ok net i L"
  shows "map_ok (input (machines net i))"
    "map_find nm (input (machines net i)) = (case L nm of [] \<Rightarrow> None | x # _ \<Rightarrow> Some x)"
    "distinct (L nm)" "\<exists>l. sseg (prev_in net i) (next_in net i) None (case L nm of [] \<Rightarrow> None | x # _ \<Rightarrow> Some x) (L nm) None l"
    "nm \<noteq> nm' \<Longrightarrow> set (L nm) \<inter> set (L nm') = {}"
    "\<forall>nm. x \<notin> set (L nm) \<Longrightarrow> prev_in net i x = None \<and> next_in net i x = None"
  using assms unfolding inputs_ok_def by blast+

text \<open>What two networks have to share for the inputs of a machine to stay the same.\<close>

lemma inputs_ok_cong:
  assumes "inputs_ok net i L" "input (machines net' i) = input (machines net i)"
    "prev_in net' i = prev_in net i" "next_in net' i = next_in net i"
  shows "inputs_ok net' i L"
  using assms(1) unfolding inputs_ok_def assms(2-4) using fun_cong [OF assms(3)] fun_cong [OF assms(4)] by simp

lemma link_links:
  assumes "dimension (signals net k) \<noteq> MIDI" "ns \<noteq> k" "next_of (signals net k) m \<noteq> Some ns"
  shows "\<exists>net'. link k m ns net = Inr net' \<and> machines net' = machines net \<and> sink net' = sink net \<and>
    next_in net' m = (next_in net m)(k := Some ns, ns := next_in net m k) \<and>
    prev_in net' m = (case next_in net m k of None \<Rightarrow> (prev_in net m)(ns := Some k) | Some y \<Rightarrow> (prev_in net m)(ns := Some k, y := Some ns)) \<and>
    (\<forall>j. j \<noteq> m \<longrightarrow> next_in net' j = next_in net j \<and> prev_in net' j = prev_in net j) \<and>
    (\<forall>x. signal_name (signals net' x) = signal_name (signals net x) \<and> originator (signals net' x) = originator (signals net x))"
  using assms
  by (cases "next_of (signals net k) m")
    (auto simp: link_def Let_def upd_signal_def set_next_def set_previous_def fun_eq_iff)

lemma unlink_links:
  assumes "previous (signals net z) m \<noteq> Some z" "next_of (signals net z) m \<noteq> Some z"
  defines "net' \<equiv> unlink_here m z net"
  shows "next_in net' m = (case prev_in net m z of None \<Rightarrow> next_in net m | Some q \<Rightarrow> (next_in net m)(q := next_in net m z))(z := None)"
    "prev_in net' m = (case next_in net m z of None \<Rightarrow> prev_in net m | Some q \<Rightarrow> (prev_in net m)(q := prev_in net m z))(z := None)"
    "machines net' = machines net" "sink net' = sink net"
    "j \<noteq> m \<Longrightarrow> next_in net' j = next_in net j \<and> prev_in net' j = prev_in net j"
    "signal_name (signals net' x) = signal_name (signals net x)" "originator (signals net' x) = originator (signals net x)"
    "head_after m k z net = (if z \<noteq> k then Some k else next_in net m z)"
  using assms(1,2) unfolding net'_def
  by (cases "previous (signals net z) m"; cases "next_of (signals net z) m";
      auto simp: unlink_here_def head_after_def Let_def upd_signal_def set_next_def set_previous_def fun_eq_iff)+

lemma not_listed:
  assumes "\<forall>n. x \<notin> set ((L(nm := ys)) n)" "set (L nm) \<subseteq> set ys"
  shows "x \<notin> set ys" "\<forall>n. x \<notin> set (L n)"
proof -
  show y: "x \<notin> set ys" using spec [OF assms(1), of nm] by simp
  show "\<forall>n. x \<notin> set (L n)"
  proof
    fix n show "x \<notin> set (L n)" using spec [OF assms(1), of n] y assms(2) by (cases "n = nm") auto
  qed
qed

lemma lists_apart:
  assumes "\<forall>n1 n2. n1 \<noteq> n2 \<longrightarrow> set (L n1) \<inter> set (L n2) = {}" "\<forall>n. n \<noteq> nm \<longrightarrow> set ys \<inter> set (L n) = {}" "n1 \<noteq> n2"
  shows "set ((L(nm := ys)) n1) \<inter> set ((L(nm := ys)) n2) = {}"
  using assms by (cases "n1 = nm"; cases "n2 = nm") (auto simp: Int_commute)

text \<open>An unused input gets its first signal; a used one gets the signal behind its head.\<close>

lemma first_signal_ok:
  assumes "inputs_ok net i L" "L nm = []" "\<forall>nm. s \<notin> set (L nm)"
  shows "inputs_ok (upd_machine i (\<lambda>x. x \<lparr> input := map_set nm s (input x) \<rparr>) net) i (L(nm := [s]))"
proof -
  note D = inputs_okD [OF assms(1)]
  show ?thesis
    unfolding inputs_ok_def
  proof (intro conjI allI impI)
    fix n1 n2 :: string assume "n1 \<noteq> n2"
    then show "set ((L(nm := [s])) n1) \<inter> set ((L(nm := [s])) n2) = {}"
      using D(5) assms(3) by (intro lists_apart) auto
  next
    fix x assume x: "\<forall>n. x \<notin> set ((L(nm := [s])) n)"
    have "\<forall>n. x \<notin> set (L n)" by (rule not_listed(2) [OF x]) (simp add: assms(2))
    then show "prev_in (upd_machine i (\<lambda>x. x \<lparr> input := map_set nm s (input x) \<rparr>) net) i x = None"
      "next_in (upd_machine i (\<lambda>x. x \<lparr> input := map_set nm s (input x) \<rparr>) net) i x = None"
      using D(6) [of x] by (simp_all add: upd_machine_def)
  qed (use D(1-4) D(6) [OF assms(3)] assms(2) in \<open>auto simp: upd_machine_def\<close>)
qed

lemma linked_signal_ok:
  assumes "inputs_ok net i L" "L nm = k # xs" "\<forall>nm. s \<notin> set (L nm)" "dimension (signals net k) \<noteq> MIDI"
  shows "\<exists>net'. link k i s net = Inr net' \<and> machines net' = machines net \<and> inputs_ok net' i (L(nm := k # s # xs)) \<and>
    (\<forall>j. j \<noteq> i \<longrightarrow> next_in net' j = next_in net j \<and> prev_in net' j = prev_in net j) \<and>
    (\<forall>x. signal_name (signals net' x) = signal_name (signals net x) \<and> originator (signals net' x) = originator (signals net x))"
proof -
  note D = inputs_okD [OF assms(1)]
  obtain l where sl: "sseg (prev_in net i) (next_in net i) None (Some k) (k # xs) None l" "distinct (k # xs)"
    using D(3,4) [of nm] assms(2) by auto
  have sk: "s \<noteq> k" "s \<notin> set xs" using assms(2,3) by (metis list.set_intros(1), metis list.set_intros(2))
  have nk: "next_in net i k = (case xs of [] \<Rightarrow> None | y # _ \<Rightarrow> Some y)" using sl(1) by (cases xs) auto
  then have "next_of (signals net k) i \<noteq> Some s" using sk by (cases xs) auto
  from link_links [OF assms(4) sk(1) this] obtain net' where n: "link k i s net = Inr net'" "machines net' = machines net"
    and nx: "next_in net' i = (next_in net i)(k := Some s, s := next_in net i k)"
    and pv: "prev_in net' i = (case next_in net i k of None \<Rightarrow> (prev_in net i)(s := Some k) | Some y \<Rightarrow> (prev_in net i)(s := Some k, y := Some s))"
    and oth: "\<forall>j. j \<noteq> i \<longrightarrow> next_in net' j = next_in net j \<and> prev_in net' j = prev_in net j"
      "\<forall>x. signal_name (signals net' x) = signal_name (signals net x) \<and> originator (signals net' x) = originator (signals net x)"
    by blast
  have same: "prev_in net' i x = prev_in net i x \<and> next_in net' i x = next_in net i x" if "x \<notin> set (k # s # xs)" for x
    using fun_cong [OF nx, of x] fun_cong [OF pv, of x] nk that by (cases xs) auto
  have "inputs_ok net' i (L(nm := k # s # xs))"
    unfolding inputs_ok_def
  proof (intro conjI allI impI)
    fix n1
    show "map_find n1 (input (machines net' i)) = (case (L(nm := k # s # xs)) n1 of [] \<Rightarrow> None | x # _ \<Rightarrow> Some x)"
      using D(2) [of n1] assms(2) n(2) by auto
    show "distinct ((L(nm := k # s # xs)) n1)" using D(3) [of n1] sl(2) sk by auto
    show "\<exists>l. sseg (prev_in net' i) (next_in net' i) None (case (L(nm := k # s # xs)) n1 of [] \<Rightarrow> None | x # _ \<Rightarrow> Some x)
        ((L(nm := k # s # xs)) n1) None l"
    proof (cases "n1 = nm")
      case True
      have "distinct (k # s # xs)" using sl(2) sk by auto
      from sseg_insert [OF sl(1) this] True show ?thesis unfolding nx pv by simp
    next
      case False
      obtain l' where "sseg (prev_in net i) (next_in net i) None (case L n1 of [] \<Rightarrow> None | x # _ \<Rightarrow> Some x) (L n1) None l'"
        using D(4) by blast
      moreover have "x \<notin> set (k # s # xs)" if "x \<in> set (L n1)" for x
        using that D(5) [OF False] assms(2,3) by auto
      ultimately show ?thesis
        using False sseg_cong [of "L n1" "prev_in net' i" "prev_in net i" "next_in net' i" "next_in net i"] same by auto
    qed
  next
    fix n1 n2 :: string assume "n1 \<noteq> n2"
    moreover have "set (k # s # xs) \<inter> set (L n) = {}" if "n \<noteq> nm" for n
      using D(5) [OF that] assms(2,3) by auto
    ultimately show "set ((L(nm := k # s # xs)) n1) \<inter> set ((L(nm := k # s # xs)) n2) = {}"
      using D(5) by (intro lists_apart) auto
  next
    fix x assume x: "\<forall>n1. x \<notin> set ((L(nm := k # s # xs)) n1)"
    have sub: "set (L nm) \<subseteq> set (k # s # xs)" by (auto simp: assms(2))
    show "prev_in net' i x = None" "next_in net' i x = None"
      using same [OF not_listed(1) [OF x sub]] D(6) [OF not_listed(2) [OF x sub]] by simp_all
  qed (use D(1) n(2) in simp)
  with n oth show ?thesis by blast
qed

lemma unlinked_signal_ok:
  assumes "inputs_ok net i L" "L nm = xs @ z # ys"
  shows "\<exists>h net'. unlink (hd (L nm)) i z net = Inr (h, net') \<and> machines net' = machines net \<and> sink net' = sink net \<and>
    inputs_ok (set_head i nm h net') i (L(nm := xs @ ys)) \<and>
    (\<forall>j. j \<noteq> i \<longrightarrow> next_in net' j = next_in net j \<and> prev_in net' j = prev_in net j)"
proof -
  note D = inputs_okD [OF assms(1)]
  let ?hd = "\<lambda>l :: sid list. case l of [] \<Rightarrow> None | x # _ \<Rightarrow> Some x"
  have k: "?hd (L nm) = Some (hd (L nm))" using assms(2) by (cases xs) auto
  obtain l where sl: "sseg (prev_in net i) (next_in net i) None (Some (hd (L nm))) (xs @ z # ys) None l" "distinct (xs @ z # ys)"
    using D(3,4) [of nm] k assms(2) by auto
  obtain l1 where z: "sseg (prev_in net i) (next_in net i) None (Some (hd (L nm))) xs (Some z) l1" "prev_in net i z = l1"
      "sseg (prev_in net i) (next_in net i) (Some z) (next_in net i z) ys None l"
    using sl(1) by (auto simp: sseg_append)
  have pz: "prev_in net i z = (if xs = [] then None else Some (last xs))" using sseg_last [OF z(1)] z(2) by simp
  have nz: "next_in net i z = ?hd ys" using z(3) by (cases ys) auto
  have np: "previous (signals net z) i \<noteq> Some z" using pz sl(2) by (cases xs rule: rev_cases) auto
  have nn: "next_of (signals net z) i \<noteq> Some z" using nz sl(2) by (cases ys) auto
  let ?net = "unlink_here i z net"
  note U = unlink_links [OF np nn]
  let ?h = "if z \<noteq> hd (L nm) then Some (hd (L nm)) else next_in net i z"
  have h: "?h = ?hd (xs @ ys)" using assms(2) nz sl(2) by (cases xs) auto
  have un: "unlink (hd (L nm)) i z net = Inr (?h, ?net)"
    using unlink_walk_sseg [OF sl(1), of z] U(8) [of "hd (L nm)"] by (simp add: unlink_def)
  let ?n = "set_head i nm ?h ?net"
  have links: "prev_in ?n i = prev_in ?net i" "next_in ?n i = next_in ?net i" by (simp_all add: set_head_def upd_machine_def)
  have inp: "input (machines (set_head i nm hh ?net) i) =
      (case hh of Some a \<Rightarrow> map_set nm a (input (machines net i)) | None \<Rightarrow> map_erase nm (input (machines net i)))" for hh
    by (simp add: set_head_def upd_machine_def U(3) split: option.split)
  have same: "prev_in ?net i x = prev_in net i x \<and> next_in ?net i x = next_in net i x" if "x \<notin> set (xs @ z # ys)" for x
  proof -
    have "prev_in net i z \<noteq> Some x" using pz that by (cases xs rule: rev_cases) auto
    moreover have "next_in net i z \<noteq> Some x" using nz that by (cases ys) auto
    ultimately show ?thesis
      using fun_cong [OF U(1), of x] fun_cong [OF U(2), of x] that by (auto split: option.splits)
  qed
  have zz: "prev_in ?net i z = None" "next_in ?net i z = None"
    using fun_cong [OF U(1), of z] fun_cong [OF U(2), of z] by simp_all
  have "inputs_ok ?n i (L(nm := xs @ ys))"
    unfolding inputs_ok_def
  proof (intro conjI allI impI)
    show "map_ok (input (machines ?n i))" unfolding inp using D(1) by (cases ?h) simp_all
    fix n1
    show "map_find n1 (input (machines ?n i)) = ?hd ((L(nm := xs @ ys)) n1)"
      unfolding inp h using D(1) D(2) [of n1] by (cases "xs @ ys") auto
    show "distinct ((L(nm := xs @ ys)) n1)" using D(3) [of n1] sl(2) by auto
    show "\<exists>l. sseg (prev_in ?n i) (next_in ?n i) None (?hd ((L(nm := xs @ ys)) n1)) ((L(nm := xs @ ys)) n1) None l"
    proof (cases "n1 = nm")
      case True
      have "\<exists>l'. sseg (prev_in ?net i) (next_in ?net i) None (if xs = [] then next_in net i z else Some (hd (L nm))) (xs @ ys) None l'"
        unfolding U(1,2) by (rule sseg_remove [OF sl])
      moreover have "(if xs = [] then next_in net i z else Some (hd (L nm))) = ?hd (xs @ ys)"
        using assms(2) nz by (cases xs) auto
      ultimately show ?thesis using True unfolding links by simp
    next
      case False
      obtain l' where "sseg (prev_in net i) (next_in net i) None (?hd (L n1)) (L n1) None l'" using D(4) by blast
      moreover have "x \<notin> set (xs @ z # ys)" if "x \<in> set (L n1)" for x using that D(5) [OF False] assms(2) by auto
      ultimately show ?thesis
        using False sseg_cong [of "L n1" "prev_in ?net i" "prev_in net i" "next_in ?net i" "next_in net i"] same unfolding links by auto
    qed
  next
    fix n1 n2 :: string assume "n1 \<noteq> n2"
    moreover have "set (xs @ ys) \<inter> set (L n) = {}" if "n \<noteq> nm" for n using D(5) [OF that] assms(2) by auto
    ultimately show "set ((L(nm := xs @ ys)) n1) \<inter> set ((L(nm := xs @ ys)) n2) = {}"
      using D(5) by (intro lists_apart) auto
  next
    fix x assume x: "\<forall>n1. x \<notin> set ((L(nm := xs @ ys)) n1)"
    have "prev_in ?net i x = None \<and> next_in ?net i x = None"
    proof (cases "x = z")
      case False
      have "x \<notin> set (L n)" for n
        using spec [OF x, of n] spec [OF x, of nm] False assms(2) by (cases "n = nm") auto
      with same [of x] D(6) [of x] assms(2) show ?thesis by metis
    qed (use zz in simp)
    then show "prev_in ?n i x = None" "next_in ?n i x = None" using fun_cong [OF links(1), of x] fun_cong [OF links(2), of x] by simp_all
  qed
  moreover have "\<forall>j. j \<noteq> i \<longrightarrow> next_in ?net j = next_in net j \<and> prev_in ?net j = prev_in net j" using U(5) by blast
  ultimately show ?thesis using un U(3,4) by blast
qed

section \<open>Attach and detach\<close>

fun with_signal :: "sid \<Rightarrow> sid list \<Rightarrow> sid list" where
  "with_signal s [] = [s]"
| "with_signal s (k # xs) = k # s # xs"

text \<open>What a connection may rely on: the two ends exist and match, and the input is free or not a MIDI input.\<close>

definition connectable :: "network \<Rightarrow> mid \<Rightarrow> mid \<Rightarrow> string \<Rightarrow> string \<Rightarrow> sid \<Rightarrow> (string \<Rightarrow> sid list) \<Rightarrow> bool" where
  "connectable net this m output_name input_name s L \<longleftrightarrow>
     map_find output_name (outputs (machines net m)) = Some s \<and>
     (case map_find input_name (input_descriptor (machines net this)) of None \<Rightarrow> False | Some des \<Rightarrow> can_connect (signals net s) des) \<and>
     (\<forall>nm. s \<notin> set (L nm)) \<and>
     (case L input_name of [] \<Rightarrow> True | k # _ \<Rightarrow> dimension (signals net k) \<noteq> MIDI)"

definition only_this :: "network \<Rightarrow> mid \<Rightarrow> network \<Rightarrow> bool" where
  "only_this net this net' \<longleftrightarrow> sink net' = sink net \<and>
     (\<forall>i. outputs (machines net' i) = outputs (machines net i) \<and> input_descriptor (machines net' i) = input_descriptor (machines net i)) \<and>
     (\<forall>j. j \<noteq> this \<longrightarrow> machines net' j = machines net j \<and> next_in net' j = next_in net j \<and> prev_in net' j = prev_in net j)"

lemma links_upd_machine [simp]:
  "prev_in (upd_machine i f net) j = prev_in net j" "next_in (upd_machine i f net) j = next_in net j" "sink (upd_machine i f net) = sink net"
  by (simp_all add: upd_machine_def)

lemma links_attach [simp]:
  "prev_in (upd_signal s (signal_attach i) net) j = prev_in net j" "next_in (upd_signal s (signal_attach i) net) j = next_in net j"
  "prev_in (upd_signal s (signal_detach i) net) j = prev_in net j" "next_in (upd_signal s (signal_detach i) net) j = next_in net j"
  "machines (upd_signal s f net) = machines net" "sink (upd_signal s f net) = sink net"
  by (auto simp: upd_signal_def signal_attach_def signal_detach_def fun_eq_iff split: option.split)

lemma attach_result:
  assumes "graph_ok net" "inputs_ok net this L" "connectable net this m output_name input_name s L" "(m, this) \<notin> (dep_rel net)\<^sup>*"
  shows "\<exists>net'. internal_attach_input this (Some m) output_name input_name net = Inr net' \<and> graph_ok net' \<and>
    dep_rel net' = insert (this, m) (dep_rel net) \<and> inputs_ok net' this (L(input_name := with_signal s (L input_name))) \<and>
    dependant (machines net' this) = incr_dependant m (dependant (machines net this)) \<and> only_this net this net'"
proof -
  obtain des where des: "map_find output_name (outputs (machines net m)) = Some s"
    "map_find input_name (input_descriptor (machines net this)) = Some des" "can_connect (signals net s) des"
    and fresh: "\<forall>nm. s \<notin> set (L nm)"
    using assms(3) by (auto simp: connectable_def split: option.splits)
  let ?c = "case map_find input_name (input (machines net this)) of
       None \<Rightarrow> Inr (upd_machine this (\<lambda>x. x \<lparr> input := map_set input_name s (input x) \<rparr>) net)
     | Some k \<Rightarrow> link k this s net"
  have "\<exists>net1. ?c = Inr net1 \<and> inputs_ok net1 this (L(input_name := with_signal s (L input_name))) \<and> only_this net this net1 \<and>
      dependant (machines net1 this) = dependant (machines net this)"
  proof (cases "L input_name")
    case Nil
    then have "map_find input_name (input (machines net this)) = None" using inputs_okD(2) [OF assms(2)] by simp
    with first_signal_ok [OF assms(2) Nil fresh] Nil show ?thesis by (simp add: only_this_def upd_machine_def)
  next
    case (Cons k xs)
    then have k: "map_find input_name (input (machines net this)) = Some k" using inputs_okD(2) [OF assms(2), of input_name] by simp
    have "dimension (signals net k) \<noteq> MIDI" using assms(3) Cons by (simp add: connectable_def)
    from linked_signal_ok [OF assms(2) Cons fresh this] obtain net1 where n: "link k this s net = Inr net1" "machines net1 = machines net"
      "inputs_ok net1 this (L(input_name := k # s # xs))" "\<forall>j. j \<noteq> this \<longrightarrow> next_in net1 j = next_in net j \<and> prev_in net1 j = prev_in net j" by blast
    moreover have "sink net1 = sink net" using link_machines [OF n(1)] by simp
    ultimately show ?thesis using k Cons by (simp add: only_this_def)
  qed
  then obtain net1 where n1: "?c = Inr net1" "inputs_ok net1 this (L(input_name := with_signal s (L input_name)))" "only_this net this net1"
    "dependant (machines net1 this) = dependant (machines net this)" by blast
  have deps: "dependant (machines net1 i) = dependant (machines net i)" for i
    using n1(3,4) by (cases "i = this") (auto simp: only_this_def)
  obtain chain net2 where n2: "recalculate_render_chain
      (upd_machine this (\<lambda>x. x \<lparr> dependant := incr_dependant m (dependant x) \<rparr>) (upd_signal s (signal_attach this) net1)) =
        Inr (net2 \<lparr> top_render_chain := chain \<rparr>)"
    "net2 = upd_machine this (\<lambda>x. x \<lparr> dependant := incr_dependant m (dependant x) \<rparr>) (upd_signal s (signal_attach this) net1)"
    "graph_ok net2" "dep_rel net2 = insert (this, m) (dep_rel net)"
    using attach_graph [OF assms(1,4) deps, of s] by blast
  let ?net = "net2 \<lparr> top_render_chain := chain \<rparr>"
  have "inputs_ok ?net this (L(input_name := with_signal s (L input_name)))"
    using n1(2) by (rule inputs_ok_cong) (simp_all add: n2(2) upd_machine_def)
  moreover have "only_this net this ?net"
    using n1(3) unfolding only_this_def n2(2) by (auto simp: upd_machine_def)
  moreover have "dependant (machines ?net this) = incr_dependant m (dependant (machines net this))"
    by (simp add: n2(2) upd_machine_def deps)
  moreover have "internal_attach_input this (Some m) output_name input_name net = Inr ?net"
    using attach_cases [OF assms(1) des] assms(4) n1(1) n2(1) by simp
  ultimately show ?thesis using n2(3,4) by (intro exI [of _ ?net]) simp
qed

lemma keys_decr: "fst ` set (decr_dep_count m deps) \<subseteq> fst ` set deps"
proof (cases "map_find m deps")
  case (Some c)
  then have "m \<in> fst ` set deps"
  proof (induction m deps rule: map_find.induct)
    case (2 k a b m)
    then show ?case by (auto split: if_splits)
  qed simp
  with Some show ?thesis by (auto simp: decr_dep_count_def keys_map_set map_erase_def)
qed (simp add: decr_dep_count_def)

lemma graph_ok_decr:
  assumes "graph_ok net"
  shows "graph_ok (upd_machine this (\<lambda>x. x \<lparr> dependant := decr_dep_count m (dependant x) \<rparr>) net)"
proof -
  let ?n = "upd_machine this (\<lambda>x. x \<lparr> dependant := decr_dep_count m (dependant x) \<rparr>) net"
  have "set (depends_on ?n i) \<subseteq> set (depends_on net i)" for i
    using keys_decr [of m "dependant (machines net this)"] by (simp add: depends_on_def upd_machine_def)
  then have "(dep_rel ?n)\<inverse> \<subseteq> (dep_rel net)\<inverse>" by (auto simp: dep_rel_def)
  moreover have "wf ((dep_rel net)\<inverse>)" using assms by (simp add: graph_ok_def)
  ultimately have "wf ((dep_rel ?n)\<inverse>)" by (rule wf_subset [rotated])
  moreover have "map_ok (decr_dep_count m (dependant (machines net this)))"
    using assms by (simp add: graph_ok_def decr_dep_count_def split: option.split)
  then have "map_ok (dependant (machines ?n i))" for i
    using assms by (simp add: graph_ok_def upd_machine_def)
  ultimately show ?thesis by (simp add: graph_ok_def)
qed

lemma detach_result:
  assumes "graph_ok net" "inputs_ok net this L" "map_find output_name (outputs (machines net m)) = Some s"
    "map_find input_name (input_descriptor (machines net this)) \<noteq> None" "s \<in> set (L input_name)"
    "map_find m (dependant (machines net this)) \<noteq> None"
  shows "\<exists>net'. internal_detach_input this (Some m) output_name input_name net = Inr net' \<and> graph_ok net' \<and>
    inputs_ok net' this (L(input_name := remove1 s (L input_name))) \<and>
    dependant (machines net' this) = decr_dep_count m (dependant (machines net this)) \<and> only_this net this net'"
proof -
  let ?d = "upd_signal s (signal_detach this) net"
  have okd: "inputs_ok ?d this L" using assms(2) by (rule inputs_ok_cong) simp_all
  obtain xs ys where xy: "L input_name = xs @ s # ys" using assms(5) by (metis split_list)
  have rm: "remove1 s (L input_name) = xs @ ys"
    using inputs_okD(3) [OF assms(2), of input_name] by (simp add: xy remove1_append)
  from unlinked_signal_ok [OF okd xy] obtain h net1 where n1: "unlink (hd (L input_name)) this s ?d = Inr (h, net1)"
    "machines net1 = machines net" "sink net1 = sink net" "inputs_ok (set_head this input_name h net1) this (L(input_name := xs @ ys))"
    "\<forall>j. j \<noteq> this \<longrightarrow> next_in net1 j = next_in net j \<and> prev_in net1 j = prev_in net j" by auto
  have k: "map_find input_name (input (machines net this)) = Some (hd (L input_name))"
    using inputs_okD(2) [OF assms(2), of input_name] xy by (cases xs) auto
  let ?n2 = "set_head this input_name h net1"
  let ?n3 = "upd_machine this (\<lambda>x. x \<lparr> dependant := decr_dep_count m (dependant x) \<rparr>) ?n2"
  have deps: "dependant (machines ?n2 i) = dependant (machines net i)" for i
    using n1(2) by (simp add: set_head_def upd_machine_def)
  have g: "graph_ok ?n3" using graph_ok_decr graph_only(2) [of ?n2 net, OF deps] assms(1) by blast
  then obtain chain where c: "recalculate_render_chain ?n3 = Inr (?n3 \<lparr> top_render_chain := chain \<rparr>)"
    using recalculate_returns by blast
  let ?net = "?n3 \<lparr> top_render_chain := chain \<rparr>"
  have "internal_detach_input this (Some m) output_name input_name net = Inr ?net"
    using assms(3,4,6) k n1(1) c deps [of this] by (auto simp: internal_detach_input_def Let_def)
  moreover have "inputs_ok ?net this (L(input_name := remove1 s (L input_name)))"
    unfolding rm using n1(4) by (rule inputs_ok_cong) (simp_all add: upd_machine_def)
  moreover have "only_this net this ?net"
    using n1(2,3,5) by (auto simp: only_this_def set_head_def upd_machine_def)
  moreover have "dependant (machines ?net this) = decr_dep_count m (dependant (machines net this))"
    using deps [of this] by (simp add: upd_machine_def)
  ultimately show ?thesis using g by (intro exI [of _ ?net]) simp
qed

lemma decr_incr:
  assumes "map_ok deps" "\<forall>(k, c) \<in> set deps. 0 < c"
  shows "decr_dep_count m (incr_dependant m deps) = deps"
proof (rule map_ok_eqI)
  show "map_ok (decr_dep_count m (incr_dependant m deps))"
    using assms(1) by (simp add: decr_dep_count_def incr_dependant_def Let_def split: option.split)
  fix k
  have "map_find m deps = Some c \<Longrightarrow> 0 < c" for c using assms by (auto simp: map_find_iff)
  then show "map_find k (decr_dep_count m (incr_dependant m deps)) = map_find k deps"
    using assms(1) by (cases "map_find m deps") (auto simp: decr_dep_count_def incr_dependant_def Let_def)
qed (rule assms(1))

lemma remove1_with_signal: "s \<notin> set l \<Longrightarrow> remove1 s (with_signal s l) = l" "s \<in> set (with_signal s l)"
  by (cases l; simp)+

section \<open>Properties\<close>

lemma example_net_inputs: "inputs_ok example_net i (\<lambda>_. [])" "connectable example_net 0 1 ''out'' ''in'' 1 (\<lambda>_. [])"
  by (simp_all add: inputs_ok_def connectable_def can_connect_def example_net_def)

text \<open>C6: attaching an output to an input keeps the network free of loops: it is refused exactly when
  the source already depends, directly or through others, on the machine, and otherwise, for ends that
  exist and match, it returns, adds exactly this dependency, and puts the signal into the list of the input.\<close>

theorem attach_keeps_acyclic:
  assumes "graph_ok net" "inputs_ok net this L" "connectable net this m output_name input_name s L"
  shows "if (m, this) \<in> (dep_rel net)\<^sup>* then internal_attach_input this (Some m) output_name input_name net = Inl WouldCreateLoop
    else \<exists>net'. internal_attach_input this (Some m) output_name input_name net = Inr net' \<and> graph_ok net' \<and>
      dep_rel net' = insert (this, m) (dep_rel net) \<and> inputs_ok net' this (L(input_name := with_signal s (L input_name)))"
proof (cases "(m, this) \<in> (dep_rel net)\<^sup>*")
  case True
  obtain des where "map_find output_name (outputs (machines net m)) = Some s"
    "map_find input_name (input_descriptor (machines net this)) = Some des" "can_connect (signals net s) des"
    using assms(3) by (auto simp: connectable_def split: option.splits)
  from attach_cases [OF assms(1) this] True show ?thesis by simp
next
  case False
  from attach_result [OF assms False] show ?thesis using False by auto
qed

theorem attach_keeps_acyclic_witness:
  "\<exists>net'. internal_attach_input 0 (Some 1) ''out'' ''in'' example_net = Inr net' \<and> dep_rel net' = {(0, 1)} \<and>
     internal_attach_input 0 (Some 0) ''out'' ''in'' example_net = Inl WouldCreateLoop"
proof -
  have "connectable example_net 0 0 ''out'' ''in'' 0 (\<lambda>_. [])" by (simp add: connectable_def can_connect_def example_net_def)
  from attach_keeps_acyclic [OF example_net_ok(1) example_net_inputs(1) this]
  have "internal_attach_input 0 (Some 0) ''out'' ''in'' example_net = Inl WouldCreateLoop" by simp
  with attach_keeps_acyclic [OF example_net_ok(1) example_net_inputs] show ?thesis by (auto simp: example_net_ok(2))
qed

text \<open>A connection that is made and taken back leaves the inputs of the machine, its dependencies with
  their counts and the links of every other machine as they were.\<close>

theorem attach_detach_restores:
  assumes "graph_ok net" "inputs_ok net this L" "connectable net this m output_name input_name s L" "(m, this) \<notin> (dep_rel net)\<^sup>*"
    "\<forall>(k, c) \<in> set (dependant (machines net this)). 0 < c"
  shows "\<exists>net1 net2. internal_attach_input this (Some m) output_name input_name net = Inr net1 \<and>
    internal_detach_input this (Some m) output_name input_name net1 = Inr net2 \<and>
    inputs_ok net2 this L \<and> dependant (machines net2 this) = dependant (machines net this) \<and> graph_ok net2 \<and>
    (\<forall>j. j \<noteq> this \<longrightarrow> machines net2 j = machines net j \<and> (\<forall>L'. inputs_ok net j L' \<longrightarrow> inputs_ok net2 j L'))"
proof -
  obtain net1 where n1: "internal_attach_input this (Some m) output_name input_name net = Inr net1" "graph_ok net1"
    "inputs_ok net1 this (L(input_name := with_signal s (L input_name)))"
    "dependant (machines net1 this) = incr_dependant m (dependant (machines net this))" "only_this net this net1"
    using attach_result [OF assms(1-4)] by blast
  have fresh: "\<forall>nm. s \<notin> set (L nm)" using assms(3) by (simp add: connectable_def)
  let ?L = "L(input_name := with_signal s (L input_name))"
  have ok: "map_ok (dependant (machines net this))" using assms(1) by (simp add: graph_ok_def)
  have c: "map_find output_name (outputs (machines net1 m)) = Some s" "map_find input_name (input_descriptor (machines net1 this)) \<noteq> None"
    "s \<in> set (?L input_name)" "map_find m (dependant (machines net1 this)) \<noteq> None"
    using assms(3) n1(5) n1(4) ok remove1_with_signal(2) [of s "L input_name"]
    by (auto simp: connectable_def only_this_def incr_dependant_def Let_def split: option.splits)
  obtain net2 where n2: "internal_detach_input this (Some m) output_name input_name net1 = Inr net2" "graph_ok net2"
    "inputs_ok net2 this (?L(input_name := remove1 s (?L input_name)))"
    "dependant (machines net2 this) = decr_dep_count m (dependant (machines net1 this))" "only_this net1 this net2"
    using detach_result [OF n1(2,3) c] by blast
  have "?L(input_name := remove1 s (?L input_name)) = L"
    using fresh remove1_with_signal(1) [of s "L input_name"] by auto
  moreover have "dependant (machines net2 this) = dependant (machines net this)"
    using n2(4) n1(4) decr_incr [OF ok assms(5)] by simp
  moreover have "machines net2 j = machines net j \<and> next_in net2 j = next_in net j \<and> prev_in net2 j = prev_in net j" if "j \<noteq> this" for j
    using n1(5) n2(5) that by (simp add: only_this_def)
  then have "\<forall>j. j \<noteq> this \<longrightarrow> machines net2 j = machines net j \<and> (\<forall>L'. inputs_ok net j L' \<longrightarrow> inputs_ok net2 j L')"
    using inputs_ok_cong by metis
  ultimately show ?thesis using n1(1) n2 by (intro exI [of _ net1] exI [of _ net2]) simp
qed

theorem attach_detach_restores_witness:
  "\<exists>net1 net2. internal_attach_input 0 (Some 1) ''out'' ''in'' example_net = Inr net1 \<and>
     internal_detach_input 0 (Some 1) ''out'' ''in'' net1 = Inr net2 \<and> inputs_ok net2 0 (\<lambda>_. []) \<and> dependant (machines net2 0) = []"
proof -
  have "(1, 0) \<notin> (dep_rel example_net)\<^sup>*" "\<forall>(k, c) \<in> set (dependant (machines example_net 0)). 0 < c" "dependant (machines example_net 0) = []"
    by (simp_all add: example_net_ok(2)) (simp_all add: example_net_def)
  with attach_detach_restores [OF example_net_ok(1) example_net_inputs] show ?thesis by fastforce
qed

end
