(* ===== verification/Remote_Network.thy ===== *)
theory Remote_Network
  imports Remote_Machine Machine_Links
begin

text \<open>
  Connections made from a client (remote_interface.cc, server.cc, machine.cc): the request reaches the object
  of the destination, which attaches the machines in the network; the network reports the new connection,
  and the report, posted behind whatever the server still has to do, enters it into the object and sends it
  to the clients. A number that belongs to an object of another class is not considered: the code would use
  a null pointer.
\<close>

section \<open>Requests and reports\<close>

datatype report = Input_Attached mid mid string string | Input_Detached mid mid string string

text \<open>\<open>machine2rimachine\<close> gives the object of a machine, \<open>en_deregistered\<close> the machines that are on their way out,
  \<open>en_posted\<close> the reports that wait.\<close>

record 'd engine =
  en_net :: network
  machine2rimachine :: "(mid, 'd ri_machine) smap"
  en_deregistered :: "mid set"
  en_posted :: "report list"

definition find_rimachine :: "int \<Rightarrow> 'd engine \<Rightarrow> mid option" where
  "find_rimachine i en = map_option fst (find (\<lambda>p. ri_id (snd p) = i) (machine2rimachine en))"

text \<open>\<open>txt\<close> gives the messages of the exceptions of a machine. What a detaching that fails half-way leaves of the network
  is not modelled (Machine\<open>_\<close>Graph).\<close>

definition machine_attach_input :: "(machine_error \<Rightarrow> string) \<Rightarrow> mid \<Rightarrow> mid \<Rightarrow> string \<Rightarrow> string \<Rightarrow> 'd engine \<Rightarrow> registry_error option \<times> 'd engine" where
  "machine_attach_input txt this m output_name input_name en =
     (if this \<in> en_deregistered en \<or> m \<in> en_deregistered en then (Some (FailureResponse ''One or both machines are invalid.''), en)
      else case internal_attach_input this (Some m) output_name input_name (en_net en) of
        Inl e \<Rightarrow> (Some (FailureResponse (txt e)), en)
      | Inr net \<Rightarrow> (None, en \<lparr> en_net := net, en_posted := en_posted en @ [Input_Attached m this output_name input_name] \<rparr>))"

definition machine_detach_input :: "(machine_error \<Rightarrow> string) \<Rightarrow> mid \<Rightarrow> mid \<Rightarrow> string \<Rightarrow> string \<Rightarrow> 'd engine \<Rightarrow> registry_error option \<times> 'd engine" where
  "machine_detach_input txt this m output_name input_name en =
     (if this \<in> en_deregistered en \<or> m \<in> en_deregistered en then (Some (FailureResponse ''One or both machines are invalid.''), en)
      else case internal_detach_input this (Some m) output_name input_name (en_net en) of
        Inl e \<Rightarrow> (Some (FailureResponse (txt e)), en)
      | Inr net \<Rightarrow> (None, en \<lparr> en_net := net, en_posted := en_posted en @ [Input_Detached m this output_name input_name] \<rparr>))"

definition process_attach_message :: "(machine_error \<Rightarrow> string) \<Rightarrow> mid \<Rightarrow> int \<Rightarrow> string \<Rightarrow> string \<Rightarrow> 'd engine \<Rightarrow> registry_error option \<times> 'd engine" where
  "process_attach_message txt this i src_output dst_input en = (case find_rimachine i en of
     None \<Rightarrow> (None, en)
   | Some m \<Rightarrow> machine_attach_input txt this m src_output dst_input en)"

definition process_detach_message :: "(machine_error \<Rightarrow> string) \<Rightarrow> mid \<Rightarrow> int \<Rightarrow> string \<Rightarrow> string \<Rightarrow> 'd engine \<Rightarrow> registry_error option \<times> 'd engine" where
  "process_detach_message txt this i src_output dst_input en = (case find_rimachine i en of
     None \<Rightarrow> (None, en)
   | Some m \<Rightarrow> machine_detach_input txt this m src_output dst_input en)"

text \<open>What a report does and sends, with the number of the object it is sent for.\<close>

definition report_to ::
  "(int \<Rightarrow> string \<Rightarrow> string \<Rightarrow> 'd ri_machine \<Rightarrow> msg_fields \<times> 'd ri_machine) \<Rightarrow> mid \<Rightarrow> mid \<Rightarrow> string \<Rightarrow> string \<Rightarrow> 'd engine \<Rightarrow>
    (int \<times> msg_fields) list \<times> 'd engine" where
  "report_to change src dst output_name input_name en =
     (case (map_find src (machine2rimachine en), map_find dst (machine2rimachine en)) of
        (Some s, Some d) \<Rightarrow> (case change (ri_id s) output_name input_name d of
           (kvs, d') \<Rightarrow> ([(ri_id d, kvs)], en \<lparr> machine2rimachine := map_set dst d' (machine2rimachine en) \<rparr>))
      | _ \<Rightarrow> ([], en))"

fun run_report :: "report \<Rightarrow> 'd engine \<Rightarrow> (int \<times> msg_fields) list \<times> 'd engine" where
  "run_report (Input_Attached src dst output_name input_name) en = report_to attach_input src dst output_name input_name en"
| "run_report (Input_Detached src dst output_name input_name) en = report_to detach_input src dst output_name input_name en"

fun run_posted :: "'d engine \<Rightarrow> report list \<Rightarrow> (int \<times> msg_fields) list \<times> 'd engine" where
  "run_posted en [] = ([], en)"
| "run_posted en (p # ps) = (case run_report p en of (ms, en1) \<Rightarrow> case run_posted en1 ps of (ns, en2) \<Rightarrow> (ms @ ns, en2))"

definition settle :: "'d engine \<Rightarrow> (int \<times> msg_fields) list \<times> 'd engine" where
  "settle en = run_posted (en \<lparr> en_posted := [] \<rparr>) (en_posted en)"

section \<open>Objects and network agree\<close>

definition object_ids :: "'d engine \<Rightarrow> mid \<Rightarrow> int option" where
  "object_ids en m = map_option ri_id (map_find m (machine2rimachine en))"

text \<open>The connections of a machine whose inputs are \<open>L\<close>, with the numbers of the source objects.\<close>

definition wired :: "network \<Rightarrow> (mid \<Rightarrow> int option) \<Rightarrow> (string \<Rightarrow> sid list) \<Rightarrow> (int \<times> string \<times> string) set" where
  "wired net ids L = {(i, out, inp). \<exists>m s. ids m = Some i \<and> map_find out (outputs (machines net m)) = Some s \<and> s \<in> set (L inp)}"

definition outputs_distinct :: "network \<Rightarrow> bool" where
  "outputs_distinct net \<longleftrightarrow> (\<forall>m m' out out' s. map_find out (outputs (machines net m)) = Some s \<longrightarrow>
     map_find out' (outputs (machines net m')) = Some s \<longrightarrow> m = m' \<and> out = out')"

definition ids_distinct :: "(mid \<Rightarrow> int option) \<Rightarrow> bool" where
  "ids_distinct ids \<longleftrightarrow> (\<forall>m m' i. ids m = Some i \<longrightarrow> ids m' = Some i \<longrightarrow> m = m')"

definition engine_ok :: "'d engine \<Rightarrow> (mid \<Rightarrow> string \<Rightarrow> sid list) \<Rightarrow> bool" where
  "engine_ok en L \<longleftrightarrow> graph_ok (en_net en) \<and> (\<forall>i. inputs_ok (en_net en) i (L i)) \<and> outputs_distinct (en_net en) \<and>
     map_ok (machine2rimachine en) \<and> ids_distinct (object_ids en) \<and> en_posted en = [] \<and>
     (\<forall>i r. map_find i (machine2rimachine en) = Some r \<longrightarrow> set (ri_connections r) = wired (en_net en) (object_ids en) (L i))"

lemma set_multimap_insert: "set (multimap_insert k v m) = insert (k, v) (set m)"
proof -
  have "set m = set (takeWhile (\<lambda>p. fst p \<le> k) m @ dropWhile (\<lambda>p. fst p \<le> k) m)" by simp
  then show ?thesis unfolding multimap_insert_def by (simp only: set_append list.set insert_def [symmetric]) auto
qed

lemma set_erase_connection: "set (erase_connection i src dst m) = set m - {(i, src, dst)}"
  by (auto simp: erase_connection_def)

lemma set_with_signal: "set (with_signal s xs) = insert s (set xs)"
  by (cases xs) auto

lemma wired_attach:
  assumes "outputs_distinct net" "map_find out (outputs (machines net m)) = Some s" "ids m = Some i"
  shows "wired net ids (L(inp := with_signal s (L inp))) = insert (i, out, inp) (wired net ids L)"
  using assms unfolding wired_def outputs_distinct_def by (fastforce simp: set_with_signal split: if_splits)

lemma wired_detach:
  assumes "outputs_distinct net" "map_find out (outputs (machines net m)) = Some s" "ids m = Some i" "ids_distinct ids" "distinct (L inp)"
  shows "wired net ids (L(inp := remove1 s (L inp))) = wired net ids L - {(i, out, inp)}"
  using assms unfolding wired_def outputs_distinct_def ids_distinct_def by (fastforce simp: set_remove1_eq split: if_splits)

lemma wired_cong: "(\<And>m. outputs (machines net' m) = outputs (machines net m)) \<Longrightarrow> wired net' ids L = wired net ids L"
  by (simp add: wired_def)


text \<open>A change of the inputs of one machine that its object follows.\<close>

lemma object_ids_set:
  assumes "map_ok (machine2rimachine en)" "map_find this (machine2rimachine en) = Some r" "ri_id r' = ri_id r"
  shows "object_ids (en \<lparr> en_net := net, en_posted := ps, machine2rimachine := map_set this r' (machine2rimachine en) \<rparr>) = object_ids en"
  by (rule ext) (simp add: object_ids_def assms)

lemma only_this_outputs: "only_this net0 this net \<Longrightarrow> outputs (machines net m) = outputs (machines net0 m)"
  by (simp only: only_this_def)

lemma only_this_inputs: "only_this net0 this net \<Longrightarrow> i \<noteq> this \<Longrightarrow> inputs_ok net0 i K \<Longrightarrow> inputs_ok net i K"
  unfolding only_this_def by (metis inputs_ok_cong)

lemma engine_ok_change:
  assumes "engine_ok en L" "only_this (en_net en) this net" "graph_ok net" "inputs_ok net this K"
    "map_find this (machine2rimachine en) = Some r" "ri_id r' = ri_id r" "set (ri_connections r') = wired net (object_ids en) K"
  shows "engine_ok (en \<lparr> en_net := net, en_posted := [], machine2rimachine := map_set this r' (machine2rimachine en) \<rparr>) (L(this := K))"
proof -
  let ?en = "en \<lparr> en_net := net, en_posted := [], machine2rimachine := map_set this r' (machine2rimachine en) \<rparr>"
  note en = assms(1) [unfolded engine_ok_def]
  have ok: "map_ok (machine2rimachine en)" using en by blast
  have ids: "object_ids ?en = object_ids en" using ok assms(5,6) by (rule object_ids_set)
  have o: "outputs (machines net m) = outputs (machines (en_net en) m)" for m using assms(2) by (rule only_this_outputs)
  have inputs: "inputs_ok net i ((L(this := K)) i)" for i
    using only_this_inputs [OF assms(2), of i "L i"] en assms(4) by (cases "i = this") (simp_all only: fun_upd_same fun_upd_other not_False_eq_True)
  have od: "outputs_distinct net" using en unfolding outputs_distinct_def o by blast
  have w: "wired (en_net en) (object_ids en) M = wired net (object_ids en) M" for M unfolding wired_def o ..
  have "set (ri_connections q) = wired net (object_ids en) ((L(this := K)) i)"
    if "map_find i (map_set this r' (machine2rimachine en)) = Some q" for i q
  proof (cases "i = this")
    case True
    then show ?thesis using that ok assms(7) by simp
  next
    case False
    then have "map_find i (machine2rimachine en) = Some q" using that ok by simp
    then have "set (ri_connections q) = wired (en_net en) (object_ids en) (L i)" using en by blast
    then show ?thesis using False w by simp
  qed
  moreover have "ids_distinct (object_ids en)" using en by blast
  ultimately show ?thesis
    unfolding engine_ok_def ids using ok assms(3) inputs od by simp
qed

definition registered :: "'d engine \<Rightarrow> mid \<Rightarrow> bool" where
  "registered en m \<longleftrightarrow> map_find m (machine2rimachine en) \<noteq> None \<and> m \<notin> en_deregistered en"

lemma find_rimachine_id:
  assumes "map_ok (machine2rimachine en)" "find_rimachine i en = Some m"
  shows "\<exists>r. map_find m (machine2rimachine en) = Some r \<and> ri_id r = i"
proof -
  obtain p where p: "find (\<lambda>p. ri_id (snd p) = i) (machine2rimachine en) = Some p" "m = fst p"
    using assms(2) by (auto simp: find_rimachine_def)
  from p(1) have q: "p \<in> set (machine2rimachine en)" "ri_id (snd p) = i" by (auto simp: find_Some_iff)
  have "map_find (fst p) (machine2rimachine en) = Some (snd p)" unfolding map_find_iff [OF assms(1)] using q(1) by simp
  with q(2) p(2) show ?thesis by blast
qed

lemma find_rimachine_of:
  assumes "map_ok (machine2rimachine en)" "ids_distinct (object_ids en)" "object_ids en m = Some i"
  shows "find_rimachine i en = Some m"
proof -
  obtain q where "(m, q) \<in> set (machine2rimachine en)" "ri_id q = i"
    using assms(1,3) by (auto simp: object_ids_def map_find_iff)
  then have "find (\<lambda>p. ri_id (snd p) = i) (machine2rimachine en) \<noteq> None" by (auto simp: find_None_iff)
  then obtain m' where m': "find_rimachine i en = Some m'" by (auto simp: find_rimachine_def)
  from find_rimachine_id [OF assms(1) this] have "object_ids en m' = Some i" by (auto simp: object_ids_def)
  then show ?thesis using m' assms(2,3) by (auto simp: ids_distinct_def)
qed

lemma settle_attached:
  assumes "engine_ok en L" "only_this (en_net en) this net" "graph_ok net" "find_rimachine i en = Some m" "registered en this"
    "inputs_ok net this ((L this)(inp := with_signal s (L this inp)))" "map_find out (outputs (machines (en_net en) m)) = Some s"
  shows "engine_ok (snd (settle (en \<lparr> en_net := net, en_posted := [Input_Attached m this out inp] \<rparr>)))
    (L(this := (L this)(inp := with_signal s (L this inp))))"
proof -
  have ok: "map_ok (machine2rimachine en)" "outputs_distinct (en_net en)" "en_posted en = []" using assms(1) by (simp_all add: engine_ok_def)
  obtain rm where rm: "map_find m (machine2rimachine en) = Some rm" "ri_id rm = i" using find_rimachine_id [OF ok(1) assms(4)] by blast
  have im: "object_ids en m = Some i" using rm by (simp add: object_ids_def)
  obtain r where r: "map_find this (machine2rimachine en) = Some r" using assms(5) by (auto simp: registered_def)
  have o: "outputs (machines net m) = outputs (machines (en_net en) m)" for m using assms(2) by (simp add: only_this_def)
  have "outputs_distinct net" using ok(2) by (simp add: outputs_distinct_def o)
  then have "wired net (object_ids en) ((L this)(inp := with_signal s (L this inp))) = insert (i, out, inp) (wired net (object_ids en) (L this))"
    using assms(7) im by (intro wired_attach) (simp_all add: o)
  moreover have "set (ri_connections r) = wired net (object_ids en) (L this)"
    using assms(1) r o by (simp add: engine_ok_def wired_def)
  ultimately have "set (ri_connections (snd (attach_input i out inp r))) = wired net (object_ids en) ((L this)(inp := with_signal s (L this inp)))"
    by (simp add: attach_input_def set_multimap_insert)
  from engine_ok_change [OF assms(1,2,3,6) r _ this] show ?thesis
    using r rm ok(3) by (simp add: settle_def report_to_def attach_input_def)
qed

lemma settle_detached:
  assumes "engine_ok en L" "only_this (en_net en) this net" "graph_ok net" "find_rimachine i en = Some m" "registered en this"
    "inputs_ok net this ((L this)(inp := remove1 s (L this inp)))" "map_find out (outputs (machines (en_net en) m)) = Some s"
  shows "engine_ok (snd (settle (en \<lparr> en_net := net, en_posted := [Input_Detached m this out inp] \<rparr>)))
    (L(this := (L this)(inp := remove1 s (L this inp))))"
proof -
  have ok: "map_ok (machine2rimachine en)" "outputs_distinct (en_net en)" "en_posted en = []" "ids_distinct (object_ids en)"
    "inputs_ok (en_net en) this (L this)"
    using assms(1) by (simp_all add: engine_ok_def)
  obtain rm where rm: "map_find m (machine2rimachine en) = Some rm" "ri_id rm = i" using find_rimachine_id [OF ok(1) assms(4)] by blast
  have im: "object_ids en m = Some i" using rm by (simp add: object_ids_def)
  obtain r where r: "map_find this (machine2rimachine en) = Some r" using assms(5) by (auto simp: registered_def)
  have o: "outputs (machines net m) = outputs (machines (en_net en) m)" for m using assms(2) by (simp add: only_this_def)
  have "outputs_distinct net" using ok(2) by (simp add: outputs_distinct_def o)
  then have "wired net (object_ids en) ((L this)(inp := remove1 s (L this inp))) = wired net (object_ids en) (L this) - {(i, out, inp)}"
    using assms(7) im ok(4) inputs_okD(3) [OF ok(5)] by (intro wired_detach) (simp_all add: o)
  moreover have "set (ri_connections r) = wired net (object_ids en) (L this)"
    using assms(1) r o by (simp add: engine_ok_def wired_def)
  ultimately have "set (ri_connections (snd (detach_input i out inp r))) = wired net (object_ids en) ((L this)(inp := remove1 s (L this inp)))"
    by (simp add: detach_input_def set_erase_connection)
  from engine_ok_change [OF assms(1,2,3,6) r _ this] show ?thesis
    using r rm ok(3) by (simp add: settle_def report_to_def detach_input_def)
qed


section \<open>Properties\<close>

text \<open>C4: what clients are told of the connections is what the network has: when every object lists the connections of its
  machine, a request to connect two machines is refused with an answer exactly when it would close a loop, and otherwise,
  once the report has been handled, every object again lists the connections of its machine, the new one included; a
  request to disconnect them takes it back the same way.\<close>

theorem connections_follow_network:
  assumes "engine_ok en L" "find_rimachine i en = Some m" "registered en this" "registered en m"
    "connectable (en_net en) this m out inp s (L this)"
  shows "if (m, this) \<in> (dep_rel (en_net en))\<^sup>* then process_attach_message txt this i out inp en = (Some (FailureResponse (txt WouldCreateLoop)), en)
    else \<exists>en1 en2. process_attach_message txt this i out inp en = (None, en1) \<and>
      engine_ok (snd (settle en1)) (L(this := (L this)(inp := with_signal s (L this inp)))) \<and>
      process_detach_message txt this i out inp (snd (settle en1)) = (None, en2) \<and> engine_ok (snd (settle en2)) L"
proof -
  let ?net = "en_net en" and ?L1 = "(L this)(inp := with_signal s (L this inp))"
  have ok: "graph_ok ?net" "inputs_ok ?net this (L this)" "map_ok (machine2rimachine en)" "en_posted en = []"
    using assms(1) by (simp_all add: engine_ok_def)
  have reg: "\<not> (this \<in> en_deregistered en \<or> m \<in> en_deregistered en)" using assms(3,4) by (simp add: registered_def)
  obtain des where des: "map_find out (outputs (machines ?net m)) = Some s" "map_find inp (input_descriptor (machines ?net this)) = Some des"
    "can_connect (signals ?net s) des" and fresh: "\<forall>nm. s \<notin> set (L this nm)"
    using assms(5) by (auto simp: connectable_def split: option.splits)
  show ?thesis
  proof (cases "(m, this) \<in> (dep_rel ?net)\<^sup>*")
    case True
    then have "internal_attach_input this (Some m) out inp ?net = Inl WouldCreateLoop" using attach_cases [OF ok(1) des] by simp
    then show ?thesis using True assms(2) reg by (simp add: process_attach_message_def machine_attach_input_def)
  next
    case False
    obtain net1 where n1: "internal_attach_input this (Some m) out inp ?net = Inr net1" "graph_ok net1" "inputs_ok net1 this ?L1"
      "dependant (machines net1 this) = incr_dependant m (dependant (machines ?net this))" "only_this ?net this net1"
      using attach_result [OF ok(1,2) assms(5) False] by blast
    define en1 where "en1 = en \<lparr> en_net := net1, en_posted := [Input_Attached m this out inp] \<rparr>"
    have p1: "process_attach_message txt this i out inp en = (None, en1)"
      using n1(1) assms(2) reg ok(4) by (simp add: process_attach_message_def machine_attach_input_def en1_def)
    define en2 where "en2 = snd (settle en1)"
    have ok2: "engine_ok en2 (L(this := ?L1))"
      unfolding en1_def en2_def by (rule settle_attached [OF assms(1) n1(5,2) assms(2,3) n1(3) des(1)])
    obtain rm r where r: "map_find m (machine2rimachine en) = Some rm" "ri_id rm = i" "map_find this (machine2rimachine en) = Some r"
      using find_rimachine_id [OF ok(3) assms(2)] assms(3) by (auto simp: registered_def)
    have en2: "en_net en2 = net1" "en_deregistered en2 = en_deregistered en" "en_posted en2 = []"
      "machine2rimachine en2 = map_set this (snd (attach_input i out inp r)) (machine2rimachine en)"
      using r by (simp_all add: en2_def en1_def settle_def report_to_def case_prod_unfold)
    have reg2: "registered en2 this" using assms(3) ok(3) by (simp add: registered_def en2)
    have "object_ids en2 m = Some i" using r ok(3) by (auto simp: en2 object_ids_def attach_input_def)
    then have find2: "find_rimachine i en2 = Some m" using ok2 by (intro find_rimachine_of) (simp_all add: engine_ok_def)
    have c: "map_find out (outputs (machines net1 m)) = Some s" "map_find inp (input_descriptor (machines net1 this)) \<noteq> None"
      "s \<in> set (?L1 inp)" "map_find m (dependant (machines net1 this)) \<noteq> None"
      using des n1(4,5) ok(1) by (auto simp: only_this_def incr_dependant_def Let_def set_with_signal graph_ok_def split: option.splits)
    obtain net2 where n2: "internal_detach_input this (Some m) out inp net1 = Inr net2" "graph_ok net2"
      "inputs_ok net2 this (?L1(inp := remove1 s (?L1 inp)))" "only_this net1 this net2"
      using detach_result [OF n1(2,3) c] by blast
    define en3 where "en3 = en2 \<lparr> en_net := net2, en_posted := [Input_Detached m this out inp] \<rparr>"
    have p2: "process_detach_message txt this i out inp en2 = (None, en3)"
      using n2(1) find2 reg by (simp add: process_detach_message_def machine_detach_input_def en3_def en2)
    have "engine_ok (snd (settle en3)) ((L(this := ?L1))(this := (((L(this := ?L1)) this)(inp := remove1 s ((L(this := ?L1)) this inp)))))"
      unfolding en3_def using n2 c(1) by (intro settle_detached [OF ok2 _ _ find2 reg2]) (simp_all add: en2)
    moreover have "?L1(inp := remove1 s (?L1 inp)) = L this" using fresh remove1_with_signal(1) [of s "L this inp"] by auto
    ultimately have "engine_ok (snd (settle en3)) L" by simp
    then show ?thesis using False p1 p2 ok2 by (auto simp: en2_def)
  qed
qed


definition demo_engine :: "int engine" where
  "demo_engine = \<lparr> en_net = example_net, machine2rimachine = [(0, demo_machine \<lparr> ri_id := 20, ri_connections := [] \<rparr>),
     (1, demo_machine \<lparr> ri_id := 21, ri_connections := [] \<rparr>)], en_deregistered = {}, en_posted = [] \<rparr>"

lemma demo_engine_ok: "engine_ok demo_engine (\<lambda>i nm. [])"
proof -
  have "inputs_ok example_net i (\<lambda>nm. [])" for i by (simp add: inputs_ok_def example_net_def)
  moreover have "outputs_distinct example_net" by (simp add: outputs_distinct_def example_net_def)
  moreover have "ids_distinct (object_ids demo_engine)" by (auto simp: ids_distinct_def object_ids_def demo_engine_def split: if_splits)
  moreover have "wired example_net ids (\<lambda>nm. []) = {}" for ids by (simp add: wired_def)
  ultimately show ?thesis using example_net_ok(1) by (auto simp: engine_ok_def demo_engine_def split: if_splits)
qed

theorem connections_follow_network_witness:
  "(\<exists>en1 en2. process_attach_message (\<lambda>e. ''loop'') 0 21 ''out'' ''in'' demo_engine = (None, en1) \<and>
     engine_ok (snd (settle en1)) ((\<lambda>i nm. [])(0 := (\<lambda>nm. [])(''in'' := [1]))) \<and>
     process_detach_message (\<lambda>e. ''loop'') 0 21 ''out'' ''in'' (snd (settle en1)) = (None, en2) \<and> engine_ok (snd (settle en2)) (\<lambda>i nm. [])) \<and>
   process_attach_message (\<lambda>e. ''loop'') 0 20 ''out'' ''in'' demo_engine = (Some (FailureResponse ''loop''), demo_engine)"
proof -
  have f: "find_rimachine 21 demo_engine = Some 1" "find_rimachine 20 demo_engine = Some 0" "registered demo_engine 0" "registered demo_engine 1"
    "en_net demo_engine = example_net"
    by (simp_all add: find_rimachine_def registered_def demo_engine_def)
  have c: "connectable (en_net demo_engine) 0 1 ''out'' ''in'' 1 (\<lambda>nm. [])" "connectable (en_net demo_engine) 0 0 ''out'' ''in'' 0 (\<lambda>nm. [])"
    unfolding f(5) by (simp_all add: connectable_def can_connect_def example_net_def)
  have "(1, 0) \<notin> (dep_rel example_net)\<^sup>*" by (simp add: example_net_ok(2))
  then show ?thesis
    using connections_follow_network [OF demo_engine_ok f(1,3,4) c(1), of "\<lambda>e. ''loop''"]
      connections_follow_network [OF demo_engine_ok f(2,3,3) c(2), of "\<lambda>e. ''loop''"] f(5) by simp
qed

end
