(* ===== verification/Sample_Bank.thy ===== *)
theory Sample_Bank
  imports Remote_Calls
begin

text \<open>
  Samples (signal.cc, \<open>StaticSignalLoader\<close>) and the object through which clients see their names
  (remote_interface.cc, \<open>SampleBank\<close>). A sample is its name; a loader is a function from a path to the name of
  the sample it reads there, None when it throws.
\<close>

section \<open>The samples of the machines\<close>

type_synonym samples = "(int, string) smap"

fun internal_load_signal :: "(string \<Rightarrow> string option) list \<Rightarrow> int \<Rightarrow> string \<Rightarrow> samples \<Rightarrow> samples" where
  "internal_load_signal [] i path sigs = sigs"
| "internal_load_signal (k # loaders) i path sigs = (case k path of
     None \<Rightarrow> internal_load_signal loaders i path sigs
   | Some n \<Rightarrow> if i = -1 then sigs else map_set i n sigs)"

text \<open>At most 127 characters of the name are copied.\<close>

definition get_signal_name_for_slot :: "int \<Rightarrow> samples \<Rightarrow> string option" where
  "get_signal_name_for_slot i sigs = map_option (\<lambda>n. take 127 (takeWhile (\<lambda>c. c \<noteq> NUL) n)) (map_find i sigs)"

section \<open>The bank\<close>

record sample_bank =
  sb_id :: int
  bank_name :: string
  sample_names :: samples

text \<open>The object of the server, with the samples there are when it is made.\<close>

definition new_sample_bank :: "int \<Rightarrow> samples \<Rightarrow> sample_bank" where
  "new_sample_bank i sigs = \<lparr> sb_id = i, bank_name = ''<global>'', sample_names = sigs \<rparr>"

definition ser_sample_bank :: "string \<times> samples \<Rightarrow> string" where
  "ser_sample_bank = ser_seq ser_string (ser_container (ser_pair ser_int ser_string))"

definition deser_sample_bank :: "(string \<times> samples) deser" where
  "deser_sample_bank = deser_seq deser_string (deser_map (deser_pair deser_int deser_string) [])"

definition sb_fields :: "sample_bank \<Rightarrow> msg_fields" where
  "sb_fields b = [(''content'', ser_result (ser_sample_bank (bank_name b, sample_names b)))]"

definition sb_create :: "message \<Rightarrow> (registry_error, sample_bank) result" where
  "sb_create msg = (case rbind (get_value ''new_objid'' msg) (\<lambda>i. rbind (get_value ''content'' msg) (\<lambda>c. Inr (stoi i, c))) of
     Inl e \<Rightarrow> Inl (BadMessage e)
   | Inr (i, c) \<Rightarrow> (case rbind (ItemDeserializer c) (\<lambda>s. fst (deser_sample_bank s)) of
       Inl e \<Rightarrow> Inl HandlerThrew
     | Inr (n, m) \<Rightarrow> Inr \<lparr> sb_id = i, bank_name = n, sample_names = m \<rparr>))"

datatype bank_error = NoSampleLoaded | NoSuchSampleBank

definition get_sample_name :: "int \<Rightarrow> sample_bank \<Rightarrow> (bank_error, string) result" where
  "get_sample_name i b = (case map_find i (sample_names b) of None \<Rightarrow> Inl NoSampleLoaded | Some n \<Rightarrow> Inr n)"

text \<open>The server loads the sample and tells the clients; the object itself is not changed.\<close>

definition sb_process_server ::
  "(string \<Rightarrow> string option) list \<Rightarrow> message \<Rightarrow> sample_bank \<Rightarrow> samples \<Rightarrow> registry_error option \<times> handler_effect list \<times> samples" where
  "sb_process_server loaders msg b sigs =
     (case rbind (get_value ''command'' msg) (\<lambda>c. if c \<noteq> ''loads'' then Inr None else
        rbind (get_int_value ''index'' msg) (\<lambda>i. rbind (get_value ''path'' msg) (\<lambda>p. Inr (Some (i, p))))) of
        Inl e \<Rightarrow> (Some (BadMessage e), [], sigs)
      | Inr None \<Rightarrow> (None, [], sigs)
      | Inr (Some (i, path)) \<Rightarrow>
          let sigs = internal_load_signal loaders i path sigs in
          (case get_signal_name_for_slot i sigs of
             None \<Rightarrow> (Some HandlerThrew, [], sigs)
           | Some n \<Rightarrow> (None,
               [Broadcast [(''command'', ''setname''), (''ignored'', bank_name b), (''name'', n), (''index'', show_int i)],
                Answer [(''name'', n)]], sigs)))"

definition sb_process_client :: "message \<Rightarrow> sample_bank \<Rightarrow> (msg_error, sample_bank) result" where
  "sb_process_client msg b = rbind (get_value ''command'' msg) (\<lambda>c. if c \<noteq> ''setname'' then Inr b else
     rbind (get_value ''name'' msg) (\<lambda>n. rbind (get_int_value ''index'' msg) (\<lambda>i.
       Inr (b \<lparr> sample_names := map_set i n (sample_names b) \<rparr>))))"

text \<open>What \<open>load_sample\<close> sends, and what its reply does.\<close>

definition load_sample_fields :: "int \<Rightarrow> string \<Rightarrow> msg_fields" where
  "load_sample_fields i path = [(''command'', ''loads''), (''index'', show_int i), (''path'', path)]"

definition load_sample_reply :: "int \<Rightarrow> message option \<Rightarrow> sample_bank \<Rightarrow> (msg_error, sample_bank) result" where
  "load_sample_reply i reply b = (case reply of
     None \<Rightarrow> Inr b
   | Some msg \<Rightarrow> rbind (get_value ''name'' msg) (\<lambda>n. Inr (b \<lparr> sample_names := map_set i n (sample_names b) \<rparr>)))"

section \<open>The banks of a client\<close>

text \<open>The banks by name, with the number of an object that may be gone. The loop of \<open>on_delete\<close> looks at one entry
  again and again.\<close>

partial_function (option) on_delete_loop :: "int \<Rightarrow> (string, int option) smap \<Rightarrow> (string, int option) smap \<Rightarrow> (string, int option) smap option" where
  "on_delete_loop this itr banks = (case itr of
     [] \<Rightarrow> Some banks
   | p # ps \<Rightarrow> if snd p = Some this then Some (map_erase (fst p) banks) else on_delete_loop this itr banks)"

definition samplebank_on_delete :: "int \<Rightarrow> (string, int option) smap \<Rightarrow> (string, int option) smap option" where
  "samplebank_on_delete this banks = on_delete_loop this banks banks"

definition get_bank :: "string \<Rightarrow> (string, int option) smap \<Rightarrow> (bank_error, int) result" where
  "get_bank nm banks =
     (let n = (if nm \<noteq> [] then nm else ''<global>'') in
      case map_find n banks of Some (Some i) \<Rightarrow> Inr i | _ \<Rightarrow> Inl NoSuchSampleBank)"

lemma on_delete_hangs:
  assumes "snd p \<noteq> Some this"
  shows "samplebank_on_delete this (p # ps) = None"
proof -
  have "itr = p # ps \<longrightarrow> snd p = Some t" if "on_delete_loop t itr banks = Some r" for t itr banks r
    using that by (rule on_delete_loop.raw_induct [where P = "\<lambda>t itr banks r. itr = p # ps \<longrightarrow> snd p = Some t", rotated]) (auto split: if_splits)
  then show ?thesis unfolding samplebank_on_delete_def using assms by (cases "on_delete_loop this (p # ps) (p # ps)") auto
qed

section \<open>The announcement\<close>

interpretation sample_map: serderizable_map ser_int deser_int int_valid ser_string deser_string string_valid ..

interpretation bank_text: serderizable2 ser_string deser_string string_valid
  "ser_container (ser_pair ser_int ser_string)" "deser_map (deser_pair deser_int deser_string) []"
  "\<lambda>m. map_ok m \<and> (\<forall>p \<in> set m. int_valid (fst p) \<and> string_valid (snd p))" ..

definition bank_ok :: "sample_bank \<Rightarrow> bool" where
  "bank_ok b \<longleftrightarrow> 0 \<le> sb_id b \<and> sb_id b < 2 ^ 31 \<and> plain (bank_name b) \<and> string_valid (bank_name b) \<and> map_ok (sample_names b) \<and>
     (\<forall>p \<in> set (sample_names b). int_valid (fst p) \<and> string_valid (snd p))"

abbreviation sb_object :: "sample_bank \<Rightarrow> server_object" where
  "sb_object b \<equiv> \<lparr> obj_id = sb_id b, obj_type = ''SampleBank'', obj_fields = sb_fields b \<rparr>"

lemma bank_created:
  assumes "bank_ok b" "fields_ok (create_message (sb_object b))"
  shows "\<exists>msg. read_message (wire_bytes (create_message (sb_object b))) new_message = Inr (msg, []) \<and> sb_create msg = Inr b"
proof -
  let ?t = "ser_sample_bank (bank_name b, sample_names b)"
  from fields_read [OF assms(2)] obtain msg where
    m: "read_message (wire_bytes (create_message (sb_object b))) new_message = Inr (msg, [])"
    "get_value ''new_objid'' msg = Inr (sent (show_int (sb_id b)))" "get_value ''content'' msg = Inr (sent (ser_result ?t))"
    by (fastforce simp: create_message_def add_create_object_header_def sb_fields_def)
  have v: "string_valid (fst (bank_name b, sample_names b)) \<and> (map_ok (snd (bank_name b, sample_names b)) \<and>
      (\<forall>p \<in> set (snd (bank_name b, sample_names b)). int_valid (fst p) \<and> string_valid (snd p)))"
    using assms(1) by (simp add: bank_ok_def)
  have t: "?t \<noteq> []" "nul_free ?t"
    using bank_text.seq.ser_nonempty [OF v] bank_text.seq.ser_nul_free [OF v] by (simp_all add: ser_sample_bank_def)
  have s: "sent (ser_result ?t) = ser_result ?t" using ser_result_plain [OF t] by (simp add: sent_def plain_def)
  have i: "stoi (sent (show_int (sb_id b))) = sb_id b" using assms(1) by (intro number_arrives) (auto simp: int32_def bank_ok_def)
  have "rbind (ItemDeserializer (ser_result ?t)) (\<lambda>s. fst (deser_sample_bank s)) = Inr (bank_name b, sample_names b)"
    using t bank_text.seq.round_trip [OF v, of "[]"]
    by (simp add: ItemDeserializer_def ser_result_def decode_encode_string istringstream_def deser_sample_bank_def ser_sample_bank_def)
  then have "sb_create msg = Inr b" by (simp add: sb_create_def m(2,3) s i)
  with m(1) show ?thesis by blast
qed


section \<open>Properties\<close>

definition sb_receive :: "sample_bank \<Rightarrow> msg_fields \<Rightarrow> sample_bank" where
  "sb_receive c kvs = receive_fields (sb_id c) sb_process_client c kvs"

lemma bank_name_set:
  assumes "wire_ok ((''id'', show_int (sb_id b)) # [(''command'', ''setname''), (''ignored'', bank_name b), (''name'', n), (''index'', show_int i)])"
    "int32 i"
  shows "sb_receive b [(''command'', ''setname''), (''ignored'', bank_name b), (''name'', n), (''index'', show_int i)] =
    b \<lparr> sample_names := map_set i n (sample_names b) \<rparr>"
proof -
  let ?kvs = "[(''command'', ''setname''), (''ignored'', bank_name b), (''name'', n), (''index'', show_int i)]"
  from receive_fields_sent [OF assms(1), of sb_process_client b] obtain msg where
    m: "sb_receive b ?kvs = (case sb_process_client msg b of Inl e \<Rightarrow> b | Inr c' \<Rightarrow> c')" "get_value ''command'' msg = Inr ''setname''"
    "get_value ''name'' msg = Inr n" "get_value ''index'' msg = Inr (show_int i)" unfolding sb_receive_def by fastforce
  then show ?thesis using assms(2) by (simp add: sb_process_client_def get_int_value_def int32_def stoi_number)
qed



end
