(* ===== verification/Handle_List.thy ===== *)
theory Handle_List
  imports Remote_Calls
begin

text \<open>
  The list of machines that can be created (remote_interface.cc, \<open>HandleList\<close>): the handles the server knows with
  their hints, how a client is told of them, and the request for a new machine. What \<open>DynamicMachine::instance\<close>
  makes of a handle and a position is an argument, the name of the machine or None.
\<close>

section \<open>Announcing the handles\<close>

definition hint_key :: "string \<Rightarrow> string" where
  "hint_key h = ''hint_'' @ h"

definition hl_fields :: "(string, string) smap \<Rightarrow> msg_fields" where
  "hl_fields hints = map (\<lambda>p. (hint_key (fst p), snd p)) hints @ [(''handles'', delimited CHR '':'' (map fst hints))]"

fun read_hints :: "string list \<Rightarrow> message \<Rightarrow> (string, string) smap \<Rightarrow> (msg_error, (string, string) smap) result" where
  "read_hints [] msg m = Inr m"
| "read_hints (h # hs) msg m = rbind (get_value (hint_key h) msg) (\<lambda>t. read_hints hs msg (map_set h t m))"

definition hl_create :: "message \<Rightarrow> (msg_error, (string, string) smap) result" where
  "hl_create msg = rbind (get_value ''handles'' msg) (\<lambda>t. read_hints (parse_names CHR '':'' t) msg [])"

section \<open>Creating a machine\<close>

definition create_instance_fields :: "('d \<Rightarrow> string) \<Rightarrow> string \<Rightarrow> 'd \<Rightarrow> 'd \<Rightarrow> msg_fields" where
  "create_instance_fields to_string h x y = [(''command'', ''instance''), (''handle'', h), (''xpos'', to_string x), (''ypos'', to_string y)]"

text \<open>A machine that could not be made is answered without a name.\<close>

definition hl_process_server ::
  "(string \<Rightarrow> 'd) \<Rightarrow> (string \<Rightarrow> 'd \<Rightarrow> 'd \<Rightarrow> string option) \<Rightarrow> message \<Rightarrow> (msg_error, handler_effect list) result" where
  "hl_process_server atof instance_of msg = rbind (get_value ''command'' msg) (\<lambda>c. if c \<noteq> ''instance'' then Inr [] else
     rbind (get_value ''handle'' msg) (\<lambda>h. rbind (get_value ''xpos'' msg) (\<lambda>x. rbind (get_value ''ypos'' msg) (\<lambda>y.
       Inr [Answer (case instance_of h (atof x) (atof y) of None \<Rightarrow> [] | Some n \<Rightarrow> [(''name'', n)])]))))"

datatype create_result = Created string | FailedToCreateMachine | ContextNotConnected

definition create_instance_reply :: "message option \<Rightarrow> create_result" where
  "create_instance_reply reply = (case reply of
     None \<Rightarrow> ContextNotConnected
   | Some msg \<Rightarrow> (case get_value ''name'' msg of Inl e \<Rightarrow> FailedToCreateMachine | Inr n \<Rightarrow> Created n))"

section \<open>What a client is told\<close>

lemma read_hints_all:
  assumes "map_ok (m @ hints)" "\<forall>p \<in> set hints. get_value (hint_key (fst p)) msg = Inr (sent (snd p))"
  shows "read_hints (map fst hints) msg m = Inr (m @ map (\<lambda>p. (fst p, sent (snd p))) hints)"
  using assms
proof (induction hints arbitrary: m)
  case (Cons p hints)
  have "\<forall>q \<in> set m. fst q < fst p" using Cons.prems(1) by (auto simp: map_ok_def sorted_wrt_append)
  then have "map_set (fst p) (sent (snd p)) m = m @ [(fst p, sent (snd p))]" by (rule map_set_behind)
  moreover have "map_ok ((m @ [(fst p, sent (snd p))]) @ hints)" using Cons.prems(1) by (simp add: map_ok_def)
  ultimately show ?case using Cons.prems(2) Cons.IH [of "m @ [(fst p, sent (snd p))]"] by simp
qed simp

definition handles_object :: "int \<Rightarrow> (string, string) smap \<Rightarrow> server_object" where
  "handles_object i hints = \<lparr> obj_id = i, obj_type = ''HandleList'', obj_fields = hl_fields hints \<rparr>"

text \<open>A client learns every handle with its hint; an empty hint as the text that stands for it.\<close>

lemma handles_arrive:
  assumes "map_ok hints" "\<forall>p \<in> set hints. fst p \<noteq> [] \<and> CHR '':'' \<notin> set (fst p)" "fields_ok (create_message (handles_object i hints))"
  shows "\<exists>msg. read_message (wire_bytes (create_message (handles_object i hints))) new_message = Inr (msg, []) \<and>
    hl_create msg = Inr (map (\<lambda>p. (fst p, sent (snd p))) hints)"
proof -
  let ?kvs = "create_message (handles_object i hints)"
  from fields_read [OF assms(3)] obtain msg where
    m: "read_message (wire_bytes ?kvs) new_message = Inr (msg, [])"
    "\<forall>k. get_value k msg = (case map_of ?kvs k of Some v \<Rightarrow> Inr (sent v) | None \<Rightarrow> Inl (NoSuchKey k))" by blast
  have "distinct (map fst ?kvs)" using assms(3) by (simp only: fields_ok_def)
  then have "map_of ?kvs (fst p) = Some (snd p)" if "p \<in> set ?kvs" for p using that by (simp add: map_of_is_SomeI)
  then have g: "\<forall>p \<in> set ?kvs. get_value (fst p) msg = Inr (sent (snd p))" using m(2) by simp
  have f: "get_value ''handles'' msg = Inr (sent (delimited CHR '':'' (map fst hints)))"
    "\<forall>p \<in> set hints. get_value (hint_key (fst p)) msg = Inr (sent (snd p))"
    using g by (simp_all add: create_message_def add_create_object_header_def handles_object_def hl_fields_def)
  have "parse_names CHR '':'' (sent (delimited CHR '':'' (map fst hints))) = map fst hints"
    using assms(2) by (intro names_arrive) (auto simp: name_free_def)
  with read_hints_all [of "[]" hints msg] f assms(1) have "hl_create msg = Inr (map (\<lambda>p. (fst p, sent (snd p))) hints)"
    by (simp add: hl_create_def)
  with m(1) show ?thesis by blast
qed

end
