(* ===== verification/Sequencer_Store.thy ===== *)
theory Sequencer_Store
  imports Sequencer
begin

text \<open>
  The store of loops and the sequence: an entry of a sequence is never a number without a loop, however loops
  are added, deleted, placed, loaded and played; what deleting a loop does to the sequence; and saving and
  loading the sequence.
\<close>

section \<open>Entries have loops\<close>

definition seq_wf :: "sequencer \<Rightarrow> bool" where
  "seq_wf s \<longleftrightarrow> (\<forall>e \<in> set (loop_sequence s). e = NOTE_NOT_SET \<or>
     0 \<le> e \<and> e < int (length (loop_store s)) \<and> loop_store s ! nat e \<noteq> None)"

text \<open>The loop that starts at a line.\<close>

definition loop_at :: "int \<Rightarrow> sequencer \<Rightarrow> nat option" where
  "loop_at pos s = (let e = internal_get_loop_id_at pos s in if e = NOTE_NOT_SET then None else loop_store s ! nat e)"

lemma seq_wf_entry:
  assumes "seq_wf s" "internal_get_loop_id_at pos s = e" "e \<noteq> NOTE_NOT_SET"
  shows "0 \<le> e" "e < int (length (loop_store s))" "\<exists>l. loop_store s ! nat e = Some l"
proof -
  have "e \<in> set (loop_sequence s)" using assms(2,3) by (auto simp: internal_get_loop_id_at_def split: if_splits)
  with assms(1,3) show "0 \<le> e" "e < int (length (loop_store s))" "\<exists>l. loop_store s ! nat e = Some l"
    by (auto simp: seq_wf_def)
qed

lemma seq_wf_grow:
  assumes "seq_wf s" "loop_sequence s' = loop_sequence s" "length (loop_store s) \<le> length (loop_store s')"
    "\<And>k. k < length (loop_store s) \<Longrightarrow> loop_store s ! k \<noteq> None \<Longrightarrow> loop_store s' ! k \<noteq> None"
  shows "seq_wf s'"
  unfolding seq_wf_def
proof (intro ballI)
  fix e
  assume "e \<in> set (loop_sequence s')"
  then have "e = NOTE_NOT_SET \<or> 0 \<le> e \<and> e < int (length (loop_store s)) \<and> loop_store s ! nat e \<noteq> None"
    using assms(1,2) by (simp add: seq_wf_def)
  then show "e = NOTE_NOT_SET \<or> 0 \<le> e \<and> e < int (length (loop_store s')) \<and> loop_store s' ! nat e \<noteq> None"
    using assms(3) assms(4) [of "nat e"] by auto
qed

lemma seq_wf_same: "seq_wf s \<Longrightarrow> loop_sequence s' = loop_sequence s \<Longrightarrow> loop_store s' = loop_store s \<Longrightarrow> seq_wf s'"
  by (simp add: seq_wf_def)

lemma seq_wf_refresh: "seq_wf s \<Longrightarrow> seq_wf (refresh_length len s)"
  by (auto simp: seq_wf_def refresh_length_def)

lemma seq_wf_prep: "seq_wf (prep_empty_loop_sequence len s)"
  by (simp add: seq_wf_def prep_empty_loop_sequence_def)

lemma seq_wf_store_loop: "seq_wf s \<Longrightarrow> seq_wf (store_loop k l s)"
  by (erule seq_wf_grow; cases "k < length (loop_store s)") (auto simp: store_loop_def nth_list_update)

lemma seq_wf_double: "seq_wf s \<Longrightarrow> seq_wf (double_loop_store s)"
  by (erule seq_wf_grow) (auto simp: double_loop_store_def nth_append)

lemma delete_loop_Inr:
  assumes "delete_loop i s = Inr s'"
  shows "0 \<le> i" "length (loop_store s') = length (loop_store s)"
    "loop_sequence s' = map (\<lambda>e. if e = i then NOTE_NOT_SET else if e > i then e - 1 else e) (loop_sequence s)"
    "\<And>k. k < length (loop_store s) \<Longrightarrow>
      loop_store s' ! k = (if nat i \<le> k \<and> k + 1 < length (loop_store s) then loop_store s ! (k + 1) else loop_store s ! k)"
    "last_free_loop_store_position s' = last_free_loop_store_position s - 1"
    "current_loop s' = current_loop s"
  using assms by (auto simp: delete_loop_def NOTE_NOT_SET_def Let_def split: if_splits)

text \<open>The entries move with their loops.\<close>

lemma delete_loop_entry:
  assumes "delete_loop i s = Inr s'" "0 \<le> e" "e < int (length (loop_store s))" "e \<noteq> i"
  shows "loop_store s' ! nat (if e > i then e - 1 else e) = loop_store s ! nat e"
proof -
  note d = delete_loop_Inr [OF assms(1)]
  show ?thesis
  proof (cases "e > i")
    case True
    then have n: "nat i \<le> nat (e - 1)" "nat (e - 1) + 1 = nat e" using d(1) by auto
    moreover have "nat e < length (loop_store s)" "nat (e - 1) < length (loop_store s)" using assms(2,3) True d(1) by auto
    ultimately show ?thesis using d(4) [of "nat (e - 1)"] True by simp
  next
    case False
    then have "\<not> nat i \<le> nat e" using assms(2,4) by auto
    then show ?thesis using d(4) [of "nat e"] assms(2,3) False by simp
  qed
qed

lemma seq_wf_delete:
  assumes "seq_wf s" "delete_loop i s = Inr s'"
  shows "seq_wf s'"
  unfolding seq_wf_def
proof (intro ballI)
  note d = delete_loop_Inr [OF assms(2)]
  fix e'
  assume "e' \<in> set (loop_sequence s')"
  then obtain e where e: "e \<in> set (loop_sequence s)" "e' = (if e = i then NOTE_NOT_SET else if e > i then e - 1 else e)"
    unfolding d(3) by auto
  with assms(1) have "e = NOTE_NOT_SET \<or> 0 \<le> e \<and> e < int (length (loop_store s)) \<and> loop_store s ! nat e \<noteq> None"
    by (auto simp: seq_wf_def)
  then show "e' = NOTE_NOT_SET \<or> 0 \<le> e' \<and> e' < int (length (loop_store s')) \<and> loop_store s' ! nat e' \<noteq> None"
    using e(2) d(1,2) delete_loop_entry [OF assms(2), of e] by (auto simp: NOTE_NOT_SET_def split: if_splits)
qed

lemma internal_get_delete:
  assumes "delete_loop i s = Inr s'"
  shows "internal_get_loop_id_at pos s' =
    (let e = internal_get_loop_id_at pos s in if e = i then NOTE_NOT_SET else if e > i then e - 1 else e)"
  using delete_loop_Inr(1,3) [OF assms]
  by (auto simp: internal_get_loop_id_at_def NOTE_NOT_SET_def Let_def)

lemma loop_at_delete:
  assumes "seq_wf s" "delete_loop i s = Inr s'"
  shows "loop_at pos s' = (if internal_get_loop_id_at pos s = i then None else loop_at pos s)"
proof -
  let ?e = "internal_get_loop_id_at pos s"
  have i: "0 \<le> i" by (rule delete_loop_Inr(1) [OF assms(2)])
  show ?thesis
  proof (cases "?e = NOTE_NOT_SET \<or> ?e = i")
    case True
    then show ?thesis using i by (auto simp: loop_at_def internal_get_delete [OF assms(2)] Let_def NOTE_NOT_SET_def)
  next
    case False
    then have "0 \<le> ?e" "?e < int (length (loop_store s))" using seq_wf_entry(1,2) [OF assms(1) refl] by auto
    with delete_loop_entry [OF assms(2) this] False i show ?thesis
      by (auto simp: loop_at_def internal_get_delete [OF assms(2)] Let_def NOTE_NOT_SET_def)
  qed
qed

section \<open>Every operation keeps this\<close>

definition studio_wf :: "studio \<Rightarrow> bool" where
  "studio_wf st \<longleftrightarrow> (\<forall>i < sequencers_top st. seq_wf (sequencers st i))"

lemma studio_wf_upd:
  "studio_wf st \<Longrightarrow> (\<And>s. seq_wf s \<Longrightarrow> seq_wf (f s)) \<Longrightarrow> studio_wf (upd_sequencer this f st)"
  by (simp add: studio_wf_def upd_sequencer_def)

lemma studio_wf_loops [simp]:
  "studio_wf (st \<lparr> loops := a \<rparr>) = studio_wf st" "studio_wf (st \<lparr> loops_top := n \<rparr>) = studio_wf st" "studio_wf (st \<lparr> loop_heap := h \<rparr>) = studio_wf st"
  "studio_wf (st \<lparr> machine2sequencer := m \<rparr>) = studio_wf st" "studio_wf (st \<lparr> sequence_length := v \<rparr>) = studio_wf st"
  "studio_wf (st \<lparr> machine_from_xml_cache := c \<rparr>) = studio_wf st" "studio_wf (upd_loop i l h st) = studio_wf st"
  by (simp_all add: studio_wf_def upd_loop_def)

lemma studio_wf_put: "studio_wf st \<Longrightarrow> seq_wf s \<Longrightarrow> put_sequencer s st = (this, st') \<Longrightarrow> studio_wf st'"
  by (auto simp: studio_wf_def put_sequencer_def less_Suc_eq)

lemma create_loop_Pair:
  "create_loop st = (l, st1) \<Longrightarrow> l = loops_top st \<and> st1 = st \<lparr> loops := (loops st)(l := new_loop), loops_top := Suc l \<rparr>"
  by (auto simp: create_loop_def)

lemma studio_wf_add:
  assumes "studio_wf st" "internal_add_new_loop this st = Inr (k, st')"
  shows "studio_wf st'"
proof -
  obtain l st1 where c: "create_loop st = (l, st1)" by (cases "create_loop st")
  then have "studio_wf st1" using assms(1) by (auto simp: create_loop_def)
  moreover have "\<exists>j. st' = upd_sequencer this (store_loop j l) st1 \<or> st' = upd_sequencer this (store_loop j l \<circ> double_loop_store) st1"
    using assms(2) c by (auto simp: internal_add_new_loop_def Let_def split: option.splits if_splits)
  ultimately show ?thesis by (auto intro!: studio_wf_upd simp: seq_wf_store_loop seq_wf_double)
qed

lemma studio_wf_set_length: "studio_wf st \<Longrightarrow> studio_wf (set_sequence_length v st)"
proof -
  have "studio_wf st \<Longrightarrow> studio_wf (fold (\<lambda>(m, i). upd_sequencer i (refresh_length v)) ms st)" for ms st
    by (induction ms arbitrary: st) (simp_all add: case_prod_beta studio_wf_upd [OF _ seq_wf_refresh])
  from this [of "st \<lparr> sequence_length := v \<rparr>"] show "studio_wf st \<Longrightarrow> studio_wf (set_sequence_length v st)"
    by (simp add: set_sequence_length_def)
qed

lemma seq_wf_place:
  assumes "seq_wf s" "\<not> (e \<noteq> NOTE_NOT_SET \<and> (e < 0 \<or> e \<ge> int (length (loop_store s)) \<or> loop_store s ! nat e = None))"
  shows "seq_wf (s \<lparr> loop_sequence := (loop_sequence s)[k := e] \<rparr>)"
  using assms set_update_subset_insert [of "loop_sequence s" k e] unfolding seq_wf_def by fastforce

lemma studio_wf_at:
  "studio_wf st \<Longrightarrow> (seq_wf (sequencers st this) \<Longrightarrow> seq_wf (f (sequencers st this))) \<Longrightarrow> studio_wf (upd_sequencer this f st)"
  by (simp add: studio_wf_def upd_sequencer_def)

lemma studio_wf_set_loop:
  assumes "studio_wf st" "internal_set_loop_id_at this pos e st = (r, st')"
  shows "studio_wf st'"
proof -
  define st1 where "st1 = (if \<not> pos < int (length (loop_sequence (sequencers st this))) then
      upd_sequencer this (refresh_length (sequence_length (set_sequence_length (pos + 16) st))) (set_sequence_length (pos + 16) st) else st)"
  have wf: "studio_wf st1" using assms(1) unfolding st1_def
    by (simp add: studio_wf_set_length studio_wf_upd seq_wf_refresh)
  have "st' = st \<or> st' = st1 \<or> st' = upd_sequencer this (\<lambda>s. s \<lparr> loop_sequence := (loop_sequence s)[nat pos := e] \<rparr>) st1 \<and>
      \<not> (e \<noteq> NOTE_NOT_SET \<and> (e < 0 \<or> e \<ge> int (length (loop_store (sequencers st1 this))) \<or> loop_store (sequencers st1 this) ! nat e = None))"
    using assms(2) unfolding internal_set_loop_id_at_def st1_def Let_def by (simp split: if_splits)
  then show ?thesis
  proof (elim disjE conjE)
    assume st': "st' = upd_sequencer this (\<lambda>s. s \<lparr> loop_sequence := (loop_sequence s)[nat pos := e] \<rparr>) st1"
      and ok: "\<not> (e \<noteq> NOTE_NOT_SET \<and> (e < 0 \<or> e \<ge> int (length (loop_store (sequencers st1 this))) \<or> loop_store (sequencers st1 this) ! nat e = None))"
    show ?thesis unfolding st' by (rule studio_wf_at [OF wf]) (rule seq_wf_place [OF _ ok])
  qed (simp_all add: assms(1) wf)
qed

subsection \<open>Playing\<close>

text \<open>Playing leaves stores and sequences alone.\<close>

definition same_stores :: "studio \<Rightarrow> studio \<Rightarrow> bool" where
  "same_stores st st' \<longleftrightarrow> sequencers_top st' = sequencers_top st \<and>
     (\<forall>i. loop_store (sequencers st' i) = loop_store (sequencers st i) \<and> loop_sequence (sequencers st' i) = loop_sequence (sequencers st i))"

lemma same_stores_refl [simp]: "same_stores st st"
  by (simp add: same_stores_def)

lemma same_stores_trans: "same_stores st st1 \<Longrightarrow> same_stores st1 st2 \<Longrightarrow> same_stores st st2"
  by (simp add: same_stores_def)

lemma same_stores_wf: "same_stores st st' \<Longrightarrow> studio_wf st \<Longrightarrow> studio_wf st'"
  by (auto simp: same_stores_def studio_wf_def intro: seq_wf_same)

lemma same_stores_upd:
  "(\<And>s. loop_store (f s) = loop_store s \<and> loop_sequence (f s) = loop_sequence s) \<Longrightarrow> same_stores st (upd_sequencer this f st)"
  by (simp add: same_stores_def upd_sequencer_def)

lemma same_stores_loop [simp]: "same_stores st (upd_loop i l h st') = same_stores st st'"
  by (simp add: same_stores_def upd_loop_def)

lemma select_loop_same: "select_loop this pos tick st = Inr st' \<Longrightarrow> same_stores st st'"
  by (auto simp: select_loop_def Let_def intro!: same_stores_upd split: if_splits option.splits)

lemma play_current_same: "play_current this playing no_sound st = Inr (cs, st') \<Longrightarrow> same_stores st st'"
  by (auto simp: play_current_def split: option.splits sum.splits)

lemma process_tick_same:
  assumes "process_tick mem env scalo this playing no_sound pos tick st = Inr (cs, st')"
  shows "same_stores st st'"
proof -
  obtain cs0 p st1 ds st2 es envs where
    s: "select_loop this pos tick (upd_sequencer this (\<lambda>s. s \<lparr> sq_pad := p \<rparr>) st) = Inr st1"
    "play_current this playing no_sound st1 = Inr (ds, st2)"
    "st' = upd_sequencer this (\<lambda>s. s \<lparr> controller_envelope := envs \<rparr>) st2"
    using assms by (auto simp: process_tick_def rbind_Inr_iff split: sum.splits prod.splits)
  have "same_stores st (upd_sequencer this (\<lambda>s. s \<lparr> sq_pad := p \<rparr>) st)" by (rule same_stores_upd) simp
  moreover note select_loop_same [OF s(1)] play_current_same [OF s(2)]
  moreover have "same_stores st2 st'" unfolding s(3) by (rule same_stores_upd) simp
  ultimately show ?thesis using same_stores_trans by blast
qed

lemma fill_step_same:
  assumes "fill_step mem scalo this t no_sound b x = Inr y"
  shows "same_stores (fst (snd (snd x))) (fst (snd (snd y)))"
proof -
  obtain pos tick st s b0 where x: "x = (pos, tick, st, (s, b0))" by (cases x)
  show ?thesis
    using assms unfolding x
    by (auto simp: fill_step_def rbind_Inr_iff case_prod_beta intro: process_tick_same)
qed

lemmas fill_loop_induct = fill_loop.raw_induct [rotated 1, consumes 1, case_names step]

lemma fill_loop_same:
  assumes "fill_loop body skip_for k x = Some r" "\<forall>b x y. body b x = Inr y \<longrightarrow> same_stores (fst (snd (snd x))) (fst (snd (snd y)))"
  shows "\<forall>y. r = Inr y \<longrightarrow> same_stores (fst (snd (snd x))) (fst (snd (snd y)))"
  using assms
proof (induction rule: fill_loop_induct)
  case (step f body skip_for k x r)
  obtain pos tick st s b where x: "x = (pos, tick, st, (s, b))" by (cases x)
  show ?case
  proof (cases "fst (skip k b)")
    case False
    then show ?thesis using step.hyps by (auto simp: x)
  next
    case True
    show ?thesis
    proof (cases "body (snd (skip k b)) x")
      case (Inl e)
      then show ?thesis using step.hyps True by (auto simp: x)
    next
      case (Inr y)
      have f: "f body skip_for (skip_for (fst y)) y = Some r" using step.hyps True Inr by (simp add: x)
      show ?thesis using step.IH [OF f step.prems] step.prems Inr same_stores_trans by blast
    qed
  qed
qed

lemma fill_buffers_same:
  assumes "fill_buffers mem scalo this t n st sb = Some (Inr (pos, tick, st', sb'))"
  shows "same_stores st st'"
proof -
  obtain r where r: "fill_loop (fill_step mem scalo this t (if is_playing t then sq_mute (sequencers st this) else True)) (skip_after t) (next_tick_at t ! MIDI_D)
      (next_sequence_position t, current_tick t, st, use_buffer n sb) = Some r"
    and fin: "(case r of Inl e \<Rightarrow> Some (Inl e)
      | Inr (pos, tick, st1, sb1) \<Rightarrow> Option.bind (finish_current_buffer sb1) (\<lambda>sb2. Some (Inr (pos, tick, st1, sb2)))) =
      Some (Inr (pos, tick, st', sb') :: (sequencer_error, fill_state) result)"
    using assms by (auto simp: fill_buffers_def bind_eq_Some_conv)
  then obtain sb1 where "r = Inr (pos, tick, st', sb1)" by (auto simp: bind_eq_Some_conv split: sum.splits)
  with fill_loop_same [OF r] fill_step_same show ?thesis by simp
qed

subsection \<open>Creating and loading\<close>

lemma envelopes_store:
  "create_controller_envelopes ctrls t0 s = Inr s' \<Longrightarrow> loop_store s' = loop_store s \<and> loop_sequence s' = loop_sequence s"
  by (auto simp: create_controller_envelopes_def rbind_Inr_iff)

lemma studio_wf_new_sequencer:
  assumes "studio_wf st" "new_sequencer cfg t0 ctrls n st = Inr (this, st')"
  shows "studio_wf st'"
proof -
  obtain s where s: "create_controller_envelopes ctrls t0 (blank_sequencer n 0 (new_pad cfg)) = Inr s"
    using assms(2) by (auto simp: new_sequencer_def rbind_Inr_iff)
  obtain i st1 where p: "put_sequencer (prep_empty_loop_sequence (sequence_length st)
      (s \<lparr> loop_store := replicate MACHINE_SEQUENCER_INITIAL_SEQUENCE_LENGTH None \<rparr>)) st = (i, st1)" by fastforce
  obtain k where "internal_add_new_loop i st1 = Inr (k, st')"
    using assms(2) s p by (auto simp: new_sequencer_def rbind_Inr_iff)
  then show ?thesis using studio_wf_put [OF assms(1) seq_wf_prep p] studio_wf_add by blast
qed

lemma studio_wf_create:
  assumes "studio_wf st" "create_sequencer_for_machine cfg t0 ctrls sib n found st = Inr st'"
  shows "studio_wf st'"
  using assms studio_wf_new_sequencer
  by (fastforce simp: create_sequencer_for_machine_def rbind_Inr_iff split: if_splits)

lemma seq_wf_load_loop:
  "seq_wf s \<Longrightarrow> seq_wf (s \<lparr> loop_store := (loop_store s)[k := Some i], last_free_loop_store_position := n \<rparr>)"
  by (erule seq_wf_grow; cases "k < length (loop_store s)") (auto simp: nth_list_update)

lemma studio_wf_load_loop:
  assumes "studio_wf st" "load_loop_into this x st = Inr st'"
  shows "studio_wf st'"
proof -
  obtain i st1 where c: "create_loop st = (i, st1)" by (cases "create_loop st")
  then have "studio_wf st1" using assms(1) by (auto simp: create_loop_def)
  then have "studio_wf (upd_sequencer this (\<lambda>s. s \<lparr> loop_store := (loop_store s)[k := Some i],
      last_free_loop_store_position := max (last_free_loop_store_position s) n \<rparr>) (upd_loop i l h st1))" for k n l h
    by (intro studio_wf_upd) (simp_all add: seq_wf_load_loop)
  with assms c show ?thesis by (auto simp: load_loop_into_def Let_def split: if_splits sum.splits)
qed

lemma studio_wf_load_loops: "studio_wf st \<Longrightarrow> load_loops this xs st = Inr st' \<Longrightarrow> studio_wf st'"
  by (induction this xs st rule: load_loops.induct) (auto simp: rbind_Inr_iff dest: studio_wf_load_loop)

lemma studio_wf_load_entries: "studio_wf st \<Longrightarrow> load_entries this xs st = Inr st' \<Longrightarrow> studio_wf st'"
  by (induction this xs st rule: load_entries.induct)
    (auto simp: Let_def dest: studio_wf_set_loop split: if_splits prod.splits option.splits)

lemma studio_wf_load:
  assumes "studio_wf st" "load_sequencer level mem cfg t0 x st = Inr (this, st')"
  shows "studio_wf st'"
proof -
  define s0 where "s0 = blank_sequencer (sx_siblingmachine x) (loop_store_size_for (sx_loop x)) (load_pad_from_xml level mem (sx_pad x) (new_pad cfg))"
  have "seq_wf s0" by (simp add: s0_def seq_wf_def blank_sequencer_def)
  obtain st0 where p: "put_sequencer s0 st = (sequencers_top st, st0)" by (simp add: put_sequencer_def)
  obtain st1 st2 where l: "load_loops (sequencers_top st) (sx_loop x) st0 = Inr st1"
    "load_entries (sequencers_top st) (xml_elements (sx_sequence x) ''entry'')
       (upd_sequencer (sequencers_top st) (\<lambda>s. prep_empty_loop_sequence (sequence_length st1)
         (s \<lparr> last_free_loop_store_position := last_free_loop_store_position s + 1 \<rparr>)) st1) = Inr st2"
    "st' = upd_sequencer (sequencers_top st) (\<lambda>s. s \<lparr> controller_envelope := load_envelopes t0 (sx_envelope x) (controller_envelope s) \<rparr>) st2"
    using assms(2) p by (auto simp: load_sequencer_def s0_def rbind_Inr_iff)
  have "studio_wf st1" using studio_wf_load_loops [OF studio_wf_put [OF assms(1) \<open>seq_wf s0\<close> p] l(1)] .
  then have "studio_wf st2" using studio_wf_load_entries [OF studio_wf_upd l(2)] seq_wf_prep by blast
  then show ?thesis unfolding l(3) by (rule studio_wf_upd) (simp add: seq_wf_def)
qed

lemma studio_wf_finalize:
  "studio_wf st \<Longrightarrow> finalize_sequencers gbn t0 ms st = Inr st' \<Longrightarrow> studio_wf st'"
proof (induction gbn t0 ms st rule: finalize_sequencers.induct)
  case (2 gbn t0 this ms st)
  then obtain sib ctrls s where f: "gbn (sibling_name (sequencers st this)) = Some (sib, ctrls)"
    "create_controller_envelopes ctrls t0 (sequencers st this) = Inr s"
    "finalize_sequencers gbn t0 ms (upd_sequencer this (\<lambda>_. s) (st \<lparr> machine2sequencer := map_set sib this (machine2sequencer st) \<rparr>)) = Inr st'"
    by (auto simp: rbind_Inr_iff split: option.splits)
  have "studio_wf (upd_sequencer this (\<lambda>_. s) (st \<lparr> machine2sequencer := map_set sib this (machine2sequencer st) \<rparr>))"
    using 2(2) envelopes_store [OF f(2)] by (intro studio_wf_at) (auto intro: seq_wf_same)
  then show ?case using 2(1) [OF f(1) refl f(2) _ f(3)] by simp
qed simp

lemma studio_wf_export:
  assumes "studio_wf st" "export_pad_to_loop fuel scalo t this loop_id st = Some (Inr st')"
  shows "studio_wf st'"
proof -
  obtain i st1 where a: "(if loop_id = NOTE_NOT_SET then internal_add_new_loop this st else Inr (loop_id, st)) = Inr (i, st1)"
    using assms(2) by (auto simp: export_pad_to_loop_def split: sum.splits)
  then have wf: "studio_wf st1" using assms(1) studio_wf_add by (auto split: if_splits)
  obtain l l1 h1 p where "st' = upd_sequencer this (\<lambda>s. s \<lparr> sq_pad := p \<rparr>) (upd_loop l l1 h1 st1)"
    using assms(2) unfolding export_pad_to_loop_def a
    by (auto split: sum.split_asm option.split_asm prod.split_asm)
  then show ?thesis using wf by (auto intro!: studio_wf_upd simp: seq_wf_def)
qed

section \<open>All that can happen\<close>

definition initial_studio :: "pad_configuration \<Rightarrow> studio" where
  "initial_studio cfg = \<lparr> loop_heap = \<lparr> note_mem = (\<lambda>_. None), note_top = 0 \<rparr>, loops = (\<lambda>_. new_loop), loops_top = 0,
     sequencers = (\<lambda>_. blank_sequencer [] 0 (new_pad cfg)), sequencers_top = 0, machine_from_xml_cache = [], machine2sequencer = [],
     sequence_length = int MACHINE_SEQUENCER_INITIAL_SEQUENCE_LENGTH \<rparr>"

text \<open>\<open>editing\<close> covers every operation on the notes of a loop.\<close>

inductive studio_reach :: "studio \<Rightarrow> bool" where
  initial: "studio_reach (initial_studio cfg)"
| creating: "studio_reach st \<Longrightarrow> create_sequencer_for_machine cfg t0 ctrls sib n found st = Inr st' \<Longrightarrow> studio_reach st'"
| loading: "studio_reach st \<Longrightarrow> presetup_from_xml level mem cfg t0 x st = Inr st' \<Longrightarrow> studio_reach st'"
| finalizing: "studio_reach st \<Longrightarrow> finalize_xml_initialization gbn t0 st = Inr st' \<Longrightarrow> studio_reach st'"
| destroying: "studio_reach st \<Longrightarrow> studio_reach (delete_sequencer this st)"
| adding: "studio_reach st \<Longrightarrow> internal_add_new_loop this st = Inr (k, st') \<Longrightarrow> studio_reach st'"
| deleting: "studio_reach st \<Longrightarrow> delete_loop i (sequencers st this) = Inr s' \<Longrightarrow> studio_reach (upd_sequencer this (\<lambda>_. s') st)"
| placing: "studio_reach st \<Longrightarrow> internal_set_loop_id_at this pos e st = (r, st') \<Longrightarrow> studio_reach st'"
| editing: "studio_reach st \<Longrightarrow> studio_reach (upd_loop i l h st)"
| muting: "studio_reach st \<Longrightarrow> studio_reach (upd_sequencer this (set_mute b) st)"
| resetting: "studio_reach st \<Longrightarrow> reset_sequencer (sequencers st this) = Inr s' \<Longrightarrow> studio_reach (upd_sequencer this (\<lambda>_. s') st)"
| exporting: "studio_reach st \<Longrightarrow> export_pad_to_loop fuel scalo t this e st = Some (Inr st') \<Longrightarrow> studio_reach st'"
| playing: "studio_reach st \<Longrightarrow> fill_buffers mem scalo this t n st sb = Some (Inr (pos, tick, st', sb')) \<Longrightarrow> studio_reach st'"

lemma studio_wf_presetup: "studio_wf st \<Longrightarrow> presetup_from_xml level mem cfg t0 x st = Inr st' \<Longrightarrow> studio_wf st'"
  by (auto simp: presetup_from_xml_def rbind_Inr_iff dest: studio_wf_load)

lemma studio_wf_finalize_all:
  assumes "studio_wf st" "finalize_xml_initialization gbn t0 st = Inr st'"
  shows "studio_wf st'"
proof -
  obtain st1 where f: "finalize_sequencers gbn t0 (machine_from_xml_cache st) st = Inr st1"
    "st' = set_sequence_length (sequence_length st1) (st1 \<lparr> machine_from_xml_cache := [] \<rparr>)"
    using assms(2) by (auto simp: finalize_xml_initialization_def rbind_Inr_iff)
  show ?thesis unfolding f(2) by (rule studio_wf_set_length) (simp add: studio_wf_finalize [OF assms(1) f(1)])
qed

lemma studio_wf_delete_loop:
  "studio_wf st \<Longrightarrow> delete_loop i (sequencers st this) = Inr s' \<Longrightarrow> studio_wf (upd_sequencer this (\<lambda>_. s') st)"
  by (rule studio_wf_at) (auto intro: seq_wf_delete)

lemma studio_wf_mute: "studio_wf st \<Longrightarrow> studio_wf (upd_sequencer this (set_mute b) st)"
  by (rule studio_wf_upd) (auto simp: set_mute_def seq_wf_def)

lemma studio_wf_reset:
  "studio_wf st \<Longrightarrow> reset_sequencer (sequencers st this) = Inr s' \<Longrightarrow> studio_wf (upd_sequencer this (\<lambda>_. s') st)"
  by (rule studio_wf_at) (auto simp: reset_sequencer_def seq_wf_def split: sum.splits)

lemma studio_reach_wf: "studio_reach st \<Longrightarrow> studio_wf st"
proof (induction rule: studio_reach.induct)
  case initial
  show ?case by (simp add: studio_wf_def initial_studio_def)
next
  case loading
  show ?case by (rule studio_wf_presetup [OF loading.IH loading.hyps(2)])
next
  case finalizing
  show ?case by (rule studio_wf_finalize_all [OF finalizing.IH finalizing.hyps(2)])
next
  case destroying
  show ?case using destroying.IH by (simp add: delete_sequencer_def)
next
  case deleting
  show ?case by (rule studio_wf_delete_loop [OF deleting.IH deleting.hyps(2)])
next
  case muting
  show ?case by (rule studio_wf_mute [OF muting.IH])
next
  case resetting
  show ?case by (rule studio_wf_reset [OF resetting.IH resetting.hyps(2)])
next
  case editing
  show ?case using editing.IH by simp
next
  case creating
  show ?case by (rule studio_wf_create [OF creating.IH creating.hyps(2)])
next
  case adding
  show ?case by (rule studio_wf_add [OF adding.IH adding.hyps(2)])
next
  case placing
  show ?case by (rule studio_wf_set_loop [OF placing.IH placing.hyps(2)])
next
  case exporting
  show ?case by (rule studio_wf_export [OF exporting.IH exporting.hyps(2)])
next
  case playing
  show ?case by (rule same_stores_wf [OF fill_buffers_same [OF playing.hyps(2)] playing.IH])
qed

lemma select_loop_wf:
  assumes "seq_wf (sequencers st this)"
  shows "\<exists>st'. select_loop this pos tick st = Inr st' \<and>
    current_loop (sequencers st' this) =
      (if tick = 0 \<and> loop_at pos (sequencers st this) \<noteq> None then loop_at pos (sequencers st this) else current_loop (sequencers st this))"
  using seq_wf_entry [OF assms refl, of pos]
  by (cases "internal_get_loop_id_at pos (sequencers st this) = NOTE_NOT_SET")
    (auto simp: select_loop_def loop_at_def Let_def upd_loop_def upd_sequencer_def)

section \<open>Numbers of loops\<close>

text \<open>The numbers in use are those below the number of loops.\<close>

definition consecutive :: "sequencer \<Rightarrow> bool" where
  "consecutive s \<longleftrightarrow> 0 \<le> get_nr_of_loops s \<and> get_nr_of_loops s \<le> int (length (loop_store s)) \<and>
     (\<forall>k < length (loop_store s). loop_store s ! k \<noteq> None \<longleftrightarrow> int k < get_nr_of_loops s)"

lemma first_free:
  assumes "consecutive s"
  shows "first_slot None (loop_store s) = (if get_nr_of_loops s < int (length (loop_store s)) then Some (nat (get_nr_of_loops s)) else None)"
proof (cases "get_nr_of_loops s < int (length (loop_store s))")
  case True
  then have "first_slot None (loop_store s) = Some (nat (get_nr_of_loops s))"
    using assms [unfolded consecutive_def, THEN conjunct2, THEN conjunct2, rule_format, of "nat (get_nr_of_loops s)"] assms
    unfolding first_slot_Some consecutive_def by auto
  then show ?thesis using True by simp
next
  case False
  then have "None \<notin> set (loop_store s)" using assms by (auto simp: consecutive_def in_set_conv_nth)
  then show ?thesis using False by (simp add: first_slot_None)
qed

lemma consecutive_store:
  assumes "consecutive s" "nat (get_nr_of_loops s) = k" "k < length (loop_store s)"
  shows "consecutive (store_loop k l s)" "get_nr_of_loops (store_loop k l s) = get_nr_of_loops s + 1"
  using assms by (auto simp: consecutive_def store_loop_def get_nr_of_loops_def nth_list_update)

lemma consecutive_double:
  assumes "consecutive s" "0 < length (loop_store s)"
  shows "consecutive (double_loop_store s)" "get_nr_of_loops (double_loop_store s) = get_nr_of_loops s"
    "length (loop_store s) < length (loop_store (double_loop_store s))"
  using assms by (auto simp: consecutive_def double_loop_store_def get_nr_of_loops_def nth_append)

lemma consecutive_add:
  assumes "consecutive (sequencers st this)" "0 < length (loop_store (sequencers st this))" "internal_add_new_loop this st = Inr (k, st')"
  shows "consecutive (sequencers st' this) \<and> k = get_nr_of_loops (sequencers st this) \<and>
    get_nr_of_loops (sequencers st' this) = get_nr_of_loops (sequencers st this) + 1"
proof -
  let ?s = "sequencers st this"
  obtain l st1 where c: "create_loop st = (l, st1)" "sequencers st1 = sequencers st" by (simp add: create_loop_def)
  have nr: "0 \<le> get_nr_of_loops ?s" "get_nr_of_loops ?s \<le> int (length (loop_store ?s))" using assms(1) by (simp_all add: consecutive_def)
  show ?thesis
  proof (cases "get_nr_of_loops ?s < int (length (loop_store ?s))")
    case True
    then have "k = get_nr_of_loops ?s" "st' = upd_sequencer this (store_loop (nat (get_nr_of_loops ?s)) l) st1"
      using assms(3) c nr by (auto simp: internal_add_new_loop_def first_free [OF assms(1)] split: if_splits)
    then show ?thesis using consecutive_store [OF assms(1) refl, of l] True nr c(2) by (simp add: upd_sequencer_def)
  next
    case False
    then have full: "get_nr_of_loops ?s = int (length (loop_store ?s))" using nr by simp
    then have "k = get_nr_of_loops ?s" "st' = upd_sequencer this (store_loop (length (loop_store ?s)) l \<circ> double_loop_store) st1"
      using assms(3) c by (auto simp: internal_add_new_loop_def first_free [OF assms(1)] Let_def split: if_splits)
    then show ?thesis
      using consecutive_store [OF consecutive_double(1) [OF assms(1,2)], of "length (loop_store ?s)" l] consecutive_double(2,3) [OF assms(1,2)] full c(2)
      by (simp add: upd_sequencer_def)
  qed
qed

lemma consecutive_delete:
  assumes "consecutive s" "delete_loop i s = Inr s'" "i < get_nr_of_loops s" "get_nr_of_loops s < int (length (loop_store s))"
  shows "consecutive s'" "get_nr_of_loops s' = get_nr_of_loops s - 1"
proof -
  note d = delete_loop_Inr [OF assms(2)]
  show nr: "get_nr_of_loops s' = get_nr_of_loops s - 1" using d(5) by (simp add: get_nr_of_loops_def)
  have "loop_store s' ! k \<noteq> None \<longleftrightarrow> int k < get_nr_of_loops s'" if k: "k < length (loop_store s)" for k
    using d(4) [OF k] k assms(1,3,4) d(1) nr unfolding consecutive_def by (cases "nat i \<le> k \<and> k + 1 < length (loop_store s)") auto
  then show "consecutive s'" using assms(1,3,4) d(1,2) nr by (auto simp: consecutive_def)
qed

section \<open>Properties\<close>

text \<open>C9: however sequencers are created, loaded and destroyed, loops added, deleted, edited, placed and played, an entry of a
  sequence always names a loop: selecting the loop of a line never reads outside the store or follows a null pointer, and
  selects the loop of that line.\<close>

theorem sequence_never_dangles:
  assumes "studio_reach st" "this < sequencers_top st"
  shows "\<exists>st'. select_loop this pos tick st = Inr st' \<and>
    current_loop (sequencers st' this) =
      (if tick = 0 \<and> loop_at pos (sequencers st this) \<noteq> None then loop_at pos (sequencers st this) else current_loop (sequencers st this))"
  using studio_reach_wf [OF assms(1)] assms(2) by (intro select_loop_wf) (simp add: studio_wf_def)

definition demo_studio :: studio where
  "demo_studio = (case create_sequencer_for_machine (pad_configuration.truncate zero_memory) 0 [] 0 ''synth'' True
       (initial_studio (pad_configuration.truncate zero_memory)) of
     Inr st \<Rightarrow> snd (internal_set_loop_id_at 0 3 0 st) | Inl _ \<Rightarrow> initial_studio (pad_configuration.truncate zero_memory))"

lemma demo_created:
  "\<exists>st. create_sequencer_for_machine (pad_configuration.truncate zero_memory) 0 [] 0 ''synth'' True
       (initial_studio (pad_configuration.truncate zero_memory)) = Inr st \<and> studio_reach st"
proof -
  have "\<exists>st. create_sequencer_for_machine (pad_configuration.truncate zero_memory) 0 [] 0 ''synth'' True
       (initial_studio (pad_configuration.truncate zero_memory)) = Inr st"
    by (simp add: create_sequencer_for_machine_def new_sequencer_def create_controller_envelopes_def put_sequencer_def
        internal_add_new_loop_def create_loop_def initial_studio_def blank_sequencer_def prep_empty_loop_sequence_def Let_def
        MACHINE_SEQUENCER_INITIAL_SEQUENCE_LENGTH_def split: option.split)
  then show ?thesis using studio_reach.creating [OF studio_reach.initial] by blast
qed

lemma demo_reached: "studio_reach demo_studio"
proof -
  obtain st where st: "create_sequencer_for_machine (pad_configuration.truncate zero_memory) 0 [] 0 ''synth'' True
       (initial_studio (pad_configuration.truncate zero_memory)) = Inr st" "studio_reach st"
    using demo_created by blast
  obtain r st' where "internal_set_loop_id_at 0 3 0 st = (r, st')" by fastforce
  then show ?thesis using studio_reach.placing [OF st(2)] st(1) by (simp add: demo_studio_def)
qed

lemma demo_facts:
  "sequencers_top demo_studio = 1" "loop_sequence (sequencers demo_studio 0) = (replicate 16 (-1))[3 := 0]"
  "loop_store (sequencers demo_studio 0) = (replicate 16 None)[0 := Some 0]"
  by (simp_all add: demo_studio_def create_sequencer_for_machine_def new_sequencer_def create_controller_envelopes_def put_sequencer_def
      internal_add_new_loop_def create_loop_def initial_studio_def blank_sequencer_def prep_empty_loop_sequence_def Let_def
      MACHINE_SEQUENCER_INITIAL_SEQUENCE_LENGTH_def upd_sequencer_def store_loop_def internal_set_loop_id_at_def NOTE_NOT_SET_def numeral_eq_Suc)

theorem sequence_never_dangles_witness:
  "\<exists>st'. select_loop 0 3 0 demo_studio = Inr st' \<and> current_loop (sequencers st' 0) = Some 0"
  using sequence_never_dangles [OF demo_reached, of 0 3 0]
  by (simp add: demo_facts loop_at_def internal_get_loop_id_at_def NOTE_NOT_SET_def nth_list_update)

text \<open>C31: deleting a loop takes it out of every line and leaves every other line its loop, although the loops behind the
  deleted one get new numbers.\<close>

theorem delete_loop_keeps_lines:
  assumes "studio_reach st" "this < sequencers_top st" "delete_loop i (sequencers st this) = Inr s'"
  shows "loop_at pos s' = (if internal_get_loop_id_at pos (sequencers st this) = i then None else loop_at pos (sequencers st this))"
  using studio_reach_wf [OF assms(1)] assms(2) by (intro loop_at_delete [OF _ assms(3)]) (simp add: studio_wf_def)

theorem delete_loop_keeps_lines_witness:
  "\<exists>s'. delete_loop 0 (sequencers demo_studio 0) = Inr s' \<and> loop_at 3 s' = None"
proof -
  obtain s' where "delete_loop 0 (sequencers demo_studio 0) = Inr s'" by (simp add: delete_loop_def)
  with delete_loop_keeps_lines [OF demo_reached _ this, of 3] show ?thesis
    by (simp add: demo_facts internal_get_loop_id_at_def nth_list_update)
qed

text \<open>The numbers of the loops stay those from 0 up to the number of loops: a new loop gets the next one, and deleting a
  loop while the store has room closes the gap.\<close>

theorem loop_numbers_kept:
  assumes "consecutive (sequencers st this)" "0 < length (loop_store (sequencers st this))"
  shows "(internal_add_new_loop this st = Inr (k, st') \<longrightarrow> consecutive (sequencers st' this) \<and> k = get_nr_of_loops (sequencers st this) \<and>
      get_nr_of_loops (sequencers st' this) = get_nr_of_loops (sequencers st this) + 1) \<and>
    (delete_loop i (sequencers st this) = Inr s' \<and> i < get_nr_of_loops (sequencers st this) \<and>
      get_nr_of_loops (sequencers st this) < int (length (loop_store (sequencers st this))) \<longrightarrow>
      consecutive s' \<and> get_nr_of_loops s' = get_nr_of_loops (sequencers st this) - 1)"
  using consecutive_add [OF assms] consecutive_delete [OF assms(1)] by blast

lemma demo_consecutive: "consecutive (sequencers demo_studio 0)" "get_nr_of_loops (sequencers demo_studio 0) = 1"
proof -
  show nr: "get_nr_of_loops (sequencers demo_studio 0) = 1"
    by (simp add: get_nr_of_loops_def demo_studio_def create_sequencer_for_machine_def new_sequencer_def create_controller_envelopes_def
        put_sequencer_def internal_add_new_loop_def create_loop_def initial_studio_def blank_sequencer_def prep_empty_loop_sequence_def Let_def
        MACHINE_SEQUENCER_INITIAL_SEQUENCE_LENGTH_def upd_sequencer_def store_loop_def internal_set_loop_id_at_def NOTE_NOT_SET_def numeral_eq_Suc)
  show "consecutive (sequencers demo_studio 0)" by (auto simp: consecutive_def nr demo_facts nth_list_update)
qed

theorem loop_numbers_kept_witness:
  "\<exists>s'. delete_loop 0 (sequencers demo_studio 0) = Inr s' \<and> consecutive s' \<and> get_nr_of_loops s' = 0"
proof -
  obtain s' where "delete_loop 0 (sequencers demo_studio 0) = Inr s'" by (simp add: delete_loop_def)
  with loop_numbers_kept [OF demo_consecutive(1), of 0 demo_studio 0 s'] show ?thesis by (simp add: demo_facts demo_consecutive)
qed

text \<open>A loop deleted from a full store leaves the last number with a loop that is not counted, the same as the one
  before it; the next loop gets the number behind it, so that the count misses one and grows by two.\<close>

theorem delete_from_full_store:
  assumes "consecutive s" "get_nr_of_loops s = int (length (loop_store s))" "delete_loop i s = Inr s'" "i + 1 < get_nr_of_loops s"
    "sequencers st this = s'" "internal_add_new_loop this st = Inr (k, st')"
  shows "get_nr_of_loops s' = get_nr_of_loops s - 1 \<and> get_loop (get_nr_of_loops s') s' = get_loop (get_nr_of_loops s' - 1) s' \<and>
    (\<exists>l. get_loop (get_nr_of_loops s') s' = Inr l) \<and> k = get_nr_of_loops s' + 1 \<and> get_nr_of_loops (sequencers st' this) = get_nr_of_loops s' + 2"
proof -
  note d = delete_loop_Inr [OF assms(3)]
  let ?n = "length (loop_store s)"
  have n: "2 \<le> ?n" using assms(2,4) d(1) by simp
  have nr: "get_nr_of_loops s' = int ?n - 1" using d(5) assms(2) by (simp add: get_nr_of_loops_def)
  have some: "loop_store s ! j \<noteq> None" if "j < ?n" for j using assms(1,2) that by (simp add: consecutive_def)
  obtain m where m: "?n = Suc (Suc m)" using n by (metis Suc_le_D numeral_2_eq_2 Suc_le_mono)
  have last: "loop_store s' ! (?n - 1) = loop_store s ! (?n - 1)" using d(4) [of "?n - 1"] m by simp
  have "nat i \<le> m" using assms(2,4) d(1) m by auto
  then have prev: "loop_store s' ! (?n - 2) = loop_store s ! (?n - 1)" using d(4) [of "?n - 2"] m by simp
  have "None \<notin> set (loop_store s')"
  proof
    assume "None \<in> set (loop_store s')"
    then obtain j where "j < ?n" "loop_store s' ! j = None" by (auto simp: in_set_conv_nth d(2))
    then show False using d(4) [of j] some [of j] some [of "j + 1"] by (auto split: if_splits)
  qed
  then have "first_slot None (loop_store s') = None" by (simp add: first_slot_None)
  then have "k = int ?n" "get_nr_of_loops (sequencers st' this) = int ?n + 1"
    using assms(5,6) d(2) by (auto simp: internal_add_new_loop_def create_loop_def Let_def upd_sequencer_def store_loop_def get_nr_of_loops_def split: if_splits)
  moreover have "get_loop (int ?n - 1) s' = Inr (the (loop_store s ! (?n - 1)))" "get_loop (int ?n - 2) s' = Inr (the (loop_store s ! (?n - 1)))"
    using last prev some [of "?n - 1"] m by (auto simp: get_loop_def d(2) nat_add_distrib)
  ultimately show ?thesis using nr by (simp add: assms(2))
qed

definition full_sequencer :: sequencer where
  "full_sequencer = (blank_sequencer ''synth'' 0 (new_pad (pad_configuration.truncate zero_memory)))
     \<lparr> loop_store := map Some [0..<16], last_free_loop_store_position := 16 \<rparr>"

theorem delete_from_full_store_witness:
  "\<exists>s' k st'. delete_loop 3 full_sequencer = Inr s' \<and> get_nr_of_loops s' = 15 \<and> get_loop 15 s' = get_loop 14 s' \<and>
     internal_add_new_loop 0 (upd_sequencer 0 (\<lambda>_. s') demo_studio) = Inr (k, st') \<and> k = 16"
proof -
  obtain s' where s': "delete_loop 3 full_sequencer = Inr s'" by (simp add: delete_loop_def)
  have f: "consecutive full_sequencer" "get_nr_of_loops full_sequencer = 16" "length (loop_store full_sequencer) = 16"
    by (auto simp: consecutive_def get_nr_of_loops_def full_sequencer_def)
  have "last_free_loop_store_position s' = 15" using delete_loop_Inr(5) [OF s'] f(2) by (simp add: get_nr_of_loops_def)
  then obtain k st' where a: "internal_add_new_loop 0 (upd_sequencer 0 (\<lambda>_. s') demo_studio) = Inr (k, st')"
    by (fastforce simp: internal_add_new_loop_def create_loop_def upd_sequencer_def Let_def split: option.split)
  have "sequencers (upd_sequencer 0 (\<lambda>_. s') demo_studio) 0 = s'" by (simp add: upd_sequencer_def)
  note r = delete_from_full_store [OF f(1) _ s' _ this a]
  have "get_nr_of_loops s' = 15" using r f by simp
  with r f s' a show ?thesis by simp
qed

end
