(* ===== verification/Sequencer_Xml.thy ===== *)
theory Sequencer_Xml
  imports Sequencer_Store
begin

text \<open>
  Saving and loading a sequencer: which loops and which entries of the sequence come back, and the stores that do
  not.
\<close>

section \<open>Loading the loops\<close>

text \<open>Loops whose notes are in order and in the range of MIDI.\<close>

definition saveable :: "studio \<Rightarrow> nat \<Rightarrow> bool" where
  "saveable st l \<longleftrightarrow> (\<exists>ps. note_chain (loop_heap st) (loop_notes (loops st l)) ps \<and> sorted (map (starts (loop_heap st)) ps) \<and>
     (\<forall>q \<in> set ps. note_in_range (the (note_mem (loop_heap st) q))))"

definition stored_ids :: "nat \<Rightarrow> nat option list \<Rightarrow> nat list" where
  "stored_ids k ls = map (\<lambda>j. k + j) (filter (\<lambda>j. ls ! j \<noteq> None) [0..<length ls])"

lemma stored_ids_simps [simp]:
  "stored_ids k [] = []" "stored_ids k (None # ls) = stored_ids (Suc k) ls" "stored_ids k (Some l # ls) = k # stored_ids (Suc k) ls"
proof -
  have "filter (\<lambda>j. (x # ls) ! j \<noteq> None) (map Suc [0..<length ls]) = map Suc (filter (\<lambda>j. ls ! j \<noteq> None) [0..<length ls])" for x
    by (simp add: filter_map comp_def)
  then show "stored_ids k (None # ls) = stored_ids (Suc k) ls" "stored_ids k (Some l # ls) = k # stored_ids (Suc k) ls"
    by (simp_all add: stored_ids_def upt_conv_Cons map_Suc_upt [symmetric] del: upt_Suc)
qed (simp add: stored_ids_def)

text \<open>An element that loads as the loop with number \<open>k\<close>, into any heap.\<close>

definition loads_as :: "int \<Rightarrow> kxml \<Rightarrow> bool" where
  "loads_as k x \<longleftrightarrow> KXML_GET_NUMBER x ''id'' (-1) = k \<and> (\<forall>h. heap_ok h \<longrightarrow> (\<exists>l' h'. load_loop x h = Inr (l', h') \<and> heap_ok h'))"

lemma saved_loop_loads:
  assumes "saveable st l" "heap_ok (loop_heap st)" "get_loop_xml k (loops st l, loop_heap st) = Inr x"
  shows "loads_as k x"
proof -
  obtain ps where ps: "note_chain (loop_heap st) (loop_notes (loops st l)) ps" "sorted (map (starts (loop_heap st)) ps)"
    "\<forall>q \<in> set ps. note_in_range (the (note_mem (loop_heap st) q))"
    using assms(1) by (auto simp: saveable_def)
  have "\<exists>l' h'. KXML_GET_NUMBER x ''id'' (-1) = k \<and> load_loop x h = Inr (l', h') \<and> heap_ok h'" if "heap_ok h" for h
    using loop_saved_and_loaded [OF ps(1) assms(2) ps(2,3) that, of k] assms(3) by auto
  then show ?thesis using assms(2) unfolding loads_as_def by blast
qed

lemma get_loops_xml_loads:
  assumes "get_loops_xml k ls st = Inr xs" "heap_ok (loop_heap st)" "\<forall>l. Some l \<in> set ls \<longrightarrow> saveable st l"
  shows "list_all2 loads_as (map int (stored_ids k ls)) xs"
  using assms
proof (induction k ls st arbitrary: xs rule: get_loops_xml.induct)
  case (3 k l ls st)
  then obtain x ys where x: "get_loop_xml (int k) (loops st l, loop_heap st) = Inr x" "get_loops_xml (Suc k) ls st = Inr ys" "xs = x # ys"
    by (auto simp: rbind_Inr_iff split: sum.splits)
  have "list_all2 loads_as (map int (stored_ids (Suc k) ls)) ys" using 3 x by auto
  then show ?case using saved_loop_loads [OF _ 3(3) x(1)] 3(4) x(3) by simp
qed auto

text \<open>What loading loops leaves alone.\<close>

definition same_but_store :: "nat \<Rightarrow> studio \<Rightarrow> studio \<Rightarrow> bool" where
  "same_but_store this st st' \<longleftrightarrow> heap_ok (loop_heap st') \<and> sequence_length st' = sequence_length st \<and> machine2sequencer st' = machine2sequencer st \<and>
     (\<exists>ls n. sequencers st' = (sequencers st)(this := (sequencers st this) \<lparr> loop_store := ls, last_free_loop_store_position := n \<rparr>) \<and>
       length ls = length (loop_store (sequencers st this)))"

lemma load_loop_into_ok:
  assumes "heap_ok (loop_heap st)" "loads_as (int k) x" "k < length (loop_store (sequencers st this))"
  obtains st' i where "load_loop_into this x st = Inr st'" "same_but_store this st st'"
    "loop_store (sequencers st' this) = (loop_store (sequencers st this))[k := Some i]"
proof -
  obtain l h where l: "KXML_GET_NUMBER x ''id'' (-1) = int k" "load_loop x (loop_heap st) = Inr (l, h)" "heap_ok h"
    using assms(1,2) by (auto simp: loads_as_def)
  define st1 where "st1 = snd (create_loop st)"
  define i where "i = loops_top st"
  define st' where "st' = upd_sequencer this (\<lambda>s. s \<lparr> loop_store := (loop_store s)[k := Some i],
      last_free_loop_store_position := max (last_free_loop_store_position s) (int k) \<rparr>) (upd_loop i l h st1)"
  have st': "sequencers st' = (sequencers st)(this := (sequencers st this) \<lparr> loop_store := (loop_store (sequencers st this))[k := Some i],
      last_free_loop_store_position := max (last_free_loop_store_position (sequencers st this)) (int k) \<rparr>)"
    "loop_heap st' = h" "sequence_length st' = sequence_length st" "machine2sequencer st' = machine2sequencer st"
    by (simp_all add: st'_def st1_def upd_sequencer_def upd_loop_def create_loop_def)
  have "load_loop_into this x st = Inr st'"
    using assms(3) l by (simp add: load_loop_into_def st'_def st1_def i_def create_loop_def)
  moreover have "same_but_store this st st'"
    unfolding same_but_store_def st' using l(3)
    by (intro conjI refl exI [of _ "(loop_store (sequencers st this))[k := Some i]"]
        exI [of _ "max (last_free_loop_store_position (sequencers st this)) (int k)"]) auto
  moreover have "loop_store (sequencers st' this) = (loop_store (sequencers st this))[k := Some i]" by (simp add: st')
  ultimately show ?thesis by (rule that)
qed

lemma same_but_store_refl: "heap_ok (loop_heap st) \<Longrightarrow> same_but_store this st st"
  unfolding same_but_store_def
  by (intro conjI exI [of _ "loop_store (sequencers st this)"] exI [of _ "last_free_loop_store_position (sequencers st this)"]) simp_all

lemma same_but_store_trans:
  "same_but_store this st st1 \<Longrightarrow> same_but_store this st1 st2 \<Longrightarrow> same_but_store this st st2"
  unfolding same_but_store_def by (elim conjE exE) (auto intro!: exI)

lemma same_but_store_length:
  "same_but_store this st st' \<Longrightarrow> length (loop_store (sequencers st' this)) = length (loop_store (sequencers st this))"
  by (auto simp: same_but_store_def)

lemma load_loops_ok:
  assumes "list_all2 loads_as (map int ks) xs" "heap_ok (loop_heap st)" "\<forall>k \<in> set ks. k < length (loop_store (sequencers st this))"
  shows "\<exists>st'. load_loops this xs st = Inr st' \<and> same_but_store this st st' \<and>
    (\<forall>k < length (loop_store (sequencers st this)). loop_store (sequencers st' this) ! k \<noteq> None \<longleftrightarrow>
      k \<in> set ks \<or> loop_store (sequencers st this) ! k \<noteq> None)"
  using assms
proof (induction ks arbitrary: xs st)
  case Nil
  then show ?case by (simp add: same_but_store_refl)
next
  case (Cons k ks)
  then obtain x ys where x: "xs = x # ys" "loads_as (int k) x" "list_all2 loads_as (map int ks) ys" by (auto simp: list_all2_Cons1)
  obtain st1 i where s1: "load_loop_into this x st = Inr st1" "same_but_store this st st1"
    "loop_store (sequencers st1 this) = (loop_store (sequencers st this))[k := Some i]"
    using load_loop_into_ok [OF Cons.prems(2) x(2)] Cons.prems(3) by auto
  have "heap_ok (loop_heap st1)" using s1(2) by (simp add: same_but_store_def)
  from Cons.IH [OF x(3) this] Cons.prems(3) obtain st' where
    "load_loops this ys st1 = Inr st'" "same_but_store this st1 st'"
    "\<forall>k < length (loop_store (sequencers st this)). loop_store (sequencers st' this) ! k \<noteq> None \<longleftrightarrow>
      k \<in> set ks \<or> loop_store (sequencers st1 this) ! k \<noteq> None"
    by (auto simp: s1(3))
  moreover have "k < length (loop_store (sequencers st this))" using Cons.prems(3) by simp
  ultimately show ?case using s1 x(1) same_but_store_trans [OF s1(2)] by (auto simp: nth_list_update)
qed

lemma load_loops_outside:
  assumes "list_all2 loads_as (map int ks) xs" "heap_ok (loop_heap st)" "\<exists>k \<in> set ks. \<not> k < length (loop_store (sequencers st this))"
  shows "load_loops this xs st = Inl OutsideStore"
  using assms
proof (induction ks arbitrary: xs st)
  case (Cons k ks)
  then obtain x ys where x: "xs = x # ys" "loads_as (int k) x" "list_all2 loads_as (map int ks) ys" by (auto simp: list_all2_Cons1)
  show ?case
  proof (cases "k < length (loop_store (sequencers st this))")
    case False
    obtain l h where "KXML_GET_NUMBER x ''id'' (-1) = int k" "load_loop x (loop_heap st) = Inr (l, h)"
      using Cons.prems(2) x(2) by (auto simp: loads_as_def)
    then have "load_loop_into this x st = Inl OutsideStore" using False by (simp add: load_loop_into_def Let_def)
    then show ?thesis by (simp add: x(1))
  next
    case True
    obtain st1 i where s1: "load_loop_into this x st = Inr st1" "same_but_store this st st1"
      using load_loop_into_ok [OF Cons.prems(2) x(2) True] by metis
    have "load_loops this ys st1 = Inl OutsideStore"
      using s1(2) True Cons.prems(3) same_but_store_length [OF s1(2)]
      by (intro Cons.IH [OF x(3)]) (auto simp: same_but_store_def)
    then show ?thesis by (simp add: x(1) s1(1))
  qed
qed simp

section \<open>Loading the sequence\<close>

lemma set_length_keeps:
  "loop_store (sequencers (set_sequence_length v st) i) = loop_store (sequencers st i)"
  "sequence_length (set_sequence_length v st) = v"
  "internal_get_loop_id_at q (sequencers (set_sequence_length v st) i) = internal_get_loop_id_at q (sequencers st i)"
  "sibling_name (sequencers (set_sequence_length v st) i) = sibling_name (sequencers st i)"
proof -
  let ?keep = "\<lambda>s s'. loop_store s' = loop_store s \<and> sibling_name s' = sibling_name s \<and> (\<forall>q. internal_get_loop_id_at q s' = internal_get_loop_id_at q s)"
  have one: "?keep s (refresh_length v s)" for s
    by (auto simp: refresh_length_def internal_get_loop_id_at_def nth_append)
  have "?keep (sequencers st i) (sequencers (fold (\<lambda>(m, j). upd_sequencer j (refresh_length v)) ms st) i) \<and>
      sequence_length (fold (\<lambda>(m, j). upd_sequencer j (refresh_length v)) ms st) = sequence_length st" for ms st
  proof (induction ms arbitrary: st)
    case (Cons mj ms)
    obtain m j where "mj = (m, j)" by (cases mj)
    then show ?case using Cons [of "upd_sequencer j (refresh_length v) st"] one [of "sequencers st j"] by (auto simp: upd_sequencer_def)
  qed simp
  from this [of "machine2sequencer st" "st \<lparr> sequence_length := v \<rparr>"]
  show "loop_store (sequencers (set_sequence_length v st) i) = loop_store (sequencers st i)"
    "sequence_length (set_sequence_length v st) = v"
    "internal_get_loop_id_at q (sequencers (set_sequence_length v st) i) = internal_get_loop_id_at q (sequencers st i)"
    "sibling_name (sequencers (set_sequence_length v st) i) = sibling_name (sequencers st i)"
    by (simp_all add: set_sequence_length_def)
qed

lemma refresh_keeps:
  "loop_store (refresh_length v s) = loop_store s" "sibling_name (refresh_length v s) = sibling_name s"
  "internal_get_loop_id_at q (refresh_length v s) = internal_get_loop_id_at q s"
  "length (loop_sequence (refresh_length v s)) = max (length (loop_sequence s)) (nat v)"
  by (auto simp: refresh_length_def internal_get_loop_id_at_def nth_append)

text \<open>An entry with a loop is placed, at its position and nowhere else.\<close>

lemma place_ok:
  assumes "0 \<le> pos" "pos + 16 < 2 ^ 31" "0 \<le> e" "e < int (length (loop_store (sequencers st this)))" "loop_store (sequencers st this) ! nat e \<noteq> None"
  obtains st' where "internal_set_loop_id_at this pos e st = (None, st')"
    "loop_store (sequencers st' this) = loop_store (sequencers st this)" "sibling_name (sequencers st' this) = sibling_name (sequencers st this)"
    "\<And>q. internal_get_loop_id_at q (sequencers st' this) = (if q = pos then e else internal_get_loop_id_at q (sequencers st this))"
proof -
  define st1 where "st1 = (if \<not> pos < int (length (loop_sequence (sequencers st this))) then
      upd_sequencer this (refresh_length (sequence_length (set_sequence_length (pos + 16) st))) (set_sequence_length (pos + 16) st) else st)"
  have s1: "loop_store (sequencers st1 this) = loop_store (sequencers st this)" "sibling_name (sequencers st1 this) = sibling_name (sequencers st this)"
    "internal_get_loop_id_at q (sequencers st1 this) = internal_get_loop_id_at q (sequencers st this)" for q
    by (simp_all add: st1_def upd_sequencer_def refresh_keeps set_length_keeps)
  have len: "pos < int (length (loop_sequence (sequencers st1 this)))"
    using assms(1) by (auto simp: st1_def upd_sequencer_def refresh_keeps set_length_keeps)
  let ?st' = "upd_sequencer this (\<lambda>s. s \<lparr> loop_sequence := (loop_sequence s)[nat pos := e] \<rparr>) st1"
  have "internal_set_loop_id_at this pos e st = (None, ?st')"
  proof (cases "pos < int (length (loop_sequence (sequencers st this)))")
    case True
    then show ?thesis using assms by (simp add: internal_set_loop_id_at_def st1_def)
  next
    case False
    then show ?thesis using assms
      by (simp add: internal_set_loop_id_at_def st1_def upd_sequencer_def refresh_keeps set_length_keeps Let_def)
  qed
  moreover have "internal_get_loop_id_at q (sequencers ?st' this) = (if q = pos then e else internal_get_loop_id_at q (sequencers st this))" for q
    using len assms(1) s1(3) [of q] by (auto simp: upd_sequencer_def internal_get_loop_id_at_def nth_list_update)
  ultimately show ?thesis using s1(1,2) by (intro that [of ?st']) (simp_all add: upd_sequencer_def)
qed

lemma load_entries_ok:
  assumes "\<forall>k \<in> set ks. int k + 16 < 2 ^ 31 \<and> 0 \<le> f k \<and> f k < int (length (loop_store (sequencers st this))) \<and>
    loop_store (sequencers st this) ! nat (f k) \<noteq> None"
  shows "\<exists>st'. load_entries this (map (\<lambda>k. KXML [(''pos'', int k), (''id'', f k)] []) ks) st = Inr st' \<and>
    loop_store (sequencers st' this) = loop_store (sequencers st this) \<and> sibling_name (sequencers st' this) = sibling_name (sequencers st this) \<and>
    (\<forall>q. internal_get_loop_id_at q (sequencers st' this) =
      (if 0 \<le> q \<and> nat q \<in> set ks then f (nat q) else internal_get_loop_id_at q (sequencers st this)))"
  using assms
proof (induction ks arbitrary: st)
  case (Cons k ks)
  obtain st1 where s1: "internal_set_loop_id_at this (int k) (f k) st = (None, st1)"
    "loop_store (sequencers st1 this) = loop_store (sequencers st this)" "sibling_name (sequencers st1 this) = sibling_name (sequencers st this)"
    "\<And>q. internal_get_loop_id_at q (sequencers st1 this) = (if q = int k then f k else internal_get_loop_id_at q (sequencers st this))"
    using place_ok [of "int k" "f k" st this] Cons.prems by auto
  from Cons.IH [of st1] Cons.prems obtain st' where
    st': "load_entries this (map (\<lambda>k. KXML [(''pos'', int k), (''id'', f k)] []) ks) st1 = Inr st'"
    "loop_store (sequencers st' this) = loop_store (sequencers st1 this)" "sibling_name (sequencers st' this) = sibling_name (sequencers st1 this)"
    "\<forall>q. internal_get_loop_id_at q (sequencers st' this) =
      (if 0 \<le> q \<and> nat q \<in> set ks then f (nat q) else internal_get_loop_id_at q (sequencers st1 this))"
    by (auto simp: s1(2))
  have "f k \<noteq> -1" using Cons.prems by auto
  then have "load_entries this (map (\<lambda>k. KXML [(''pos'', int k), (''id'', f k)] []) (k # ks)) st = Inr st'"
    using st'(1) s1(1) by (simp add: KXML_GET_NUMBER_def Let_def)
  moreover have "internal_get_loop_id_at q (sequencers st' this) =
      (if 0 \<le> q \<and> nat q \<in> set (k # ks) then f (nat q) else internal_get_loop_id_at q (sequencers st this))" for q
    using st'(4) s1(4) by auto
  ultimately show ?case using st'(2,3) s1(2,3) by (intro exI [of _ st']) simp
qed simp

section \<open>Saving and loading a sequencer\<close>

definition can_be_saved :: "sequencer \<Rightarrow> studio \<Rightarrow> bool" where
  "can_be_saved s st \<longleftrightarrow> seq_wf s \<and> heap_ok (loop_heap st) \<and> (\<forall>l. Some l \<in> set (loop_store s) \<longrightarrow> saveable st l) \<and>
     int (length (loop_sequence s)) + 16 \<le> 2 ^ 31"

lemma stored_ids_0: "set (stored_ids 0 ls) = {k. k < length ls \<and> ls ! k \<noteq> None}"
  by (auto simp: stored_ids_def)

lemma get_descriptive_xml_Inr:
  assumes "get_descriptive_xml s st = Inr x" "can_be_saved s st"
  shows "list_all2 loads_as (map int (stored_ids 0 (loop_store s))) (sx_loop x)" "sx_sequence x = get_loop_sequence_xml s"
    "sx_siblingmachine x = sibling_name s"
  using assms get_loops_xml_loads [of 0 "loop_store s" st]
  by (cases "get_pad_xml (sq_pad s)"; auto simp: get_descriptive_xml_def can_be_saved_def rbind_Inr_iff split: if_splits)+

lemma max_loop_id_loads: "list_all2 loads_as ks xs \<Longrightarrow> max_loop_id xs = Max (insert (-1) (set ks))"
proof -
  have "list_all2 loads_as ks xs \<Longrightarrow>
      fold (\<lambda>x m. if KXML_GET_NUMBER x ''id'' (-1) > m then KXML_GET_NUMBER x ''id'' (-1) else m) xs m = Max (insert m (set ks))" for m
  proof (induction ks xs arbitrary: m rule: list_all2_induct)
    case (Cons k ks x xs)
    have "KXML_GET_NUMBER x ''id'' (-1) = k" using Cons(1) by (simp add: loads_as_def)
    moreover have "Max (insert (max k m) (set ks)) = Max (insert m (set (k # ks)))"
      by (cases "ks = []") (simp_all add: max.assoc max.left_commute max.commute)
    ultimately show ?case using Cons(3) [of "max k m"] by (auto simp: max_def)
  qed simp
  then show "list_all2 loads_as ks xs \<Longrightarrow> max_loop_id xs = Max (insert (-1) (set ks))" by (simp add: max_loop_id_def)
qed

lemma sequence_elements:
  "xml_elements (get_loop_sequence_xml s) ''entry'' =
     map (\<lambda>k. KXML [(''pos'', int k), (''id'', internal_get_loop_id_at (int k) s)] [])
       (filter (\<lambda>k. internal_get_loop_id_at (int k) s \<noteq> NOTE_NOT_SET) [0..<length (loop_sequence s)])"
  by (simp add: xml_elements_def get_loop_sequence_xml_def filter_map comp_def)

lemma load_sequencer_start:
  "load_sequencer level mem cfg t0 x st =
     (let this = sequencers_top st;
          st0 = snd (put_sequencer (blank_sequencer (sx_siblingmachine x) (loop_store_size_for (sx_loop x))
             (load_pad_from_xml level mem (sx_pad x) (new_pad cfg))) st)
      in rbind (load_loops this (sx_loop x) st0) (\<lambda>st1.
          rbind (load_entries this (xml_elements (sx_sequence x) ''entry'')
              (upd_sequencer this (\<lambda>s. prep_empty_loop_sequence (sequence_length st1)
                (s \<lparr> last_free_loop_store_position := last_free_loop_store_position s + 1 \<rparr>)) st1)) (\<lambda>st2.
            Inr (this, upd_sequencer this (\<lambda>s. s \<lparr> controller_envelope := load_envelopes t0 (sx_envelope x) (controller_envelope s) \<rparr>) st2))))"
  by (simp add: load_sequencer_def put_sequencer_def Let_def)

lemma put_blank:
  assumes "st0 = snd (put_sequencer (blank_sequencer sib n p) st)"
  shows "loop_store (sequencers st0 (sequencers_top st)) = replicate n None" "loop_heap st0 = loop_heap st"
    "sibling_name (sequencers st0 (sequencers_top st)) = sib"
  using assms by (simp_all add: put_sequencer_def blank_sequencer_def)

lemma empty_sequence: "internal_get_loop_id_at q (prep_empty_loop_sequence len s) = NOTE_NOT_SET"
  by (simp add: internal_get_loop_id_at_def prep_empty_loop_sequence_def)

lemma with_envelopes: "internal_get_loop_id_at q (s \<lparr> controller_envelope := m \<rparr>) = internal_get_loop_id_at q s"
  by (simp add: internal_get_loop_id_at_def)

lemma load_saved:
  assumes "get_descriptive_xml s st = Inr x" "can_be_saved s st" "heap_ok (loop_heap st2)"
    "\<forall>k < length (loop_store s). loop_store s ! k \<noteq> None \<longrightarrow> k < loop_store_size_for (sx_loop x)"
  shows "\<exists>st'. load_sequencer level mem cfg t0 x st2 = Inr (sequencers_top st2, st') \<and>
    (\<forall>q. internal_get_loop_id_at q (sequencers st' (sequencers_top st2)) = internal_get_loop_id_at q s) \<and>
    (\<forall>k < loop_store_size_for (sx_loop x). loop_store (sequencers st' (sequencers_top st2)) ! k \<noteq> None \<longleftrightarrow>
      k < length (loop_store s) \<and> loop_store s ! k \<noteq> None) \<and>
    length (loop_store (sequencers st' (sequencers_top st2))) = loop_store_size_for (sx_loop x) \<and>
    sibling_name (sequencers st' (sequencers_top st2)) = sibling_name s"
proof -
  let ?me = "sequencers_top st2" and ?n = "loop_store_size_for (sx_loop x)"
  note x = get_descriptive_xml_Inr [OF assms(1,2)]
  define st0 where "st0 = snd (put_sequencer (blank_sequencer (sx_siblingmachine x) ?n (load_pad_from_xml level mem (sx_pad x) (new_pad cfg))) st2)"
  note b = put_blank [OF st0_def]
  have h0: "heap_ok (loop_heap st0)" using assms(3) b(2) by simp
  have bound: "\<forall>k \<in> set (stored_ids 0 (loop_store s)). k < length (loop_store (sequencers st0 ?me))"
    using assms(4) unfolding stored_ids_0 b(1) by simp
  obtain st1 where st1: "load_loops ?me (sx_loop x) st0 = Inr st1" "same_but_store ?me st0 st1"
    "\<forall>k < ?n. loop_store (sequencers st1 ?me) ! k \<noteq> None \<longleftrightarrow> k < length (loop_store s) \<and> loop_store s ! k \<noteq> None"
    using load_loops_ok [OF x(1) h0 bound] unfolding stored_ids_0 b(1) by auto
  have len1: "length (loop_store (sequencers st1 ?me)) = ?n" using same_but_store_length [OF st1(2)] b(1) by simp
  have sib1: "sibling_name (sequencers st1 ?me) = sibling_name s" using st1(2) b(3) x(3) by (auto simp: same_but_store_def)
  define st1' where "st1' = upd_sequencer ?me (\<lambda>s. prep_empty_loop_sequence (sequence_length st1)
      (s \<lparr> last_free_loop_store_position := last_free_loop_store_position s + 1 \<rparr>)) st1"
  have st1': "loop_store (sequencers st1' ?me) = loop_store (sequencers st1 ?me)" "sibling_name (sequencers st1' ?me) = sibling_name s"
    "internal_get_loop_id_at q (sequencers st1' ?me) = NOTE_NOT_SET" for q
    using sib1 by (simp_all add: st1'_def upd_sequencer_def empty_sequence) (simp_all add: prep_empty_loop_sequence_def)
  let ?ks = "filter (\<lambda>k. internal_get_loop_id_at (int k) s \<noteq> NOTE_NOT_SET) [0..<length (loop_sequence s)]"
  have ent: "\<forall>k \<in> set ?ks. int k + 16 < 2 ^ 31 \<and> 0 \<le> internal_get_loop_id_at (int k) s \<and>
      internal_get_loop_id_at (int k) s < int (length (loop_store (sequencers st1' ?me))) \<and>
      loop_store (sequencers st1' ?me) ! nat (internal_get_loop_id_at (int k) s) \<noteq> None"
  proof
    fix k
    assume k: "k \<in> set ?ks"
    let ?e = "internal_get_loop_id_at (int k) s"
    have wf: "seq_wf s" using assms(2) by (simp add: can_be_saved_def)
    have e: "0 \<le> ?e" "nat ?e < length (loop_store s)" "loop_store s ! nat ?e \<noteq> None"
      using seq_wf_entry [OF wf refl, of "int k"] k by auto
    then have "nat ?e < ?n" using assms(4) by blast
    then show "int k + 16 < 2 ^ 31 \<and> 0 \<le> ?e \<and> ?e < int (length (loop_store (sequencers st1' ?me))) \<and>
        loop_store (sequencers st1' ?me) ! nat ?e \<noteq> None"
      using e st1(3) k assms(2) by (auto simp: st1'(1) len1 can_be_saved_def)
  qed
  from load_entries_ok [OF ent] obtain st3 where
    st3: "load_entries ?me (xml_elements (sx_sequence x) ''entry'') st1' = Inr st3"
    "loop_store (sequencers st3 ?me) = loop_store (sequencers st1' ?me)" "sibling_name (sequencers st3 ?me) = sibling_name (sequencers st1' ?me)"
    "\<forall>q. internal_get_loop_id_at q (sequencers st3 ?me) =
      (if 0 \<le> q \<and> nat q \<in> set ?ks then internal_get_loop_id_at (int (nat q)) s else internal_get_loop_id_at q (sequencers st1' ?me))"
    unfolding x(2) sequence_elements by blast
  have ids: "internal_get_loop_id_at q (sequencers st3 ?me) = internal_get_loop_id_at q s" for q
  proof (cases "0 \<le> q \<and> nat q \<in> set ?ks")
    case False
    then have "internal_get_loop_id_at q s = NOTE_NOT_SET" by (auto simp: internal_get_loop_id_at_def)
    then show ?thesis using st3(4) [rule_format, of q] False st1'(3) by presburger
  qed (use st3(4) [rule_format, of q] in auto)
  define st' where "st' = upd_sequencer ?me (\<lambda>s. s \<lparr> controller_envelope := load_envelopes t0 (sx_envelope x) (controller_envelope s) \<rparr>) st3"
  have "load_sequencer level mem cfg t0 x st2 = Inr (?me, st')"
    using st1(1) st3(1) by (simp add: load_sequencer_start Let_def st'_def flip: st0_def st1'_def)
  moreover have "internal_get_loop_id_at q (sequencers st' ?me) = internal_get_loop_id_at q s"
    "loop_store (sequencers st' ?me) = loop_store (sequencers st1 ?me)" "sibling_name (sequencers st' ?me) = sibling_name s" for q
    using ids [of q] st3(2,3) st1'(1,2) by (simp_all add: st'_def upd_sequencer_def with_envelopes)
  ultimately show ?thesis using st1(3) len1 by simp
qed

lemma stored_max:
  assumes "get_descriptive_xml s st = Inr x" "can_be_saved s st"
  shows "max_loop_id (sx_loop x) = Max (insert (-1) {int k |k. k < length (loop_store s) \<and> loop_store s ! k \<noteq> None})"
proof -
  have "int ` set (stored_ids 0 (loop_store s)) = {int k |k. k < length (loop_store s) \<and> loop_store s ! k \<noteq> None}"
    by (auto simp: stored_ids_0)
  then show ?thesis using max_loop_id_loads [OF get_descriptive_xml_Inr(1) [OF assms]] by simp
qed

lemma small_store_size:
  assumes "get_descriptive_xml s st = Inr x" "can_be_saved s st" "\<forall>k < length (loop_store s). loop_store s ! k \<noteq> None \<longrightarrow> k < 16"
  shows "loop_store_size_for (sx_loop x) = 16"
proof -
  have "max_loop_id (sx_loop x) < 16"
    unfolding stored_max [OF assms(1,2)] using assms(3) by (subst Max_less_iff) auto
  then show ?thesis by (simp add: loop_store_size_for_def MACHINE_SEQUENCER_INITIAL_SEQUENCE_LENGTH_def)
qed

lemma large_store_size:
  assumes "get_descriptive_xml s st = Inr x" "can_be_saved s st" "k < length (loop_store s)" "loop_store s ! k \<noteq> None" "16 \<le> k"
  shows "\<exists>j < length (loop_store s). loop_store s ! j \<noteq> None \<and> j = loop_store_size_for (sx_loop x)"
proof -
  let ?S = "insert (-1) {int k |k. k < length (loop_store s) \<and> loop_store s ! k \<noteq> None}"
  have fin: "finite ?S" by simp
  have "int k \<le> Max ?S" by (rule Max_ge [OF fin]) (use assms(3,4) in auto)
  moreover have "Max ?S \<in> ?S" by (rule Max_in [OF fin]) simp
  ultimately obtain j where j: "Max ?S = int j" "j < length (loop_store s)" "loop_store s ! j \<noteq> None" "16 \<le> j" using assms(5) by auto
  then show ?thesis
    using stored_max [OF assms(1,2)] by (intro exI [of _ j]) (simp add: loop_store_size_for_def MACHINE_SEQUENCER_INITIAL_SEQUENCE_LENGTH_def)
qed

section \<open>Properties\<close>

text \<open>C29: a sequencer whose loops have the numbers 0 to 15 is loaded as it was saved: the loop numbers of all lines, which
  numbers have a loop, and the name of its sibling.\<close>

theorem sequencer_xml_round_trip:
  assumes "get_descriptive_xml s st = Inr x" "can_be_saved s st" "heap_ok (loop_heap st2)"
    "\<forall>k < length (loop_store s). loop_store s ! k \<noteq> None \<longrightarrow> k < 16"
  shows "\<exists>this st'. load_sequencer level mem cfg t0 x st2 = Inr (this, st') \<and>
    (\<forall>q. internal_get_loop_id_at q (sequencers st' this) = internal_get_loop_id_at q s) \<and>
    (\<forall>k < 16. loop_store (sequencers st' this) ! k \<noteq> None \<longleftrightarrow> k < length (loop_store s) \<and> loop_store s ! k \<noteq> None) \<and>
    sibling_name (sequencers st' this) = sibling_name s"
  using load_saved [OF assms(1-3), of level mem cfg t0] assms(4) unfolding small_store_size [OF assms(1,2,4)] by blast

lemma new_loop_saveable: "loop_notes (loops st l) = None \<Longrightarrow> saveable st l"
  unfolding saveable_def by (intro exI [of _ "[]"]) (simp add: note_chain_def)

lemma demo_loops: "loop_notes (loops demo_studio l) = None" "heap_ok (loop_heap demo_studio)"
  "sq_pad (sequencers demo_studio 0) = new_pad (pad_configuration.truncate zero_memory)" "sibling_name (sequencers demo_studio 0) = ''synth''"
  "controller_envelope (sequencers demo_studio 0) = []"
  by (simp_all add: demo_studio_def create_sequencer_for_machine_def new_sequencer_def create_controller_envelopes_def
      put_sequencer_def internal_add_new_loop_def create_loop_def initial_studio_def blank_sequencer_def prep_empty_loop_sequence_def Let_def
      MACHINE_SEQUENCER_INITIAL_SEQUENCE_LENGTH_def upd_sequencer_def store_loop_def internal_set_loop_id_at_def NOTE_NOT_SET_def
      numeral_eq_Suc heap_ok_def new_loop_def)

lemma demo_saved: "\<exists>xs. get_loops_xml k ls demo_studio = Inr xs"
  by (induction k ls demo_studio rule: get_loops_xml.induct) (auto simp: get_loop_xml_def demo_loops rbind_Inr_iff)

theorem sequencer_xml_round_trip_witness:
  "\<exists>x this st'. get_descriptive_xml (sequencers demo_studio 0) demo_studio = Inr x \<and>
     load_sequencer 6 zero_memory (pad_configuration.truncate zero_memory) 0 x demo_studio = Inr (this, st') \<and>
     internal_get_loop_id_at 3 (sequencers st' this) = 0"
proof -
  let ?s = "sequencers demo_studio 0"
  obtain xs where "get_loops_xml 0 (loop_store ?s) demo_studio = Inr xs" using demo_saved by blast
  then obtain x where x: "get_descriptive_xml ?s demo_studio = Inr x"
    by (simp add: get_descriptive_xml_def demo_loops get_pad_xml_def new_pad_def)
  have c: "can_be_saved ?s demo_studio"
    using studio_reach_wf [OF demo_reached] by (simp add: can_be_saved_def studio_wf_def demo_facts demo_loops new_loop_saveable)
  have "\<forall>k < length (loop_store ?s). loop_store ?s ! k \<noteq> None \<longrightarrow> k < 16" by (simp add: demo_facts)
  note r = sequencer_xml_round_trip [OF x c demo_loops(2) this, of 6 zero_memory "pad_configuration.truncate zero_memory" 0]
  have "internal_get_loop_id_at 3 ?s = 0" by (simp add: demo_facts internal_get_loop_id_at_def nth_list_update)
  with r x show ?thesis by metis
qed

text \<open>C40: a sequencer with a loop of number 16 or above is saved, and loading it writes outside the store.\<close>

theorem large_store_not_loaded:
  assumes "get_descriptive_xml s st = Inr x" "can_be_saved s st" "heap_ok (loop_heap st2)"
    "k < length (loop_store s)" "loop_store s ! k \<noteq> None" "16 \<le> k"
  shows "load_sequencer level mem cfg t0 x st2 = Inl OutsideStore"
proof -
  define st0 where "st0 = snd (put_sequencer (blank_sequencer (sx_siblingmachine x) (loop_store_size_for (sx_loop x))
    (load_pad_from_xml level mem (sx_pad x) (new_pad cfg))) st2)"
  note b = put_blank [OF st0_def]
  have "\<exists>j \<in> set (stored_ids 0 (loop_store s)). \<not> j < length (loop_store (sequencers st0 (sequencers_top st2)))"
    using large_store_size [OF assms(1,2,4-6)] unfolding stored_ids_0 b(1) by auto
  from load_loops_outside [OF get_descriptive_xml_Inr(1) [OF assms(1,2)] _ this] assms(3) b(2)
  show ?thesis by (simp add: load_sequencer_start Let_def flip: st0_def)
qed

definition large_sequencer :: sequencer where
  "large_sequencer = (blank_sequencer ''synth'' 0 (new_pad (pad_configuration.truncate zero_memory))) \<lparr> loop_store := map Some [0..<17] \<rparr>"

theorem large_store_not_loaded_witness:
  "\<exists>x. get_descriptive_xml large_sequencer demo_studio = Inr x \<and>
     load_sequencer 6 zero_memory (pad_configuration.truncate zero_memory) 0 x demo_studio = Inl OutsideStore"
proof -
  obtain xs where "get_loops_xml 0 (loop_store large_sequencer) demo_studio = Inr xs" using demo_saved by blast
  then obtain x where x: "get_descriptive_xml large_sequencer demo_studio = Inr x"
    by (simp add: get_descriptive_xml_def large_sequencer_def blank_sequencer_def get_pad_xml_def new_pad_def)
  have c: "can_be_saved large_sequencer demo_studio"
    by (simp add: can_be_saved_def seq_wf_def large_sequencer_def blank_sequencer_def demo_loops new_loop_saveable)
  have "16 < length (loop_store large_sequencer)" "loop_store large_sequencer ! 16 \<noteq> None" by (simp_all add: large_sequencer_def)
  from large_store_not_loaded [OF x c demo_loops(2) this] x show ?thesis by simp
qed

end
