(* ===== verification/Midi_Export.thy ===== *)
theory Midi_Export
  imports VK_Prelude
begin

text \<open>
  The writer of standard MIDI files of midi_export.cc. A chunk owns a block of memory that
  \<open>verify_fit\<close> enlarges; a store outside the block is \<open>None\<close>. The bytes that \<open>finalize\<close> writes
  are its result; the file system is not modelled, and opening and writing succeed.
\<close>

record chunk =
  finalized :: bool
  was_dropped :: bool
  chunk_data :: "8 word list"
  current_offset :: nat

abbreviation allocated_length :: "chunk \<Rightarrow> nat" where
  "allocated_length c \<equiv> length (chunk_data c)"

section \<open>Operations\<close>

definition new_chunk :: "8 word list \<Rightarrow> chunk" where
  "new_chunk header =
     \<lparr> finalized = False, was_dropped = False,
        chunk_data = take 4 header @ replicate (128 - length (take 4 header)) 0, current_offset = 8 \<rparr>"

definition drop_chunk :: "chunk \<Rightarrow> chunk" where
  "drop_chunk c = c \<lparr> was_dropped := True \<rparr>"

text \<open>\<open>realloc\<close> keeps the old contents; the new half is unspecified, here zero.\<close>

definition verify_fit :: "nat \<Rightarrow> chunk \<Rightarrow> chunk" where
  "verify_fit len c =
     (if current_offset c + len \<ge> allocated_length c
      then c \<lparr> chunk_data := chunk_data c @ replicate (allocated_length c) 0 \<rparr>
      else c)"

definition store_byte :: "8 word \<Rightarrow> chunk \<Rightarrow> chunk option" where
  "store_byte w c =
     (if current_offset c < allocated_length c
      then Some (c \<lparr> chunk_data := (chunk_data c)[current_offset c := w],
                     current_offset := current_offset c + 1 \<rparr>)
      else None)"

fun store_bytes :: "8 word list \<Rightarrow> chunk \<Rightarrow> chunk option" where
  "store_bytes [] c = Some c"
| "store_bytes (w # ws) c = Option.bind (store_byte w c) (store_bytes ws)"

definition push_u8b_word :: "8 word \<Rightarrow> chunk \<Rightarrow> chunk option" where
  "push_u8b_word w c = store_byte w (verify_fit 1 c)"

definition u16b_bytes :: "16 word \<Rightarrow> 8 word list" where
  "u16b_bytes w = [ucast (drop_bit 8 (w AND 0xff00)), ucast (w AND 0x00ff)]"

definition push_u16b_word :: "16 word \<Rightarrow> chunk \<Rightarrow> chunk option" where
  "push_u16b_word w c = store_bytes (u16b_bytes w) (verify_fit 2 c)"

definition u32b_bytes :: "32 word \<Rightarrow> 8 word list" where
  "u32b_bytes w =
     [ucast (drop_bit 24 (w AND 0xff000000)), ucast (drop_bit 16 (w AND 0x00ff0000)),
      ucast (drop_bit 8 (w AND 0x0000ff00)), ucast (w AND 0x000000ff)]"

definition push_u32b_word :: "32 word \<Rightarrow> chunk \<Rightarrow> chunk option" where
  "push_u32b_word w c = store_bytes (u32b_bytes w) (verify_fit 4 c)"

text \<open>The bytes of a variable length word, block by block as the code computes them; the masks are
  the ones in the source.\<close>

definition var_len_bytes :: "32 word \<Rightarrow> 8 word list" where
  "var_len_bytes word0 =
     (let word = word0 AND 0x0fffffff;
          c1 = (word AND 0x0fc00000 \<noteq> 0);
          r1 = (if c1 then drop_bit 24 (0x80000000 OR push_bit 3 (0x0fe00000 AND word)) else 0);
          c2 = (c1 \<or> word AND 0x001fc000 \<noteq> 0);
          r2 = (if c2 then drop_bit 16 (r1 OR 0x00800000 OR push_bit 2 (0x001fc0000 AND word)) else r1);
          c3 = (c2 \<or> word AND 0x00003f80 \<noteq> 0);
          r3 = (if c3 then drop_bit 8 (r2 OR 0x00008000 OR push_bit 1 (0x3f80 AND word)) else r2)
      in (if c1 then [ucast (r1 AND 0xff)] else []) @
         (if c2 then [ucast (r2 AND 0xff)] else []) @
         (if c3 then [ucast (r3 AND 0xff)] else []) @
         [ucast (word AND 0x0000007f)])"

definition push_u32b_word_var_len :: "32 word \<Rightarrow> chunk \<Rightarrow> chunk option" where
  "push_u32b_word_var_len w c = store_bytes (var_len_bytes w) (verify_fit 4 c)"

fun push_chars :: "string \<Rightarrow> chunk \<Rightarrow> chunk option" where
  "push_chars [] c = Some c"
| "push_chars (x # xs) c = Option.bind (push_u8b_word (word_of_nat (of_char x)) c) (push_chars xs)"

definition push_string :: "string \<Rightarrow> chunk \<Rightarrow> chunk option" where
  "push_string str c =
     (let tn = takeWhile (\<lambda>x. x \<noteq> CHR 0x00) str in
      Option.bind (push_u32b_word_var_len (word_of_nat (length tn)) c) (push_chars tn))"

definition finalize :: "chunk \<Rightarrow> 8 word list \<times> chunk" where
  "finalize c =
     (let final_size = current_offset c - 8; sz = u32b_bytes (word_of_nat final_size) in
      if was_dropped c \<or> final_size = 0 then ([], c \<lparr> finalized := True \<rparr>)
      else let d = (chunk_data c)[4 := sz ! 0, 5 := sz ! 1, 6 := sz ! 2, 7 := sz ! 3] in
        (take (current_offset c) d, c \<lparr> finalized := True, chunk_data := d \<rparr>))"

record midi_file =
  contained :: "chunk list"
  was_finalized :: bool

definition append_new_chunk :: "8 word list \<Rightarrow> midi_file \<Rightarrow> midi_file" where
  "append_new_chunk header f = f \<lparr> contained := contained f @ [new_chunk header] \<rparr>"

definition finalize_file :: "midi_file \<Rightarrow> (string, 8 word list \<times> midi_file) result" where
  "finalize_file f =
     (if was_finalized f then Inl ''MidiExport file was already finalized once!''
      else Inr (concat (map (fst \<circ> finalize) (contained f)),
                f \<lparr> was_finalized := True, contained := map (snd \<circ> finalize) (contained f) \<rparr>))"

section \<open>Stores stay inside the block\<close>

definition chunk_inv :: "chunk \<Rightarrow> bool" where
  "chunk_inv c \<longleftrightarrow> 128 \<le> allocated_length c \<and> 8 \<le> current_offset c \<and> current_offset c < allocated_length c"

definition content :: "chunk \<Rightarrow> 8 word list" where
  "content c = drop 8 (take (current_offset c) (chunk_data c))"

definition chunk_id :: "chunk \<Rightarrow> 8 word list" where
  "chunk_id c = take 4 (chunk_data c)"

text \<open>What a push does: the bytes are appended, everything else stays.\<close>

definition pushed :: "chunk \<Rightarrow> 8 word list \<Rightarrow> chunk \<Rightarrow> bool" where
  "pushed c ws c' \<longleftrightarrow> content c' = content c @ ws \<and> current_offset c' = current_offset c + length ws \<and>
     chunk_id c' = chunk_id c \<and> was_dropped c' = was_dropped c \<and> allocated_length c \<le> allocated_length c'"

lemma pushed_trans: "pushed c xs c' \<Longrightarrow> pushed c' ys c'' \<Longrightarrow> pushed c (xs @ ys) c''"
  by (simp add: pushed_def)

lemma new_chunk_inv: "chunk_inv (new_chunk h)" "content (new_chunk h) = []"
  by (simp_all add: chunk_inv_def new_chunk_def content_def)

lemma verify_fit_ok:
  assumes "chunk_inv c" "n \<le> 4"
  shows "chunk_inv (verify_fit n c)" "pushed c [] (verify_fit n c)"
    "current_offset (verify_fit n c) + n < allocated_length (verify_fit n c)"
  using assms by (auto simp: verify_fit_def chunk_inv_def pushed_def content_def chunk_id_def)

lemma store_byte_ok:
  assumes "8 \<le> current_offset c" "current_offset c < allocated_length c"
  shows "\<exists>c'. store_byte w c = Some c' \<and> pushed c [w] c' \<and> allocated_length c' = allocated_length c"
proof -
  let ?c = "c \<lparr> chunk_data := (chunk_data c)[current_offset c := w], current_offset := current_offset c + 1 \<rparr>"
  have "take (Suc (current_offset c)) ((chunk_data c)[current_offset c := w]) = take (current_offset c) (chunk_data c) @ [w]"
    using assms(2) by (simp add: take_Suc_conv_app_nth)
  moreover have "take 4 ((chunk_data c)[current_offset c := w]) = take 4 (chunk_data c)"
    using assms(1) by simp
  ultimately have "pushed c [w] ?c"
    using assms by (simp add: pushed_def content_def chunk_id_def)
  with assms show ?thesis by (simp add: store_byte_def)
qed

lemma store_bytes_ok:
  assumes "8 \<le> current_offset c" "current_offset c + length ws < allocated_length c"
  shows "\<exists>c'. store_bytes ws c = Some c' \<and> pushed c ws c' \<and> allocated_length c' = allocated_length c"
  using assms
proof (induction ws arbitrary: c)
  case Nil
  then show ?case by (simp add: pushed_def)
next
  case (Cons w ws)
  obtain c1 where c1: "store_byte w c = Some c1" "pushed c [w] c1" "allocated_length c1 = allocated_length c"
    using store_byte_ok [of c w] Cons.prems by auto
  then have "8 \<le> current_offset c1" "current_offset c1 + length ws < allocated_length c1"
    using Cons.prems by (auto simp: pushed_def)
  from Cons.IH [OF this] c1 pushed_trans [OF c1(2)] show ?case by fastforce
qed

lemma push_bytes_ok:
  assumes "chunk_inv c" "length ws \<le> n" "n \<le> 4"
  shows "\<exists>c'. store_bytes ws (verify_fit n c) = Some c' \<and> pushed c ws c' \<and> chunk_inv c'"
proof -
  note v = verify_fit_ok [OF assms(1,3)]
  obtain c' where c': "store_bytes ws (verify_fit n c) = Some c'" "pushed (verify_fit n c) ws c'"
    "allocated_length c' = allocated_length (verify_fit n c)"
    using store_bytes_ok [of "verify_fit n c" ws] v assms(2) by (auto simp: chunk_inv_def)
  have "pushed c ([] @ ws) c'" using v(2) c'(2) by (rule pushed_trans)
  moreover have "chunk_inv c'"
    using v c' assms(2) by (auto simp: chunk_inv_def pushed_def)
  ultimately show ?thesis using c'(1) by auto
qed

lemma length_var_len_bytes: "length (var_len_bytes w) \<le> 4"
  by (simp add: var_len_bytes_def Let_def)

lemma push_u8b_word_ok:
  "chunk_inv c \<Longrightarrow> \<exists>c'. push_u8b_word w c = Some c' \<and> pushed c [w] c' \<and> chunk_inv c'"
  using push_bytes_ok [of c "[w]" 1] by (simp add: push_u8b_word_def split: bind_splits)

lemma push_chars_ok:
  "chunk_inv c \<Longrightarrow> \<exists>c'. push_chars xs c = Some c' \<and>
     pushed c (map (\<lambda>x. word_of_nat (of_char x)) xs) c' \<and> chunk_inv c'"
proof (induction xs arbitrary: c)
  case Nil
  then show ?case by (simp add: pushed_def)
next
  case (Cons x xs)
  obtain c1 where c1: "push_u8b_word (word_of_nat (of_char x)) c = Some c1" "pushed c [word_of_nat (of_char x)] c1" "chunk_inv c1"
    using push_u8b_word_ok [OF Cons.prems] by blast
  from Cons.IH [OF c1(3)] c1 pushed_trans [OF c1(2)] show ?case by fastforce
qed

section \<open>Variable length words\<close>

text \<open>The reading the MIDI file format gives such a field.\<close>

fun vlq_decode :: "nat \<Rightarrow> 8 word list \<Rightarrow> nat" where
  "vlq_decode acc [] = acc"
| "vlq_decode acc (b # bs) =
     (if 128 \<le> unat b then vlq_decode (acc * 128 + (unat b - 128)) bs else acc * 128 + unat b)"

lemma var_len_masks:
  "(0x0fffffff :: 32 word) = mask 28" "(0x0fc00000 :: 32 word) = push_bit 22 (mask 6)"
  "(0x001fc000 :: 32 word) = push_bit 14 (mask 7)" "(0x001fc0000 :: 32 word) = push_bit 18 (mask 7)"
  "(0x00003f80 :: 32 word) = push_bit 7 (mask 7)" "(0x0000007f :: 32 word) = mask 7"
  "(0x00800000 :: 32 word) = push_bit 23 1" "(0x00008000 :: 32 word) = push_bit 15 1"
  "(0xff :: 32 word) = mask 8" "(0x80 :: 8 word) = push_bit 7 1"
  by (simp_all add: mask_eq_exp_minus_1)

lemma small_word_bits: "unat (w :: 32 word) < 2 ^ k \<Longrightarrow> k \<le> n \<Longrightarrow> \<not> bit w n"
proof -
  assume "unat w < 2 ^ k" "k \<le> n"
  then have "unat w < 2 ^ n" by (meson less_le_trans one_le_numeral power_increasing)
  then have "\<not> bit (unat w) n" by (simp add: bit_iff_odd)
  then show ?thesis by (simp add: bit_unsigned_iff)
qed

lemma high_zero:
  fixes w :: "32 word"
  assumes "unat w < 2 ^ 18"
  shows "w AND 0x0fffffff = w" "w AND 0x0fc00000 = 0" "0x001fc0000 AND w = 0"
proof -
  have nb: "bit w n \<Longrightarrow> n < 18" for n using small_word_bits [OF assms, of n] by (meson not_le)
  show "w AND 0x0fffffff = w"
    unfolding var_len_masks by (rule bit_word_eqI) (use nb in \<open>force simp only: bit_and_iff bit_mask_iff possible_bit_word\<close>)
  have "\<not> bit (w AND push_bit 22 (mask 6)) n" "\<not> bit (push_bit 18 (mask 7) AND w) n" for n
    using nb [of n] by (simp_all only: bit_and_iff bit_push_bit_iff bit_mask_iff) auto
  then show "w AND 0x0fc00000 = 0" "0x001fc0000 AND w = 0"
    unfolding var_len_masks by (simp_all add: bit_eq_iff)
qed

lemmas word_bit_rules = bit_and_iff bit_or_iff bit_push_bit_iff bit_drop_bit_eq comp_apply bit_mask_iff
  bit_1_iff bit_unsigned_iff bit_take_bit_iff possible_bit_word

lemma third_byte:
  fixes w :: "32 word"
  assumes "r = 0 \<or> r = 0x80"
  shows "ucast (drop_bit 8 (r OR 0x00008000 OR push_bit 1 (0x3f80 AND w)) AND 0xff) =
    (0x80 OR ucast (take_bit 7 (drop_bit 7 w)) :: 8 word)"
proof -
  have nb: "\<not> bit r (8 + n)" for n
  proof (cases "r = 0")
    case False
    with assms have "r = push_bit 7 1" by simp
    then show ?thesis by (simp only: word_bit_rules) simp
  qed simp
  show ?thesis
    unfolding var_len_masks
    by (rule bit_word_eqI) (simp only: word_bit_rules nb, auto)
qed

lemma last_byte: "unat (ucast (w AND 0x0000007f :: 32 word) :: 8 word) = unat w mod 128"
  unfolding var_len_masks take_bit_eq_mask [symmetric]
  by (simp add: unsigned_ucast_eq unsigned_take_bit_eq take_bit_eq_mod unat_mod_distrib)

lemma or_128: "k < 128 \<Longrightarrow> 128 OR k = 128 + (k :: nat)"
proof -
  assume "k < 128"
  then have k: "take_bit 7 k = k" by (simp add: take_bit_eq_mod)
  have "128 + k = 128 OR k"
  proof (rule disjunctive_add)
    fix n
    have "bit (128 :: nat) n \<longleftrightarrow> n = 7" using bit_exp_iff [of 7 n, where ?'a = nat] by simp
    moreover have "bit k n = bit (take_bit 7 k) n" using k by simp
    ultimately show "\<not> bit (128 :: nat) n \<or> \<not> bit k n" by (auto simp: bit_take_bit_iff)
  qed
  then show ?thesis by simp
qed

lemma flagged_byte:
  "unat (0x80 OR ucast (take_bit 7 (drop_bit 7 (w :: 32 word))) :: 8 word) = 128 + unat w div 128 mod 128"
proof -
  have "unat (ucast (take_bit 7 (drop_bit 7 w)) :: 8 word) = unat w div 128 mod 128"
    by (simp add: unsigned_ucast_eq unsigned_take_bit_eq unsigned_drop_bit_eq take_bit_eq_mod drop_bit_eq_div
        unat_mod_distrib unat_div_distrib)
  then show ?thesis
    by (simp add: unsigned_or_eq or_128)
qed

lemma field_zero:
  assumes "(w :: 32 word) AND push_bit k (mask 7) = 0" "k \<le> 25"
  shows "unat w div 2 ^ k mod 128 = 0"
proof -
  have "drop_bit k (w AND push_bit k (mask 7)) = take_bit 7 (drop_bit k w)"
    using assms(2) by (intro bit_word_eqI) (simp only: word_bit_rules, auto)
  with assms have "unat (take_bit 7 (drop_bit k w)) = 0" by simp
  moreover have "unat (take_bit 7 (drop_bit k w)) = unat w div 2 ^ k mod 128"
    unfolding unsigned_take_bit_eq unsigned_drop_bit_eq
    using unsigned_less [of w, where ?'a = nat] by (simp add: take_bit_eq_mod drop_bit_eq_div)
  ultimately show ?thesis by simp
qed

lemma var_len_two_bytes:
  assumes "unat w < 2 ^ 14"
  shows "vlq_decode 0 (var_len_bytes w) = unat w"
proof -
  have "unat w < 2 ^ 18" using assms by simp
  note h = high_zero [OF this]
  have c2: "w AND 0x001fc000 = 0"
  proof -
    have "\<not> bit (w AND push_bit 14 (mask 7)) n" for n
      using small_word_bits [OF assms, of n] by (simp only: bit_and_iff bit_push_bit_iff bit_mask_iff) auto
    then show ?thesis unfolding var_len_masks by (simp add: bit_eq_iff)
  qed
  show ?thesis
  proof (cases "w AND 0x00003f80 = 0")
    case True
    then have "unat w div 128 mod 128 = 0"
      using field_zero [of w 7] unfolding var_len_masks by simp
    moreover have "unat w div 128 < 128" using assms by simp
    ultimately have "unat w mod 128 = unat w" by simp
    then show ?thesis
      using h c2 True last_byte [of w] by (simp only: var_len_bytes_def Let_def) simp
  next
    case False
    have "var_len_bytes w = [0x80 OR ucast (take_bit 7 (drop_bit 7 w)), ucast (w AND 0x0000007f)]"
      using h c2 False third_byte [of "0" w] by (simp only: var_len_bytes_def Let_def) simp
    then have "vlq_decode 0 (var_len_bytes w) = (unat w div 128 mod 128) * 128 + unat w mod 128"
      using flagged_byte [of w] last_byte [of w] by (simp only: vlq_decode.simps) simp
    moreover have "unat w div 128 < 128" using assms by simp
    ultimately show ?thesis by simp
  qed
qed

text \<open>From three bytes on, the mask of the second block misses bits 14 to 17.\<close>

lemma var_len_three_bytes:
  assumes "2 ^ 14 \<le> unat w" "unat w < 2 ^ 18"
  shows "var_len_bytes w = [0x80, 0x80 OR ucast (take_bit 7 (drop_bit 7 w)), ucast (w AND 0x0000007f)]"
    "vlq_decode 0 (var_len_bytes w) = unat w mod 2 ^ 14"
proof -
  note h = high_zero [OF assms(2)]
  have c2: "w AND 0x001fc000 \<noteq> 0"
  proof
    assume "w AND 0x001fc000 = 0"
    then have "unat w div 2 ^ 14 mod 128 = 0" using field_zero [of w 14] unfolding var_len_masks by simp
    with assms show False by simp
  qed
  show b: "var_len_bytes w = [0x80, 0x80 OR ucast (take_bit 7 (drop_bit 7 w)), ucast (w AND 0x0000007f)]"
    using h c2 third_byte [of "0x80" w] by (simp only: var_len_bytes_def Let_def) simp
  have "vlq_decode 0 (var_len_bytes w) = (unat w div 128 mod 128) * 128 + unat w mod 128"
    unfolding b using flagged_byte [of w] last_byte [of w] by (simp only: vlq_decode.simps) simp
  also have "\<dots> = unat w mod (128 * 128)"
    using mod_mult2_eq [of "unat w" 128 128] by simp
  finally show "vlq_decode 0 (var_len_bytes w) = unat w mod 2 ^ 14" by simp
qed

section \<open>Chunks in the file\<close>

lemma u32b_bytes_value:
  "map unat (u32b_bytes w) =
     [unat w div 2 ^ 24 mod 256, unat w div 2 ^ 16 mod 256, unat w div 2 ^ 8 mod 256, unat w mod 256]"
proof -
  have m: "(0xff000000 :: 32 word) = push_bit 24 (mask 8)" "(0x00ff0000 :: 32 word) = push_bit 16 (mask 8)"
    "(0x0000ff00 :: 32 word) = push_bit 8 (mask 8)" "(0x000000ff :: 32 word) = mask 8"
    by (simp_all add: mask_eq_exp_minus_1)
  have d: "drop_bit k (w AND push_bit k (mask 8)) = take_bit 8 (drop_bit k w)" if "k \<le> 24" for k
    using that by (intro bit_word_eqI) (simp only: word_bit_rules, auto)
  have u: "unat (ucast (take_bit 8 (drop_bit k w)) :: 8 word) = unat w div 2 ^ k mod 256" for k
    unfolding unsigned_ucast_eq unsigned_take_bit_eq unsigned_drop_bit_eq
    using unsigned_less [of w, where ?'a = nat] by (simp add: take_bit_eq_mod drop_bit_eq_div)
  have "unat (ucast (w AND mask 8) :: 8 word) = unat w mod 256"
    using u [of 0] by (simp flip: take_bit_eq_mask)
  then show ?thesis
    unfolding u32b_bytes_def m using d u by (simp only: list.map)
qed

lemma header_split: "8 \<le> length d \<Longrightarrow> \<exists>a0 a1 a2 a3 a4 a5 a6 a7 r. d = a0 # a1 # a2 # a3 # a4 # a5 # a6 # a7 # r"
  by (auto simp: Suc_le_length_iff numeral_eq_Suc)

lemma finalize_layout:
  assumes "chunk_inv c" "\<not> was_dropped c" "content c \<noteq> []"
  shows "fst (finalize c) = chunk_id c @ u32b_bytes (word_of_nat (length (content c))) @ content c"
proof -
  let ?n = "current_offset c"
  obtain a0 a1 a2 a3 a4 a5 a6 a7 r where d: "chunk_data c = a0 # a1 # a2 # a3 # a4 # a5 # a6 # a7 # r"
    using header_split [of "chunk_data c"] assms(1) by (auto simp: chunk_inv_def)
  obtain m where n: "?n = Suc (Suc (Suc (Suc (Suc (Suc (Suc (Suc m)))))))" "0 < m" "m < length r"
  proof (rule that [of "?n - 8"])
    show "0 < ?n - 8" using assms(3) by (auto simp: content_def)
    then show "?n = Suc (Suc (Suc (Suc (Suc (Suc (Suc (Suc (?n - 8))))))))" by simp
    show "?n - 8 < length r" using assms(1) d by (auto simp: chunk_inv_def)
  qed
  obtain s0 s1 s2 s3 where sz: "u32b_bytes (word_of_nat m) = [s0, s1, s2, s3]"
    by (simp add: u32b_bytes_def)
  have c: "content c = take m r" "length (content c) = m" "chunk_id c = [a0, a1, a2, a3]"
    using d n by (simp_all add: content_def chunk_id_def numeral_eq_Suc)
  have "fst (finalize c) = take ?n ((chunk_data c)[4 := s0, 5 := s1, 6 := s2, 7 := s3])"
    using n assms(2) sz by (simp add: finalize_def Let_def)
  also have "\<dots> = [a0, a1, a2, a3, s0, s1, s2, s3] @ take m r"
    unfolding d n(1) by (simp add: numeral_eq_Suc)
  finally show ?thesis using c sz by simp
qed

section \<open>Properties\<close>



text \<open>A variable length word below 16384 is written so that a reader of the MIDI file format gets it
  back.\<close>

theorem var_len_correct_below_16384:
  assumes "unat w < 2 ^ 14"
  shows "vlq_decode 0 (var_len_bytes w) = unat w"
  using assms by (rule var_len_two_bytes)

theorem var_len_correct_witness: "vlq_decode 0 (var_len_bytes 0x2000) = 0x2000"
  using var_len_correct_below_16384 [of "0x2000"] by simp

text \<open>A variable length word from 16384 to 262143 loses its upper bits: the reader gets it modulo
  16384, because the mask of the second block is off by four bits.\<close>

theorem var_len_wrong_from_16384:
  assumes "2 ^ 14 \<le> unat w" "unat w < 2 ^ 18"
  shows "vlq_decode 0 (var_len_bytes w) = unat w mod 2 ^ 14"
  using assms by (rule var_len_three_bytes)

theorem var_len_wrong_witness: "vlq_decode 0 (var_len_bytes 0x4001) = 1"
  using var_len_wrong_from_16384 [of "0x4001"] by simp

text \<open>A chunk that is neither dropped nor empty is written as its four-byte identifier, the length
  of its content as a big-endian 32-bit number, and the content.\<close>

theorem chunk_file_layout:
  assumes "chunk_inv c" "\<not> was_dropped c" "content c \<noteq> []" "length (content c) < 2 ^ 32"
  shows "\<exists>sz. fst (finalize c) = chunk_id c @ sz @ content c \<and> length sz = 4 \<and>
    foldl (\<lambda>a b. a * 256 + unat b) 0 sz = length (content c)"
proof -
  let ?n = "length (content c)"
  let ?sz = "u32b_bytes (word_of_nat ?n)"
  have u: "unat (word_of_nat ?n :: 32 word) = ?n"
    using assms(4) by (simp add: unsigned_of_nat take_bit_nat_eq_self)
  have "foldl (\<lambda>a b. a * 256 + unat b) 0 ?sz = foldl (\<lambda>a b. a * 256 + b) 0 (map unat ?sz)"
    by (simp add: foldl_map)
  also have "\<dots> = ((?n div 2 ^ 24 mod 256 * 256 + ?n div 2 ^ 16 mod 256) * 256 + ?n div 2 ^ 8 mod 256) * 256 + ?n mod 256"
    unfolding u32b_bytes_value u by simp
  also have "\<dots> = ?n"
  proof -
    have e: "?n div 2 ^ 24 = ?n div 2 ^ 16 div 256" "?n div 2 ^ 16 = ?n div 2 ^ 8 div 256" "?n div 2 ^ 8 = ?n div 256"
      by (simp_all add: div_mult2_eq [symmetric])
    have "?n div 2 ^ 24 < 256" using assms(4) by simp
    then show ?thesis unfolding e by (simp only: mod_less div_mult_mod_eq)
  qed
  finally show ?thesis
    using finalize_layout [OF assms(1-3)] by (intro exI [of _ ?sz]) (simp add: u32b_bytes_def)
qed

theorem chunk_file_layout_witness:
  "\<exists>c. push_u8b_word 5 (new_chunk [77, 84, 114, 107]) = Some c \<and>
     (\<exists>sz. fst (finalize c) = [77, 84, 114, 107] @ sz @ [5] \<and> length sz = 4 \<and>
        foldl (\<lambda>a b. a * 256 + unat b) 0 sz = 1)"
proof -
  obtain c where c: "push_u8b_word 5 (new_chunk [77, 84, 114, 107]) = Some c"
    "pushed (new_chunk [77, 84, 114, 107]) [5] c" "chunk_inv c"
    using push_u8b_word_ok [OF new_chunk_inv(1)] by blast
  have "content c = [5]" "chunk_id c = [77, 84, 114, 107]" "\<not> was_dropped c"
    using c(2) by (simp_all add: pushed_def new_chunk_inv(2)) (simp_all add: chunk_id_def new_chunk_def)
  with chunk_file_layout [OF c(3)] c(1) show ?thesis by auto
qed

end
