(* ===== verification/Sequencer_Export.thy ===== *)
theory Sequencer_Export
  imports Sequencer_Xml Midi_Export
begin

text \<open>
  The export of all sequences to a MIDI file (machine_sequencer.cc, \<open>export2MIDI\<close>): a header, a track with the
  tempo, and a track for each sequencer whose sequence plays a note. The calls a function makes on its chunk are
  listed as \<open>push\<close> values and run on the chunk.
\<close>

section \<open>Calls on a chunk\<close>

datatype push = U8 "8 word" | U16 "16 word" | VarLen "32 word" | Text string

fun run_push :: "push \<Rightarrow> chunk \<Rightarrow> chunk option" where
  "run_push (U8 w) c = push_u8b_word w c"
| "run_push (U16 w) c = push_u16b_word w c"
| "run_push (VarLen w) c = push_u32b_word_var_len w c"
| "run_push (Text s) c = push_string s c"

fun run_pushes :: "push list \<Rightarrow> chunk \<Rightarrow> chunk option" where
  "run_pushes [] c = Some c"
| "run_pushes (p # ps) c = Option.bind (run_push p c) (run_pushes ps)"

definition MThd :: "8 word list" where "MThd = [0x4d, 0x54, 0x68, 0x64]"
definition MTrk :: "8 word list" where "MTrk = [0x4d, 0x54, 0x72, 0x6b]"

text \<open>A new chunk at the end of the file, with calls run on it.\<close>

definition append_track :: "push list \<Rightarrow> (chunk \<Rightarrow> chunk) \<Rightarrow> midi_file \<Rightarrow> midi_file option" where
  "append_track ps f mfile =
     Option.bind (run_pushes ps (last (contained (append_new_chunk MTrk mfile)))) (\<lambda>c.
       Some (mfile \<lparr> contained := contained mfile @ [f c] \<rparr>))"

section \<open>The information track\<close>

definition meta_event :: "8 word \<Rightarrow> push list" where
  "meta_event t = [VarLen 0, U8 0xff, U8 t]"

definition end_of_track :: "push list" where
  "end_of_track = meta_event 0x2f @ [VarLen 0]"

definition info_pushes :: "int \<Rightarrow> push list" where
  "info_pushes bpm =
     (let msPerQuarterNote = (word_of_int (60000000 div bpm) :: 32 word) in
      meta_event 0x02 @ [Text ''Copyrighted Material''] @ meta_event 0x07 @ [Text ''Created by SATAN for Android''] @
      meta_event 0x51 @ [VarLen 3, U8 (ucast (drop_bit 16 (msPerQuarterNote AND 0xff0000))),
        U8 (ucast (drop_bit 8 (msPerQuarterNote AND 0x00ff00))), U8 (ucast (msPerQuarterNote AND 0x0000ff))] @
      meta_event 0x58 @ [VarLen 4, U8 0x02, U8 0x04, U8 0x24, U8 0x08] @ end_of_track)"

definition write_MIDI_info_track :: "int \<Rightarrow> midi_file \<Rightarrow> midi_file option" where
  "write_MIDI_info_track bpm mfile = append_track (info_pushes bpm) (\<lambda>c. c) mfile"

section \<open>The track of a sequence\<close>

text \<open>The variables of \<open>export_sequence2midi_file\<close>; the notes to end at a position are chained newest first.\<close>

record midi_track =
  s_p :: int
  l_s :: int
  l_p :: int
  last_p :: int
  highest_off_p :: int
  ndata :: "nat option"
  notes_to_off :: "(int, note_entry list) smap"
  track_dropped :: bool
  track_out :: "push list"

definition new_track :: midi_track where
  "new_track = \<lparr> s_p = 0, l_s = 0, l_p = 0, last_p = 0, highest_off_p = -1, ndata = None, notes_to_off = [],
     track_dropped = True, track_out = [] \<rparr>"

definition note_pushes :: "8 word \<Rightarrow> note_entry \<Rightarrow> midi_track \<Rightarrow> midi_track" where
  "note_pushes status n t =
     t \<lparr> last_p := s_p t,
        track_out := track_out t @ [VarLen (word_of_int ((s_p t - last_p t) * MACHINE_TICKS_PER_LINE)),
          U8 (status OR (0x0f AND nt_channel n)), U8 (nt_note n), U8 (nt_velocity n)] \<rparr>"

definition start_note :: "note_entry \<Rightarrow> midi_track \<Rightarrow> midi_track" where
  "start_note n t =
     (let new_one = copy_note_entry n; off_position = l_s t + PAD_TIME_LINE (nt_on_at n) + nt_length n + 1;
          chained = (case map_find off_position (notes_to_off t) of None \<Rightarrow> [] | Some ns \<Rightarrow> ns)
      in note_pushes 0x90 new_one (t \<lparr> highest_off_p := max (highest_off_p t) off_position,
           notes_to_off := map_set off_position (new_one # chained) (notes_to_off t), ndata := nt_next n, track_dropped := False \<rparr>))"

fun start_notes :: "nat \<Rightarrow> note_heap \<Rightarrow> midi_track \<Rightarrow> (loop_error, midi_track) result" where
  "start_notes 0 h t = Inl EndlessList"
| "start_notes (Suc k) h t =
     (case ndata t of
        None \<Rightarrow> Inr t
      | Some p \<Rightarrow> rbind (note_at p h) (\<lambda>n.
          if nt_on_at n \<le> PAD_TIME (l_p t) 0 then start_notes k h (start_note n t) else Inr t))"

definition end_notes :: "midi_track \<Rightarrow> midi_track" where
  "end_notes t =
     (case map_find (s_p t) (notes_to_off t) of
        None \<Rightarrow> t
      | Some ns \<Rightarrow> fold (note_pushes 0x80) ns (t \<lparr> notes_to_off := map_erase (s_p t) (notes_to_off t) \<rparr>))"

definition switch_loop :: "sequencer \<Rightarrow> studio \<Rightarrow> midi_track \<Rightarrow> (sequencer_error, midi_track) result" where
  "switch_loop s st t =
     (if s_p t < int (length (loop_sequence s)) \<and> loop_sequence s ! nat (s_p t) \<noteq> NOTE_NOT_SET then
        (let e = loop_sequence s ! nat (s_p t) in
         if \<not> (0 \<le> e \<and> e < int (length (loop_store s))) then Inl OutsideStore
         else case loop_store s ! nat e of
           None \<Rightarrow> Inl NullLoop
         | Some l \<Rightarrow> Inr (t \<lparr> l_p := 0, l_s := s_p t, ndata := loop_notes (loops st l) \<rparr>))
      else Inr t)"

definition export_line :: "sequencer \<Rightarrow> studio \<Rightarrow> midi_track \<Rightarrow> (sequencer_error, midi_track) result" where
  "export_line s st t =
     rbind (switch_loop s st t) (\<lambda>t1.
       case start_notes (Suc (Suc (note_top (loop_heap st)))) (loop_heap st) t1 of
         Inl e \<Rightarrow> Inl (LoopFault e)
       | Inr t2 \<Rightarrow> (let t3 = end_notes t2 in Inr (t3 \<lparr> s_p := s_p t3 + 1, l_p := l_p t3 + 1 \<rparr>)))"

partial_function (option) export_lines ::
  "(midi_track \<Rightarrow> (sequencer_error, midi_track) result) \<Rightarrow> int \<Rightarrow> midi_track \<Rightarrow> (sequencer_error, midi_track) result option" where
  "export_lines line loop_sequence_length track =
     (if s_p track < loop_sequence_length \<or> s_p track < highest_off_p track then
        (case line track of
           Inl e \<Rightarrow> Some (Inl e)
         | Inr next_track \<Rightarrow> export_lines line loop_sequence_length next_track)
      else Some (Inr track))"

definition track_name_pushes :: "sequencer \<Rightarrow> push list" where
  "track_name_pushes s = meta_event 0x03 @ [Text (sibling_name s)]"

text \<open>The outer option is a track without end, the inner one a store outside a chunk.\<close>

definition export_sequence2midi_file :: "sequencer \<Rightarrow> studio \<Rightarrow> midi_file \<Rightarrow> (sequencer_error, (bool \<times> midi_file) option) result option" where
  "export_sequence2midi_file s st mfile =
     map_option (\<lambda>r. case r of
         Inl e \<Rightarrow> Inl e
       | Inr t \<Rightarrow> Inr (map_option (\<lambda>f. (\<not> track_dropped t, f))
           (append_track (track_name_pushes s @ track_out t @ end_of_track) (if track_dropped t then drop_chunk else (\<lambda>c. c)) mfile)))
       (export_lines (export_line s st) (int (length (loop_sequence s))) new_track)"

definition export_loops2midi_file :: "sequencer \<Rightarrow> int" where
  "export_loops2midi_file s = 0"

section \<open>The file\<close>

fun export_tracks :: "bool \<Rightarrow> nat list \<Rightarrow> studio \<Rightarrow> 16 word \<Rightarrow> midi_file \<Rightarrow> (sequencer_error, (16 word \<times> midi_file) option) result option" where
  "export_tracks just_loops [] st nr mfile = Some (Inr (Some (nr, mfile)))"
| "export_tracks just_loops (i # is) st nr mfile =
     (if just_loops then export_tracks just_loops is st (nr + word_of_int (export_loops2midi_file (sequencers st i))) mfile
      else case export_sequence2midi_file (sequencers st i) st mfile of
        None \<Rightarrow> None
      | Some (Inl e) \<Rightarrow> Some (Inl e)
      | Some (Inr None) \<Rightarrow> Some (Inr None)
      | Some (Inr (Some (has_data, file1))) \<Rightarrow> export_tracks just_loops is st (if has_data then nr + 1 else nr) file1)"

definition empty_file :: midi_file where
  "empty_file = \<lparr> contained = [], was_finalized = False \<rparr>"

definition header_pushes :: "16 word \<Rightarrow> int \<Rightarrow> push list" where
  "header_pushes nr lpb = [U16 1, U16 nr, U16 (word_of_int (MACHINE_TICKS_PER_LINE * lpb))]"

text \<open>The header is the first chunk and filled in last.\<close>

definition export2MIDI :: "bool \<Rightarrow> transport \<Rightarrow> studio \<Rightarrow> (sequencer_error, 8 word list option) result option" where
  "export2MIDI just_loops t st =
     (case write_MIDI_info_track (tr_bpm t) (append_new_chunk MThd empty_file) of
        None \<Rightarrow> Some (Inr None)
      | Some file0 \<Rightarrow>
          (case export_tracks just_loops (map snd (machine2sequencer st)) st 1 file0 of
             None \<Rightarrow> None
           | Some (Inl e) \<Rightarrow> Some (Inl e)
           | Some (Inr None) \<Rightarrow> Some (Inr None)
           | Some (Inr (Some (nr, file1))) \<Rightarrow>
               Some (Inr (Option.bind (run_pushes (header_pushes nr (tr_lpb t)) (hd (contained file1))) (\<lambda>header.
                 (case finalize_file (file1 \<lparr> contained := header # tl (contained file1) \<rparr>) of Inl _ \<Rightarrow> None | Inr (bytes, _) \<Rightarrow> Some bytes))))))"

section \<open>Every note that starts\<close>

text \<open>The notes still to come, read off the heap.\<close>

fun notes_from :: "note_heap \<Rightarrow> nat option \<Rightarrow> nat list \<Rightarrow> bool" where
  "notes_from h p [] \<longleftrightarrow> p = None"
| "notes_from h p (q # qs) \<longleftrightarrow> p = Some q \<and> (\<exists>n. note_mem h q = Some n \<and> notes_from h (nt_next n) qs)"

lemma chain_notes_from:
  assumes "note_chain h head ps"
  shows "notes_from h head ps"
proof -
  have "notes_from h head ps" if "sseg (note_pv h) (note_nx h) p head ps None l" "\<forall>q \<in> set ps. note_mem h q \<noteq> None" for p l
    using that by (induction ps arbitrary: p head) (auto split: option.splits)
  then show ?thesis using assms by (auto simp: note_chain_def)
qed

text \<open>The note events of a track: status and key.\<close>

fun note_events :: "push list \<Rightarrow> (8 word \<times> 8 word) list" where
  "note_events (VarLen _ # U8 st # U8 n # U8 _ # ps) = (st, n) # note_events ps"
| "note_events _ = []"

definition starts_of :: "push list \<Rightarrow> (8 word \<times> 8 word) list" where
  "starts_of ps = map (\<lambda>(st, n). (st AND 0x0f, n)) (filter (\<lambda>(st, n). st AND 0xf0 = 0x90) (note_events ps))"

definition ends_of :: "push list \<Rightarrow> (8 word \<times> 8 word) list" where
  "ends_of ps = map (\<lambda>(st, n). (st AND 0x0f, n)) (filter (\<lambda>(st, n). st AND 0xf0 = 0x80) (note_events ps))"

definition sounding_note :: "note_entry \<Rightarrow> 8 word \<times> 8 word" where
  "sounding_note n = (0x0f AND nt_channel n, nt_note n)"

definition held_notes :: "midi_track \<Rightarrow> (8 word \<times> 8 word) list" where
  "held_notes t = concat (map (map sounding_note \<circ> snd) (notes_to_off t))"

text \<open>Only whole events are written.\<close>

fun whole_events :: "push list \<Rightarrow> bool" where
  "whole_events [] = True"
| "whole_events (VarLen _ # U8 _ # U8 _ # U8 _ # ps) = whole_events ps"
| "whole_events _ = False"

lemma note_events_append: "whole_events ps \<Longrightarrow> note_events (ps @ qs) = note_events ps @ note_events qs"
  by (induction ps rule: whole_events.induct) auto

lemma whole_events_append: "whole_events ps \<Longrightarrow> whole_events qs \<Longrightarrow> whole_events (ps @ qs)"
  by (induction ps rule: whole_events.induct) auto

lemma status_bits:
  fixes c :: "8 word"
  shows "(0x90 OR (0x0f AND c)) AND 0x0f = 0x0f AND c" "(0x80 OR (0x0f AND c)) AND 0x0f = 0x0f AND c"
    "(0x90 OR (0x0f AND c)) AND 0xf0 = 0x90" "(0x80 OR (0x0f AND c)) AND 0xf0 = 0x80"
proof -
  have d: "(a OR (0x0f AND c)) AND b = (a AND b) OR ((0x0f AND b) AND c)" for a b :: "8 word"
    by (rule bit_word_eqI) (auto simp: bit_simps)
  show "(0x90 OR (0x0f AND c)) AND 0x0f = 0x0f AND c" "(0x80 OR (0x0f AND c)) AND 0x0f = 0x0f AND c"
    "(0x90 OR (0x0f AND c)) AND 0xf0 = 0x90" "(0x80 OR (0x0f AND c)) AND 0xf0 = 0x80"
    unfolding d by simp_all
qed

definition balanced :: "midi_track \<Rightarrow> bool" where
  "balanced t \<longleftrightarrow> whole_events (track_out t) \<and> map_ok (notes_to_off t) \<and>
     mset (starts_of (track_out t)) = mset (ends_of (track_out t)) + mset (held_notes t)"

lemma note_pushes_frame:
  "s_p (note_pushes st n t) = s_p t" "l_s (note_pushes st n t) = l_s t" "l_p (note_pushes st n t) = l_p t"
  "highest_off_p (note_pushes st n t) = highest_off_p t" "ndata (note_pushes st n t) = ndata t"
  "notes_to_off (note_pushes st n t) = notes_to_off t" "track_dropped (note_pushes st n t) = track_dropped t"
  by (simp_all add: note_pushes_def)

lemma note_pushes_events:
  assumes "whole_events (track_out t)"
  shows "whole_events (track_out (note_pushes st n t))"
    "starts_of (track_out (note_pushes 0x90 n t)) = starts_of (track_out t) @ [sounding_note n]"
    "ends_of (track_out (note_pushes 0x90 n t)) = ends_of (track_out t)"
    "starts_of (track_out (note_pushes 0x80 n t)) = starts_of (track_out t)"
    "ends_of (track_out (note_pushes 0x80 n t)) = ends_of (track_out t) @ [sounding_note n]"
  using assms
  by (simp_all add: note_pushes_def whole_events_append starts_of_def ends_of_def note_events_append status_bits sounding_note_def)

lemma held_set:
  assumes "map_ok m"
  shows "mset (concat (map (f \<circ> snd) (map_set k v m))) + mset (case map_find k m of None \<Rightarrow> [] | Some w \<Rightarrow> f w) =
    mset (concat (map (f \<circ> snd) m)) + mset (f v)"
  using assms by (induction k v m rule: map_set.induct) (auto simp: map_find_None_below)

lemma held_erase:
  assumes "map_ok m" "map_find k m = Some v"
  shows "mset (concat (map (f \<circ> snd) m)) = mset (concat (map (f \<circ> snd) (map_erase k m))) + mset (f v)"
  using assms
proof (induction m)
  case (Cons p m)
  obtain a b where p: "p = (a, b)" by (cases p)
  show ?case
  proof (cases "a = k")
    case True
    then have "filter (\<lambda>p. fst p \<noteq> k) m = m" using Cons.prems(1) p by (auto simp: filter_id_conv)
    then show ?thesis using True Cons.prems(2) p by (simp add: map_erase_def)
  next
    case False
    then show ?thesis using Cons p by (auto simp: map_erase_def split: if_splits)
  qed
qed simp

lemma start_note_balanced:
  assumes "balanced t"
  shows "balanced (start_note n t)"
proof -
  let ?off = "l_s t + PAD_TIME_LINE (nt_on_at n) + nt_length n + 1"
  let ?ch = "case map_find ?off (notes_to_off t) of None \<Rightarrow> [] | Some ns \<Rightarrow> ns"
  let ?t = "t \<lparr> highest_off_p := max (highest_off_p t) ?off, notes_to_off := map_set ?off (copy_note_entry n # ?ch) (notes_to_off t),
      ndata := nt_next n, track_dropped := False \<rparr>"
  have ok: "map_ok (notes_to_off t)" "whole_events (track_out ?t)" using assms by (simp_all add: balanced_def)
  have "mset (held_notes (start_note n t)) = mset (held_notes t) + {#sounding_note (copy_note_entry n)#}"
    using held_set [OF ok(1), of "map sounding_note" ?off "copy_note_entry n # ?ch"]
    by (cases "map_find ?off (notes_to_off t)") (simp_all add: held_notes_def start_note_def Let_def note_pushes_frame)
  then show ?thesis
    using assms note_pushes_events [OF ok(2), where n = "copy_note_entry n"]
    by (simp add: balanced_def start_note_def Let_def note_pushes_frame)
qed

lemma end_notes_fold:
  assumes "whole_events (track_out t)"
  shows "whole_events (track_out (fold (note_pushes 0x80) ns t)) \<and> starts_of (track_out (fold (note_pushes 0x80) ns t)) = starts_of (track_out t) \<and>
    ends_of (track_out (fold (note_pushes 0x80) ns t)) = ends_of (track_out t) @ map sounding_note ns"
  using assms by (induction ns arbitrary: t) (simp_all add: note_pushes_events)

lemma end_notes_frame:
  "s_p (fold (note_pushes st) ns t) = s_p t" "l_s (fold (note_pushes st) ns t) = l_s t" "l_p (fold (note_pushes st) ns t) = l_p t"
  "highest_off_p (fold (note_pushes st) ns t) = highest_off_p t" "ndata (fold (note_pushes st) ns t) = ndata t"
  "notes_to_off (fold (note_pushes st) ns t) = notes_to_off t"
  by (induction ns arbitrary: t) (simp_all add: note_pushes_frame)

lemma end_notes_balanced:
  assumes "balanced t"
  shows "balanced (end_notes t)"
proof (cases "map_find (s_p t) (notes_to_off t)")
  case None
  then show ?thesis using assms by (simp add: end_notes_def)
next
  case (Some ns)
  let ?t = "t \<lparr> notes_to_off := map_erase (s_p t) (notes_to_off t) \<rparr>"
  have ok: "map_ok (notes_to_off t)" "whole_events (track_out ?t)" using assms by (simp_all add: balanced_def)
  have "end_notes t = fold (note_pushes 0x80) ns ?t" using Some by (simp add: end_notes_def)
  moreover have "mset (held_notes t) = mset (held_notes (fold (note_pushes 0x80) ns ?t)) + mset (map sounding_note ns)"
    using held_erase [OF ok(1) Some, of "map sounding_note"] by (simp add: held_notes_def end_notes_frame)
  ultimately show ?thesis
    using assms end_notes_fold [OF ok(2), of ns] by (simp add: balanced_def end_notes_frame)
qed

section \<open>A line\<close>

text \<open>
  Between lines: the positions agree, the notes to end lie ahead up to the highest of them, and the notes to come
  are those not due on an earlier line. \<open>B\<close> bounds the positions, so that they stay in the range of the macros.
\<close>

definition fits :: "note_heap \<Rightarrow> int \<Rightarrow> int \<Rightarrow> nat \<Rightarrow> bool" where
  "fits h B from q \<longleftrightarrow> 0 \<le> lasts h q \<and> from + starts h q div 16 + lasts h q + 1 \<le> B"

definition track_pos :: "int \<Rightarrow> int \<Rightarrow> midi_track \<Rightarrow> bool" where
  "track_pos len B t \<longleftrightarrow> s_p t = l_s t + l_p t \<and> 0 \<le> l_p t \<and> 0 \<le> l_s t \<and> l_s t \<le> len \<and>
     s_p t \<le> max len (highest_off_p t) \<and> highest_off_p t \<le> B \<and> len \<le> B \<and> B < 2 ^ 27"

definition track_offs :: "midi_track \<Rightarrow> bool" where
  "track_offs t \<longleftrightarrow> (\<forall>k ns. map_find k (notes_to_off t) = Some ns \<longrightarrow> s_p t \<le> k \<and> k \<le> highest_off_p t) \<and>
     (highest_off_p t < s_p t \<or> map_find (highest_off_p t) (notes_to_off t) \<noteq> None)"

definition track_ahead :: "note_heap \<Rightarrow> int \<Rightarrow> midi_track \<Rightarrow> nat list \<Rightarrow> bool" where
  "track_ahead h B t qs \<longleftrightarrow> notes_from h (ndata t) qs \<and> sorted (map (starts h) qs) \<and> length qs \<le> note_top h \<and>
     (\<forall>q \<in> set qs. 16 * (l_p t - 1) < starts h q \<and> fits h B (l_s t) q)"

definition track_inv :: "note_heap \<Rightarrow> int \<Rightarrow> int \<Rightarrow> midi_track \<Rightarrow> nat list \<Rightarrow> bool" where
  "track_inv h len B t qs \<longleftrightarrow> balanced t \<and> track_pos len B t \<and> track_offs t \<and> track_ahead h B t qs"

lemma start_note_frame:
  "s_p (start_note n t) = s_p t" "l_s (start_note n t) = l_s t" "l_p (start_note n t) = l_p t" "ndata (start_note n t) = nt_next n"
  "highest_off_p (start_note n t) = max (highest_off_p t) (l_s t + PAD_TIME_LINE (nt_on_at n) + nt_length n + 1)"
  by (simp_all add: start_note_def Let_def note_pushes_frame)

lemma start_note_offs:
  assumes "map_ok (notes_to_off t)"
  shows "map_find k (notes_to_off (start_note n t)) =
    (if k = l_s t + PAD_TIME_LINE (nt_on_at n) + nt_length n + 1
     then Some (copy_note_entry n # (case map_find k (notes_to_off t) of None \<Rightarrow> [] | Some ns \<Rightarrow> ns)) else map_find k (notes_to_off t))"
  using assms by (simp add: start_note_def Let_def note_pushes_frame)

lemma start_note_inv:
  assumes "track_inv h len B t (q # qs)" "note_mem h q = Some n"
  shows "track_inv h len B (start_note n t) qs"
proof -
  let ?off = "l_s t + PAD_TIME_LINE (nt_on_at n) + nt_length n + 1"
  have bal: "balanced t" and pos: "track_pos len B t" and offs: "track_offs t" and ahead: "track_ahead h B t (q # qs)"
    using assms(1) by (simp_all add: track_inv_def)
  have st: "starts h q = nt_on_at n" "lasts h q = nt_length n" using assms(2) by (simp_all add: starts_def lasts_def)
  have q: "16 * (l_p t - 1) < nt_on_at n" "0 \<le> nt_length n" "l_s t + nt_on_at n div 16 + nt_length n + 1 \<le> B"
    using ahead st by (auto simp: track_ahead_def fits_def)
  have "16 * (l_p t - 1) div 16 \<le> nt_on_at n div 16" using q(1) by (intro zdiv_mono1) simp_all
  then have "l_p t - 1 \<le> nt_on_at n div 16" by simp
  then have off: "s_p t \<le> ?off" "?off \<le> B" using pos q by (auto simp: track_pos_def pad_time_line_arith)
  have "track_pos len B (start_note n t)" using pos off by (auto simp: track_pos_def start_note_frame)
  moreover have "map_ok (notes_to_off t)" using bal by (simp add: balanced_def)
  then have "track_offs (start_note n t)"
    using offs off(1) unfolding track_offs_def start_note_offs [OF \<open>map_ok (notes_to_off t)\<close>] start_note_frame
    by (auto simp: max_def split: if_splits)
  moreover have "track_ahead h B (start_note n t) qs" using ahead assms(2) by (auto simp: track_ahead_def start_note_frame)
  ultimately show ?thesis using start_note_balanced [OF bal] by (simp add: track_inv_def)
qed

lemma start_notes_ok:
  assumes "track_inv h len B t qs" "length qs < k"
  shows "\<exists>t' qs'. start_notes k h t = Inr t' \<and> track_inv h len B t' qs' \<and> (\<forall>q \<in> set qs'. 16 * l_p t < starts h q) \<and>
    s_p t' = s_p t \<and> l_p t' = l_p t \<and> highest_off_p t \<le> highest_off_p t' \<and> (t' = t \<and> qs' = qs \<or> length qs' < length qs)"
  using assms
proof (induction qs arbitrary: t k)
  case Nil
  then obtain k' where "k = Suc k'" by (cases k) auto
  moreover have "ndata t = None" using Nil.prems(1) by (simp add: track_inv_def track_ahead_def)
  ultimately show ?case using Nil.prems(1) by (intro exI [of _ t] exI [of _ "[]"]) simp
next
  case (Cons q qs)
  obtain k' where k: "k = Suc k'" using Cons.prems(2) by (cases k) auto
  have ahead: "track_ahead h B t (q # qs)" and pos: "track_pos len B t" using Cons.prems(1) by (simp_all add: track_inv_def)
  obtain n where n: "ndata t = Some q" "note_mem h q = Some n" using ahead by (auto simp: track_ahead_def)
  have on: "starts h q = nt_on_at n" using n(2) by (simp add: starts_def)
  have pt: "PAD_TIME (l_p t) 0 = 16 * l_p t" using pos by (subst pad_time_arith) (auto simp: track_pos_def)
  show ?case
  proof (cases "nt_on_at n \<le> 16 * l_p t")
    case True
    then have run: "start_notes k h t = start_notes k' h (start_note n t)" using k n pt by simp
    from Cons.IH [OF start_note_inv [OF Cons.prems(1) n(2)], of k'] Cons.prems(2) k obtain t' qs' where
      r: "start_notes k' h (start_note n t) = Inr t'" "track_inv h len B t' qs'" "\<forall>q \<in> set qs'. 16 * l_p t < starts h q"
      "s_p t' = s_p t" "l_p t' = l_p t" "highest_off_p t \<le> highest_off_p t'" "length qs' \<le> length qs"
      by (auto simp: start_note_frame)
    then show ?thesis unfolding run by (intro exI [of _ t'] exI [of _ qs']) simp
  next
    case False
    then have run: "start_notes k h t = Inr t" using k n pt by simp
    have "\<forall>q' \<in> set (q # qs). 16 * l_p t < starts h q'" using False ahead on by (fastforce simp: track_ahead_def)
    then show ?thesis unfolding run using Cons.prems(1) by (intro exI [of _ t] exI [of _ "q # qs"]) simp
  qed
qed

text \<open>Ending the notes of a line and going to the next one.\<close>

lemma end_line_inv:
  assumes "track_inv h len B t qs" "\<forall>q \<in> set qs. 16 * l_p t < starts h q" "s_p t < len \<or> s_p t < highest_off_p t"
  shows "track_inv h len B ((end_notes t) \<lparr> s_p := s_p (end_notes t) + 1, l_p := l_p (end_notes t) + 1 \<rparr>) qs"
    "s_p (end_notes t) = s_p t" "highest_off_p (end_notes t) = highest_off_p t"
proof -
  let ?t = "(end_notes t) \<lparr> s_p := s_p (end_notes t) + 1, l_p := l_p (end_notes t) + 1 \<rparr>"
  have bal: "balanced t" and pos: "track_pos len B t" and offs: "track_offs t" and ahead: "track_ahead h B t qs"
    using assms(1) by (simp_all add: track_inv_def)
  have f: "s_p (end_notes t) = s_p t" "l_s (end_notes t) = l_s t" "l_p (end_notes t) = l_p t" "highest_off_p (end_notes t) = highest_off_p t"
    "ndata (end_notes t) = ndata t"
    by (simp_all add: end_notes_def end_notes_frame split: option.split)
  then show "s_p (end_notes t) = s_p t" "highest_off_p (end_notes t) = highest_off_p t" by simp_all
  have ok: "map_ok (notes_to_off t)" using bal by (simp add: balanced_def)
  have m: "map_find k (notes_to_off (end_notes t)) = (if k = s_p t then None else map_find k (notes_to_off t))" for k
    using ok by (auto simp: end_notes_def end_notes_frame split: option.split)
  have "balanced ?t" using end_notes_balanced [OF bal] by (simp add: balanced_def held_notes_def)
  moreover have "track_pos len B ?t" using pos assms(3) by (auto simp: track_pos_def f)
  moreover have "track_offs ?t"
  proof -
    have "s_p t + 1 \<le> k \<and> k \<le> highest_off_p t" if "k \<noteq> s_p t" "map_find k (notes_to_off t) = Some ns" for k ns
      using offs that unfolding track_offs_def by force
    moreover have "highest_off_p t < s_p t + 1 \<or> (highest_off_p t \<noteq> s_p t \<and> map_find (highest_off_p t) (notes_to_off t) \<noteq> None)"
      using offs unfolding track_offs_def by force
    ultimately show ?thesis unfolding track_offs_def by (auto simp: f m)
  qed
  moreover have "track_ahead h B ?t qs" using ahead assms(2) by (simp add: track_ahead_def f)
  ultimately show "track_inv h len B ?t qs" by (simp add: track_inv_def)
qed

section \<open>A track\<close>

definition exportable :: "sequencer \<Rightarrow> studio \<Rightarrow> int \<Rightarrow> bool" where
  "exportable s st B \<longleftrightarrow> seq_wf s \<and> heap_ok (loop_heap st) \<and> int (length (loop_sequence s)) \<le> B \<and> B < 2 ^ 27 \<and>
     (\<forall>l. Some l \<in> set (loop_store s) \<longrightarrow> (\<exists>ps. note_chain (loop_heap st) (loop_notes (loops st l)) ps \<and> sorted (map (starts (loop_heap st)) ps) \<and>
       (\<forall>q \<in> set ps. 0 \<le> starts (loop_heap st) q \<and> fits (loop_heap st) B (int (length (loop_sequence s))) q)))"

lemma switch_loop_ok:
  assumes "exportable s st B" "track_inv (loop_heap st) (int (length (loop_sequence s))) B t qs"
  shows "\<exists>t' qs'. switch_loop s st t = Inr t' \<and> track_inv (loop_heap st) (int (length (loop_sequence s))) B t' qs' \<and>
    s_p t' = s_p t \<and> highest_off_p t' = highest_off_p t \<and> (int (length (loop_sequence s)) \<le> s_p t \<longrightarrow> t' = t \<and> qs' = qs)"
proof (cases "s_p t < int (length (loop_sequence s)) \<and> loop_sequence s ! nat (s_p t) \<noteq> NOTE_NOT_SET")
  case False
  then show ?thesis using assms(2) by (auto simp: switch_loop_def)
next
  case True
  let ?e = "loop_sequence s ! nat (s_p t)" and ?h = "loop_heap st"
  have pos: "track_pos (int (length (loop_sequence s))) B t" using assms(2) by (simp add: track_inv_def)
  then have "0 \<le> s_p t" by (simp add: track_pos_def)
  then have "internal_get_loop_id_at (s_p t) s = ?e" using True by (simp add: internal_get_loop_id_at_def)
  from seq_wf_entry [OF _ this] True assms(1) obtain l where
    e: "0 \<le> ?e" "?e < int (length (loop_store s))" "loop_store s ! nat ?e = Some l" by (auto simp: exportable_def)
  have "Some l \<in> set (loop_store s)" using e by (metis nat_less_iff nth_mem)
  then obtain ps where ps: "note_chain ?h (loop_notes (loops st l)) ps" "sorted (map (starts ?h) ps)"
    "\<forall>q \<in> set ps. 0 \<le> starts ?h q \<and> fits ?h B (int (length (loop_sequence s))) q"
    using assms(1) unfolding exportable_def by blast
  let ?t = "t \<lparr> l_p := 0, l_s := s_p t, ndata := loop_notes (loops st l) \<rparr>"
  have "length ps \<le> note_top ?h" using chain_length [OF ps(1)] assms(1) by (simp add: exportable_def)
  then have "track_ahead ?h B ?t ps" using ps chain_notes_from [OF ps(1)] True by (force simp: track_ahead_def fits_def)
  moreover have "track_pos (int (length (loop_sequence s))) B ?t" using pos True by (auto simp: track_pos_def)
  moreover have "balanced ?t" "track_offs ?t"
    using assms(2) by (simp_all add: track_inv_def balanced_def held_notes_def track_offs_def)
  ultimately have "track_inv ?h (int (length (loop_sequence s))) B ?t ps" by (simp add: track_inv_def)
  then show ?thesis using True e by (intro exI [of _ ?t] exI [of _ ps]) (simp add: switch_loop_def Let_def)
qed

lemma export_line_ok:
  assumes "exportable s st B" "track_inv (loop_heap st) (int (length (loop_sequence s))) B t qs"
    "s_p t < int (length (loop_sequence s)) \<or> s_p t < highest_off_p t"
  shows "\<exists>t' qs'. export_line s st t = Inr t' \<and> track_inv (loop_heap st) (int (length (loop_sequence s))) B t' qs' \<and> s_p t' = s_p t + 1 \<and>
    (int (length (loop_sequence s)) \<le> s_p t \<longrightarrow> length qs' < length qs \<or> qs' = qs \<and> highest_off_p t' = highest_off_p t)"
proof -
  let ?h = "loop_heap st" and ?len = "int (length (loop_sequence s))"
  obtain t1 qs1 where 1: "switch_loop s st t = Inr t1" "track_inv ?h ?len B t1 qs1" "s_p t1 = s_p t" "highest_off_p t1 = highest_off_p t"
    "?len \<le> s_p t \<longrightarrow> t1 = t \<and> qs1 = qs"
    using switch_loop_ok [OF assms(1,2)] by blast
  have "length qs1 < Suc (Suc (note_top ?h))" using 1(2) by (simp add: track_inv_def track_ahead_def)
  from start_notes_ok [OF 1(2) this] obtain t2 qs2 where
    2: "start_notes (Suc (Suc (note_top ?h))) ?h t1 = Inr t2" "track_inv ?h ?len B t2 qs2" "\<forall>q \<in> set qs2. 16 * l_p t2 < starts ?h q"
    "s_p t2 = s_p t1" "t2 = t1 \<and> qs2 = qs1 \<or> length qs2 < length qs1" "highest_off_p t1 \<le> highest_off_p t2" by metis
  have go: "s_p t2 < ?len \<or> s_p t2 < highest_off_p t2" using assms(3) 1(3,4) 2(4,6) by auto
  note 3 = end_line_inv [OF 2(2,3) go]
  let ?t = "(end_notes t2) \<lparr> s_p := s_p (end_notes t2) + 1, l_p := l_p (end_notes t2) + 1 \<rparr>"
  have "export_line s st t = Inr ?t" using 1(1) 2(1) by (simp add: export_line_def Let_def)
  then show ?thesis using 3 1 2(4,5) by (intro exI [of _ ?t] exI [of _ qs2]) auto
qed

text \<open>The track comes to an end: first the lines of the sequence run out, then the notes of the last loop, then the lines up
  to the last note to end.\<close>

lemma export_lines_ok:
  assumes "exportable s st B" "track_inv (loop_heap st) (int (length (loop_sequence s))) B t qs"
  shows "\<exists>t' qs'. export_lines (export_line s st) (int (length (loop_sequence s))) t = Some (Inr t') \<and>
    track_inv (loop_heap st) (int (length (loop_sequence s))) B t' qs' \<and> \<not> (s_p t' < int (length (loop_sequence s)) \<or> s_p t' < highest_off_p t')"
proof -
  let ?len = "int (length (loop_sequence s))"
  let ?r = "measures [\<lambda>(t, qs). nat (?len - s_p t), \<lambda>(t, qs). length qs, \<lambda>(t, qs). nat (highest_off_p t - s_p t)]"
  have "wf ?r" by simp
  then show ?thesis using assms(2)
  proof (induction "(t, qs)" arbitrary: t qs rule: wf_induct_rule)
    case less
    show ?case
    proof (cases "s_p t < ?len \<or> s_p t < highest_off_p t")
      case False
      then have "export_lines (export_line s st) ?len t = Some (Inr t)" by (subst export_lines.simps) simp
      then show ?thesis using less.prems False by blast
    next
      case True
      obtain t1 qs1 where 1: "export_line s st t = Inr t1" "track_inv (loop_heap st) ?len B t1 qs1" "s_p t1 = s_p t + 1"
        "?len \<le> s_p t \<longrightarrow> length qs1 < length qs \<or> qs1 = qs \<and> highest_off_p t1 = highest_off_p t"
        using export_line_ok [OF assms(1) less.prems True] by blast
      have "((t1, qs1), (t, qs)) \<in> ?r" using True 1(3,4) by (cases "s_p t < ?len") auto
      from less.hyps [OF this 1(2)] show ?thesis using True 1(1) by (subst export_lines.simps) simp
    qed
  qed
qed

lemma new_track_inv: "exportable s st B \<Longrightarrow> track_inv (loop_heap st) (int (length (loop_sequence s))) B new_track []"
  by (auto simp: exportable_def track_inv_def new_track_def balanced_def track_pos_def track_offs_def track_ahead_def starts_of_def ends_of_def held_notes_def)

section \<open>The file\<close>

fun push_bytes :: "push \<Rightarrow> 8 word list" where
  "push_bytes (U8 w) = [w]"
| "push_bytes (U16 w) = u16b_bytes w"
| "push_bytes (VarLen w) = var_len_bytes w"
| "push_bytes (Text s) = (let tn = takeWhile (\<lambda>x. x \<noteq> CHR 0x00) s in
     var_len_bytes (word_of_nat (length tn)) @ map (\<lambda>x. word_of_nat (of_char x)) tn)"

lemma run_push_ok:
  assumes "chunk_inv c"
  shows "\<exists>c'. run_push p c = Some c' \<and> pushed c (push_bytes p) c' \<and> chunk_inv c'"
proof (cases p)
  case (U8 w)
  then show ?thesis using push_u8b_word_ok [OF assms] by simp
next
  case (U16 w)
  then show ?thesis using push_bytes_ok [OF assms, of "u16b_bytes w" 2] by (simp add: push_u16b_word_def u16b_bytes_def)
next
  case (VarLen w)
  then show ?thesis using push_bytes_ok [OF assms length_var_len_bytes, of w] by (simp add: push_u32b_word_var_len_def)
next
  case (Text str)
  let ?tn = "takeWhile (\<lambda>x. x \<noteq> CHR 0x00) str"
  obtain c1 where c1: "push_u32b_word_var_len (word_of_nat (length ?tn)) c = Some c1"
    "pushed c (var_len_bytes (word_of_nat (length ?tn))) c1" "chunk_inv c1"
    using push_bytes_ok [OF assms length_var_len_bytes, of "word_of_nat (length ?tn)"] by (auto simp: push_u32b_word_var_len_def)
  obtain c2 where "push_chars ?tn c1 = Some c2" "pushed c1 (map (\<lambda>x. word_of_nat (of_char x)) ?tn) c2" "chunk_inv c2"
    using push_chars_ok [OF c1(3)] by blast
  with c1 pushed_trans [OF c1(2)] show ?thesis using Text by (simp add: push_string_def Let_def)
qed

lemma run_pushes_ok:
  "chunk_inv c \<Longrightarrow> \<exists>c'. run_pushes ps c = Some c' \<and> pushed c (concat (map push_bytes ps)) c' \<and> chunk_inv c'"
proof (induction ps arbitrary: c)
  case Nil
  then show ?case by (simp add: pushed_def)
next
  case (Cons p ps)
  obtain c1 where c1: "run_push p c = Some c1" "pushed c (push_bytes p) c1" "chunk_inv c1" using run_push_ok [OF Cons.prems] by blast
  from Cons.IH [OF c1(3)] c1 pushed_trans [OF c1(2)] show ?case by fastforce
qed

lemma new_chunk_id: "length header = 4 \<Longrightarrow> chunk_id (new_chunk header) = header" "\<not> was_dropped (new_chunk header)"
  by (simp_all add: chunk_id_def new_chunk_def)

text \<open>A track of the file, with its bytes.\<close>

definition track_chunk :: "8 word list \<Rightarrow> chunk \<Rightarrow> bool" where
  "track_chunk bytes c \<longleftrightarrow> chunk_inv c \<and> chunk_id c = MTrk \<and> content c = bytes"

lemma append_track_ok:
  obtains c where "append_track ps f mfile = Some (mfile \<lparr> contained := contained mfile @ [f c] \<rparr>)"
    "track_chunk (concat (map push_bytes ps)) c" "\<not> was_dropped c"
proof -
  obtain c where c: "run_pushes ps (new_chunk MTrk) = Some c" "pushed (new_chunk MTrk) (concat (map push_bytes ps)) c" "chunk_inv c"
    using run_pushes_ok [OF new_chunk_inv(1)] by blast
  have "append_track ps f mfile = Some (mfile \<lparr> contained := contained mfile @ [f c] \<rparr>)"
    using c(1) by (simp add: append_track_def append_new_chunk_def)
  moreover have "track_chunk (concat (map push_bytes ps)) c" "\<not> was_dropped c"
    using c(2,3) new_chunk_id [of MTrk] by (auto simp: track_chunk_def pushed_def new_chunk_inv(2) MTrk_def)
  ultimately show ?thesis by (rule that)
qed

definition chunk_bytes :: "8 word list \<Rightarrow> 8 word list \<Rightarrow> 8 word list" where
  "chunk_bytes header bytes = header @ u32b_bytes (word_of_nat (length bytes)) @ bytes"

lemma finalize_track: "track_chunk bytes c \<Longrightarrow> \<not> was_dropped c \<Longrightarrow> bytes \<noteq> [] \<Longrightarrow> fst (finalize c) = chunk_bytes MTrk bytes"
  using finalize_layout by (simp add: track_chunk_def chunk_bytes_def)

lemma finalize_dropped: "was_dropped c \<Longrightarrow> fst (finalize c) = []"
  by (simp add: finalize_def Let_def)

lemma track_not_empty: "concat (map push_bytes (track_name_pushes s @ ps)) \<noteq> []"
  by (simp add: track_name_pushes_def meta_event_def)

text \<open>The tracks written for some sequencers: what they add to the file and to the count.\<close>

lemma export_tracks_ok:
  assumes "\<forall>i \<in> set is. \<exists>B. exportable (sequencers st i) st B"
  shows "\<exists>cs tracks. export_tracks False is st nr mfile = Some (Inr (Some (nr + word_of_nat (length tracks), mfile \<lparr> contained := contained mfile @ cs \<rparr>))) \<and>
    concat (map (fst \<circ> finalize) cs) = concat (map (chunk_bytes MTrk) tracks) \<and> length tracks \<le> length is"
  using assms
proof (induction "is" arbitrary: nr mfile)
  case Nil
  show ?case by (intro exI [of _ "[]"]) simp
next
  case (Cons i "is")
  let ?s = "sequencers st i"
  obtain B where B: "exportable ?s st B" using Cons.prems by auto
  obtain t where t: "export_lines (export_line ?s st) (int (length (loop_sequence ?s))) new_track = Some (Inr t)"
    using export_lines_ok [OF B new_track_inv [OF B]] by blast
  let ?ps = "track_name_pushes ?s @ track_out t @ end_of_track"
  let ?f = "if track_dropped t then drop_chunk else (\<lambda>c. c)"
  obtain c where c: "append_track ?ps ?f mfile = Some (mfile \<lparr> contained := contained mfile @ [?f c] \<rparr>)"
    "track_chunk (concat (map push_bytes ?ps)) c" "\<not> was_dropped c"
    by (rule append_track_ok)
  have ex: "export_sequence2midi_file ?s st mfile = Some (Inr (Some (\<not> track_dropped t, mfile \<lparr> contained := contained mfile @ [?f c] \<rparr>)))"
    using t c(1) by (simp add: export_sequence2midi_file_def)
  let ?nr = "if \<not> track_dropped t then nr + 1 else nr"
  let ?file1 = "mfile \<lparr> contained := contained mfile @ [?f c] \<rparr>"
  have "\<forall>i \<in> set is. \<exists>B. exportable (sequencers st i) st B" using Cons.prems by simp
  from Cons.IH [OF this, of ?nr ?file1] obtain cs tracks where
    r: "export_tracks False is st ?nr ?file1 = Some (Inr (Some (?nr + word_of_nat (length tracks), ?file1 \<lparr> contained := contained ?file1 @ cs \<rparr>)))"
    "concat (map (fst \<circ> finalize) cs) = concat (map (chunk_bytes MTrk) tracks)" "length tracks \<le> length is"
    by (elim exE conjE)
  let ?new = "if track_dropped t then [] else [concat (map push_bytes ?ps)]"
  have "fst (finalize (?f c)) = concat (map (chunk_bytes MTrk) ?new)"
    using finalize_track [OF c(2,3) track_not_empty] finalize_dropped [of "drop_chunk c"] by (simp add: drop_chunk_def)
  moreover have "?nr + word_of_nat (length tracks) = nr + word_of_nat (length (?new @ tracks))" by simp
  ultimately show ?case
    using ex r by (intro exI [of _ "?f c # cs"] exI [of _ "?new @ tracks"]; cases "track_dropped t"; simp add: comp_def)
qed

section \<open>Properties\<close>

text \<open>C27: the export of a sequence comes to an end, and every note it starts it also ends, but for those that end last, when that
  is not before the end of the sequence: these are never ended.\<close>

theorem midi_export_ends_notes:
  assumes "exportable s st B"
  shows "\<exists>t. export_lines (export_line s st) (int (length (loop_sequence s))) new_track = Some (Inr t) \<and>
    mset (starts_of (track_out t)) = mset (ends_of (track_out t)) + mset (held_notes t) \<and>
    map_keys (notes_to_off t) = (if int (length (loop_sequence s)) \<le> highest_off_p t then {highest_off_p t} else {})"
proof -
  let ?len = "int (length (loop_sequence s))"
  obtain t qs where t: "export_lines (export_line s st) ?len new_track = Some (Inr t)" "track_inv (loop_heap st) ?len B t qs"
    "?len \<le> s_p t" "highest_off_p t \<le> s_p t"
    using export_lines_ok [OF assms new_track_inv [OF assms]] unfolding not_less de_Morgan_disj by (elim exE conjE)
  have i: "balanced t" "track_pos ?len B t" "track_offs t" using t(2) by (simp_all add: track_inv_def)
  have ok: "map_ok (notes_to_off t)" using i(1) by (simp add: balanced_def)
  have sp: "s_p t \<le> max ?len (highest_off_p t)" using i(2) by (simp add: track_pos_def)
  have only: "k = highest_off_p t \<and> ?len \<le> highest_off_p t" if "map_find k (notes_to_off t) = Some ns" for k ns
  proof -
    have "s_p t \<le> k" "k \<le> highest_off_p t" using i(3) that by (auto simp: track_offs_def)
    then show ?thesis using t(3,4) by simp
  qed
  have some: "map_find (highest_off_p t) (notes_to_off t) \<noteq> None" if "?len \<le> highest_off_p t"
    using i(3) that sp unfolding track_offs_def by linarith
  have "k \<in> map_keys (notes_to_off t) \<longleftrightarrow> ?len \<le> highest_off_p t \<and> k = highest_off_p t" for k
    using only [of k] some map_find_None_iff [OF ok, of k] by (cases "map_find k (notes_to_off t)") auto
  then have "map_keys (notes_to_off t) = (if ?len \<le> highest_off_p t then {highest_off_p t} else {})" by auto
  with t(1) i(1) show ?thesis by (simp add: balanced_def)
qed

definition note_studio :: studio where
  "note_studio = upd_loop 0 one_note_loop one_note_heap demo_studio"

lemma note_studio_exportable: "exportable (sequencers note_studio 0) note_studio 1000"
proof -
  have s: "sequencers note_studio 0 = sequencers demo_studio 0" "loop_heap note_studio = one_note_heap" "loops note_studio 0 = one_note_loop"
    by (simp_all add: note_studio_def upd_loop_def)
  have wf: "seq_wf (sequencers demo_studio 0)" using studio_reach_wf [OF demo_reached] by (simp add: studio_wf_def demo_facts)
  have chain: "note_chain one_note_heap (loop_notes one_note_loop) [0]" "heap_ok one_note_heap" using one_note_ok(1) by (auto simp: loop_ok_def)
  have "loops note_studio l = one_note_loop" if "Some l \<in> set ((replicate 16 None)[0 := Some 0])" for l
    using that set_update_subset_insert [of "replicate 16 (None :: nat option)" 0 "Some 0"] s(3) by auto
  then show ?thesis
    using chain wf by (auto simp: exportable_def s demo_facts fits_def one_note_ok intro!: exI [of _ "[0]"])
qed

theorem midi_export_ends_notes_witness:
  "\<exists>t. export_lines (export_line (sequencers note_studio 0) note_studio) 16 new_track = Some (Inr t) \<and>
     mset (starts_of (track_out t)) = mset (ends_of (track_out t)) + mset (held_notes t)"
proof -
  have "length (loop_sequence (sequencers note_studio 0)) = 16" by (simp add: note_studio_def upd_loop_def demo_facts)
  then show ?thesis using midi_export_ends_notes [OF note_studio_exportable] by (metis of_nat_numeral)
qed

text \<open>C28: the file of an export is a header, followed by the track with the tempo and a track for each sequence that plays a note;
  every byte is stored inside its chunk, and the header counts the tracks that are there.\<close>

theorem midi_file_counts_tracks:
  assumes "\<forall>i \<in> set (map snd (machine2sequencer st)). \<exists>B. exportable (sequencers st i) st B"
  shows "\<exists>tracks. export2MIDI False t st = Some (Inr (Some
      (chunk_bytes MThd (u16b_bytes 1 @ u16b_bytes (word_of_nat (length tracks)) @ u16b_bytes (word_of_int (MACHINE_TICKS_PER_LINE * tr_lpb t))) @
       concat (map (chunk_bytes MTrk) tracks)))) \<and> 1 \<le> length tracks \<and> length tracks \<le> 1 + length (machine2sequencer st)"
proof -
  let ?mfile = "append_new_chunk MThd empty_file" and ?info = "concat (map push_bytes (info_pushes (tr_bpm t)))"
  obtain c where c: "append_track (info_pushes (tr_bpm t)) (\<lambda>c. c) ?mfile = Some (?mfile \<lparr> contained := contained ?mfile @ [c] \<rparr>)"
    "track_chunk ?info c" "\<not> was_dropped c"
    by (rule append_track_ok)
  have w: "write_MIDI_info_track (tr_bpm t) ?mfile = Some (?mfile \<lparr> contained := [new_chunk MThd, c] \<rparr>)"
    using c(1) by (simp add: write_MIDI_info_track_def append_new_chunk_def empty_file_def)
  obtain cs tracks where e: "export_tracks False (map snd (machine2sequencer st)) st 1 (?mfile \<lparr> contained := [new_chunk MThd, c] \<rparr>) =
      Some (Inr (Some (1 + word_of_nat (length tracks), ?mfile \<lparr> contained := new_chunk MThd # c # cs \<rparr>)))"
    "concat (map (fst \<circ> finalize) cs) = concat (map (chunk_bytes MTrk) tracks)" "length tracks \<le> length (machine2sequencer st)"
    using export_tracks_ok [OF assms, of 1 "?mfile \<lparr> contained := [new_chunk MThd, c] \<rparr>"] by auto
  let ?nr = "1 + word_of_nat (length tracks)"
  let ?hd = "u16b_bytes 1 @ u16b_bytes ?nr @ u16b_bytes (word_of_int (MACHINE_TICKS_PER_LINE * tr_lpb t))"
  obtain hc where hc: "run_pushes (header_pushes ?nr (tr_lpb t)) (new_chunk MThd) = Some hc" "pushed (new_chunk MThd) ?hd hc" "chunk_inv hc"
    using run_pushes_ok [OF new_chunk_inv(1), of "header_pushes ?nr (tr_lpb t)" MThd] by (auto simp: header_pushes_def)
  have hb: "fst (finalize hc) = chunk_bytes MThd ?hd"
    using finalize_layout [OF hc(3)] hc(2) new_chunk_id [of MThd] by (simp add: pushed_def new_chunk_inv(2) MThd_def chunk_bytes_def u16b_bytes_def)
  have "?info \<noteq> []" by (simp add: info_pushes_def meta_event_def Let_def)
  then have ib: "fst (finalize c) = chunk_bytes MTrk ?info" by (rule finalize_track [OF c(2,3)])
  have "export2MIDI False t st = Some (Inr (Some (chunk_bytes MThd ?hd @ concat (map (chunk_bytes MTrk) (?info # tracks)))))"
    using w e(1,2) hc(1) hb ib by (simp add: export2MIDI_def finalize_file_def append_new_chunk_def empty_file_def)
  then show ?thesis using e(3) by (intro exI [of _ "?info # tracks"]) simp
qed

theorem midi_file_counts_tracks_witness:
  "\<exists>header tracks. export2MIDI False initial_transport note_studio = Some (Inr (Some (header @ concat (map (chunk_bytes MTrk) tracks)))) \<and>
     1 \<le> length tracks \<and> length tracks \<le> 2"
proof -
  have m: "machine2sequencer note_studio = [(0, 0)]"
    by (simp add: note_studio_def upd_loop_def demo_studio_def create_sequencer_for_machine_def new_sequencer_def create_controller_envelopes_def
        put_sequencer_def internal_add_new_loop_def create_loop_def initial_studio_def blank_sequencer_def prep_empty_loop_sequence_def Let_def
        MACHINE_SEQUENCER_INITIAL_SEQUENCE_LENGTH_def upd_sequencer_def store_loop_def internal_set_loop_id_at_def NOTE_NOT_SET_def numeral_eq_Suc)
  have "\<forall>i \<in> set (map snd (machine2sequencer note_studio)). \<exists>B. exportable (sequencers note_studio i) note_studio B"
    using note_studio_exportable by (auto simp: m)
  from midi_file_counts_tracks [OF this, of initial_transport] obtain header tracks where
    "export2MIDI False initial_transport note_studio = Some (Inr (Some (header @ concat (map (chunk_bytes MTrk) tracks))))"
    "1 \<le> length tracks" "length tracks \<le> 1 + length [(0 :: nat, 0 :: nat)]"
    unfolding m by (elim exE conjE)
  then show ?thesis by (intro exI [of _ header] exI [of _ tracks]) simp
qed

end
