(* ===== verification/Sequencer_Clock.thy ===== *)
theory Sequencer_Clock
  imports Sequencer_Store
begin

text \<open>
  The sequencer counts the ticks of a buffer for itself, in \<open>fill_buffers\<close>, and the clock of the machines
  counts them again when the buffer is done. Both counts agree.
\<close>

section \<open>What the builder keeps\<close>

lemma write_slot_frame:
  "buffer_size (snd (write_slot mev sb)) = buffer_size (snd sb)" "buffer_p_last_skip (snd (write_slot mev sb)) = buffer_p_last_skip (snd sb)"
  by (auto simp: write_slot_def split: prod.split)

lemma queue_call_frame:
  "buffer_size (snd (queue_call c sb)) = buffer_size (snd sb)" "buffer_p_last_skip (snd (queue_call c sb)) = buffer_p_last_skip (snd sb)"
  by (auto simp: queue_call_def chain_event_def write_slot_frame split: prod.split)

lemma queue_calls_frame:
  "buffer_size (snd (fold queue_call cs sb)) = buffer_size (snd sb)"
  "buffer_p_last_skip (snd (fold queue_call cs sb)) = buffer_p_last_skip (snd sb)"
  by (induction cs arbitrary: sb) (simp_all add: queue_call_frame)

lemma process_remaining_frame:
  "buffer_size (snd (process_remaining_chain sb)) = buffer_size (snd sb) \<and>
   buffer_p_last_skip (snd (process_remaining_chain sb)) = buffer_p_last_skip (snd sb)"
proof (induction sb rule: process_remaining_chain.induct)
  case (1 s b)
  show ?case
  proof (cases "buffer_position b < buffer_size b \<and> remaining_midi_chain b \<noteq> None")
    case True
    obtain mev q s1 where "get_chain_head (remaining_midi_chain b) s = (mev, q, s1)" by (metis prod_cases3)
    then show ?thesis using 1 [OF True] True by (subst (1 2) process_remaining_chain.simps) (simp add: write_slot_frame)
  next
    case False
    then have "process_remaining_chain (s, b) = (s, b)" by (subst process_remaining_chain.simps) (rule if_not_P)
    then show ?thesis by simp
  qed
qed

lemma use_buffer_frame:
  "buffer_size (snd (use_buffer n sb)) = int n" "buffer_p_last_skip (snd (use_buffer n sb)) = 0"
  by (simp_all add: use_buffer_def process_remaining_frame split: prod.split)

text \<open>The lines the sequencer counts are those of the clock.\<close>

lemma next_line_clock:
  assumes "same_settings t t1"
  shows "next_line t (next_sequence_position t1) (current_tick t1) =
    (next_sequence_position (fst (midi_tick t1 e)), current_tick (fst (midi_tick t1 e)))"
  using assms by (simp add: next_line_def midi_tick_fst Let_def get_loop_length_def same_settings_def)

lemma skip_after_clock:
  assumes "same_settings t t1"
  shows "tick_step True (samples_per_tick t ! MIDI_D) (samples_per_tick_shuffle t ! MIDI_D) (nta, t1, is_even_line t1) =
    (nta + skip_after t (next_sequence_position (fst (midi_tick t1 (is_even_line t1)))), fst (midi_tick t1 (is_even_line t1)),
     is_even_line (fst (midi_tick t1 (is_even_line t1))))"
proof -
  obtain t2 e where m: "midi_tick t1 (is_even_line t1) = (t2, e)" by fastforce
  then have "e = is_even_line t2" by (rule midi_tick_even)
  then show ?thesis using m by (simp add: tick_step_def skip_after_def is_even_line_def)
qed

text \<open>A builder that is in order, whatever it holds.\<close>

abbreviation builder_ok :: "builder_state \<Rightarrow> bool" where
  "builder_ok sb \<equiv> \<exists>F R L. binv sb F R L"

lemma queue_calls_ok: "builder_ok sb \<Longrightarrow> builder_ok (fold queue_call cs sb)"
  using chained.calls_ok [of sb cs] by (simp add: chained.calls_def)

lemma fill_step_Inr:
  assumes "fill_step mem scalo this t no_sound b (pos, tick, st, (s, b0)) = Inr y"
  obtains cs st1 where "y = (fst (next_line t pos tick), snd (next_line t pos tick), st1, fold queue_call cs (s, b))"
  using assms by (auto simp: fill_step_def rbind_Inr_iff case_prod_beta)

lemma skip_facts:
  "fst (skip k b) \<longleftrightarrow> max (buffer_position b) (buffer_p_last_skip b + k) < buffer_size b"
  "buffer_size (snd (skip k b)) = buffer_size b" "buffer_p_last_skip (snd (skip k b)) = buffer_p_last_skip b + k"
  by (auto simp: skip_def Let_def)

lemma skip_ok: "builder_ok (s, b) \<Longrightarrow> 0 \<le> k \<Longrightarrow> builder_ok (s, snd (skip k b))"
  using skip_binv by (metis prod.collapse)

lemma skip_after_pos:
  "\<bar>samples_per_tick_shuffle t ! MIDI_D\<bar> < samples_per_tick t ! MIDI_D \<Longrightarrow> 0 < skip_after t p"
  unfolding skip_after_def by (simp split: if_split) linarith

text \<open>
  \<open>x\<close> follows the clock from \<open>(nta, t1)\<close> in a buffer of \<open>n\<close> samples: the builder stays in order, and when
  the end was reached by counting and not by events, it is where the clock stops.
\<close>

definition follows :: "transport \<Rightarrow> int \<Rightarrow> int \<Rightarrow> transport \<Rightarrow> fill_state \<Rightarrow> bool" where
  "follows t n nta t1 x \<longleftrightarrow> (case x of (pos, tick, st, sb) \<Rightarrow>
     builder_ok sb \<and> buffer_size (snd sb) = n \<and>
     (n \<le> buffer_p_last_skip (snd sb) \<longrightarrow>
       (\<exists>t2. tick_loop True (samples_per_tick t ! MIDI_D) (samples_per_tick_shuffle t ! MIDI_D) n (nta, t1, is_even_line t1) =
           Some (buffer_p_last_skip (snd sb), t2, is_even_line t2) \<and> next_sequence_position t2 = pos \<and> current_tick t2 = tick)))"

lemma fill_loop_steps:
  "\<not> fst (skip k b) \<Longrightarrow> fill_loop (fill_step mem scalo this t no_sound) (skip_after t) k (pos, tick, st, (s, b)) = Some (Inr (pos, tick, st, (s, snd (skip k b))))"
  "fst (skip k b) \<Longrightarrow> fill_step mem scalo this t no_sound (snd (skip k b)) (pos, tick, st, (s, b)) = Inl e \<Longrightarrow>
    fill_loop (fill_step mem scalo this t no_sound) (skip_after t) k (pos, tick, st, (s, b)) = Some (Inl e)"
  "fst (skip k b) \<Longrightarrow> fill_step mem scalo this t no_sound (snd (skip k b)) (pos, tick, st, (s, b)) = Inr y \<Longrightarrow>
    fill_loop (fill_step mem scalo this t no_sound) (skip_after t) k (pos, tick, st, (s, b)) = fill_loop (fill_step mem scalo this t no_sound) (skip_after t) (skip_after t (fst y)) y"
  by (subst fill_loop.simps; simp)+

lemma follows_stop:
  assumes "builder_ok (s, b)" "n = buffer_size b" "nta = buffer_p_last_skip b"
  shows "follows t n nta t1 (next_sequence_position t1, current_tick t1, st, (s, b))"
proof -
  have "tick_loop True d sh n (nta, t1, is_even_line t1) = Some (nta, t1, is_even_line t1)" if "n \<le> nta" for d sh
    using that by (subst tick_loop.simps) simp
  then show ?thesis using assms unfolding follows_def by simp
qed

lemma follows_tick:
  assumes "same_settings t t1" "nta < n" "t2 = fst (midi_tick t1 (is_even_line t1))"
    "follows t n (nta + skip_after t (next_sequence_position t2)) t2 x"
  shows "follows t n nta t1 x"
proof -
  have "tick_loop True (samples_per_tick t ! MIDI_D) (samples_per_tick_shuffle t ! MIDI_D) n (nta, t1, is_even_line t1) =
      tick_loop True (samples_per_tick t ! MIDI_D) (samples_per_tick_shuffle t ! MIDI_D) n
        (nta + skip_after t (next_sequence_position t2), t2, is_even_line t2)"
    using assms(2,3) by (subst tick_loop.simps) (simp add: skip_after_clock [OF assms(1)])
  then show ?thesis using assms(4) unfolding follows_def by simp
qed

lemma same_settings_trans: "same_settings t t1 \<Longrightarrow> same_settings t1 t2 \<Longrightarrow> same_settings t t2"
  by (simp add: same_settings_def)

lemma midi_tick_settings: "same_settings t (fst (midi_tick t e))"
  using midi_tick_same [of t e] by (cases "midi_tick t e") simp

lemma fill_loop_follows:
  assumes "\<bar>samples_per_tick_shuffle t ! MIDI_D\<bar> < samples_per_tick t ! MIDI_D" "0 \<le> k" "builder_ok (s, b)" "same_settings t t1"
  shows "\<exists>r. fill_loop (fill_step mem scalo this t no_sound) (skip_after t) k (next_sequence_position t1, current_tick t1, st, (s, b)) = Some r \<and>
    (\<forall>x. r = Inr x \<longrightarrow> follows t (buffer_size b) (buffer_p_last_skip b + k) t1 x)"
  using assms(2-)
proof (induction "nat (buffer_size b - (buffer_p_last_skip b + k))" arbitrary: k s b st t1 rule: less_induct)
  case less
  let ?x = "(next_sequence_position t1, current_tick t1, st, (s, b))" and ?b = "snd (skip k b)"
  have ok1: "builder_ok (s, ?b)" by (rule skip_ok [OF less.prems(2,1)])
  show ?case
  proof (cases "fst (skip k b)")
    case False
    have "fill_loop (fill_step mem scalo this t no_sound) (skip_after t) k ?x = Some (Inr (next_sequence_position t1, current_tick t1, st, (s, ?b)))"
      using False by (rule fill_loop_steps(1))
    moreover have "follows t (buffer_size b) (buffer_p_last_skip b + k) t1 (next_sequence_position t1, current_tick t1, st, (s, ?b))"
      by (rule follows_stop [OF ok1]) (simp_all add: skip_facts)
    ultimately show ?thesis by blast
  next
    case True
    have small: "buffer_p_last_skip b + k < buffer_size b" using True by (simp add: skip_facts)
    show ?thesis
    proof (cases "fill_step mem scalo this t no_sound ?b ?x")
      case (Inl e)
      from fill_loop_steps(2) [OF True this] show ?thesis by blast
    next
      case (Inr y)
      let ?t2 = "fst (midi_tick t1 (is_even_line t1))"
      let ?k = "skip_after t (next_sequence_position ?t2)"
      obtain cs st1 where y0: "y = (fst (next_line t (next_sequence_position t1) (current_tick t1)),
          snd (next_line t (next_sequence_position t1) (current_tick t1)), st1, fold queue_call cs (s, ?b))"
        using fill_step_Inr [OF Inr] .
      obtain s1 b1 where f: "fold queue_call cs (s, ?b) = (s1, b1)" by (cases "fold queue_call cs (s, ?b)")
      have y: "y = (next_sequence_position ?t2, current_tick ?t2, st1, (s1, b1))"
        using y0 f next_line_clock [OF less.prems(3), of "is_even_line t1"] by simp
      have b1: "buffer_size b1 = buffer_size b" "buffer_p_last_skip b1 = buffer_p_last_skip b + k"
        using queue_calls_frame [of cs "(s, ?b)"] f by (simp_all add: skip_facts)
      have ok2: "builder_ok (s1, b1)" using queue_calls_ok [OF ok1, of cs] f by simp
      have kpos: "0 < ?k" using skip_after_pos [OF assms(1)] .
      have same: "same_settings t ?t2"
        using less.prems(3) midi_tick_settings by (rule same_settings_trans)
      have "nat (buffer_size b1 - (buffer_p_last_skip b1 + ?k)) < nat (buffer_size b - (buffer_p_last_skip b + k))"
        using small kpos b1 by simp
      from less.hyps [OF this less_imp_le [OF kpos] ok2 same, of st1] obtain r where
        r: "fill_loop (fill_step mem scalo this t no_sound) (skip_after t) ?k y = Some r"
        and fo: "\<forall>x. r = Inr x \<longrightarrow> follows t (buffer_size b1) (buffer_p_last_skip b1 + ?k) ?t2 x"
        unfolding y by blast
      have "fill_loop (fill_step mem scalo this t no_sound) (skip_after t) k ?x = fill_loop (fill_step mem scalo this t no_sound) (skip_after t) ?k y"
        using fill_loop_steps(3) [OF True Inr] unfolding y by (simp only: fst_conv)
      then have "fill_loop (fill_step mem scalo this t no_sound) (skip_after t) k ?x = Some r" using r by (rule trans)
      moreover have "follows t (buffer_size b) (buffer_p_last_skip b + k) t1 x" if "r = Inr x" for x
        using fo [rule_format, OF that] unfolding b1 by (rule follows_tick [OF less.prems(3) small refl])
      ultimately show ?thesis by blast
    qed
  qed
qed

text \<open>The dimensions in front of MIDI only move their own next tick.\<close>

lemma advance_other_dimension:
  assumes "advance_dimension defs d t = Some t'" "d \<noteq> MIDI_D"
  shows "\<exists>n. t' = t \<lparr> next_tick_at := (next_tick_at t)[d := n] \<rparr>"
proof -
  obtain n t1 e where r: "tick_loop False (samples_per_tick t ! d) (samples_per_tick_shuffle t ! d) (def_samples defs ! d)
      (next_tick_at t ! d, t, is_even_line t) = Some (n, t1, e)" "t' = t1 \<lparr> next_tick_at := (next_tick_at t1)[d := n - def_samples defs ! d] \<rparr>"
    using assms by (auto simp: advance_dimension_def Let_def bind_eq_Some_conv)
  have "t1 = t" using tick_loop_inv [OF r(1), of "\<lambda>(n, t1, e). t1 = t"] by (auto simp: tick_step_def)
  with r(2) show ?thesis by blast
qed

lemma clock_buffer_midi:
  assumes "clock_buffer defs t0 = Some t'"
  shows "\<exists>v. v ! MIDI_D = next_tick_at t0 ! MIDI_D \<and> length v = length (next_tick_at t0) \<and>
    advance_dimension defs MIDI_D ((calculate_samples_per_tick defs t0) \<lparr> next_tick_at := v \<rparr>) = Some t'"
proof -
  let ?t = "calculate_samples_per_tick defs t0"
  obtain t1 t2 t3 where a: "advance_dimension defs 0 ?t = Some t1" "advance_dimension defs 1 t1 = Some t2"
    "advance_dimension defs 2 t2 = Some t3" "advance_dimension defs MIDI_D t3 = Some t'"
    using assms
    by (auto simp: clock_buffer_def calculate_next_tick_at_and_sequence_position_def MAX_D_def MIDI_D_def upt_rec numeral_eq_Suc bind_eq_Some_conv)
  obtain n1 where n1: "t1 = ?t \<lparr> next_tick_at := (next_tick_at ?t)[0 := n1] \<rparr>"
    using advance_other_dimension [OF a(1)] by (auto simp: MIDI_D_def)
  obtain n2 where n2: "t2 = t1 \<lparr> next_tick_at := (next_tick_at t1)[1 := n2] \<rparr>"
    using advance_other_dimension [OF a(2)] by (auto simp: MIDI_D_def)
  obtain n3 where n3: "t3 = t2 \<lparr> next_tick_at := (next_tick_at t2)[2 := n3] \<rparr>"
    using advance_other_dimension [OF a(3)] by (auto simp: MIDI_D_def)
  have "t3 = ?t \<lparr> next_tick_at := (next_tick_at t0)[0 := n1, 1 := n2, 2 := n3] \<rparr>"
    using n1 n2 n3 by (simp add: calculate_samples_per_tick_frame)
  with a(4) show ?thesis by (intro exI [of _ "(next_tick_at t0)[0 := n1, 1 := n2, 2 := n3]"]) (simp add: MIDI_D_def)
qed

lemma advance_midi_settings:
  assumes "advance_dimension defs MIDI_D (t \<lparr> next_tick_at := v \<rparr>) = Some t'" "length v = MAX_D"
    "\<bar>samples_per_tick_shuffle t ! MIDI_D\<bar> < samples_per_tick t ! MIDI_D"
    "tick_loop True (samples_per_tick t ! MIDI_D) (samples_per_tick_shuffle t ! MIDI_D) (def_samples defs ! MIDI_D) (v ! MIDI_D, t, is_even_line t) =
       Some (n, t2, e)"
  shows "next_sequence_position t' = next_sequence_position t2 \<and> current_tick t' = current_tick t2 \<and>
    next_tick_at t' ! MIDI_D = n - def_samples defs ! MIDI_D"
proof -
  have "is_even_line (t \<lparr> next_tick_at := v \<rparr>) = is_even_line t" by (simp add: is_even_line_def)
  then have "t' = t2 \<lparr> next_tick_at := v [MIDI_D := n - def_samples defs ! MIDI_D] \<rparr>"
    using assms(1,4) by (auto simp: advance_dimension_def Let_def tick_loop_next_tick_at [OF assms(3)])
  then show ?thesis using assms(2) by (simp add: MIDI_D_def MAX_D_def)
qed

lemma finish_frame: "finish_current_buffer sb = Some sb' \<Longrightarrow> buffer_p_last_skip (snd sb') = buffer_p_last_skip (snd sb)"
  by (auto simp: finish_current_buffer_def process_freeable_chain_def bind_eq_Some_conv split: prod.splits)

lemma use_buffer_ok:
  assumes "builder_ok sb"
  shows "builder_ok (use_buffer n sb)"
proof -
  obtain s b s' b' where p: "sb = (s, b)" "use_buffer n (s, b) = (s', b')" by (cases sb; cases "use_buffer n sb") auto
  from assms obtain F R L where "binv (s, b) F R L" unfolding p by (elim exE)
  from use_buffer_binv [OF this p(2)] show ?thesis unfolding p by (elim exE conjE) (intro exI)
qed

lemma finish_ok:
  assumes "builder_ok sb"
  shows "\<exists>sb'. finish_current_buffer sb = Some sb'"
proof -
  obtain s b where p: "sb = (s, b)" by (cases sb)
  from assms obtain F R L where "binv (s, b) F R L" unfolding p by (elim exE)
  from finish_current_buffer_binv [OF this] show ?thesis unfolding p by (elim exE conjE) (rule exI)
qed

lemma fill_buffers_follows:
  assumes "\<bar>samples_per_tick_shuffle t ! MIDI_D\<bar> < samples_per_tick t ! MIDI_D" "0 \<le> next_tick_at t ! MIDI_D" "builder_ok sb"
  shows "\<exists>r. fill_buffers mem scalo this t n st sb = Some r \<and>
    (\<forall>pos tick st' sb'. r = Inr (pos, tick, st', sb') \<longrightarrow> int n \<le> buffer_p_last_skip (snd sb') \<longrightarrow>
      (\<exists>t2. tick_loop True (samples_per_tick t ! MIDI_D) (samples_per_tick_shuffle t ! MIDI_D) (int n) (next_tick_at t ! MIDI_D, t, is_even_line t) =
           Some (buffer_p_last_skip (snd sb'), t2, is_even_line t2) \<and> next_sequence_position t2 = pos \<and> current_tick t2 = tick))"
proof -
  obtain s b where u: "use_buffer n sb = (s, b)" by (cases "use_buffer n sb")
  have b: "buffer_size b = int n" "buffer_p_last_skip b = 0" using use_buffer_frame [of n sb] u by simp_all
  have ok: "builder_ok (s, b)" using use_buffer_ok [OF assms(3), of n] unfolding u .
  have "same_settings t t" by (simp add: same_settings_def)
  from fill_loop_follows [OF assms(1,2) ok this] obtain r where
    r: "fill_loop (fill_step mem scalo this t (if is_playing t then sq_mute (sequencers st this) else True)) (skip_after t) (next_tick_at t ! MIDI_D)
      (next_sequence_position t, current_tick t, st, (s, b)) = Some r"
    and fo: "\<And>x. r = Inr x \<Longrightarrow> follows t (int n) (next_tick_at t ! MIDI_D) t x"
    unfolding b by force
  show ?thesis
  proof (cases r)
    case (Inl e)
    then show ?thesis using r u by (simp add: fill_buffers_def)
  next
    case (Inr x)
    obtain pos tick st1 sb1 where x: "x = (pos, tick, st1, sb1)" by (cases x)
    note f = fo [OF Inr, unfolded x follows_def, simplified]
    obtain sb2 where sb2: "finish_current_buffer sb1 = Some sb2" using finish_ok f by blast
    have "fill_buffers mem scalo this t n st sb = Some (Inr (pos, tick, st1, sb2))"
      using r u Inr x sb2 by (simp add: fill_buffers_def)
    then show ?thesis using f finish_frame [OF sb2] by auto
  qed
qed

section \<open>Properties\<close>



end
